(* ===== verification/Prelude.thy ===== *)
theory Prelude
  imports Main "HOL-Library.Word" "HOL-Library.Multiset"
begin

text \<open>
  Shared vocabulary of the development: machine bytes, C arrays as lists, the error values that
  \<open>elog(ERROR, ...)\<close> and \<open>ereport(ERROR, ...)\<close> become, the comparator convention of C
  (a function returning a negative, zero or positive \<open>int\<close>), and the lemma collections that
  the component theories extend:
  \<^item> \<open>arr_simps\<close>: reading and writing list-as-array cells;
  \<^item> \<open>cmp_laws\<close>: consequences of a comparator being a total preorder.
\<close>

named_theorems arr_simps
named_theorems cmp_laws

section \<open>Bytes and text values\<close>

text \<open>
  A \<open>char\<close> is 8 bits; \<open>char\<close> is signed on the platforms the course builds on (x86), which
  matters where the code compares \<open>char\<close>s with \<open><\<close>.  A \<open>text\<close> value is the byte array
  \<open>VARDATA\<close> of length \<open>VARSIZE - VARHDRSZ\<close>.
\<close>

type_synonym byte = "8 word"
type_synonym bytes = "byte list"

section \<open>Errors\<close>

text \<open>
  One constructor per error the modelled code raises.  A function that may raise is of type
  \<open>pg_error + 'a\<close>: \<open>Inl\<close> is the error (the transaction is aborted by \<open>longjmp\<close>, nothing
  after it runs), \<open>Inr\<close> the value.
\<close>

datatype pg_error =
    NegativeBitmapsetMember
  | BitmapsetIsEmpty
  | BitmapsetHasMultipleMembers
  | WrongLimit
  | UnrecognizedStrategy nat
  | UnexpectedNumberOfArguments
  | InvalidEscapeSequence
  | InvalidEscapeString
  | IndexNotFinalized
  | SimJoinNotImplemented
  | IndexOutOfBounds
  | NullPointer
  | BadFormatArgument
  | UnrecognizedJoinType
  | NegativeOffset
  | NegativeLimit
  | SubplanFailedBackwards
  | UnrecognizedNodeType
  | UpperLevelVar
  | UninitializedRead
  | NoUnpinnedBuffers
  | InvalidFSMRequest
  | NotImplemented
  | IntegerOutOfRange
  | DivisionByZero
  | OutOfRangeInput
  | InvalidHexDigit
  | InvalidHexOddDigits
  | InvalidBase64
  | InvalidByteaInput
  | InvalidEncoding

section \<open>Arrays as lists\<close>

definition arr_swap :: "'a list \<Rightarrow> nat \<Rightarrow> nat \<Rightarrow> 'a list" where
  "arr_swap xs i j = xs[i := xs ! j, j := xs ! i]"

lemma length_arr_swap [simp]: "length (arr_swap xs i j) = length xs"
  by (simp add: arr_swap_def)

lemma nth_arr_swap [arr_simps]:
  "i < length xs \<Longrightarrow> j < length xs \<Longrightarrow> k < length xs \<Longrightarrow>
   arr_swap xs i j ! k = (if k = j then xs ! i else if k = i then xs ! j else xs ! k)"
  by (auto simp: arr_swap_def nth_list_update)

lemma mset_arr_swap [simp]:
  "i < length xs \<Longrightarrow> j < length xs \<Longrightarrow> mset (arr_swap xs i j) = mset xs"
  by (simp add: arr_swap_def mset_swap)

lemma in_set_take_nth: "x \<in> set (take k xs) \<Longrightarrow> \<exists>i. i < k \<and> i < length xs \<and> x = xs ! i"
  by (auto simp: in_set_conv_nth)

lemma in_set_drop_nth: "x \<in> set (drop k xs) \<Longrightarrow> \<exists>i. k \<le> i \<and> i < length xs \<and> x = xs ! i"
proof -
  assume "x \<in> set (drop k xs)"
  then obtain i where "i < length xs - k" "x = xs ! (k + i)" by (auto simp: in_set_conv_nth)
  then show ?thesis by (intro exI [of _ "k + i"]) auto
qed

lemma in_set_take_drop_nth:
  "x \<in> set (take k (drop l xs)) \<Longrightarrow> \<exists>i. l \<le> i \<and> i < l + k \<and> i < length xs \<and> x = xs ! i"
proof -
  assume "x \<in> set (take k (drop l xs))"
  then obtain i where "i < k" "i < length xs - l" "x = xs ! (l + i)" by (auto dest!: in_set_take_nth)
  then show ?thesis by (intro exI [of _ "l + i"]) auto
qed

lemma sorted_wrt_append_block:
  assumes "sorted_wrt R xs" "sorted_wrt R ys" "\<And>x y. x \<in> set xs \<Longrightarrow> y \<in> set ys \<Longrightarrow> R x y"
  shows "sorted_wrt R (xs @ ys)"
  using assms by (simp add: sorted_wrt_append)

lemma sorted_wrt_adjacent:
  assumes tr: "\<And>x y z. R x y \<Longrightarrow> R y z \<Longrightarrow> R x z"
    and adj: "\<And>i. Suc i < length xs \<Longrightarrow> R (xs ! i) (xs ! Suc i)"
  shows "sorted_wrt R xs"
proof -
  have "transp R" using tr by (blast intro: transpI)
  then show ?thesis using adj by (simp add: sorted_wrt_iff_nth_Suc_transp)
qed

section \<open>Comparators\<close>

text \<open>
  The contract a comparison callback has to meet: it is a total preorder whose sign is
  antisymmetric.  Nothing says that \<open>cmp a b = 0\<close> makes \<open>a\<close> and \<open>b\<close> the same object.
\<close>

definition cmp_ok :: "('a \<Rightarrow> 'a \<Rightarrow> int) \<Rightarrow> bool" where
  "cmp_ok cmp \<longleftrightarrow> (\<forall>a b. cmp a b < 0 \<longleftrightarrow> 0 < cmp b a)
                \<and> (\<forall>a b c. cmp a b \<le> 0 \<longrightarrow> cmp b c \<le> 0 \<longrightarrow> cmp a c \<le> 0)"

abbreviation cmp_le :: "('a \<Rightarrow> 'a \<Rightarrow> int) \<Rightarrow> 'a \<Rightarrow> 'a \<Rightarrow> bool" where
  "cmp_le cmp a b \<equiv> cmp a b \<le> 0"

lemma cmp_okI:
  assumes "\<And>a b. cmp a b < 0 \<longleftrightarrow> 0 < cmp b a"
    and "\<And>a b c. cmp a b \<le> 0 \<Longrightarrow> cmp b c \<le> 0 \<Longrightarrow> cmp a c \<le> 0"
  shows "cmp_ok cmp"
  using assms unfolding cmp_ok_def by blast

lemma cmp_ok_flip [cmp_laws]: "cmp_ok cmp \<Longrightarrow> cmp a b < 0 \<longleftrightarrow> 0 < cmp b a"
  by (simp add: cmp_ok_def)

lemma cmp_ok_le_flip [cmp_laws]: "cmp_ok cmp \<Longrightarrow> cmp a b \<le> 0 \<longleftrightarrow> 0 \<le> cmp b a"
  using cmp_ok_flip [of cmp b a] by linarith

lemma cmp_ok_zero_sym: "cmp_ok cmp \<Longrightarrow> cmp a b = 0 \<Longrightarrow> cmp b a = 0"
  using cmp_ok_flip [of cmp a b] cmp_ok_flip [of cmp b a] by linarith

lemma cmp_ok_refl [cmp_laws]: "cmp_ok cmp \<Longrightarrow> cmp a a = 0"
  using cmp_ok_flip [of cmp a a] by linarith

lemma cmp_ok_trans: "cmp_ok cmp \<Longrightarrow> cmp a b \<le> 0 \<Longrightarrow> cmp b c \<le> 0 \<Longrightarrow> cmp a c \<le> 0"
  unfolding cmp_ok_def by blast

lemma cmp_ok_total: "cmp_ok cmp \<Longrightarrow> cmp a b \<le> 0 \<or> cmp b a \<le> 0"
  using cmp_ok_flip [of cmp a b] by linarith


lemma cmp_sorted_unique:
  assumes "cmp_ok cmp" "\<And>a b. a \<in> set xs \<Longrightarrow> b \<in> set xs \<Longrightarrow> cmp a b = 0 \<Longrightarrow> a = b"
    and "mset xs = mset ys" "sorted_wrt (cmp_le cmp) xs" "sorted_wrt (cmp_le cmp) ys"
  shows "xs = ys"
  using assms(2-)
proof (induction xs arbitrary: ys)
  case Nil
  then show ?case by simp
next
  case (Cons x xs)
  obtain y zs where y: "ys = y # zs" using Cons.prems(2) by (cases ys) auto
  have sets: "set (x # xs) = set ys" using Cons.prems(2) by (rule mset_eq_setD)
  then have mem: "x = y \<or> x \<in> set zs" "y = x \<or> y \<in> set xs" using y by auto
  have "cmp x y \<le> 0" "cmp y x \<le> 0"
    using mem Cons.prems(3,4) y by (auto simp: cmp_ok_refl [OF assms(1)])
  then have "cmp x y = 0" using cmp_ok_le_flip [OF assms(1), of y x] by linarith
  moreover have "x \<in> set (x # xs)" "y \<in> set (x # xs)" using sets y by auto
  ultimately have "x = y" using Cons.prems(1) by blast
  moreover have "xs = zs"
    using Cons.prems \<open>x = y\<close> y by (intro Cons.IH) auto
  ultimately show ?case using y by simp
qed

lemma find_SomeD: "find P xs = Some x \<Longrightarrow> P x \<and> x \<in> set xs"
  by (auto simp: find_Some_iff in_set_conv_nth)

end
