(* ===== verification/PgQsort.thy ===== *)
theory PgQsort
  imports Prelude
begin

text \<open>
  \<open>pg_qsort\<close> (src/port/qsort.c), the sort the backend uses for every in-memory array
  (\<open>#define qsort pg_qsort\<close> in port.h): Bentley and McIlroy's quicksort with a check for sorted
  input.  An array of \<open>n\<close> elements of \<open>es\<close> bytes is a list of \<open>n\<close> elements, a pointer into it is an
  element index; \<open>swap\<close>/\<open>swapcode\<close> exchange two elements, whatever their width.  Byte offsets
  \<open>n * es\<close> are assumed to fit the code's \<open>int\<close> (allocations are below 1GB).  The subarray of a
  recursive call is the sublist it occupies.

  The theory proves that the sort returns an ordered permutation for every comparator that is a
  total preorder, states that contract as the locale \<open>sorter\<close> for the clients, and interprets it.
\<close>

section \<open>The code\<close>

text \<open>\<open>vecswap(a, b, n)\<close>: exchange \<open>n\<close> consecutive elements, one after the other.\<close>

fun vecswap :: "'a list \<Rightarrow> nat \<Rightarrow> nat \<Rightarrow> nat \<Rightarrow> 'a list" where
  "vecswap xs i j 0 = xs"
| "vecswap xs i j (Suc n) = vecswap (arr_swap xs i j) (Suc i) (Suc j) n"

definition med3 :: "('a \<Rightarrow> 'a \<Rightarrow> int) \<Rightarrow> 'a list \<Rightarrow> nat \<Rightarrow> nat \<Rightarrow> nat \<Rightarrow> nat" where
  "med3 cmp xs a b c =
     (if cmp (xs ! a) (xs ! b) < 0
      then (if cmp (xs ! b) (xs ! c) < 0 then b else if cmp (xs ! a) (xs ! c) < 0 then c else a)
      else (if cmp (xs ! b) (xs ! c) > 0 then b else if cmp (xs ! a) (xs ! c) < 0 then a else c))"

text \<open>The small-array case: insertion sort by adjacent exchanges.\<close>

fun sift_down :: "('a \<Rightarrow> 'a \<Rightarrow> int) \<Rightarrow> 'a list \<Rightarrow> nat \<Rightarrow> 'a list" where
  "sift_down cmp xs 0 = xs"
| "sift_down cmp xs (Suc pl) =
     (if cmp (xs ! pl) (xs ! Suc pl) > 0 then sift_down cmp (arr_swap xs (Suc pl) pl) pl else xs)"

fun isort_from :: "('a \<Rightarrow> 'a \<Rightarrow> int) \<Rightarrow> 'a list \<Rightarrow> nat \<Rightarrow> nat \<Rightarrow> 'a list" where
  "isort_from cmp xs pm 0 = xs"
| "isort_from cmp xs pm (Suc k) = isort_from cmp (sift_down cmp xs pm) (Suc pm) k"

text \<open>The scan for sorted input: the first inversion stops it.\<close>

fun presorted_from :: "('a \<Rightarrow> 'a \<Rightarrow> int) \<Rightarrow> 'a list \<Rightarrow> nat \<Rightarrow> nat \<Rightarrow> bool" where
  "presorted_from cmp xs pm 0 = True"
| "presorted_from cmp xs pm (Suc k) =
     (if cmp (xs ! (pm - 1)) (xs ! pm) > 0 then False else presorted_from cmp xs (Suc pm) k)"

definition choose_pivot :: "('a \<Rightarrow> 'a \<Rightarrow> int) \<Rightarrow> 'a list \<Rightarrow> nat" where
  "choose_pivot cmp xs =
     (let n = length xs; pm = n div 2
      in if n > 7
         then (if n > 40
               then (let d = n div 8;
                         pl = med3 cmp xs 0 d (2 * d);
                         pm = med3 cmp xs (pm - d) pm (pm + d);
                         pn = med3 cmp xs (n - 1 - 2 * d) (n - 1 - d) (n - 1)
                     in med3 cmp xs pl pm pn)
               else med3 cmp xs 0 pm (n - 1))
         else pm)"

text \<open>
  The two inner loops of the partition.  The pivot is element 0 and is never moved by them.
  \<open>scan_up\<close> returns the array with the new \<open>pa\<close> and \<open>pb\<close>, \<open>scan_down\<close> with the new \<open>pc\<close> and \<open>pd\<close>.
\<close>

function scan_up :: "('a \<Rightarrow> 'a \<Rightarrow> int) \<Rightarrow> 'a list \<Rightarrow> nat \<Rightarrow> nat \<Rightarrow> nat \<Rightarrow> 'a list \<times> nat \<times> nat" where
  "scan_up cmp xs pa pb pc =
     (if pb \<le> pc \<and> cmp (xs ! pb) (xs ! 0) \<le> 0
      then (if cmp (xs ! pb) (xs ! 0) = 0
            then scan_up cmp (arr_swap xs pa pb) (Suc pa) (Suc pb) pc
            else scan_up cmp xs pa (Suc pb) pc)
      else (xs, pa, pb))"
  by pat_completeness auto
termination by (relation "measure (\<lambda>(cmp, xs, pa, pb, pc). Suc pc - pb)") auto

text \<open>\<open>pc\<close> stays at least \<open>pb - 1\<close>, and \<open>pb\<close> is at least 1, so the pointer never leaves the array.\<close>

fun scan_down :: "('a \<Rightarrow> 'a \<Rightarrow> int) \<Rightarrow> 'a list \<Rightarrow> nat \<Rightarrow> nat \<Rightarrow> nat \<Rightarrow> 'a list \<times> nat \<times> nat" where
  "scan_down cmp xs pb 0 pd = (xs, 0, pd)"
| "scan_down cmp xs pb (Suc pc) pd =
     (if pb \<le> Suc pc \<and> cmp (xs ! Suc pc) (xs ! 0) \<ge> 0
      then (if cmp (xs ! Suc pc) (xs ! 0) = 0
            then scan_down cmp (arr_swap xs (Suc pc) pd) pb pc (pd - 1)
            else scan_down cmp xs pb pc pd)
      else (xs, Suc pc, pd))"

declare scan_up.simps [simp del]

lemma scan_up_range:
  "scan_up cmp xs pa pb pc = (xs', pa', pb') \<Longrightarrow> pb \<le> pb' \<and> pb' \<le> max pb (Suc pc)"
proof (induction cmp xs pa pb pc rule: scan_up.induct)
  case (1 cmp xs pa pb pc)
  show ?case
  proof (cases "pb \<le> pc \<and> cmp (xs ! pb) (xs ! 0) \<le> 0")
    case True
    then show ?thesis
      using 1 by (cases "cmp (xs ! pb) (xs ! 0) = 0") (fastforce simp: scan_up.simps [of cmp xs pa pb pc])+
  next
    case False
    then show ?thesis using 1(3) by (auto simp: scan_up.simps [of cmp xs pa pb pc])
  qed
qed

lemma scan_down_range: "scan_down cmp xs pb pc pd = (xs', pc', pd') \<Longrightarrow> pc' \<le> pc"
  by (induction cmp xs pb pc pd rule: scan_down.induct) (fastforce split: if_splits)+

text \<open>The outer \<open>for (;;)\<close> loop.  The result is the array and the four final pointers.\<close>

function partition_loop ::
    "('a \<Rightarrow> 'a \<Rightarrow> int) \<Rightarrow> 'a list \<Rightarrow> nat \<Rightarrow> nat \<Rightarrow> nat \<Rightarrow> nat \<Rightarrow> 'a list \<times> nat \<times> nat \<times> nat \<times> nat" where
  "partition_loop cmp xs pa pb pc pd =
     (case scan_up cmp xs pa pb pc of (xs1, pa1, pb1) \<Rightarrow>
      case scan_down cmp xs1 pb1 pc pd of (xs2, pc2, pd2) \<Rightarrow>
        if pb1 > pc2 then (xs2, pa1, pb1, pc2, pd2)
        else partition_loop cmp (arr_swap xs2 pb1 pc2) pa1 (Suc pb1) (pc2 - 1) pd2)"
  by pat_completeness auto
termination
proof (relation "measure (\<lambda>(cmp, xs, pa, pb, pc, pd). Suc pc - pb)", goal_cases)
  case (2 cmp xs pa pb pc pd s1 y t1 pa1 s2 yb t2 pc2)
  then show ?case
    using scan_up_range [of cmp xs pa pb pc s1 t1 pa1] scan_down_range [of cmp s1 pa1 pc pd s2 t2 pc2]
    by auto
qed simp

declare partition_loop.simps [simp del]


section \<open>The partition invariant\<close>

text \<open>
  During the partition the array is \<open>[= | < | ? | > | =]\<close> relative to the pivot \<open>xs ! 0\<close>, with the
  borders \<open>pa\<close>, \<open>pb\<close>, \<open>pc\<close>, \<open>pd\<close>.
\<close>

definition part_inv :: "('a \<Rightarrow> 'a \<Rightarrow> int) \<Rightarrow> 'a multiset \<Rightarrow> 'a list \<Rightarrow> nat \<Rightarrow> nat \<Rightarrow> nat \<Rightarrow> nat \<Rightarrow> bool" where
  "part_inv cmp M xs pa pb pc pd \<longleftrightarrow>
     mset xs = M \<and> 1 \<le> pa \<and> pa \<le> pb \<and> pb \<le> Suc pc \<and> pc \<le> pd \<and> pd < length xs \<and>
     (\<forall>i < pa. cmp (xs ! i) (xs ! 0) = 0) \<and>
     (\<forall>i. pa \<le> i \<and> i < pb \<longrightarrow> cmp (xs ! i) (xs ! 0) < 0) \<and>
     (\<forall>i. pc < i \<and> i \<le> pd \<longrightarrow> cmp (xs ! i) (xs ! 0) > 0) \<and>
     (\<forall>i. pd < i \<and> i < length xs \<longrightarrow> cmp (xs ! i) (xs ! 0) = 0)"

lemma arr_swap_head: "0 < i \<Longrightarrow> 0 < j \<Longrightarrow> arr_swap xs i j ! 0 = xs ! 0"
  by (simp add: arr_swap_def)

lemma part_inv_init:
  "cmp_ok cmp \<Longrightarrow> 2 \<le> length xs \<Longrightarrow>
   part_inv cmp (mset xs) xs 1 1 (length xs - 1) (length xs - 1)"
  by (auto simp: part_inv_def cmp_laws)

lemma part_inv_up_eq:
  assumes "part_inv cmp M xs pa pb pc pd" "pb \<le> pc" "cmp (xs ! pb) (xs ! 0) = 0"
  shows "part_inv cmp M (arr_swap xs pa pb) (Suc pa) (Suc pb) pc pd"
proof -
  have b: "1 \<le> pa" "pa \<le> pb" "pb < length xs" using assms by (auto simp: part_inv_def)
  then have v: "arr_swap xs pa pb ! 0 = xs ! 0" by (intro arr_swap_head) auto
  show ?thesis
    using assms b unfolding part_inv_def v
    by (intro conjI allI impI) (auto simp: nth_arr_swap less_Suc_eq)
qed

lemma part_inv_up_less:
  assumes "part_inv cmp M xs pa pb pc pd" "pb \<le> pc" "cmp (xs ! pb) (xs ! 0) < 0"
  shows "part_inv cmp M xs pa (Suc pb) pc pd"
  using assms by (auto simp: part_inv_def less_Suc_eq)

lemma part_inv_down_eq:
  assumes "part_inv cmp M xs pa pb (Suc pc) pd" "pb \<le> Suc pc" "cmp (xs ! Suc pc) (xs ! 0) = 0"
  shows "part_inv cmp M (arr_swap xs (Suc pc) pd) pa pb pc (pd - 1)"
proof -
  have b: "1 \<le> pb" "Suc pc \<le> pd" "pd < length xs" "1 \<le> pa" "pa \<le> pb" using assms by (auto simp: part_inv_def)
  then have v: "arr_swap xs (Suc pc) pd ! 0 = xs ! 0" by (intro arr_swap_head) auto
  show ?thesis
    using assms b unfolding part_inv_def v
    by (intro conjI allI impI) (auto simp: nth_arr_swap)
qed

lemma part_inv_down_greater:
  assumes "part_inv cmp M xs pa pb (Suc pc) pd" "pb \<le> Suc pc" "cmp (xs ! Suc pc) (xs ! 0) > 0"
  shows "part_inv cmp M xs pa pb pc pd"
  using assms by (auto simp: part_inv_def) (metis Suc_lessI)

lemma part_inv_exchange:
  assumes "part_inv cmp M xs pa pb pc pd" "pb < pc"
    "cmp (xs ! pb) (xs ! 0) > 0" "cmp (xs ! pc) (xs ! 0) < 0"
  shows "part_inv cmp M (arr_swap xs pb pc) pa (Suc pb) (pc - 1) pd"
proof -
  have b: "1 \<le> pb" "pc \<le> pd" "pd < length xs" "1 \<le> pa" "pa \<le> pb" using assms by (auto simp: part_inv_def)
  then have v: "arr_swap xs pb pc ! 0 = xs ! 0" using assms(2) by (intro arr_swap_head) auto
  show ?thesis
    using assms b unfolding part_inv_def v
    by (intro conjI allI impI) (auto simp: nth_arr_swap less_Suc_eq)
qed

lemma scan_up_inv:
  assumes "scan_up cmp xs pa pb pc = (xs', pa', pb')" "part_inv cmp M xs pa pb pc pd"
  shows "part_inv cmp M xs' pa' pb' pc pd \<and> (pb' \<le> pc \<longrightarrow> cmp (xs' ! pb') (xs' ! 0) > 0)"
  using assms
proof (induction cmp xs pa pb pc rule: scan_up.induct)
  case (1 cmp xs pa pb pc)
  consider "pb \<le> pc" "cmp (xs ! pb) (xs ! 0) = 0" | "pb \<le> pc" "cmp (xs ! pb) (xs ! 0) < 0"
    | "\<not> (pb \<le> pc \<and> cmp (xs ! pb) (xs ! 0) \<le> 0)" by linarith
  then show ?case
  proof cases
    case 1
    with "1.prems" show ?thesis
      by (intro "1.IH"(1)) (auto simp: scan_up.simps [of cmp xs pa pb pc] part_inv_up_eq)
  next
    case 2
    with "1.prems" show ?thesis
      by (intro "1.IH"(2)) (auto simp: scan_up.simps [of cmp xs pa pb pc] part_inv_up_less)
  next
    case 3
    with "1.prems" show ?thesis by (auto simp: scan_up.simps [of cmp xs pa pb pc])
  qed
qed

lemma scan_down_inv:
  assumes "scan_down cmp xs pb pc pd = (xs', pc', pd')" "part_inv cmp M xs pa pb pc pd"
  shows "part_inv cmp M xs' pa pb pc' pd' \<and> (pb \<le> pc' \<longrightarrow> cmp (xs' ! pc') (xs' ! 0) < 0)
         \<and> (\<forall>i < Suc pc'. xs' ! i = xs ! i)"
  using assms
proof (induction cmp xs pb pc pd rule: scan_down.induct)
  case (1 cmp xs pb pd)
  then show ?case by (auto simp: part_inv_def)
next
  case (2 cmp xs pb pc pd)
  have len: "Suc pc < length xs" "pd < length xs" "Suc pc \<le> pd" "1 \<le> pb"
    using "2.prems"(2) by (auto simp: part_inv_def)
  consider "pb \<le> Suc pc" "cmp (xs ! Suc pc) (xs ! 0) = 0" | "pb \<le> Suc pc" "cmp (xs ! Suc pc) (xs ! 0) > 0"
    | "\<not> (pb \<le> Suc pc \<and> cmp (xs ! Suc pc) (xs ! 0) \<ge> 0)" by linarith
  then show ?case
  proof cases
    case 1
    with "2.prems" have step: "scan_down cmp (arr_swap xs (Suc pc) pd) pb pc (pd - 1) = (xs', pc', pd')"
      by simp
    have "part_inv cmp M (arr_swap xs (Suc pc) pd) pa pb pc (pd - 1)"
      using "2.prems"(2) 1 by (rule part_inv_down_eq)
    from "2.IH"(1) [OF _ _ step this] 1 show ?thesis
      using scan_down_range [OF step] len by (auto simp: nth_arr_swap)
  next
    case 2
    then show ?thesis
      using "2.prems" "2.IH"(2) by (auto simp: part_inv_down_greater)
  next
    case 3
    then show ?thesis using "2.prems" by auto
  qed
qed

lemma partition_loop_inv:
  assumes "partition_loop cmp xs pa pb pc pd = (xs', pa', pb', pc', pd')" "part_inv cmp M xs pa pb pc pd"
  shows "part_inv cmp M xs' pa' pb' pc' pd' \<and> pb' = Suc pc'"
  using assms
proof (induction cmp xs pa pb pc pd rule: partition_loop.induct)
  case (1 cmp xs pa pb pc pd)
  obtain xs1 pa1 pb1 where u: "scan_up cmp xs pa pb pc = (xs1, pa1, pb1)" by (metis prod_cases3)
  obtain xs2 pc2 pd2 where d: "scan_down cmp xs1 pb1 pc pd = (xs2, pc2, pd2)" by (metis prod_cases3)
  from scan_up_inv [OF u "1.prems"(2)]
  have i1: "part_inv cmp M xs1 pa1 pb1 pc pd" and up: "pb1 \<le> pc \<longrightarrow> cmp (xs1 ! pb1) (xs1 ! 0) > 0" by auto
  from scan_down_inv [OF d i1]
  have i2: "part_inv cmp M xs2 pa1 pb1 pc2 pd2" and down: "pb1 \<le> pc2 \<longrightarrow> cmp (xs2 ! pc2) (xs2 ! 0) < 0"
    and same: "\<forall>i < Suc pc2. xs2 ! i = xs1 ! i" by auto
  show ?case
  proof (cases "pb1 > pc2")
    case True
    then show ?thesis
      using "1.prems"(1) i2 by (auto simp: partition_loop.simps [of cmp xs pa pb pc pd] u d part_inv_def)
  next
    case False
    then have "cmp (xs2 ! pb1) (xs2 ! 0) > 0" "cmp (xs2 ! pc2) (xs2 ! 0) < 0"
      using up down same scan_down_range [OF d] by auto
    moreover have "pb1 \<noteq> pc2" using calculation by auto
    ultimately have "part_inv cmp M (arr_swap xs2 pb1 pc2) pa1 (Suc pb1) (pc2 - 1) pd2"
      using i2 False by (intro part_inv_exchange) auto
    moreover have "partition_loop cmp (arr_swap xs2 pb1 pc2) pa1 (Suc pb1) (pc2 - 1) pd2 = (xs', pa', pb', pc', pd')"
      using "1.prems"(1) False by (simp add: partition_loop.simps [of cmp xs pa pb pc pd] u d)
    ultimately show ?thesis
      using "1.IH" [OF u [symmetric] refl d [symmetric] refl] False by blast
  qed
qed


section \<open>Moving the equal elements to the middle\<close>

lemma length_vecswap [simp]: "length (vecswap xs i j n) = length xs"
  by (induction xs i j n rule: vecswap.induct) auto

lemma mset_vecswap [simp]: "i + n \<le> length xs \<Longrightarrow> j + n \<le> length xs \<Longrightarrow> mset (vecswap xs i j n) = mset xs"
  by (induction xs i j n rule: vecswap.induct) auto

lemma nth_vecswap [arr_simps]:
  "i + n \<le> j \<Longrightarrow> j + n \<le> length xs \<Longrightarrow> k < length xs \<Longrightarrow>
   vecswap xs i j n ! k = (if i \<le> k \<and> k < i + n then xs ! (j + (k - i))
                           else if j \<le> k \<and> k < j + n then xs ! (i + (k - j)) else xs ! k)"
proof (induction xs i j n rule: vecswap.induct)
  case (1 xs i j)
  then show ?case by auto
next
  case (2 xs i j n)
  have "vecswap (arr_swap xs i j) (Suc i) (Suc j) n ! k =
     (if Suc i \<le> k \<and> k < Suc i + n then arr_swap xs i j ! (Suc j + (k - Suc i))
      else if Suc j \<le> k \<and> k < Suc j + n then arr_swap xs i j ! (Suc i + (k - Suc j)) else arr_swap xs i j ! k)"
    using 2 by (intro "2.IH") auto
  then show ?case
    using "2.prems" by (cases "k = i"; cases "k = j") (auto simp: nth_arr_swap Suc_diff_Suc)
qed

text \<open>
  One partition step as the code performs it: exchange the chosen pivot into slot 0, run the loop,
  and move the two blocks of equal elements next to each other.  The result carries the lengths of
  the two blocks still to be sorted.
\<close>

definition partition_step :: "('a \<Rightarrow> 'a \<Rightarrow> int) \<Rightarrow> 'a list \<Rightarrow> 'a list \<times> nat \<times> nat" where
  "partition_step cmp xs =
     (let n = length xs;
          xs1 = arr_swap xs 0 (choose_pivot cmp xs)
      in case partition_loop cmp xs1 1 1 (n - 1) (n - 1) of (xs2, pa, pb, pc, pd) \<Rightarrow>
           let r1 = min pa (pb - pa);
               xs3 = vecswap xs2 0 (pb - r1) r1;
               r2 = min (pd - pc) (n - pd - 1);
               xs4 = vecswap xs3 pb (n - r2) r2
           in (xs4, pb - pa, pd - pc))"

lemma med3_range: "med3 cmp xs a b c \<in> {a, b, c}"
  by (simp add: med3_def)

lemma choose_pivot_bound:
  assumes "7 \<le> length xs"
  shows "choose_pivot cmp xs < length xs"
proof -
  let ?n = "length xs" let ?d = "length xs div 8"
  have in3: "med3 cmp xs a b c < m" if "a < m" "b < m" "c < m" for a b c m
    using med3_range [of cmp xs a b c] that by auto
  have "med3 cmp xs (med3 cmp xs 0 ?d (2 * ?d)) (med3 cmp xs (?n div 2 - ?d) (?n div 2) (?n div 2 + ?d))
         (med3 cmp xs (?n - 1 - 2 * ?d) (?n - 1 - ?d) (?n - 1)) < ?n"
    using assms by (intro in3) linarith+
  moreover have "med3 cmp xs 0 (?n div 2) (?n - 1) < ?n" using assms by (intro in3) linarith+
  ultimately show ?thesis using assms by (simp add: choose_pivot_def Let_def)
qed

text \<open>What one step achieves: a strictly smaller block, a block of equals, a strictly greater block.\<close>

definition split_by :: "('a \<Rightarrow> 'a \<Rightarrow> int) \<Rightarrow> 'a \<Rightarrow> 'a list \<Rightarrow> nat \<Rightarrow> nat \<Rightarrow> bool" where
  "split_by cmp v ys l g \<longleftrightarrow> l + g < length ys \<and>
     (\<forall>i < l. cmp (ys ! i) v < 0) \<and>
     (\<forall>i. l \<le> i \<and> i < length ys - g \<longrightarrow> cmp (ys ! i) v = 0) \<and>
     (\<forall>i. length ys - g \<le> i \<and> i < length ys \<longrightarrow> cmp (ys ! i) v > 0)"

lemma part_inv_split:
  assumes inv: "part_inv cmp M xs pa pb pc pd" and pb: "pb = Suc pc"
  defines "r1 \<equiv> min pa (pb - pa)" and "r2 \<equiv> min (pd - pc) (length xs - pd - 1)"
  defines "ys \<equiv> vecswap (vecswap xs 0 (pb - r1) r1) pb (length xs - r2) r2"
  shows "split_by cmp (xs ! 0) ys (pb - pa) (pd - pc) \<and> mset ys = M \<and> length ys = length xs"
proof -
  let ?n = "length xs" let ?v = "xs ! 0"
  have b: "1 \<le> pa" "pa \<le> pb" "pc \<le> pd" "pd < ?n" and M: "mset xs = M"
    and eq1: "\<And>i. i < pa \<Longrightarrow> cmp (xs ! i) ?v = 0" and ls: "\<And>i. pa \<le> i \<Longrightarrow> i < pb \<Longrightarrow> cmp (xs ! i) ?v < 0"
    and gt: "\<And>i. pc < i \<Longrightarrow> i \<le> pd \<Longrightarrow> cmp (xs ! i) ?v > 0" and eq2: "\<And>i. pd < i \<Longrightarrow> i < ?n \<Longrightarrow> cmp (xs ! i) ?v = 0"
    using inv by (auto simp: part_inv_def)
  have r: "r1 \<le> pa" "r1 \<le> pb - pa" "r1 = pa \<or> r1 = pb - pa"
    "r2 \<le> pd - pc" "r2 \<le> ?n - pd - 1" "r2 = pd - pc \<or> r2 = ?n - pd - 1"
    by (simp_all add: r1_def r2_def min_def)
  have ranges: "0 + r1 \<le> pb - r1" "pb - r1 + r1 \<le> ?n" "pb + r2 \<le> ?n - r2" "?n - r2 + r2 \<le> ?n"
    using r b pb by linarith+
  have pbr: "pb - r1 + r1 = pb" and nr: "?n - r2 + r2 = ?n" using r b by linarith+
  let ?zs = "vecswap xs 0 (pb - r1) r1"
  have z: "?zs ! k = (if k < r1 then xs ! (pb - r1 + k)
      else if pb - r1 \<le> k \<and> k < pb then xs ! (k - (pb - r1)) else xs ! k)" if "k < ?n" for k
    using nth_vecswap [OF ranges(1,2) that] pbr by simp
  have y: "ys ! k = (if pb \<le> k \<and> k < pb + r2 then ?zs ! (?n - r2 + (k - pb))
      else if ?n - r2 \<le> k then ?zs ! (pb + (k - (?n - r2))) else ?zs ! k)" if "k < ?n" for k
    using nth_vecswap [of pb r2 "?n - r2" ?zs k] ranges that nr by (simp add: ys_def)
  have len: "length ys = ?n" by (simp add: ys_def)
  have ms: "mset ys = M" using ranges M by (simp add: ys_def)
  have low: "ys ! k = ?zs ! k" if "k < pb" for k using y [of k] that ranges b pb by auto
  have high: "?zs ! k = xs ! k" if "pb \<le> k" "k < ?n" for k using z [of k] that ranges r by auto
  have "split_by cmp ?v ys (pb - pa) (pd - pc)"
    unfolding split_by_def len
  proof (intro conjI allI impI)
    show "pb - pa + (pd - pc) < ?n" using b pb by linarith
  next
    fix i assume i: "i < pb - pa"
    then have "ys ! i = (if i < r1 then xs ! (pb - r1 + i) else xs ! i)"
      using low [of i] z [of i] b r ranges pb by auto
    then show "cmp (ys ! i) ?v < 0" using i r b by (auto intro!: ls)
  next
    fix i assume i: "pb - pa \<le> i \<and> i < ?n - (pd - pc)"
    show "cmp (ys ! i) ?v = 0"
    proof (cases "i < pb")
      case True
      then have "ys ! i = (if pb - r1 \<le> i then xs ! (i - (pb - r1)) else xs ! i)"
        using low [of i] z [of i] b r ranges pb i by auto
      then show ?thesis using True i r b by (auto intro!: eq1)
    next
      case False
      have c: "i < ?n" "i < ?n - r2" "pb \<le> i" using False i r(4) by linarith+
      show ?thesis
      proof (cases "i < pb + r2")
        case True
        have "?n - r2 + (i - pb) < ?n" "pb \<le> ?n - r2 + (i - pb)" "pd < ?n - r2 + (i - pb)"
          using True c ranges(3) r(5) b by linarith+
        then show ?thesis using True c y [of i] high eq2 by simp
      next
        case False
        then have "pd < i" using r(6) c(2) i b pb by linarith
        then show ?thesis using False c y [of i] high [of i] eq2 [of i] by simp
      qed
    qed
  next
    fix i assume i: "?n - (pd - pc) \<le> i \<and> i < ?n"
    have c: "pb + r2 \<le> i" using i r(4) r(5) b pb by linarith
    show "cmp (ys ! i) ?v > 0"
    proof (cases "?n - r2 \<le> i")
      case True
      have "pb + (i - (?n - r2)) < ?n" "pc < pb + (i - (?n - r2))" "pb + (i - (?n - r2)) \<le> pd"
        using True i r(4) ranges(3) b pb by linarith+
      then show ?thesis using True i c y [of i] high [of "pb + (i - (?n - r2))"] gt by simp
    next
      case False
      then have "r2 \<noteq> pd - pc" using i by linarith
      then have "i \<le> pd" "pc < i" using False i r(6) b pb c by linarith+
      then show ?thesis using False i c y [of i] high [of i] gt by simp
    qed
  qed
  then show ?thesis using ms len by blast
qed


lemma partition_step_split:
  assumes "cmp_ok cmp" "7 \<le> length xs" "partition_step cmp xs = (ys, l, g)"
  obtains v where "split_by cmp v ys l g" "mset ys = mset xs" "length ys = length xs"
proof -
  let ?xs1 = "arr_swap xs 0 (choose_pivot cmp xs)" let ?m = "length xs - 1"
  obtain xs2 pa pb pc pd where pl: "partition_loop cmp ?xs1 1 1 ?m ?m = (xs2, pa, pb, pc, pd)"
    by (metis prod_cases5)
  have ms: "mset ?xs1 = mset xs"
    using choose_pivot_bound [OF assms(2), of cmp] by (intro mset_arr_swap) auto
  have "part_inv cmp (mset xs) ?xs1 1 1 ?m ?m"
    using part_inv_init [OF assms(1), of ?xs1] assms(2) ms by simp
  from partition_loop_inv [OF pl this]
  have inv: "part_inv cmp (mset xs) xs2 pa pb pc pd" and pb: "pb = Suc pc" by auto
  have len: "length xs2 = length xs" using inv mset_eq_length [of xs2 xs] by (simp add: part_inv_def)
  show ?thesis
    by (rule that [of "xs2 ! 0"]) (insert part_inv_split [OF inv pb] assms(3) pl len, auto simp: partition_step_def Let_def)
qed

text \<open>
  The partition itself terminates and leaves two blocks shorter than the array whatever the
  comparator answers, because both scans only move inwards.
\<close>

lemma length_scan_up: "scan_up cmp xs pa pb pc = (xs', pa', pb') \<Longrightarrow> length xs' = length xs \<and> pa \<le> pa'"
proof (induction cmp xs pa pb pc rule: scan_up.induct)
  case (1 cmp xs pa pb pc)
  then show ?case
    by (cases "pb \<le> pc \<and> cmp (xs ! pb) (xs ! 0) \<le> 0"; cases "cmp (xs ! pb) (xs ! 0) = 0")
       (auto simp: scan_up.simps [of cmp xs pa pb pc])
qed

lemma length_scan_down: "scan_down cmp xs pb pc pd = (xs', pc', pd') \<Longrightarrow> length xs' = length xs \<and> pd' \<le> pd"
  by (induction cmp xs pb pc pd rule: scan_down.induct) (fastforce split: if_splits)+

lemma length_partition_loop:
  "partition_loop cmp xs pa pb pc pd = (xs', pa', pb', pc', pd') \<Longrightarrow> length xs' = length xs"
proof (induction cmp xs pa pb pc pd rule: partition_loop.induct)
  case (1 cmp xs pa pb pc pd)
  obtain xs1 pa1 pb1 where u: "scan_up cmp xs pa pb pc = (xs1, pa1, pb1)" by (metis prod_cases3)
  obtain xs2 pc2 pd2 where d: "scan_down cmp xs1 pb1 pc pd = (xs2, pc2, pd2)" by (metis prod_cases3)
  show ?case
    using 1 length_scan_up [OF u] length_scan_down [OF d]
    by (cases "pb1 > pc2") (simp_all add: partition_loop.simps [of cmp xs pa pb pc pd] u d)
qed

lemma partition_loop_range:
  assumes "partition_loop cmp xs pa pb pc pd = (xs', pa', pb', pc', pd')"
  shows "pa \<le> pa' \<and> pb' \<le> max pb (Suc pc) \<and> pd' \<le> pd"
  using assms
proof (induction cmp xs pa pb pc pd rule: partition_loop.induct)
  case (1 cmp xs pa pb pc pd)
  obtain xs1 pa1 pb1 where u: "scan_up cmp xs pa pb pc = (xs1, pa1, pb1)" by (metis prod_cases3)
  obtain xs2 pc2 pd2 where d: "scan_down cmp xs1 pb1 pc pd = (xs2, pc2, pd2)" by (metis prod_cases3)
  note r = scan_up_range [OF u] length_scan_up [OF u] scan_down_range [OF d] length_scan_down [OF d]
  show ?case
  proof (cases "pb1 > pc2")
    case True
    then show ?thesis using "1.prems" r by (auto simp: partition_loop.simps [of cmp xs pa pb pc pd] u d)
  next
    case False
    then have "partition_loop cmp (arr_swap xs2 pb1 pc2) pa1 (Suc pb1) (pc2 - 1) pd2 = (xs', pa', pb', pc', pd')"
      using "1.prems" by (simp add: partition_loop.simps [of cmp xs pa pb pc pd] u d)
    from "1.IH" [OF u [symmetric] refl d [symmetric] refl False this]
    show ?thesis using False r by auto
  qed
qed

lemma partition_step_shrinks:
  assumes "partition_step cmp xs = (ys, l, g)" "7 \<le> length xs"
  shows "l < length xs \<and> g < length xs \<and> length ys = length xs"
proof -
  let ?xs1 = "arr_swap xs 0 (choose_pivot cmp xs)" let ?m = "length xs - 1"
  obtain xs2 pa pb pc pd where pl: "partition_loop cmp ?xs1 1 1 ?m ?m = (xs2, pa, pb, pc, pd)"
    by (metis prod_cases5)
  have "1 \<le> pa \<and> pb \<le> Suc ?m \<and> pd \<le> ?m"
    using partition_loop_range [OF pl] assms(2) by auto
  then have "pb - pa < length xs" "pd - pc < length xs" using assms(2) by linarith+
  moreover have "length xs2 = length xs" using length_partition_loop [OF pl] by simp
  ultimately show ?thesis using assms(1) pl by (auto simp: partition_step_def Let_def)
qed


section \<open>The sort\<close>

text \<open>
  \<open>pg_qsort\<close>: the recursive call sorts the block before the equal elements, the \<open>goto loop\<close> the
  block after them.  A block of at most one element (\<open>r > es\<close> fails) is left alone.
\<close>

function pg_qsort :: "('a \<Rightarrow> 'a \<Rightarrow> int) \<Rightarrow> 'a list \<Rightarrow> 'a list" where
  "pg_qsort cmp xs =
     (let n = length xs in
      if n < 7 then isort_from cmp xs 1 (n - 1)
      else if presorted_from cmp xs 1 (n - 1) then xs
      else (case partition_step cmp xs of (ys, l, g) \<Rightarrow>
              (if l > 1 then pg_qsort cmp (take l ys) else take l ys)
              @ take (n - g - l) (drop l ys)
              @ (if g > 1 then pg_qsort cmp (drop (n - g) ys) else drop (n - g) ys)))"
  by pat_completeness auto
termination
proof (relation "measure (\<lambda>(cmp, xs). length xs)", goal_cases)
  case (2 cmp xs n ys y l g)
  then show ?case using partition_step_shrinks [of cmp xs ys l g] by auto
next
  case (3 cmp xs n ys y l g)
  then show ?case using partition_step_shrinks [of cmp xs ys l g] by auto
qed simp

declare pg_qsort.simps [simp del]


section \<open>Correctness\<close>

text \<open>Insertion of element \<open>p\<close>: every pair of the prefix is in order but those that end at \<open>p\<close>.\<close>

definition sift_inv :: "('a \<Rightarrow> 'a \<Rightarrow> int) \<Rightarrow> 'a list \<Rightarrow> nat \<Rightarrow> nat \<Rightarrow> bool" where
  "sift_inv cmp xs p K \<longleftrightarrow> K < length xs \<and> p \<le> K \<and>
     (\<forall>i j. i < j \<and> j \<le> K \<and> j \<noteq> p \<longrightarrow> cmp (xs ! i) (xs ! j) \<le> 0)"

lemma sift_inv_step:
  assumes ok: "cmp_ok cmp" and inv: "sift_inv cmp xs (Suc p) K" and gt: "cmp (xs ! p) (xs ! Suc p) > 0"
  shows "sift_inv cmp (arr_swap xs (Suc p) p) p K"
proof -
  have b: "K < length xs" "Suc p \<le> K" and le: "\<And>i j. i < j \<Longrightarrow> j \<le> K \<Longrightarrow> j \<noteq> Suc p \<Longrightarrow> cmp (xs ! i) (xs ! j) \<le> 0"
    using inv by (auto simp: sift_inv_def)
  have "cmp (xs ! Suc p) (xs ! p) \<le> 0" using gt cmp_ok_flip [OF ok, of "xs ! Suc p" "xs ! p"] by linarith
  then show ?thesis
    using b unfolding sift_inv_def by (auto simp: nth_arr_swap intro!: le)
qed

lemma sift_down_sorts:
  assumes "cmp_ok cmp" "sift_inv cmp xs p K"
  shows "\<forall>i j. i < j \<and> j \<le> K \<longrightarrow> cmp (sift_down cmp xs p ! i) (sift_down cmp xs p ! j) \<le> 0"
  using assms
proof (induction cmp xs p rule: sift_down.induct)
  case (1 cmp xs)
  then show ?case by (auto simp: sift_inv_def)
next
  case (2 cmp xs p)
  show ?case
  proof (cases "cmp (xs ! p) (xs ! Suc p) > 0")
    case True
    then show ?thesis using "2.IH" "2.prems" sift_inv_step by fastforce
  next
    case False
    have le: "\<And>i j. i < j \<Longrightarrow> j \<le> K \<Longrightarrow> j \<noteq> Suc p \<Longrightarrow> cmp (xs ! i) (xs ! j) \<le> 0" and "Suc p \<le> K"
      using "2.prems"(2) by (auto simp: sift_inv_def)
    then have "cmp (xs ! i) (xs ! Suc p) \<le> 0" if "i < Suc p" for i
      using that False cmp_ok_trans [OF "2.prems"(1), of "xs ! i" "xs ! p" "xs ! Suc p"]
      by (cases "i = p") auto
    then show ?thesis using False le by (metis sift_down.simps(2))
  qed
qed

lemma sift_down_mset: "p < length xs \<Longrightarrow> mset (sift_down cmp xs p) = mset xs \<and> length (sift_down cmp xs p) = length xs"
  by (induction cmp xs p rule: sift_down.induct) auto

lemma isort_from_sorts:
  assumes "cmp_ok cmp" "pm + k = length xs" "1 \<le> pm"
    "\<forall>i j. i < j \<and> j < pm \<longrightarrow> cmp (xs ! i) (xs ! j) \<le> 0"
  shows "mset (isort_from cmp xs pm k) = mset xs \<and> sorted_wrt (cmp_le cmp) (isort_from cmp xs pm k)"
  using assms
proof (induction cmp xs pm k rule: isort_from.induct)
  case (1 cmp xs pm)
  then show ?case by (auto simp: sorted_wrt_iff_nth_less)
next
  case (2 cmp xs pm k)
  have "sift_inv cmp xs pm pm" using "2.prems" by (auto simp: sift_inv_def)
  from sift_down_sorts [OF "2.prems"(1) this]
  have "\<forall>i j. i < j \<and> j < Suc pm \<longrightarrow> cmp (sift_down cmp xs pm ! i) (sift_down cmp xs pm ! j) \<le> 0" by auto
  moreover have "mset (sift_down cmp xs pm) = mset xs" "length (sift_down cmp xs pm) = length xs"
    using sift_down_mset [of pm xs cmp] "2.prems"(2) by auto
  ultimately show ?case using "2.IH" "2.prems" by auto
qed

lemma presorted_from_nth:
  "presorted_from cmp xs pm k \<Longrightarrow> 1 \<le> pm \<Longrightarrow> pm \<le> i \<Longrightarrow> i < pm + k \<Longrightarrow> cmp (xs ! (i - 1)) (xs ! i) \<le> 0"
proof (induction cmp xs pm k rule: presorted_from.induct)
  case (2 cmp xs pm k)
  then show ?case by (cases "i = pm") (auto split: if_splits)
qed auto

lemma presorted_sorts:
  assumes "cmp_ok cmp" "presorted_from cmp xs 1 (length xs - 1)"
  shows "sorted_wrt (cmp_le cmp) xs"
proof (rule sorted_wrt_adjacent)
  show "cmp_le cmp (xs ! i) (xs ! Suc i)" if "Suc i < length xs" for i
    using presorted_from_nth [OF assms(2), of "Suc i"] that by auto
qed (rule cmp_ok_trans [OF assms(1)])

text \<open>The three blocks, once the outer two are sorted, form a sorted array.\<close>

lemma split_by_sorted:
  assumes ok: "cmp_ok cmp" and sp: "split_by cmp v ys l g"
    and L: "mset L = mset (take l ys)" "sorted_wrt (cmp_le cmp) L"
    and G: "mset G = mset (drop (length ys - g) ys)" "sorted_wrt (cmp_le cmp) G"
  shows "sorted_wrt (cmp_le cmp) (L @ take (length ys - g - l) (drop l ys) @ G)"
proof -
  let ?E = "take (length ys - g - l) (drop l ys)"
  have lt: "cmp x v < 0" if "x \<in> set L" for x
    using that sp mset_eq_setD [OF L(1)] in_set_take_nth [of x l ys] by (auto simp: split_by_def)
  have eq: "cmp x v = 0" if "x \<in> set ?E" for x
    using that sp in_set_take_drop_nth [of x _ l ys] by (fastforce simp: split_by_def)
  have gr: "cmp x v > 0" if "x \<in> set G" for x
    using that sp mset_eq_setD [OF G(1)] in_set_drop_nth [of x _ ys] by (fastforce simp: split_by_def)
  have le_via: "cmp x y \<le> 0" if "cmp x v \<le> 0" "0 \<le> cmp y v" for x y
    using that cmp_ok_trans [OF ok, of x v y] cmp_ok_le_flip [OF ok, of v y] by blast
  have "sorted_wrt (cmp_le cmp) ?E"
  proof (subst sorted_wrt_iff_nth_less, intro allI impI)
    fix i j assume "i < j" "j < length ?E"
    then have "?E ! i \<in> set ?E" "?E ! j \<in> set ?E" by (intro nth_mem; linarith)+
    then show "cmp (?E ! i) (?E ! j) \<le> 0" using eq le_via by (metis order_refl)
  qed
  moreover have "cmp_le cmp x y" if "x \<in> set ?E" "y \<in> set G" for x y
    using eq [OF that(1)] gr [OF that(2)] le_via [of x y] by simp
  moreover have "cmp_le cmp x y" if "x \<in> set L" "y \<in> set (?E @ G)" for x y
    using that lt [of x] eq [of y] gr [of y] le_via [of x y] by (metis Un_iff less_imp_le order_refl set_append)
  ultimately show ?thesis using L(2) G(2) by (intro sorted_wrt_append_block) auto
qed

lemma take_mid_drop: "l \<le> m \<Longrightarrow> take l ys @ take (m - l) (drop l ys) @ drop m ys = ys"
  using append_take_drop_id [of "m - l" "drop l ys"] by simp

lemma pg_qsort_correct:
  assumes "cmp_ok cmp"
  shows "mset (pg_qsort cmp xs) = mset xs \<and> sorted_wrt (cmp_le cmp) (pg_qsort cmp xs)"
  using assms
proof (induction cmp xs rule: pg_qsort.induct)
  case (1 cmp xs)
  let ?n = "length xs"
  consider "?n < 7" | "7 \<le> ?n" "presorted_from cmp xs 1 (?n - 1)" | "7 \<le> ?n" "\<not> presorted_from cmp xs 1 (?n - 1)"
    by linarith
  then show ?case
  proof cases
    case 1
    then show ?thesis
      using "1.prems" isort_from_sorts [of cmp 1 "?n - 1" xs]
      by (cases "xs = []") (auto simp: pg_qsort.simps [of cmp "[]"] pg_qsort.simps [of cmp xs] Suc_le_eq)
  next
    case 2
    then show ?thesis using "1.prems" presorted_sorts by (simp add: pg_qsort.simps [of cmp xs])
  next
    case 3
    obtain ys l g where ps: "partition_step cmp xs = (ys, l, g)" by (metis prod_cases3)
    from partition_step_split [OF "1.prems" 3(1) ps] obtain v
      where sp: "split_by cmp v ys l g" and m: "mset ys = mset xs" and len: "length ys = ?n" by metis
    let ?L = "if l > 1 then pg_qsort cmp (take l ys) else take l ys"
    let ?G = "if g > 1 then pg_qsort cmp (drop (?n - g) ys) else drop (?n - g) ys"
    have small: "sorted_wrt (cmp_le cmp) zs" if "length zs \<le> 1" for zs
      using that by (cases zs) auto
    have "mset ?L = mset (take l ys) \<and> sorted_wrt (cmp_le cmp) ?L"
      using "1.IH"(1) [OF refl _ _ ps [symmetric] refl] 3 "1.prems" small [of "take l ys"] by auto
    moreover have "mset ?G = mset (drop (?n - g) ys) \<and> sorted_wrt (cmp_le cmp) ?G"
      using "1.IH"(2) [OF refl _ _ ps [symmetric] refl] 3 "1.prems" small [of "drop (?n - g) ys"] len by auto
    moreover have "take l ys @ take (?n - g - l) (drop l ys) @ drop (?n - g) ys = ys"
      using sp len by (intro take_mid_drop) (auto simp: split_by_def)
    moreover have "pg_qsort cmp xs = ?L @ take (?n - g - l) (drop l ys) @ ?G"
      using 3 by (simp add: pg_qsort.simps [of cmp xs] ps Let_def)
    ultimately show ?thesis
      using split_by_sorted [OF "1.prems" sp, of ?L ?G] m len by (metis mset_append)
  qed
qed


section \<open>The contract of a sort, for its callers\<close>

locale sorter =
  fixes srt :: "('a \<Rightarrow> 'a \<Rightarrow> int) \<Rightarrow> 'a list \<Rightarrow> 'a list"
  assumes srt_mset: "cmp_ok cmp \<Longrightarrow> mset (srt cmp xs) = mset xs"
    and srt_sorted: "cmp_ok cmp \<Longrightarrow> sorted_wrt (cmp_le cmp) (srt cmp xs)"
begin

lemma srt_set: "cmp_ok cmp \<Longrightarrow> set (srt cmp xs) = set xs"
  by (rule mset_eq_setD) (rule srt_mset)

lemma srt_length: "cmp_ok cmp \<Longrightarrow> length (srt cmp xs) = length xs"
  by (rule mset_eq_length) (rule srt_mset)

lemma srt_nth_le:
  "cmp_ok cmp \<Longrightarrow> i \<le> j \<Longrightarrow> j < length xs \<Longrightarrow> cmp (srt cmp xs ! i) (srt cmp xs ! j) \<le> 0"
  using srt_sorted [of cmp xs] by (cases "i = j") (auto simp: srt_length cmp_laws sorted_wrt_iff_nth_less)

lemma srt_distinct: "cmp_ok cmp \<Longrightarrow> distinct (srt cmp xs) = distinct xs"
  by (metis mset_eq_imp_distinct_iff srt_mset)

text \<open>When the comparator only identifies equal objects the result does not depend on the sort.\<close>

lemma srt_unique:
  assumes "cmp_ok cmp" "\<And>a b. a \<in> set xs \<Longrightarrow> b \<in> set xs \<Longrightarrow> cmp a b = 0 \<Longrightarrow> a = b"
    and "mset ys = mset xs" "sorted_wrt (cmp_le cmp) ys"
  shows "srt cmp xs = ys"
  using assms srt_mset [of cmp xs] srt_sorted [of cmp xs] mset_eq_setD [OF srt_mset, of cmp xs]
  by (intro cmp_sorted_unique [of cmp]) auto

end

interpretation pgq: sorter pg_qsort
  using pg_qsort_correct by unfold_locales auto

section \<open>Property\<close>

text \<open>C12: for every comparison callback that is a total preorder, \<open>pg_qsort\<close> returns a permutation of
  the array it is given, sorted by the callback.\<close>

theorem qsort_sorts:
  assumes "cmp_ok cmp"
  shows "mset (pg_qsort cmp xs) = mset xs \<and> sorted_wrt (cmp_le cmp) (pg_qsort cmp xs)"
  by (rule pg_qsort_correct [OF assms])

theorem qsort_sorts_witness:
  "mset (pg_qsort (\<lambda>a b. a - b) [3, 1, 2 :: int]) = mset [3, 1, 2] \<and>
   sorted_wrt (cmp_le (\<lambda>a b. a - b)) (pg_qsort (\<lambda>a b. a - b) [3, 1, 2 :: int])"
  by (rule qsort_sorts) (simp add: cmp_ok_def)

end
