(* ===== verification/PgCrc.thy ===== *)
theory PgCrc
  imports Prelude
begin

text \<open>
  The 32-bit CRC of the backend (src/include/utils/pg_crc.h, table in
  src/backend/utils/hash/pg_crc.c).  The trigram code hashes multibyte trigrams with it.  The 64-bit
  variant, which no modelled code uses, is left out.

  The header says the CRC is the \<open>normal\<close>, not the reflected, one; the theory shows that the table is
  the table of the reflected algorithm for the Ethernet polynomial, although \<open>COMP_CRC32\<close> shifts the
  register as the normal algorithm does.
\<close>

unbundle bit_operations_syntax

type_synonym pg_crc32 = "32 word"

definition pg_crc32_table :: "pg_crc32 list" where
  "pg_crc32_table = [
    0x00000000, 0x77073096, 0xEE0E612C, 0x990951BA, 0x076DC419, 0x706AF48F,
    0xE963A535, 0x9E6495A3, 0x0EDB8832, 0x79DCB8A4, 0xE0D5E91E, 0x97D2D988,
    0x09B64C2B, 0x7EB17CBD, 0xE7B82D07, 0x90BF1D91, 0x1DB71064, 0x6AB020F2,
    0xF3B97148, 0x84BE41DE, 0x1ADAD47D, 0x6DDDE4EB, 0xF4D4B551, 0x83D385C7,
    0x136C9856, 0x646BA8C0, 0xFD62F97A, 0x8A65C9EC, 0x14015C4F, 0x63066CD9,
    0xFA0F3D63, 0x8D080DF5, 0x3B6E20C8, 0x4C69105E, 0xD56041E4, 0xA2677172,
    0x3C03E4D1, 0x4B04D447, 0xD20D85FD, 0xA50AB56B, 0x35B5A8FA, 0x42B2986C,
    0xDBBBC9D6, 0xACBCF940, 0x32D86CE3, 0x45DF5C75, 0xDCD60DCF, 0xABD13D59,
    0x26D930AC, 0x51DE003A, 0xC8D75180, 0xBFD06116, 0x21B4F4B5, 0x56B3C423,
    0xCFBA9599, 0xB8BDA50F, 0x2802B89E, 0x5F058808, 0xC60CD9B2, 0xB10BE924,
    0x2F6F7C87, 0x58684C11, 0xC1611DAB, 0xB6662D3D, 0x76DC4190, 0x01DB7106,
    0x98D220BC, 0xEFD5102A, 0x71B18589, 0x06B6B51F, 0x9FBFE4A5, 0xE8B8D433,
    0x7807C9A2, 0x0F00F934, 0x9609A88E, 0xE10E9818, 0x7F6A0DBB, 0x086D3D2D,
    0x91646C97, 0xE6635C01, 0x6B6B51F4, 0x1C6C6162, 0x856530D8, 0xF262004E,
    0x6C0695ED, 0x1B01A57B, 0x8208F4C1, 0xF50FC457, 0x65B0D9C6, 0x12B7E950,
    0x8BBEB8EA, 0xFCB9887C, 0x62DD1DDF, 0x15DA2D49, 0x8CD37CF3, 0xFBD44C65,
    0x4DB26158, 0x3AB551CE, 0xA3BC0074, 0xD4BB30E2, 0x4ADFA541, 0x3DD895D7,
    0xA4D1C46D, 0xD3D6F4FB, 0x4369E96A, 0x346ED9FC, 0xAD678846, 0xDA60B8D0,
    0x44042D73, 0x33031DE5, 0xAA0A4C5F, 0xDD0D7CC9, 0x5005713C, 0x270241AA,
    0xBE0B1010, 0xC90C2086, 0x5768B525, 0x206F85B3, 0xB966D409, 0xCE61E49F,
    0x5EDEF90E, 0x29D9C998, 0xB0D09822, 0xC7D7A8B4, 0x59B33D17, 0x2EB40D81,
    0xB7BD5C3B, 0xC0BA6CAD, 0xEDB88320, 0x9ABFB3B6, 0x03B6E20C, 0x74B1D29A,
    0xEAD54739, 0x9DD277AF, 0x04DB2615, 0x73DC1683, 0xE3630B12, 0x94643B84,
    0x0D6D6A3E, 0x7A6A5AA8, 0xE40ECF0B, 0x9309FF9D, 0x0A00AE27, 0x7D079EB1,
    0xF00F9344, 0x8708A3D2, 0x1E01F268, 0x6906C2FE, 0xF762575D, 0x806567CB,
    0x196C3671, 0x6E6B06E7, 0xFED41B76, 0x89D32BE0, 0x10DA7A5A, 0x67DD4ACC,
    0xF9B9DF6F, 0x8EBEEFF9, 0x17B7BE43, 0x60B08ED5, 0xD6D6A3E8, 0xA1D1937E,
    0x38D8C2C4, 0x4FDFF252, 0xD1BB67F1, 0xA6BC5767, 0x3FB506DD, 0x48B2364B,
    0xD80D2BDA, 0xAF0A1B4C, 0x36034AF6, 0x41047A60, 0xDF60EFC3, 0xA867DF55,
    0x316E8EEF, 0x4669BE79, 0xCB61B38C, 0xBC66831A, 0x256FD2A0, 0x5268E236,
    0xCC0C7795, 0xBB0B4703, 0x220216B9, 0x5505262F, 0xC5BA3BBE, 0xB2BD0B28,
    0x2BB45A92, 0x5CB36A04, 0xC2D7FFA7, 0xB5D0CF31, 0x2CD99E8B, 0x5BDEAE1D,
    0x9B64C2B0, 0xEC63F226, 0x756AA39C, 0x026D930A, 0x9C0906A9, 0xEB0E363F,
    0x72076785, 0x05005713, 0x95BF4A82, 0xE2B87A14, 0x7BB12BAE, 0x0CB61B38,
    0x92D28E9B, 0xE5D5BE0D, 0x7CDCEFB7, 0x0BDBDF21, 0x86D3D2D4, 0xF1D4E242,
    0x68DDB3F8, 0x1FDA836E, 0x81BE16CD, 0xF6B9265B, 0x6FB077E1, 0x18B74777,
    0x88085AE6, 0xFF0F6A70, 0x66063BCA, 0x11010B5C, 0x8F659EFF, 0xF862AE69,
    0x616BFFD3, 0x166CCF45, 0xA00AE278, 0xD70DD2EE, 0x4E048354, 0x3903B3C2,
    0xA7672661, 0xD06016F7, 0x4969474D, 0x3E6E77DB, 0xAED16A4A, 0xD9D65ADC,
    0x40DF0B66, 0x37D83BF0, 0xA9BCAE53, 0xDEBB9EC5, 0x47B2CF7F, 0x30B5FFE9,
    0xBDBDF21C, 0xCABAC28A, 0x53B39330, 0x24B4A3A6, 0xBAD03605, 0xCDD70693,
    0x54DE5729, 0x23D967BF, 0xB3667A2E, 0xC4614AB8, 0x5D681B02, 0x2A6F2B94,
    0xB40BBE37, 0xC30C8EA1, 0x5A05DF1B, 0x2D02EF8D]"

definition INIT_CRC32 :: pg_crc32 where
  "INIT_CRC32 = 0xFFFFFFFF"

definition FIN_CRC32 :: "pg_crc32 \<Rightarrow> pg_crc32" where
  "FIN_CRC32 crc = crc XOR 0xFFFFFFFF"

text \<open>The loop body: the top byte of the register, xored with the data byte, selects the table row.\<close>

definition crc32_tab_index :: "pg_crc32 \<Rightarrow> byte \<Rightarrow> nat" where
  "crc32_tab_index crc b = unat ((drop_bit 24 crc XOR ucast b) AND 0xFF)"

fun COMP_CRC32 :: "pg_crc32 \<Rightarrow> bytes \<Rightarrow> pg_crc32" where
  "COMP_CRC32 crc [] = crc"
| "COMP_CRC32 crc (b # data) =
     COMP_CRC32 ((pg_crc32_table ! crc32_tab_index crc b) XOR push_bit 8 crc) data"

definition crc32_of :: "bytes \<Rightarrow> pg_crc32" where
  "crc32_of data = FIN_CRC32 (COMP_CRC32 INIT_CRC32 data)"

section \<open>What the table is\<close>

text \<open>One bit of the reflected algorithm for the polynomial the table's comment names.\<close>

definition reflected_bit :: "pg_crc32 \<Rightarrow> pg_crc32" where
  "reflected_bit r = (if r AND 1 = 1 then drop_bit 1 r XOR 0xEDB88320 else drop_bit 1 r)"

definition reflected_byte :: "pg_crc32 \<Rightarrow> pg_crc32" where
  "reflected_byte r = (reflected_bit ^^ 8) r"

text \<open>One bit of the normal algorithm for the same polynomial, on the top byte of the register.\<close>

definition normal_bit :: "pg_crc32 \<Rightarrow> pg_crc32" where
  "normal_bit r = (if bit r 31 then push_bit 1 r XOR 0x04C11DB7 else push_bit 1 r)"

definition normal_byte :: "pg_crc32 \<Rightarrow> pg_crc32" where
  "normal_byte r = (normal_bit ^^ 8) (push_bit 24 r)"

lemma length_pg_crc32_table [simp]: "length pg_crc32_table = 256"
  by (simp add: pg_crc32_table_def)

lemma crc32_tab_index_bound: "crc32_tab_index crc b < length pg_crc32_table"
proof -
  have "(drop_bit 24 crc XOR ucast b :: pg_crc32) AND 0xFF \<le> 0xFF" by (rule word_and_le1)
  then have "unat ((drop_bit 24 crc XOR ucast b :: pg_crc32) AND 0xFF) \<le> unat (0xFF :: pg_crc32)"
    by (simp only: word_le_nat_alt)
  then show ?thesis by (simp add: crc32_tab_index_def)
qed

lemma reflected_byte_unroll:
  "reflected_byte r = reflected_bit (reflected_bit (reflected_bit (reflected_bit
     (reflected_bit (reflected_bit (reflected_bit (reflected_bit r)))))))"
  by (simp add: reflected_byte_def eval_nat_numeral)

text \<open>Row \<open>i\<close>, \<open>i + 1\<close>, ... of a table against the reflected algorithm.\<close>

fun rows_reflected :: "pg_crc32 \<Rightarrow> pg_crc32 list \<Rightarrow> bool" where
  "rows_reflected i [] = True"
| "rows_reflected i (r # rs) = (r = reflected_byte i \<and> rows_reflected (i + 1) rs)"

lemma rows_reflected_nth:
  "rows_reflected i rs \<Longrightarrow> k < length rs \<Longrightarrow> rs ! k = reflected_byte (i + word_of_nat k)"
proof (induction i rs arbitrary: k rule: rows_reflected.induct)
  case (2 i r rs)
  then show ?case by (cases k) (auto simp: algebra_simps)
qed simp

lemma pg_crc32_table_rows: "rows_reflected 0 pg_crc32_table"
  unfolding pg_crc32_table_def
  by (simp add: reflected_byte_unroll reflected_bit_def)

end
