(* ===== verification/Wchar.thy ===== *)
theory Wchar
  imports Prelude
begin

text \<open>
  Multibyte character support (src/backend/utils/mb/wchar.c and mbutils.c): the byte length of a
  character, the UTF-8 coder and decoder, the legality check of RFC 3629 and string verification.
  Of the encodings of \<open>pg_wchar_table\<close> the model has SQL_ASCII (what \<open>initdb --locale=C\<close> chooses),
  the single-byte family LATIN1 stands for, and UTF8; the EUC, MULE, SJIS, BIG5, GBK, UHC, JOHAB and
  GB18030 rows are not modelled.  A \<open>char *\<close> is the list of bytes from the pointer to the end of the
  text; the functions read only the bytes a complete character has.
\<close>

unbundle bit_operations_syntax

type_synonym pg_wchar = "32 word"

datatype pg_encoding = PG_SQL_ASCII | PG_UTF8 | PG_LATIN1

section \<open>Character lengths\<close>

text \<open>
  \<open>lead s\<close> is the byte \<open>*s\<close>.  At the end of a text the code may look one byte further; the buffers the
  modelled callers pass hold a zero byte or a space there, so the model reads zero.
\<close>

definition lead :: "bytes \<Rightarrow> byte" where
  "lead s = (case s of [] \<Rightarrow> 0 | b # _ \<Rightarrow> b)"

lemma lead_Cons [simp]: "lead (b # s) = b"
  by (simp add: lead_def)

definition pg_utf_mblen :: "bytes \<Rightarrow> nat" where
  "pg_utf_mblen s =
     (if lead s AND 0x80 = 0 then 1
      else if lead s AND 0xe0 = 0xc0 then 2
      else if lead s AND 0xf0 = 0xe0 then 3
      else if lead s AND 0xf8 = 0xf0 then 4
      else 1)"

definition pg_ascii_mblen :: "bytes \<Rightarrow> nat" where
  "pg_ascii_mblen s = 1"

definition pg_latin1_mblen :: "bytes \<Rightarrow> nat" where
  "pg_latin1_mblen s = 1"

fun pg_mblen :: "pg_encoding \<Rightarrow> bytes \<Rightarrow> nat" where
  "pg_mblen PG_SQL_ASCII s = pg_ascii_mblen s"
| "pg_mblen PG_UTF8 s = pg_utf_mblen s"
| "pg_mblen PG_LATIN1 s = pg_latin1_mblen s"

fun pg_encoding_max_length :: "pg_encoding \<Rightarrow> nat" where
  "pg_encoding_max_length PG_SQL_ASCII = 1"
| "pg_encoding_max_length PG_UTF8 = 4"
| "pg_encoding_max_length PG_LATIN1 = 1"

lemma pg_utf_mblen_range: "1 \<le> pg_utf_mblen s \<and> pg_utf_mblen s \<le> 4"
  by (simp add: pg_utf_mblen_def)

lemma pg_mblen_range: "1 \<le> pg_mblen e s \<and> pg_mblen e s \<le> pg_encoding_max_length e"
  using pg_utf_mblen_range [of s] by (cases e) (auto simp: pg_ascii_mblen_def pg_latin1_mblen_def)

lemma pg_mblen_pos [simp]: "0 < pg_mblen e s" "pg_mblen e s \<noteq> 0"
  using pg_mblen_range [of e s] by auto

section \<open>The UTF-8 coder, decoder and legality check\<close>

definition unicode_to_utf8 :: "pg_wchar \<Rightarrow> bytes" where
  "unicode_to_utf8 c =
     (if c \<le> 0x7F then [ucast c]
      else if c \<le> 0x7FF then
        [0xC0 OR ucast (drop_bit 6 c AND 0x1F), 0x80 OR ucast (c AND 0x3F)]
      else if c \<le> 0xFFFF then
        [0xE0 OR ucast (drop_bit 12 c AND 0x0F), 0x80 OR ucast (drop_bit 6 c AND 0x3F),
         0x80 OR ucast (c AND 0x3F)]
      else
        [0xF0 OR ucast (drop_bit 18 c AND 0x07), 0x80 OR ucast (drop_bit 12 c AND 0x3F),
         0x80 OR ucast (drop_bit 6 c AND 0x3F), 0x80 OR ucast (c AND 0x3F)])"

definition utf8_to_unicode :: "bytes \<Rightarrow> pg_wchar" where
  "utf8_to_unicode c =
     (if (c ! 0) AND 0x80 = 0 then ucast (c ! 0)
      else if (c ! 0) AND 0xe0 = 0xc0 then
        push_bit 6 (ucast ((c ! 0) AND 0x1f)) OR ucast ((c ! 1) AND 0x3f)
      else if (c ! 0) AND 0xf0 = 0xe0 then
        push_bit 12 (ucast ((c ! 0) AND 0x0f)) OR push_bit 6 (ucast ((c ! 1) AND 0x3f))
        OR ucast ((c ! 2) AND 0x3f)
      else if (c ! 0) AND 0xf8 = 0xf0 then
        push_bit 18 (ucast ((c ! 0) AND 0x07)) OR push_bit 12 (ucast ((c ! 1) AND 0x3f))
        OR push_bit 6 (ucast ((c ! 2) AND 0x3f)) OR ucast ((c ! 3) AND 0x3f)
      else 0xffffffff)"

text \<open>
  The \<open>switch\<close> on the length falls through from case 4 to case 1: each case adds the check of one
  byte.  Lengths other than 1 to 4 are rejected.
\<close>

definition utf8_second_byte_ok :: "byte \<Rightarrow> byte \<Rightarrow> bool" where
  "utf8_second_byte_ok b a =
     (if b = 0xE0 then \<not> (a < 0xA0 \<or> a > 0xBF)
      else if b = 0xED then \<not> (a < 0x80 \<or> a > 0x9F)
      else if b = 0xF0 then \<not> (a < 0x90 \<or> a > 0xBF)
      else if b = 0xF4 then \<not> (a < 0x80 \<or> a > 0x8F)
      else \<not> (a < 0x80 \<or> a > 0xBF))"

definition pg_utf8_islegal :: "bytes \<Rightarrow> nat \<Rightarrow> bool" where
  "pg_utf8_islegal source n \<longleftrightarrow>
     n \<in> {1, 2, 3, 4} \<and>
     (n = 4 \<longrightarrow> \<not> (source ! 3 < 0x80 \<or> source ! 3 > 0xBF)) \<and>
     (n \<in> {3, 4} \<longrightarrow> \<not> (source ! 2 < 0x80 \<or> source ! 2 > 0xBF)) \<and>
     (n \<in> {2, 3, 4} \<longrightarrow> utf8_second_byte_ok (source ! 0) (source ! 1)) \<and>
     \<not> (source ! 0 \<ge> 0x80 \<and> source ! 0 < 0xC2) \<and> \<not> (source ! 0 > 0xF4)"

section \<open>Bit fields as sums\<close>

lemma nat_or_add: "a < 2 ^ n \<Longrightarrow> push_bit n b OR a = b * 2 ^ n + (a :: nat)"
proof -
  assume "a < 2 ^ n"
  then have a: "take_bit n a = a" by (rule take_bit_nat_eq_self)
  have "push_bit n b AND take_bit n a = 0" by (rule bit_eqI) (auto simp: bit_simps)
  then have "push_bit n b OR a = push_bit n b + a" unfolding a by (rule disjunctive_add_eq_or [symmetric])
  then show ?thesis by (simp add: push_bit_eq_mult)
qed

lemma unat_push_bit_or:
  assumes "unat a < 2 ^ n" "unat b * 2 ^ n < 2 ^ LENGTH('a)"
  shows "unat (push_bit n b OR (a :: 'a::len word)) = unat b * 2 ^ n + unat a"
proof -
  have "unat (push_bit n b) = take_bit LENGTH('a) (push_bit n (unat b))" by (rule unsigned_push_bit_eq)
  also have "\<dots> = push_bit n (unat b)" using assms(2) by (intro take_bit_nat_eq_self) (simp add: push_bit_eq_mult)
  finally have "unat (push_bit n b) = push_bit n (unat b)" .
  then show ?thesis using nat_or_add [OF assms(1)] by (simp only: unsigned_or_eq)
qed

lemma unat_ucast_byte [simp]: "unat (ucast (x :: byte) :: 32 word) = unat x"
proof -
  have "unat x < 2 ^ 32" using unsigned_less [of x, where ?'a = nat] by simp
  then show ?thesis by (simp add: unsigned_ucast_eq take_bit_nat_eq_self)
qed

text \<open>The verifiers return the length of the character, or \<open>None\<close> for the code's \<open>-1\<close>.\<close>

definition pg_utf8_verifier :: "bytes \<Rightarrow> nat \<Rightarrow> nat option" where
  "pg_utf8_verifier s len =
     (let l = pg_utf_mblen s in
      if len < l then None else if \<not> pg_utf8_islegal s l then None else Some l)"

end
