(* ===== verification/TsLocale.thy ===== *)
theory TsLocale
  imports Wchar
begin

text \<open>
  Character classification and case folding for text search (src/backend/tsearch/ts_locale.c) in a
  database whose \<open>LC_CTYPE\<close> is C, the locale the build instructions of the course choose
  (\<open>initdb --locale=C\<close>).  There \<open>lc_ctype_is_c\<close> holds, so every \<open>t_is...\<close> function classifies the first
  byte with the C library and \<open>lowerstr_with_len\<close> folds byte by byte, in every encoding.  The
  \<open>iswalpha\<close>/\<open>towlower\<close> branches for other locales depend on the operating system and are not modelled.
\<close>

section \<open>The C library's character classes in the C locale\<close>

definition c_isupper :: "byte \<Rightarrow> bool" where
  "c_isupper c \<longleftrightarrow> 0x41 \<le> c \<and> c \<le> 0x5A"

definition c_islower :: "byte \<Rightarrow> bool" where
  "c_islower c \<longleftrightarrow> 0x61 \<le> c \<and> c \<le> 0x7A"

definition c_isalpha :: "byte \<Rightarrow> bool" where
  "c_isalpha c \<longleftrightarrow> c_isupper c \<or> c_islower c"

definition c_isdigit :: "byte \<Rightarrow> bool" where
  "c_isdigit c \<longleftrightarrow> 0x30 \<le> c \<and> c \<le> 0x39"

definition c_isspace :: "byte \<Rightarrow> bool" where
  "c_isspace c \<longleftrightarrow> c = 0x20 \<or> (0x09 \<le> c \<and> c \<le> 0x0D)"

definition c_isprint :: "byte \<Rightarrow> bool" where
  "c_isprint c \<longleftrightarrow> 0x20 \<le> c \<and> c \<le> 0x7E"

definition c_isalnum :: "byte \<Rightarrow> bool" where
  "c_isalnum c \<longleftrightarrow> c_isalpha c \<or> c_isdigit c"

definition c_tolower :: "byte \<Rightarrow> byte" where
  "c_tolower c = (if c_isupper c then c + 0x20 else c)"

lemmas c_ctype_defs = c_isupper_def c_islower_def c_isalpha_def c_isdigit_def c_isspace_def
  c_isprint_def c_isalnum_def

section \<open>ts_locale.c\<close>

text \<open>\<open>TOUCHAR(ptr)\<close> is the byte the pointer designates.\<close>

definition t_isdigit :: "bytes \<Rightarrow> bool" where
  "t_isdigit ptr = c_isdigit (lead ptr)"

definition t_isspace :: "bytes \<Rightarrow> bool" where
  "t_isspace ptr = c_isspace (lead ptr)"

definition t_isalpha :: "bytes \<Rightarrow> bool" where
  "t_isalpha ptr = c_isalpha (lead ptr)"

definition t_isprint :: "bytes \<Rightarrow> bool" where
  "t_isprint ptr = c_isprint (lead ptr)"

text \<open>The copying loop stops at \<open>len\<close> bytes or at a zero byte, whichever comes first.\<close>

definition lowerstr_with_len :: "bytes \<Rightarrow> bytes" where
  "lowerstr_with_len str = map c_tolower (takeWhile (\<lambda>b. b \<noteq> 0) str)"

section \<open>Facts about folding\<close>

lemma c_tolower_idem [simp]: "c_tolower (c_tolower c) = c_tolower c"
proof (cases "c_isupper c")
  case True
  then have c: "0x41 \<le> c" "c \<le> 0x5A" by (auto simp: c_isupper_def)
  then have "unat (c + 0x20) = unat c + 32"
    by (simp add: unat_word_ariths word_le_nat_alt)
  then have "\<not> c_isupper (c + 0x20)" using c by (simp add: c_isupper_def word_le_nat_alt)
  then show ?thesis using True by (simp add: c_tolower_def)
qed (simp add: c_tolower_def)

lemma c_tolower_alnum: "c_isalnum (c_tolower c) = c_isalnum c"
proof (cases "c_isupper c")
  case True
  then have c: "0x41 \<le> c" "c \<le> 0x5A" by (auto simp: c_isupper_def)
  then have "unat (c + 0x20) = unat c + 32"
    by (simp add: unat_word_ariths word_le_nat_alt)
  then show ?thesis using True c by (simp add: c_tolower_def c_ctype_defs word_le_nat_alt)
qed (simp add: c_tolower_def)

lemma alnum_ascii: "c_isalnum b \<Longrightarrow> b < 0x80"
  by (auto simp: c_ctype_defs word_le_nat_alt word_less_nat_alt)

lemma alnum_nonzero: "c_isalnum b \<Longrightarrow> b \<noteq> 0"
  by (auto simp: c_ctype_defs)

lemma takeWhile_nonzero_alnum:
  "list_all c_isalnum s \<Longrightarrow> takeWhile (\<lambda>b. b \<noteq> 0) s = s"
  by (induction s) (auto simp: alnum_nonzero)

lemma lowerstr_alnum:
  "list_all c_isalnum s \<Longrightarrow> lowerstr_with_len s = map c_tolower s"
  by (simp add: lowerstr_with_len_def takeWhile_nonzero_alnum)

lemma take_bit_below: "unat (w :: 'a::len word) < 2 ^ n \<Longrightarrow> take_bit n w = w"
  by (simp add: word_eq_iff_unsigned [where ?'a = nat] unsigned_take_bit_eq take_bit_nat_eq_self)

lemma ascii_high_bit: "b < 0x80 \<Longrightarrow> (b :: byte) AND 0x80 = 0"
proof -
  assume "b < 0x80"
  then have "take_bit 7 b = b" by (intro take_bit_below) (simp add: word_less_nat_alt)
  then have "b AND 0x80 = take_bit 7 b AND 0x80" by simp
  also have "\<dots> = b AND (mask 7 AND 0x80)" by (simp only: take_bit_eq_mask and.assoc)
  also have "mask 7 AND (0x80 :: byte) = 0" by (simp add: mask_eq_exp_minus_1)
  finally show ?thesis by simp
qed

lemma pg_mblen_ascii: "lead s < 0x80 \<Longrightarrow> pg_mblen e s = 1"
  by (cases e) (simp_all add: pg_ascii_mblen_def pg_latin1_mblen_def pg_utf_mblen_def ascii_high_bit)

end
