(* ===== verification/TrgmOp.thy ===== *)
theory TrgmOp
  imports PgQsort PgCrc TsLocale
begin

text \<open>
  Trigram extraction and similarity (contrib/pg_trgm/trgm_op.c and src/include/utils/trgm.h of the hw5
  tree): the trigram order, word splitting, \<open>generate_trgm\<close>, the wildcard parser, \<open>trgm2int\<close>, the
  merge that counts common trigrams and the containment test.  Pointers that advance through a text
  are the list of the bytes that remain; \<open>tptr\<close>, which appends to the result array, is the list of
  the trigrams appended.  The database encoding is a parameter of the functions that call \<open>pg_mblen\<close>.
\<close>

section \<open>Trigrams: trgm.h\<close>

type_synonym trgm = "byte \<times> byte \<times> byte"

definition LPADDING :: nat where "LPADDING = 2"
definition RPADDING :: nat where "RPADDING = 1"

text \<open>Characters are compared as the platform's (signed) \<open>char\<close>.\<close>

definition CMPCHAR :: "byte \<Rightarrow> byte \<Rightarrow> int" where
  "CMPCHAR a b = (if a = b then 0 else if sint a < sint b then -1 else 1)"

definition CMPTRGM :: "trgm \<Rightarrow> trgm \<Rightarrow> int" where
  "CMPTRGM a b =
     (case a of (a0, a1, a2) \<Rightarrow> case b of (b0, b1, b2) \<Rightarrow>
        if CMPCHAR a0 b0 \<noteq> 0 then CMPCHAR a0 b0
        else if CMPCHAR a1 b1 \<noteq> 0 then CMPCHAR a1 b1
        else CMPCHAR a2 b2)"

text \<open>\<open>CPTRGM\<close> copies the three bytes a pointer designates.\<close>

definition CPTRGM :: "bytes \<Rightarrow> trgm" where
  "CPTRGM p = (p ! 0, p ! 1, p ! 2)"

definition ISPRINTABLECHAR :: "byte \<Rightarrow> bool" where
  "ISPRINTABLECHAR a \<longleftrightarrow> a < 0x80 \<and> (c_isalnum a \<or> a = 0x20)"

fun ISPRINTABLETRGM :: "trgm \<Rightarrow> bool" where
  "ISPRINTABLETRGM (a, b, c) \<longleftrightarrow> ISPRINTABLECHAR a \<and> ISPRINTABLECHAR b \<and> ISPRINTABLECHAR c"

definition ISESCAPECHAR :: "byte \<Rightarrow> bool" where
  "ISESCAPECHAR x \<longleftrightarrow> x = 0x5C"

definition ISWILDCARDCHAR :: "byte \<Rightarrow> bool" where
  "ISWILDCARDCHAR x \<longleftrightarrow> x = 0x5F \<or> x = 0x25"

section \<open>Sorting and removing duplicates\<close>

definition comp_trgm :: "trgm \<Rightarrow> trgm \<Rightarrow> int" where
  "comp_trgm a b = CMPTRGM a b"

text \<open>
  \<open>unique_array\<close> compacts a sorted array in place: \<open>curend\<close> is the last distinct element, \<open>tmp\<close> the
  element under consideration.  It returns \<open>curend + 1 - a\<close>, so 1 for an empty array; the callers
  check for that.
\<close>

function unique_loop :: "trgm list \<Rightarrow> nat \<Rightarrow> nat \<Rightarrow> trgm list \<times> nat" where
  "unique_loop a curend tmp =
     (if tmp < length a
      then (if CMPTRGM (a ! tmp) (a ! curend) \<noteq> 0
            then unique_loop (a[Suc curend := a ! tmp]) (Suc curend) (Suc tmp)
            else unique_loop a curend (Suc tmp))
      else (a, curend))"
  by pat_completeness auto
termination by (relation "measure (\<lambda>(a, curend, tmp). length a - tmp)") auto

declare unique_loop.simps [simp del]

definition unique_array :: "trgm list \<Rightarrow> trgm list \<times> nat" where
  "unique_array a = (case unique_loop a 0 0 of (a', curend) \<Rightarrow> (a', curend + 1))"

section \<open>Words\<close>

text \<open>\<open>KEEPONLYALNUM\<close> is defined.\<close>

definition iswordchr :: "bytes \<Rightarrow> bool" where
  "iswordchr c \<longleftrightarrow> t_isalpha c \<or> t_isdigit c"

function skip_nonword :: "pg_encoding \<Rightarrow> bytes \<Rightarrow> bytes" where
  "skip_nonword e s =
     (if s \<noteq> [] \<and> \<not> iswordchr s then skip_nonword e (drop (pg_mblen e s) s) else s)"
  by pat_completeness auto
termination by (relation "measure (\<lambda>(e, s). length s)") auto

text \<open>The word from the start of a text, its length in characters, and what follows it.\<close>

function take_word :: "pg_encoding \<Rightarrow> bytes \<Rightarrow> bytes \<times> nat \<times> bytes" where
  "take_word e s =
     (if s \<noteq> [] \<and> iswordchr s
      then (case take_word e (drop (pg_mblen e s) s) of (w, charlen, rest) \<Rightarrow>
              (take (pg_mblen e s) s @ w, Suc charlen, rest))
      else ([], 0, s))"
  by pat_completeness auto
termination by (relation "measure (\<lambda>(e, s). length s)") auto

declare skip_nonword.simps [simp del] take_word.simps [simp del]

definition find_word :: "pg_encoding \<Rightarrow> bytes \<Rightarrow> (bytes \<times> nat \<times> bytes) option" where
  "find_word e str =
     (case skip_nonword e str of [] \<Rightarrow> None | beginword \<Rightarrow> Some (take_word e beginword))"

section \<open>Trigrams of one padded word\<close>

text \<open>
  Only a multibyte character makes a group of three characters longer than three bytes; such a
  group is hashed, and the first three bytes of the CRC in memory are kept.  The machine is little
  endian, so these are the low-order ones.
\<close>

definition cnt_trigram :: "bytes \<Rightarrow> nat \<Rightarrow> trgm" where
  "cnt_trigram str bytelen =
     (if bytelen = 3 then CPTRGM str
      else (let crc = crc32_of (take bytelen str)
            in (ucast crc, ucast (drop_bit 8 crc), ucast (drop_bit 16 crc))))"

text \<open>
  The loop over characters of any width.  The test \<open>0 < lenfirst\<close> is not in the code; it is true
  whenever \<open>lenfirst\<close> is a character length.
\<close>

function make_trigrams_wide :: "pg_encoding \<Rightarrow> bytes \<Rightarrow> nat \<Rightarrow> nat \<Rightarrow> nat \<Rightarrow> trgm list" where
  "make_trigrams_wide e p lenfirst lenmiddle lenlast =
     (if lenfirst + lenmiddle + lenlast \<le> length p \<and> 0 < lenfirst
      then cnt_trigram p (lenfirst + lenmiddle + lenlast)
           # (let p' = drop lenfirst p
              in make_trigrams_wide e p' lenmiddle lenlast (pg_mblen e (drop (lenmiddle + lenlast) p')))
      else [])"
  by pat_completeness auto
termination by (relation "measure (\<lambda>(e, p, a, b, c). length p)") auto

declare make_trigrams_wide.simps [simp del]

fun make_trigrams_narrow :: "bytes \<Rightarrow> trgm list" where
  "make_trigrams_narrow (a # b # c # p) = CPTRGM (a # b # c # p) # make_trigrams_narrow (b # c # p)"
| "make_trigrams_narrow p = []"

definition make_trigrams :: "pg_encoding \<Rightarrow> bytes \<Rightarrow> nat \<Rightarrow> trgm list" where
  "make_trigrams e str charlen =
     (if charlen < 3 then []
      else if pg_encoding_max_length e > 1
      then (let lenfirst = pg_mblen e str;
                lenmiddle = pg_mblen e (drop lenfirst str);
                lenlast = pg_mblen e (drop (lenfirst + lenmiddle) str)
            in make_trigrams_wide e str lenfirst lenmiddle lenlast)
      else make_trigrams_narrow str)"

section \<open>Trigrams of a text\<close>

lemma take_word_rest: "take_word e s = (w, n, rest) \<Longrightarrow> length rest \<le> length s"
proof (induction e s arbitrary: w n rest rule: take_word.induct)
  case (1 e s)
  show ?case
  proof (cases "s \<noteq> [] \<and> iswordchr s")
    case True
    obtain w' n' where "take_word e (drop (pg_mblen e s) s) = (w', n', rest)"
      using "1.prems" True by (auto simp: take_word.simps [of e s] split: prod.splits)
    then show ?thesis using "1.IH" [OF True] by force
  qed (use "1.prems" in \<open>auto simp: take_word.simps [of e s]\<close>)
qed

lemma skip_nonword_result: "skip_nonword e s = b # r \<Longrightarrow> length (b # r) \<le> length s \<and> iswordchr (b # r)"
proof (induction e s rule: skip_nonword.induct)
  case (1 e s)
  show ?case
  proof (cases "s \<noteq> [] \<and> \<not> iswordchr s")
    case True
    then show ?thesis using 1 by (force simp: skip_nonword.simps [of e s])
  qed (use "1.prems" in \<open>auto simp: skip_nonword.simps [of e s]\<close>)
qed

lemma find_word_rest:
  assumes "find_word e s = Some (w, n, rest)"
  shows "length rest < length s"
proof -
  obtain b r where b: "skip_nonword e s = b # r" "take_word e (b # r) = (w, n, rest)"
    using assms by (auto simp: find_word_def split: list.splits)
  have le: "length (b # r) \<le> length s" "iswordchr (b # r)" using skip_nonword_result [OF b(1)] by auto
  obtain w' n' where "take_word e (drop (pg_mblen e (b # r)) (b # r)) = (w', n', rest)"
    using b(2) le(2) by (auto simp: take_word.simps [of e "b # r"] split: prod.splits)
  then have "length rest \<le> length (drop (pg_mblen e (b # r)) (b # r))" by (rule take_word_rest)
  moreover have "0 < pg_mblen e (b # r)" by simp
  ultimately show ?thesis using le(1) by (simp only: length_drop list.size)
qed

text \<open>The padded word: two spaces, the folded word, and the one space \<open>RPADDING\<close> counts.\<close>

definition pad_word :: "bytes \<Rightarrow> bytes" where
  "pad_word bword = replicate LPADDING 0x20 @ bword @ replicate RPADDING 0x20"

function generate_words :: "pg_encoding \<Rightarrow> bytes \<Rightarrow> trgm list" where
  "generate_words e eword =
     (case find_word e eword of
        None \<Rightarrow> []
      | Some (bword, charlen, eword') \<Rightarrow>
          make_trigrams e (pad_word (lowerstr_with_len bword)) (charlen + LPADDING + RPADDING)
          @ generate_words e eword')"
  by pat_completeness auto
termination by (relation "measure (\<lambda>(e, s). length s)") (auto dest: find_word_rest)

declare generate_words.simps [simp del]

text \<open>\<open>ARRNELEM\<close> of the result is the length of the list.  \<open>qsort\<close> is \<open>pg_qsort\<close> in the backend.\<close>

definition sort_unique :: "trgm list \<Rightarrow> trgm list" where
  "sort_unique tptr =
     (if tptr = [] then []
      else (case unique_array (pg_qsort comp_trgm tptr) of (a, len) \<Rightarrow> take len a))"

definition generate_trgm :: "pg_encoding \<Rightarrow> bytes \<Rightarrow> trgm list" where
  "generate_trgm e str =
     (if length str + LPADDING + RPADDING < 3 \<or> length str = 0 then []
      else sort_unique (generate_words e str))"

section \<open>The trigram order\<close>

text \<open>The lexicographic order of three signed bytes is the order of one integer.\<close>

fun trgm_key :: "trgm \<Rightarrow> int" where
  "trgm_key (a, b, c) = 65536 * sint a + 256 * sint b + sint c"

lemma sint_byte: "-128 \<le> sint (b :: byte)" "sint (b :: byte) < 128"
  using sint_greater_eq [of b] sint_less [of b] by simp_all

lemma CMPCHAR_sign:
  "CMPCHAR a b < 0 \<longleftrightarrow> sint a < sint b" "CMPCHAR a b = 0 \<longleftrightarrow> sint a = sint b"
  by (auto simp: CMPCHAR_def signed_word_eqI)

lemma CMPCHAR_cases: "CMPCHAR a b = (if sint a < sint b then -1 else if sint a = sint b then 0 else 1)"
  by (auto simp: CMPCHAR_def signed_word_eqI)

lemma trgm_key_less:
  "trgm_key (a, b, c) < trgm_key (d, e, f) \<longleftrightarrow>
   sint a < sint d \<or> sint a = sint d \<and> (sint b < sint e \<or> sint b = sint e \<and> sint c < sint f)"
proof -
  note r = sint_byte [of a] sint_byte [of b] sint_byte [of c] sint_byte [of d] sint_byte [of e] sint_byte [of f]
  consider "sint a < sint d" | "sint d < sint a"
    | "sint a = sint d" "sint b < sint e" | "sint a = sint d" "sint e < sint b"
    | "sint a = sint d" "sint b = sint e" by linarith
  then show ?thesis
  proof cases
    case 1
    then have "trgm_key (a, b, c) < trgm_key (d, e, f)" unfolding trgm_key.simps using r by linarith
    then show ?thesis using 1 by simp
  next
    case 2
    then have "trgm_key (d, e, f) < trgm_key (a, b, c)" unfolding trgm_key.simps using r by linarith
    then show ?thesis using 2 by simp
  next
    case 3
    then have "trgm_key (a, b, c) < trgm_key (d, e, f)" unfolding trgm_key.simps using r by linarith
    then show ?thesis using 3 by simp
  next
    case 4
    then have "trgm_key (d, e, f) < trgm_key (a, b, c)" unfolding trgm_key.simps using r by linarith
    then show ?thesis using 4 by simp
  qed simp
qed

lemma trgm_key_inj: "trgm_key s = trgm_key t \<longleftrightarrow> s = t"
proof -
  obtain a b c where s: "s = (a, b, c)" by (cases s)
  obtain d e f where t: "t = (d, e, f)" by (cases t)
  have "trgm_key s = trgm_key t \<Longrightarrow> sint a = sint d \<and> sint b = sint e \<and> sint c = sint f"
    using trgm_key_less [of a b c d e f] trgm_key_less [of d e f a b c] unfolding s t by linarith
  then show ?thesis by (auto simp: s t signed_word_eqI)
qed

lemma CMPTRGM_key:
  "CMPTRGM s t = (if trgm_key s < trgm_key t then -1 else if trgm_key s = trgm_key t then 0 else 1)"
proof -
  obtain a b c where s: "s = (a, b, c)" by (cases s)
  obtain d e f where t: "t = (d, e, f)" by (cases t)
  have inj: "trgm_key (a, b, c) = trgm_key (d, e, f) \<longleftrightarrow> a = d \<and> b = e \<and> c = f"
    by (simp add: trgm_key_inj del: trgm_key.simps)
  show ?thesis
    unfolding s t CMPTRGM_def trgm_key_less inj by (auto simp: CMPCHAR_def dest: signed_word_eqI)
qed

lemma CMPTRGM_laws [cmp_laws]:
  "CMPTRGM s t < 0 \<longleftrightarrow> trgm_key s < trgm_key t"
  "CMPTRGM s t > 0 \<longleftrightarrow> trgm_key t < trgm_key s"
  "CMPTRGM s t \<le> 0 \<longleftrightarrow> trgm_key s \<le> trgm_key t"
  "CMPTRGM s t = 0 \<longleftrightarrow> s = t"
  unfolding CMPTRGM_key trgm_key_inj [symmetric] by simp_all

lemma comp_trgm_ok: "cmp_ok comp_trgm"
  by (rule cmp_okI) (auto simp: comp_trgm_def CMPTRGM_laws)

abbreviation trgm_sorted :: "trgm list \<Rightarrow> bool" where
  "trgm_sorted xs \<equiv> sorted_wrt (\<lambda>a b. trgm_key a < trgm_key b) xs"

lemma trgm_sorted_distinct: "trgm_sorted xs \<Longrightarrow> distinct xs"
  by (induction xs) auto

section \<open>Removing duplicates\<close>

lemma unique_loop_length: "length (fst (unique_loop a c t)) = length a"
  by (induction a c t rule: unique_loop.induct) (simp add: unique_loop.simps)

lemma unique_loop_result:
  "c \<le> t \<Longrightarrow> c < length a \<Longrightarrow> unique_loop a c t = (a', c') \<Longrightarrow>
   c' < length a \<and> take (Suc c') a' = take c a @ remdups_adj (a ! c # drop t a)"
proof (induction a c t rule: unique_loop.induct)
  case (1 a c t)
  show ?case
  proof (cases "t < length a")
    case True
    note dr = Cons_nth_drop_Suc [OF True, symmetric]
    show ?thesis
    proof (cases "CMPTRGM (a ! t) (a ! c) \<noteq> 0")
      case ne: True
      then have neq: "a ! t \<noteq> a ! c" by (auto simp: CMPTRGM_laws)
      then have ct: "Suc c \<le> t" using "1.prems"(1) by (cases "c = t") auto
      let ?b = "a[Suc c := a ! t]"
      have "unique_loop ?b (Suc c) (Suc t) = (a', c')"
        using "1.prems"(3) True ne by (simp add: unique_loop.simps [of a c t])
      then have "c' < length ?b \<and> take (Suc c') a' = take (Suc c) ?b @ remdups_adj (?b ! Suc c # drop (Suc t) ?b)"
        using "1.IH"(1) [OF True ne] ct True by simp
      then show ?thesis
        using neq ct True "1.prems"(2) by (simp add: dr take_Suc_conv_app_nth drop_update_cancel nth_list_update)
    next
      case eq: False
      then have "a ! t = a ! c" by (simp add: CMPTRGM_laws)
      moreover have "unique_loop a c (Suc t) = (a', c')"
        using "1.prems"(3) True eq by (simp add: unique_loop.simps [of a c t])
      ultimately show ?thesis using "1.IH"(2) [OF True eq] "1.prems" by (simp add: dr)
    qed
  next
    case False
    then show ?thesis using "1.prems" by (simp add: unique_loop.simps take_Suc_conv_app_nth)
  qed
qed

lemma unique_array_remdups_adj:
  assumes "a \<noteq> []" "unique_array a = (a', n)"
  shows "take n a' = remdups_adj a"
proof -
  obtain c' where u: "unique_loop a 0 0 = (a', c')" "n = c' + 1"
    using assms(2) by (auto simp: unique_array_def split: prod.splits)
  have "take (Suc c') a' = remdups_adj (a ! 0 # a)" using unique_loop_result [OF _ _ u(1)] assms(1) by simp
  also have "\<dots> = remdups_adj a" using assms(1) by (cases a) auto
  finally show ?thesis by (simp add: u(2))
qed

lemma remdups_adj_strict: "sorted_wrt (cmp_le comp_trgm) xs \<Longrightarrow> trgm_sorted (remdups_adj xs)"
proof (induction xs rule: remdups_adj.induct)
  case (3 x y xs)
  show ?case
  proof (cases "x = y")
    case False
    have "trgm_key x \<le> trgm_key y" using "3.prems" by (simp add: comp_trgm_def CMPTRGM_laws)
    then have lt: "trgm_key x < trgm_key y" using False trgm_key_inj [of x y] by linarith
    have "trgm_key x < trgm_key z" if "z \<in> set (y # xs)" for z
      using that lt "3.prems" by (auto simp: comp_trgm_def CMPTRGM_laws)
    then show ?thesis using 3 False by simp
  qed (use 3 in simp)
qed simp_all

lemma sort_unique_set: "set (sort_unique xs) = set xs"
  and sort_unique_sorted: "trgm_sorted (sort_unique xs)"
proof -
  have "set (sort_unique xs) = set xs \<and> trgm_sorted (sort_unique xs)"
  proof (cases "xs = []")
    case False
    let ?s = "pg_qsort comp_trgm xs"
    obtain a n where u: "unique_array ?s = (a, n)" by (cases "unique_array ?s")
    have "?s \<noteq> []" using pgq.srt_length [OF comp_trgm_ok, of xs] False by auto
    then have "sort_unique xs = remdups_adj ?s"
      using unique_array_remdups_adj [OF _ u] False by (simp add: sort_unique_def u)
    then show ?thesis
      using remdups_adj_strict [OF pgq.srt_sorted [OF comp_trgm_ok]] pgq.srt_set [OF comp_trgm_ok, of xs] by simp
  qed (simp add: sort_unique_def)
  then show "set (sort_unique xs) = set xs" "trgm_sorted (sort_unique xs)" by auto
qed

lemma sort_unique_length: "length (sort_unique xs) \<le> length xs"
  using card_length [of xs] distinct_card [OF trgm_sorted_distinct [OF sort_unique_sorted [of xs]]]
  by (simp add: sort_unique_set)

section \<open>Words\<close>

text \<open>
  A text is laid out in characters the encoding knows: no character is cut off by its end, and only
  the first byte of a character can be below 0x80.  A verified UTF-8 text is (theory Wchar).
\<close>

function mb_layout :: "pg_encoding \<Rightarrow> bytes \<Rightarrow> bool" where
  "mb_layout e s \<longleftrightarrow>
     (if s = [] then True
      else pg_mblen e s \<le> length s \<and> list_all (\<lambda>b. 0x80 \<le> b) (take (pg_mblen e s - 1) (tl s))
               \<and> mb_layout e (drop (pg_mblen e s) s))"
  by pat_completeness auto
termination by (relation "measure (\<lambda>(e, s). length s)") auto

declare mb_layout.simps [simp del]

text \<open>The words of a text: its maximal runs of letters and digits.\<close>

function alnum_words :: "bytes \<Rightarrow> bytes list" where
  "alnum_words s =
     (case dropWhile (\<lambda>b. \<not> c_isalnum b) s of
        [] \<Rightarrow> []
      | b # r \<Rightarrow> takeWhile c_isalnum (b # r) # alnum_words (dropWhile c_isalnum (b # r)))"
  by pat_completeness auto
termination
proof (relation "measure length")
  fix s b r
  assume d: "dropWhile (\<lambda>b. \<not> c_isalnum b) s = b # r"
  then have "c_isalnum b" using hd_dropWhile [of "\<lambda>b. \<not> c_isalnum b" s] by auto
  then have "length (dropWhile c_isalnum (b # r)) \<le> length r" by (simp add: length_dropWhile_le)
  also have "\<dots> < length s" using length_dropWhile_le [of "\<lambda>b. \<not> c_isalnum b" s] d by simp
  finally show "(dropWhile c_isalnum (b # r), s) \<in> measure length" by simp
qed simp

declare alnum_words.simps [simp del]

lemma iswordchr_alnum [simp]: "iswordchr (b # s) = c_isalnum b"
  by (auto simp: iswordchr_def t_isalpha_def t_isdigit_def c_isalnum_def)

lemma mblen_alnum: "c_isalnum b \<Longrightarrow> pg_mblen e (b # s) = 1"
  by (rule pg_mblen_ascii) (simp add: alnum_ascii)

lemma take_word_alnum:
  "take_word e s = (takeWhile c_isalnum s, length (takeWhile c_isalnum s), dropWhile c_isalnum s)"
proof (induction s)
  case (Cons b s)
  then show ?case by (simp add: take_word.simps [of e "b # s"] mblen_alnum)
qed (simp add: take_word.simps)

lemma mb_layout_Cons_ascii: "b < 0x80 \<Longrightarrow> mb_layout e (b # s) = mb_layout e s"
  by (subst mb_layout.simps) (simp add: pg_mblen_ascii)

lemma mb_layout_dropWhile: "mb_layout e s \<Longrightarrow> mb_layout e (dropWhile c_isalnum s)"
  by (induction s) (auto simp: mb_layout_Cons_ascii alnum_ascii)

lemma skip_nonword_layout:
  "mb_layout e s \<Longrightarrow>
   skip_nonword e s = dropWhile (\<lambda>b. \<not> c_isalnum b) s \<and> mb_layout e (skip_nonword e s)"
proof (induction e s rule: skip_nonword.induct)
  case (1 e s)
  show ?case
  proof (cases "s \<noteq> [] \<and> \<not> iswordchr s")
    case True
    then obtain b r where s: "s = b # r" "\<not> c_isalnum b" by (cases s) auto
    let ?n = "pg_mblen e s - 1"
    have lay: "list_all (\<lambda>b. 0x80 \<le> b) (take ?n r)" "mb_layout e (drop (pg_mblen e s) s)"
      using "1.prems" unfolding mb_layout.simps [of e s] by (simp_all add: s)
    have dr: "drop (pg_mblen e s) s = drop ?n r" using s pg_mblen_pos(1) [of e s] by (cases "pg_mblen e s") auto
    have "\<not> c_isalnum x" if "x \<in> set (take ?n r)" for x
      using lay(1) that alnum_ascii [of x] by (auto simp: list_all_iff)
    then have "dropWhile (\<lambda>b. \<not> c_isalnum b) (take ?n r @ drop ?n r) = dropWhile (\<lambda>b. \<not> c_isalnum b) (drop ?n r)"
      by (intro dropWhile_append2) auto
    then have "dropWhile (\<lambda>b. \<not> c_isalnum b) s = dropWhile (\<lambda>b. \<not> c_isalnum b) (drop ?n r)"
      using s by simp
    moreover have "skip_nonword e s = skip_nonword e (drop (pg_mblen e s) s)"
      using True unfolding skip_nonword.simps [of e s] by simp
    ultimately show ?thesis using "1.IH" [OF True lay(2)] unfolding dr by metis
  next
    case False
    then have "skip_nonword e s = s" by (subst skip_nonword.simps) auto
    then show ?thesis using "1.prems" False by (cases s) auto
  qed
qed

lemma find_word_layout:
  assumes "mb_layout e s"
  shows "find_word e s =
     (case dropWhile (\<lambda>b. \<not> c_isalnum b) s of
        [] \<Rightarrow> None
      | b # r \<Rightarrow> Some (takeWhile c_isalnum (b # r), length (takeWhile c_isalnum (b # r)),
                       dropWhile c_isalnum (b # r)))"
  using skip_nonword_layout [OF assms]
  by (cases "dropWhile (\<lambda>b. \<not> c_isalnum b) s") (simp_all add: find_word_def take_word_alnum del: dropWhile_eq_Nil_conv)

section \<open>The trigrams of a word\<close>

text \<open>The reference: all windows of three bytes.\<close>

definition windows3 :: "bytes \<Rightarrow> trgm set" where
  "windows3 p = {t. \<exists>a b c x y. t = (a, b, c) \<and> p = x @ [a, b, c] @ y}"

lemma windows3_append: "windows3 p \<subseteq> windows3 (x @ p @ y)"
proof
  fix t
  assume "t \<in> windows3 p"
  then obtain a b c u v where "t = (a, b, c)" "p = u @ [a, b, c] @ v" by (auto simp: windows3_def)
  then have "t = (a, b, c)" "x @ p @ y = (x @ u) @ [a, b, c] @ (v @ y)" by simp_all
  then show "t \<in> windows3 (x @ p @ y)" unfolding windows3_def by blast
qed

lemma windows3_short: "length p < 3 \<Longrightarrow> windows3 p = {}"
  by (auto simp: windows3_def)

lemma windows3_Cons: "windows3 (a # b # c # p) = insert (a, b, c) (windows3 (b # c # p))"
proof -
  have "t = (a, b, c) \<or> t \<in> windows3 (b # c # p)" if mem: "t \<in> windows3 (a # b # c # p)" for t
  proof -
    obtain d e f x y where t: "t = (d, e, f)" "a # b # c # p = x @ [d, e, f] @ y"
      using mem unfolding windows3_def by auto
    show ?thesis
    proof (cases x)
      case (Cons z x')
      then have "b # c # p = x' @ [d, e, f] @ y" using t(2) by simp
      then show ?thesis unfolding windows3_def t(1) by blast
    qed (use t in simp)
  qed
  moreover have "(a, b, c) \<in> windows3 (a # b # c # p)"
    unfolding windows3_def by (auto intro: exI [of _ "[]"])
  moreover have "windows3 (b # c # p) \<subseteq> windows3 (a # b # c # p)"
    using windows3_append [of "b # c # p" "[a]" "[]"] by simp
  ultimately show ?thesis by auto
qed

lemma make_trigrams_narrow_set: "set (make_trigrams_narrow p) = windows3 p"
  by (induction p rule: make_trigrams_narrow.induct)
    (simp_all add: windows3_Cons windows3_short CPTRGM_def)

lemma make_trigrams_narrow_length: "length (make_trigrams_narrow p) = length p - 2"
  by (induction p rule: make_trigrams_narrow.induct) simp_all

lemma make_trigrams_wide_ascii:
  "list_all (\<lambda>b. b < 0x80) p \<Longrightarrow> make_trigrams_wide e p 1 1 1 = make_trigrams_narrow p"
proof (induction p rule: make_trigrams_narrow.induct)
  case (1 a b c p)
  have "pg_mblen e p = 1" by (rule pg_mblen_ascii) (use 1 in \<open>cases p, simp_all add: lead_def\<close>)
  then show ?case
    using 1 by (subst make_trigrams_wide.simps) (simp add: Let_def cnt_trigram_def CPTRGM_def)
qed (simp_all add: make_trigrams_wide.simps)

text \<open>On ASCII text the multibyte loop does what the single-byte loop does.\<close>

lemma make_trigrams_ascii:
  assumes "list_all (\<lambda>b. b < 0x80) p" "length p = charlen"
  shows "make_trigrams e p charlen = make_trigrams_narrow p"
proof (cases "charlen < 3")
  case True
  then have "length (make_trigrams_narrow p) = 0" using assms by (simp add: make_trigrams_narrow_length)
  then show ?thesis using True by (simp add: make_trigrams_def)
next
  case False
  have "pg_mblen e (drop k p) = 1" for k
  proof (rule pg_mblen_ascii)
    have "\<forall>b \<in> set (drop k p). b < 0x80" using assms(1) by (auto simp: list_all_iff dest: in_set_dropD)
    then show "lead (drop k p) < 0x80" by (auto simp: lead_def split: list.split)
  qed
  from this [of 0] this [of 1] this [of 2] show ?thesis
    using False make_trigrams_wide_ascii [OF assms(1), of e] by (simp add: make_trigrams_def Let_def numeral_2_eq_2)
qed


section \<open>Trigrams of a text: the reference\<close>

definition word_trigrams :: "bytes \<Rightarrow> trgm set" where
  "word_trigrams w = windows3 (pad_word (map c_tolower w))"

definition text_trigrams :: "bytes \<Rightarrow> trgm set" where
  "text_trigrams s = (\<Union>w \<in> set (alnum_words s). word_trigrams w)"

lemma takeWhile_alnum: "list_all c_isalnum (takeWhile c_isalnum s)"
  by (auto simp: list_all_iff dest: set_takeWhileD)

lemma pad_word_ascii: "list_all c_isalnum w \<Longrightarrow> list_all (\<lambda>b. b < 0x80) (pad_word (map c_tolower w))"
  by (auto simp: pad_word_def LPADDING_def RPADDING_def list_all_iff alnum_ascii c_tolower_alnum)

lemma word_make_trigrams:
  assumes "list_all c_isalnum w"
  shows "make_trigrams e (pad_word (lowerstr_with_len w)) (length w + LPADDING + RPADDING) =
         make_trigrams_narrow (pad_word (map c_tolower w))"
  unfolding lowerstr_alnum [OF assms]
  by (rule make_trigrams_ascii) (use pad_word_ascii [OF assms] in \<open>simp_all add: pad_word_def\<close>)

lemma generate_words_layout:
  "mb_layout e s \<Longrightarrow>
   generate_words e s = concat (map (\<lambda>w. make_trigrams_narrow (pad_word (map c_tolower w))) (alnum_words s))"
proof (induction s rule: alnum_words.induct)
  case (1 s)
  show ?case
  proof (cases "dropWhile (\<lambda>b. \<not> c_isalnum b) s")
    case Nil
    then show ?thesis
      using find_word_layout [OF "1.prems"] by (subst generate_words.simps, subst alnum_words.simps) (simp only: Nil, simp)
  next
    case (Cons b r)
    have "mb_layout e (b # r)" using skip_nonword_layout [OF "1.prems"] Cons by metis
    then have "mb_layout e (dropWhile c_isalnum (b # r))" by (rule mb_layout_dropWhile)
    note IH = "1.IH" [OF Cons this]
    have fw: "find_word e s = Some (takeWhile c_isalnum (b # r), length (takeWhile c_isalnum (b # r)),
                       dropWhile c_isalnum (b # r))"
      unfolding find_word_layout [OF "1.prems"] Cons by simp
    have "alnum_words s = takeWhile c_isalnum (b # r) # alnum_words (dropWhile c_isalnum (b # r))"
      by (subst alnum_words.simps) (simp only: Cons list.case)
    then show ?thesis
      unfolding generate_words.simps [of e s] fw
      by (simp only: option.case prod.case IH word_make_trigrams [OF takeWhile_alnum] list.map concat.simps)
  qed
qed

lemma text_trigrams_generate: "mb_layout e s \<Longrightarrow> set (generate_words e s) = text_trigrams s"
  by (simp add: generate_words_layout text_trigrams_def word_trigrams_def make_trigrams_narrow_set)

lemma text_trigrams_Nil [simp]: "text_trigrams [] = {}"
  by (simp add: text_trigrams_def alnum_words.simps)

lemma generate_trgm_set: "mb_layout e s \<Longrightarrow> set (generate_trgm e s) = text_trigrams s"
  by (auto simp: generate_trgm_def sort_unique_set text_trigrams_generate LPADDING_def RPADDING_def)

lemma generate_trgm_sorted: "trgm_sorted (generate_trgm e s)"
  by (simp add: generate_trgm_def sort_unique_sorted)

section \<open>The result array is large enough\<close>

text \<open>A word of \<open>n\<close> characters gives \<open>n + 1\<close> trigrams, and words are separated by at least a byte.\<close>

lemma alnum_words_count:
  "(\<Sum>w \<leftarrow> alnum_words s. length w + 1) \<le> length s + (if s \<noteq> [] \<and> c_isalnum (hd s) then 1 else 0)"
proof (induction s rule: alnum_words.induct)
  case (1 s)
  show ?case
  proof (cases "dropWhile (\<lambda>b. \<not> c_isalnum b) s")
    case Nil
    then show ?thesis by (subst alnum_words.simps) (simp only: Nil, simp)
  next
    case (Cons b r)
    have len: "length (b # r) \<le> length s - (if s \<noteq> [] \<and> c_isalnum (hd s) then 0 else 1)"
      using length_dropWhile_le [of "\<lambda>b. \<not> c_isalnum b" "tl s"] Cons by (cases s) (auto split: if_splits)
    let ?w = "takeWhile c_isalnum (b # r)" and ?d = "dropWhile c_isalnum (b # r)"
    have aw: "alnum_words s = ?w # alnum_words ?d" by (subst alnum_words.simps) (simp only: Cons list.case)
    have wd: "length ?w + length ?d = length (b # r)" by (metis length_append takeWhile_dropWhile_id)
    have "(?d \<noteq> [] \<and> c_isalnum (hd ?d)) = False" using hd_dropWhile by blast
    then have sum: "(\<Sum>w \<leftarrow> alnum_words ?d. length w + 1) \<le> length ?d" using "1.IH" [OF Cons] by (simp only: if_False)
    have "length s \<noteq> 0" using Cons by auto
    then have "length (b # r) + 1 \<le> length s + (if s \<noteq> [] \<and> c_isalnum (hd s) then 1 else 0)"
      using len by (simp split: if_splits)
    then show ?thesis using sum wd unfolding aw list.map sum_list.Cons by linarith
  qed
qed

lemma generate_words_length:
  assumes "mb_layout e s"
  shows "length (generate_words e s) \<le> (length s div 2 + 1) * 3"
proof -
  have "length (generate_words e s) = (\<Sum>w \<leftarrow> alnum_words s. length w + 1)"
    unfolding generate_words_layout [OF assms]
    by (simp add: length_concat comp_def make_trigrams_narrow_length pad_word_def LPADDING_def RPADDING_def)
  also have "\<dots> \<le> length s + 1" using alnum_words_count [of s] by (simp split: if_splits)
  also have "\<dots> \<le> (length s div 2 + 1) * 3" by simp
  finally show ?thesis .
qed

lemma alnum_word_length: "w \<in> set (alnum_words s) \<Longrightarrow> length w \<le> length s"
proof -
  assume w: "w \<in> set (alnum_words s)"
  have "length w + 1 \<le> (\<Sum>w \<leftarrow> alnum_words s. length w + 1)" using w by (intro member_le_sum_list) auto
  also have "\<dots> \<le> length s + 1" using alnum_words_count [of s] by (simp split: if_splits)
  finally show ?thesis by simp
qed

section \<open>Evaluation on concrete texts\<close>

lemma pad_word_eval: "pad_word w = 0x20 # 0x20 # w @ [0x20]"
  by (simp add: pad_word_def LPADDING_def RPADDING_def numeral_2_eq_2)

lemma mb_layout_single_byte: "pg_encoding_max_length e = 1 \<Longrightarrow> mb_layout e s"
proof (induction s)
  case (Cons b s)
  have "pg_mblen e (b # s) = 1" using pg_mblen_range [of e "b # s"] Cons.prems by simp
  then show ?case using Cons by (subst mb_layout.simps) simp
qed (simp add: mb_layout.simps)

lemma mb_layout_ascii: "list_all (\<lambda>b. b < 0x80) s \<Longrightarrow> mb_layout e s"
  by (induction s) (simp_all add: mb_layout_Cons_ascii mb_layout.simps [of e "[]"])

lemmas trigram_eval = word_trigrams_def pad_word_eval c_tolower_def c_ctype_defs windows3_Cons windows3_short

section \<open>Properties\<close>

text \<open>C9: \<open>generate_trgm\<close> returns, in strictly increasing order and so without duplicates, exactly the
  trigrams of the case-folded words of the text, each padded with two spaces before and one after;
  the words are the maximal runs of letters and digits.  This holds in every encoding, although the
  multibyte and the single-byte code paths differ.\<close>

theorem generate_trgm_trigrams:
  assumes "mb_layout e s"
  shows "set (generate_trgm e s) = text_trigrams s \<and> trgm_sorted (generate_trgm e s)"
  by (simp add: generate_trgm_set [OF assms] generate_trgm_sorted)

theorem generate_trgm_trigrams_witness:
  "set (generate_trgm PG_UTF8 [0x41, 0x62]) = {(0x20, 0x20, 0x61), (0x20, 0x61, 0x62), (0x61, 0x62, 0x20)} \<and>
   trgm_sorted (generate_trgm PG_UTF8 [0x41, 0x62])"
proof -
  have "alnum_words [0x41, 0x62] = [[0x41, 0x62]]" by (simp add: alnum_words.simps c_ctype_defs)
  then have "text_trigrams [0x41, 0x62] = {(0x20, 0x20, 0x61), (0x20, 0x61, 0x62), (0x61, 0x62, 0x20)}"
    by (simp add: text_trigrams_def trigram_eval)
  moreover have "mb_layout PG_UTF8 [0x41, 0x62]" by (rule mb_layout_ascii) simp
  ultimately show ?thesis using generate_trgm_trigrams [of PG_UTF8 "[0x41, 0x62]"] by simp
qed

text \<open>The arrays \<open>generate_trgm\<close> allocates are large enough: the trigrams of all words together fit the
  \<open>(slen / 2 + 1) * 3\<close> entries of the result, and a word with its padding and the extra space the code
  writes after it fits the \<open>slen + 4\<close> bytes of \<open>buf\<close>.\<close>

lemma generate_trgm_fits:
  assumes "mb_layout e s"
  shows "length (generate_words e s) \<le> (length s div 2 + 1) * 3 \<and>
         list_all (\<lambda>w. length (pad_word (lowerstr_with_len w)) + 1 \<le> length s + 4) (alnum_words s)"
proof
  show "length (generate_words e s) \<le> (length s div 2 + 1) * 3" by (rule generate_words_length [OF assms])
  have "length (lowerstr_with_len w) \<le> length w" for w
    by (simp add: lowerstr_with_len_def length_takeWhile_le)
  then have "length (lowerstr_with_len w) \<le> length s" if "w \<in> set (alnum_words s)" for w
    using alnum_word_length [OF that] le_trans by blast
  then show "list_all (\<lambda>w. length (pad_word (lowerstr_with_len w)) + 1 \<le> length s + 4) (alnum_words s)"
    by (simp add: list_all_iff pad_word_eval)
qed

lemma generate_trgm_fits_witness:
  "length (generate_words PG_UTF8 [0x41, 0x2D, 0x62]) \<le> 6"
  using generate_trgm_fits [of PG_UTF8 "[0x41, 0x2D, 0x62]"] mb_layout_ascii [of "[0x41, 0x2D, 0x62]" PG_UTF8]
  by simp

end
