(* ===== verification/FloatModel.thy ===== *)
theory FloatModel
  imports Prelude Complex_Main "HOL-Library.Log_Nat"
begin

text \<open>
  C's \<open>float\<close> (\<open>float4\<close>) and \<open>double\<close> (\<open>float8\<close>) as IEEE 754 binary32 and binary64 with
  round-to-nearest-even, on exact rationals: a value is a rational that fits the significand, and an
  operation is the exact operation followed by rounding.  The values the modelled code computes with
  are quotients of array lengths, thresholds between 0 and 1 and small products of counts, all far
  from the ends of the exponent range, so overflow and subnormal numbers do not occur and are not
  modelled.  Not-a-number and the infinities are, because \<open>0/0\<close> does occur.
\<close>

section \<open>Rounding\<close>

definition round_half_even :: "rat \<Rightarrow> int" where
  "round_half_even m =
     (let f = \<lfloor>m\<rfloor>; d = m - of_int f
      in if d < 1 / 2 then f else if d > 1 / 2 then f + 1 else if even f then f else f + 1)"

text \<open>The exponent \<open>k\<close> with \<open>2 ^ k \<le> x < 2 ^ (k + 1)\<close>.\<close>

definition flog2 :: "rat \<Rightarrow> int" where
  "flog2 x = (case quotient_of x of (n, d) \<Rightarrow>
     let k = bitlen n - bitlen d in if 2 powi k \<le> x then k else k - 1)"

definition rnd_pos :: "nat \<Rightarrow> rat \<Rightarrow> rat" where
  "rnd_pos p x = (let e = int p - 1 - flog2 x in of_int (round_half_even (x * 2 powi e)) * 2 powi (- e))"

definition rnd :: "nat \<Rightarrow> rat \<Rightarrow> rat" where
  "rnd p x = (if x = 0 then 0 else if x < 0 then - rnd_pos p (- x) else rnd_pos p x)"

text \<open>Numbers with a significand of at most \<open>p\<close> bits.\<close>

definition representable :: "nat \<Rightarrow> rat \<Rightarrow> bool" where
  "representable p x \<longleftrightarrow> (\<exists>m e. x = of_int m * 2 powi e \<and> \<bar>m\<bar> \<le> 2 ^ p)"

section \<open>Values\<close>

datatype cfloat = NaN | PInf | NInf | Num rat

definition cdiv :: "nat \<Rightarrow> rat \<Rightarrow> rat \<Rightarrow> cfloat" where
  "cdiv p x y =
     (if y = 0 then (if x = 0 then NaN else if x > 0 then PInf else NInf) else Num (rnd p (x / y)))"

text \<open>Widening a \<open>float\<close> to \<open>double\<close> is exact; narrowing rounds.\<close>

fun cnarrow :: "nat \<Rightarrow> cfloat \<Rightarrow> cfloat" where
  "cnarrow p (Num x) = Num (rnd p x)"
| "cnarrow p v = v"

fun csub :: "nat \<Rightarrow> rat \<Rightarrow> cfloat \<Rightarrow> cfloat" where
  "csub p x (Num y) = Num (rnd p (x - y))"
| "csub p x NaN = NaN"
| "csub p x PInf = NInf"
| "csub p x NInf = PInf"

text \<open>Every comparison with a NaN is false.\<close>

fun cge :: "cfloat \<Rightarrow> cfloat \<Rightarrow> bool" where
  "cge (Num x) (Num y) = (x \<ge> y)"
| "cge PInf (Num y) = True"
| "cge PInf PInf = True"
| "cge PInf NInf = True"
| "cge (Num x) NInf = True"
| "cge NInf NInf = True"
| "cge _ _ = False"

fun cgt :: "cfloat \<Rightarrow> cfloat \<Rightarrow> bool" where
  "cgt (Num x) (Num y) = (x > y)"
| "cgt PInf (Num y) = True"
| "cgt PInf NInf = True"
| "cgt (Num x) NInf = True"
| "cgt _ _ = False"

abbreviation float4_bits :: nat where "float4_bits \<equiv> 24"
abbreviation float8_bits :: nat where "float8_bits \<equiv> 53"

section \<open>Laws of rounding\<close>

lemma round_half_even_mono: "x \<le> y \<Longrightarrow> round_half_even x \<le> round_half_even y"
proof -
  assume le: "x \<le> y"
  have f: "\<lfloor>x\<rfloor> \<le> \<lfloor>y\<rfloor>" using le by (rule floor_mono)
  have up: "round_half_even z \<le> \<lfloor>z\<rfloor> + 1" and lo: "\<lfloor>z\<rfloor> \<le> round_half_even z" for z
    by (auto simp: round_half_even_def Let_def)
  show ?thesis
  proof (cases "\<lfloor>x\<rfloor> = \<lfloor>y\<rfloor>")
    case True
    then show ?thesis using le by (auto simp: round_half_even_def Let_def)
  next
    case False
    then show ?thesis using f up [of x] lo [of y] by linarith
  qed
qed

lemma round_half_even_int [simp]: "round_half_even (of_int k) = k"
  by (simp add: round_half_even_def)

lemma round_half_even_unique:
  assumes "m - 1 / 2 < of_int k" "of_int k < m + 1 / 2"
  shows "round_half_even m = k"
proof -
  have "of_int \<lfloor>m\<rfloor> \<le> m" "m < of_int \<lfloor>m\<rfloor> + 1" by linarith+
  then have "of_int \<lfloor>m\<rfloor> < (of_int k + 1 :: rat)" "of_int k < (of_int \<lfloor>m\<rfloor> + 2 :: rat)" using assms by linarith+
  then have "of_int \<lfloor>m\<rfloor> < (of_int (k + 1) :: rat)" "of_int k < (of_int (\<lfloor>m\<rfloor> + 2) :: rat)" by simp_all
  then have "\<lfloor>m\<rfloor> < k + 1" "k < \<lfloor>m\<rfloor> + 2" by (simp_all only: of_int_less_iff)
  then consider "k = \<lfloor>m\<rfloor>" | "k = \<lfloor>m\<rfloor> + 1" by linarith
  then show ?thesis using assms by cases (auto simp: round_half_even_def Let_def)
qed

lemma bitlen_powi:
  assumes "0 < n"
  shows "(2 :: rat) powi (bitlen n - 1) \<le> of_int n" "of_int n < (2 :: rat) powi bitlen n"
proof -
  have b: "2 ^ nat (bitlen n - 1) \<le> n" "n < 2 ^ nat (bitlen n)" using bitlen_bounds [OF assms] by auto
  have pos: "0 < bitlen n" using assms bitlen_ge_iff_power [of 1 n] by simp
  have "(2 :: rat) powi (bitlen n - 1) = of_int (2 ^ nat (bitlen n - 1))"
    using pos by (simp add: power_int_def)
  then show "(2 :: rat) powi (bitlen n - 1) \<le> of_int n" using b(1) by (simp only: of_int_le_iff)
  have "(2 :: rat) powi bitlen n = of_int (2 ^ nat (bitlen n))"
    using pos by (simp add: power_int_def)
  then show "of_int n < (2 :: rat) powi bitlen n" using b(2) by (simp only: of_int_less_iff)
qed

lemma powi_less: "(2 :: rat) powi a < 2 powi b \<Longrightarrow> a < b"
  using power_int_increasing [of b a "2 :: rat"] by (cases "b \<le> a") auto

lemma flog2_bounds:
  assumes "0 < x"
  shows "2 powi flog2 x \<le> x" "x < 2 powi (flog2 x + 1)"
proof -
  obtain n d where q: "quotient_of x = (n, d)" by (metis surj_pair)
  have d: "0 < d" using quotient_of_denom_pos [OF q] .
  have x: "x = of_int n / of_int d" using quotient_of_div [OF q] .
  have n: "0 < n" using assms d by (simp add: x zero_less_divide_iff)
  let ?k = "bitlen n - bitlen d"
  have "(2 :: rat) powi (?k - 1) = 2 powi (bitlen n - 1) / 2 powi bitlen d"
    by (simp add: power_int_diff [symmetric] algebra_simps)
  also have "\<dots> \<le> x" unfolding x using bitlen_powi [OF n] bitlen_powi [OF d] n d
    by (intro frac_le) (auto intro: less_imp_le)
  finally have lo: "2 powi (?k - 1) \<le> x" .
  have "x < 2 powi bitlen n / 2 powi (bitlen d - 1)" unfolding x
    using bitlen_powi [OF n] bitlen_powi [OF d] n d by (intro frac_less) auto
  also have "\<dots> = (2 :: rat) powi (?k + 1)"
    by (simp add: power_int_diff [symmetric] algebra_simps)
  finally have hi: "x < 2 powi (?k + 1)" .
  show "2 powi flog2 x \<le> x" "x < 2 powi (flog2 x + 1)"
    using lo hi by (auto simp: flog2_def q Let_def)
qed

lemma flog2_unique:
  assumes "2 powi k \<le> x" "x < 2 powi (k + 1)"
  shows "flog2 x = k"
proof -
  have x: "0 < x" using assms(1) by (meson less_le_trans zero_less_numeral zero_less_power_int)
  have "(2 :: rat) powi flog2 x < 2 powi (k + 1)" "(2 :: rat) powi k < 2 powi (flog2 x + 1)"
    using flog2_bounds [OF x] assms by (meson le_less_trans)+
  then have "flog2 x < k + 1" "k < flog2 x + 1" by (simp_all only: powi_less)
  then show ?thesis by simp
qed

lemma flog2_mono: "0 < x \<Longrightarrow> x \<le> y \<Longrightarrow> flog2 x \<le> flog2 y"
proof -
  assume x: "0 < x" and le: "x \<le> y"
  have "(2 :: rat) powi flog2 x < 2 powi (flog2 y + 1)"
    using flog2_bounds(1) [OF x] flog2_bounds(2) [of y] x le by linarith
  then show ?thesis using powi_less by fastforce
qed


lemma round_half_even_near: "\<bar>of_int (round_half_even m) - m\<bar> \<le> 1 / 2"
proof -
  have "of_int \<lfloor>m\<rfloor> \<le> m" "m < of_int \<lfloor>m\<rfloor> + 1" by linarith+
  then show ?thesis by (auto simp: round_half_even_def Let_def)
qed

lemma powi_pos [simp]: "0 < (2 :: rat) powi k"
  by simp

lemma powi_split: "(2 :: rat) powi (a + b) = 2 powi a * 2 powi b"
  by (simp add: power_int_add)

lemma powi_cancel [simp]: "(2 :: rat) powi k * 2 powi (- k) = 1" "(2 :: rat) powi (- k) * 2 powi k = 1"
  by (simp_all add: power_int_minus)

lemma pow_powi: "of_int (2 ^ n) * (2 :: rat) powi k = 2 powi (int n + k)"
  by (simp add: powi_split)

text \<open>The rounded significand has \<open>p\<close> bits, or is the next power of two.\<close>

lemma significand_bounds:
  assumes "0 < x" "0 < p"
  shows "2 ^ (p - 1) \<le> round_half_even (x * 2 powi (int p - 1 - flog2 x))"
    and "round_half_even (x * 2 powi (int p - 1 - flog2 x)) \<le> 2 ^ p"
proof -
  let ?e = "int p - 1 - flog2 x"
  have "of_int (2 ^ (p - 1)) = (2 :: rat) powi flog2 x * 2 powi ?e"
    using assms(2) pow_powi [of "p - 1" 0] by (simp add: powi_split [symmetric] of_nat_diff)
  also have "\<dots> \<le> x * 2 powi ?e" using flog2_bounds(1) [OF assms(1)] by simp
  finally show "2 ^ (p - 1) \<le> round_half_even (x * 2 powi ?e)"
    using round_half_even_mono [of "of_int (2 ^ (p - 1))"] by (simp only: round_half_even_int)
  have "x * 2 powi ?e \<le> 2 powi (flog2 x + 1) * 2 powi ?e" using flog2_bounds(2) [OF assms(1)] by simp
  also have "\<dots> = of_int (2 ^ p)" using pow_powi [of p 0] by (simp add: powi_split [symmetric])
  finally show "round_half_even (x * 2 powi ?e) \<le> 2 ^ p"
    using round_half_even_mono [of _ "of_int (2 ^ p)"] by (simp only: round_half_even_int)
qed

lemma rnd_pos_bounds:
  assumes "0 < x" "0 < p"
  shows "2 powi flog2 x \<le> rnd_pos p x" "rnd_pos p x \<le> 2 powi (flog2 x + 1)"
proof -
  let ?e = "int p - 1 - flog2 x" let ?r = "round_half_even (x * 2 powi ?e)"
  have "2 powi flog2 x = of_int (2 ^ (p - 1)) * (2 :: rat) powi (- ?e)"
    unfolding pow_powi using assms(2) by (simp add: of_nat_diff)
  also have "\<dots> \<le> of_int ?r * 2 powi (- ?e)"
    using significand_bounds(1) [OF assms] by (intro mult_right_mono) (simp_all only: of_int_le_iff powi_pos less_imp_le)
  finally show "2 powi flog2 x \<le> rnd_pos p x" by (simp only: rnd_pos_def Let_def)
  have "of_int ?r * 2 powi (- ?e) \<le> of_int (2 ^ p) * (2 :: rat) powi (- ?e)"
    using significand_bounds(2) [OF assms] by (intro mult_right_mono) (simp_all only: of_int_le_iff powi_pos less_imp_le)
  also have "\<dots> = (2 :: rat) powi (flog2 x + 1)" unfolding pow_powi by simp
  finally show "rnd_pos p x \<le> 2 powi (flog2 x + 1)" by (simp only: rnd_pos_def Let_def)
qed

lemma rnd_pos_mono:
  assumes "0 < x" "x \<le> y" "0 < p"
  shows "rnd_pos p x \<le> rnd_pos p y"
proof (cases "flog2 x = flog2 y")
  case True
  have "x * 2 powi (int p - 1 - flog2 x) \<le> y * 2 powi (int p - 1 - flog2 x)" using assms by simp
  then show ?thesis using True by (simp add: rnd_pos_def Let_def round_half_even_mono)
next
  case False
  then have "flog2 x + 1 \<le> flog2 y" using flog2_mono [OF assms(1,2)] by simp
  then have "(2 :: rat) powi (flog2 x + 1) \<le> 2 powi flog2 y" by (intro power_int_increasing) auto
  then show ?thesis using rnd_pos_bounds [of x p] rnd_pos_bounds [of y p] assms by linarith
qed

lemma rnd_pos_pos: "0 < x \<Longrightarrow> 0 < p \<Longrightarrow> 0 < rnd_pos p x"
  using rnd_pos_bounds(1) [of x p] powi_pos [of "flog2 x"] by linarith

lemma rnd_mono:
  assumes le: "x \<le> y" and p: "0 < p"
  shows "rnd p x \<le> rnd p y"
proof -
  consider "x = 0" | "y = 0" | "0 < x" | "y < 0" | "x < 0" "0 < y" by linarith
  then show ?thesis
  proof cases
    case 3 then show ?thesis using rnd_pos_mono [OF _ le p] le by (simp add: rnd_def)
  next
    case 4 then show ?thesis using rnd_pos_mono [of "- y" "- x", OF _ _ p] le by (simp add: rnd_def)
  next
    case 5 then show ?thesis using rnd_pos_pos [OF _ p, of y] rnd_pos_pos [OF _ p, of "- x"] by (simp add: rnd_def)
  next
    case 1 then show ?thesis using rnd_pos_pos [OF _ p, of y] le by (auto simp: rnd_def intro: less_imp_le)
  next
    case 2 then show ?thesis using rnd_pos_pos [OF _ p, of "- x"] le by (auto simp: rnd_def intro: less_imp_le)
  qed
qed

lemma rnd_0 [simp]: "rnd p 0 = 0"
  by (simp add: rnd_def)

text \<open>A value with at most \<open>p\<close> significant bits is not changed.\<close>

lemma rnd_pos_int:
  assumes "x * 2 powi (int p - 1 - flog2 x) = of_int z"
  shows "rnd_pos p x = x"
proof -
  have "rnd_pos p x = x * 2 powi (int p - 1 - flog2 x) * 2 powi (- (int p - 1 - flog2 x))"
    unfolding rnd_pos_def Let_def assms round_half_even_int ..
  also have "\<dots> = x" by (simp only: mult.assoc powi_cancel mult_1_right)
  finally show ?thesis .
qed

lemma rnd_pos_exact:
  assumes m: "0 < m" "m < 2 ^ p"
  shows "rnd_pos p (of_int m * 2 powi k) = of_int m * 2 powi k"
proof -
  have mp: "(0 :: rat) < of_int m" using m by simp
  let ?j = "flog2 (of_int m)"
  have b: "2 powi ?j \<le> (of_int m :: rat)" "of_int m < (2 :: rat) powi (?j + 1)" by (rule flog2_bounds [OF mp])+
  have "(of_int m :: rat) < of_int (2 ^ p)" using m by (simp only: of_int_less_iff)
  then have "(2 :: rat) powi ?j < 2 powi int p" using b(1) by (simp add: le_less_trans)
  then have jp: "?j < int p" by (rule powi_less)
  have f: "flog2 (of_int m * 2 powi k) = ?j + k"
  proof (rule flog2_unique)
    show "2 powi (?j + k) \<le> of_int m * (2 :: rat) powi k" unfolding powi_split using b(1) by simp
    have "of_int m * (2 :: rat) powi k < 2 powi (?j + 1) * 2 powi k" using b(2) by simp
    also have "\<dots> = 2 powi (?j + k + 1)" unfolding powi_split [symmetric] by (simp add: algebra_simps)
    finally show "of_int m * (2 :: rat) powi k < 2 powi (?j + k + 1)" .
  qed
  have "of_int m * 2 powi k * 2 powi (int p - 1 - (?j + k)) = (of_int m :: rat) * 2 powi (int p - 1 - ?j)"
    unfolding mult.assoc powi_split [symmetric] by (simp add: algebra_simps)
  also have "\<dots> = of_int m * 2 ^ nat (int p - 1 - ?j)" using jp by (simp add: power_int_def)
  also have "\<dots> = of_int (m * 2 ^ nat (int p - 1 - ?j))" by simp
  finally show ?thesis unfolding f [symmetric] by (rule rnd_pos_int)
qed

lemma rnd_exact:
  assumes p: "0 < p" and m: "\<bar>m\<bar> \<le> 2 ^ p"
  shows "rnd p (of_int m * 2 powi k) = of_int m * 2 powi k"
proof -
  have pos: "rnd_pos p (of_int n * 2 powi k) = of_int n * 2 powi k" if n: "0 < n" "n \<le> 2 ^ p" for n
  proof (cases "n = 2 ^ p")
    case True
    have "of_int n * 2 powi k = of_int (2 ^ (p - 1)) * (2 :: rat) powi (k + 1)"
      unfolding True pow_powi using p by (simp add: of_nat_diff)
    then show ?thesis using rnd_pos_exact [of "2 ^ (p - 1)" p "k + 1"] p by simp
  qed (use n rnd_pos_exact [of n p k] in simp)
  have sg: "(of_int m * 2 powi k < (0 :: rat)) = (m < 0)" "(of_int m * 2 powi k = (0 :: rat)) = (m = 0)"
    using less_asym [OF powi_pos [of k]] by (auto simp: mult_less_0_iff)
  show ?thesis
    using pos [of m] pos [of "- m"] m unfolding rnd_def sg by auto
qed

lemma rnd_representable: "0 < p \<Longrightarrow> representable p x \<Longrightarrow> rnd p x = x"
  by (auto simp: representable_def rnd_exact)

lemma rnd_1 [simp]: "0 < p \<Longrightarrow> rnd p 1 = 1"
  using rnd_exact [of p 1 0] by simp

lemma rnd_unit: "0 < p \<Longrightarrow> 0 \<le> x \<Longrightarrow> x \<le> 1 \<Longrightarrow> 0 \<le> rnd p x \<and> rnd p x \<le> 1"
  using rnd_mono [of 0 x p] rnd_mono [of x 1 p] by simp

end
