(* ===== verification/TrgmSim.thy ===== *)
theory TrgmSim
  imports TrgmOp FloatModel
begin

text \<open>
  Similarity of two texts (the second half of trgm_op.c): the merge that counts common trigrams, the
  containment test, \<open>similarity\<close>, \<open>similarity_dist\<close>, \<open>similarity_op\<close>, the threshold and \<open>trgm2int\<close>.
  The header the hw5 tree compiles against (src/include/utils/trgm.h) does not define \<open>DIVUNION\<close>, so
  the similarity is the number of common trigrams over the length of the longer array.

  The threshold lives in the environment variable TRGM_LIMIT of the backend process; the model passes
  its value, a string or nothing, as \<open>env\<close>.
\<close>

section \<open>Merging two sorted arrays\<close>

fun cnt_loop :: "trgm list \<Rightarrow> trgm list \<Rightarrow> nat" where
  "cnt_loop (p1 # t1) (p2 # t2) =
     (let res = CMPTRGM p1 p2 in
      if res < 0 then cnt_loop t1 (p2 # t2)
      else if res > 0 then cnt_loop (p1 # t1) t2
      else Suc (cnt_loop t1 t2))"
| "cnt_loop t1 t2 = 0"

text \<open>
  Distinct trigrams number at most \<open>2 ^ 24\<close>, so the conversions of the counts to \<open>float4\<close> are exact.
\<close>

definition cnt_sml :: "trgm list \<Rightarrow> trgm list \<Rightarrow> cfloat" where
  "cnt_sml trg1 trg2 =
     (let count = cnt_loop trg1 trg2; len1 = length trg1; len2 = length trg2
      in cdiv float4_bits (of_nat count) (of_nat (if len1 > len2 then len1 else len2)))"

fun trgm_contained_by :: "trgm list \<Rightarrow> trgm list \<Rightarrow> bool" where
  "trgm_contained_by (p1 # t1) (p2 # t2) =
     (let res = CMPTRGM p1 p2 in
      if res < 0 then False
      else if res > 0 then trgm_contained_by (p1 # t1) t2
      else trgm_contained_by t1 t2)"
| "trgm_contained_by t1 t2 = (t1 = [])"

section \<open>The SQL functions\<close>

definition similarity :: "pg_encoding \<Rightarrow> bytes \<Rightarrow> bytes \<Rightarrow> cfloat" where
  "similarity e in1 in2 = cnt_sml (generate_trgm e in1) (generate_trgm e in2)"

text \<open>\<open>1.0 - res\<close> is a \<open>double\<close>, narrowed for the result.\<close>

definition similarity_dist :: "pg_encoding \<Rightarrow> bytes \<Rightarrow> bytes \<Rightarrow> cfloat" where
  "similarity_dist e in1 in2 = cnarrow float4_bits (csub float8_bits 1 (similarity e in1 in2))"

section \<open>The threshold\<close>

type_synonym env = "string option"

definition digit :: "nat \<Rightarrow> char" where
  "digit d = char_of (48 + d mod 10)"

text \<open>\<open>printf\<close>'s \<open>%f\<close> for a value from 0 to 1: the value correctly rounded to six decimals.\<close>

definition sprintf_f :: "rat \<Rightarrow> string" where
  "sprintf_f x =
     (let k = nat (round_half_even (x * 1000000))
      in [digit (k div 1000000), CHR ''.'', digit (k div 100000), digit (k div 10000),
          digit (k div 1000), digit (k div 100), digit (k div 10), digit k])"

text \<open>\<open>atof\<close> on digits with an optional fraction; anything else after them is ignored.\<close>

definition is_digit :: "char \<Rightarrow> bool" where
  "is_digit c \<longleftrightarrow> 48 \<le> (of_char c :: nat) \<and> (of_char c :: nat) \<le> 57"

definition digits_val :: "string \<Rightarrow> nat" where
  "digits_val s = foldl (\<lambda>a c. 10 * a + (of_char c - 48)) 0 s"

definition atof :: "string \<Rightarrow> cfloat" where
  "atof s =
     (if s = ''nan'' then NaN
      else let i = takeWhile is_digit s; r = dropWhile is_digit s;
               f = (if r \<noteq> [] \<and> hd r = CHR ''.'' then takeWhile is_digit (tl r) else [])
           in Num (rnd float8_bits (of_nat (digits_val i) + of_nat (digits_val f) / 10 ^ length f)))"

definition trgm_limit :: "env \<Rightarrow> cfloat" where
  "trgm_limit env =
     (case env of
        None \<Rightarrow> Num (rnd float8_bits (3 / 10))
      | Some trgm_limit_str \<Rightarrow>
          if trgm_limit_str = '''' then Num (rnd float8_bits (3 / 10)) else atof trgm_limit_str)"

fun sprintf_limit :: "cfloat \<Rightarrow> string" where
  "sprintf_limit (Num x) = sprintf_f x"
| "sprintf_limit NaN = ''nan''"
| "sprintf_limit PInf = ''inf''"
| "sprintf_limit NInf = ''-inf''"

definition set_limit :: "env \<Rightarrow> cfloat \<Rightarrow> pg_error + (env \<times> cfloat)" where
  "set_limit env nlimit =
     (if cgt (Num 0) nlimit \<or> cgt nlimit (Num 1) then Inl WrongLimit
      else let env' = Some (sprintf_limit nlimit)
           in Inr (env', cnarrow float4_bits (trgm_limit env')))"

definition show_limit :: "env \<Rightarrow> cfloat" where
  "show_limit env = cnarrow float4_bits (trgm_limit env)"

definition similarity_op :: "env \<Rightarrow> pg_encoding \<Rightarrow> bytes \<Rightarrow> bytes \<Rightarrow> bool" where
  "similarity_op env e in1 in2 = cge (similarity e in1 in2) (trgm_limit env)"

section \<open>trgm2int and show_trgm\<close>

definition trgm2int :: "trgm \<Rightarrow> 32 word" where
  "trgm2int ptr =
     (case ptr of (a, b, c) \<Rightarrow>
        let val = 0 OR ucast a;
            val = push_bit 8 val;
            val = val OR ucast b;
            val = push_bit 8 val
        in val OR ucast c)"

definition hex_digit :: "nat \<Rightarrow> byte" where
  "hex_digit d = (if d < 10 then of_nat (48 + d) else of_nat (87 + d))"

text \<open>\<open>snprintf(..., 12, "0x%06x", ...)\<close> of a value below \<open>2 ^ 24\<close>.\<close>

definition sprintf_06x :: "32 word \<Rightarrow> bytes" where
  "sprintf_06x w = [0x30, 0x78] @ map (\<lambda>i. hex_digit (unat w div 16 ^ i mod 16)) [5, 4, 3, 2, 1, 0]"

definition show_item :: "pg_encoding \<Rightarrow> trgm \<Rightarrow> bytes" where
  "show_item e ptr =
     (if pg_encoding_max_length e > 1 \<and> \<not> ISPRINTABLETRGM ptr then sprintf_06x (trgm2int ptr)
      else (case ptr of (a, b, c) \<Rightarrow> [a, b, c]))"

definition show_trgm :: "pg_encoding \<Rightarrow> bytes \<Rightarrow> bytes list" where
  "show_trgm e txt = map (show_item e) (generate_trgm e txt)"

section \<open>What the merges compute\<close>

lemma cnt_loop_inter: "trgm_sorted t1 \<Longrightarrow> trgm_sorted t2 \<Longrightarrow> cnt_loop t1 t2 = card (set t1 \<inter> set t2)"
proof (induction t1 t2 rule: cnt_loop.induct)
  case (1 p1 t1 p2 t2)
  have s: "\<forall>x \<in> set t1. trgm_key p1 < trgm_key x" "\<forall>x \<in> set t2. trgm_key p2 < trgm_key x"
    "trgm_sorted t1" "trgm_sorted t2" using "1.prems" by auto
  consider "trgm_key p1 < trgm_key p2" | "trgm_key p2 < trgm_key p1" | "p1 = p2"
    using trgm_key_inj [of p1 p2] by linarith
  then show ?case
  proof cases
    case 1
    then have "p1 \<notin> set (p2 # t2)" using s(2) by auto
    then show ?thesis using "1.IH"(1) 1 s "1.prems" by (simp add: CMPTRGM_laws Let_def)
  next
    case 2
    then have "p2 \<notin> set (p1 # t1)" using s(1) by auto
    then have "set (p1 # t1) \<inter> set (p2 # t2) = set (p1 # t1) \<inter> set t2" by auto
    then show ?thesis using "1.IH"(2) 2 s "1.prems" by (simp add: CMPTRGM_laws Let_def del: Int_insert_left Int_insert_right)
  next
    case 3
    then have "p2 \<notin> set t1 \<inter> set t2" "set (p1 # t1) \<inter> set (p2 # t2) = insert p2 (set t1 \<inter> set t2)"
      using s by auto
    then show ?thesis using "1.IH"(3) 3 s by (simp add: CMPTRGM_laws Let_def del: Int_insert_left Int_insert_right)
  qed
qed simp_all

lemma contained_by_subset: "trgm_sorted t1 \<Longrightarrow> trgm_sorted t2 \<Longrightarrow> trgm_contained_by t1 t2 \<longleftrightarrow> set t1 \<subseteq> set t2"
proof (induction t1 t2 rule: trgm_contained_by.induct)
  case (1 p1 t1 p2 t2)
  have s: "\<forall>x \<in> set t1. trgm_key p1 < trgm_key x" "\<forall>x \<in> set t2. trgm_key p2 < trgm_key x"
    "trgm_sorted t1" "trgm_sorted t2" using "1.prems" by auto
  consider "trgm_key p1 < trgm_key p2" | "trgm_key p2 < trgm_key p1" | "p1 = p2"
    using trgm_key_inj [of p1 p2] by linarith
  then show ?case
  proof cases
    case 1
    then have "p1 \<notin> set (p2 # t2)" using s(2) by auto
    then show ?thesis using 1 by (auto simp: CMPTRGM_laws Let_def)
  next
    case 2
    then have "p2 \<notin> set (p1 # t1)" using s(1) by auto
    then show ?thesis using "1.IH"(1) 2 s "1.prems" by (auto simp: CMPTRGM_laws Let_def)
  next
    case 3
    then have "p2 \<notin> set t1" using s by auto
    then show ?thesis using "1.IH"(2) 3 s by (auto simp: CMPTRGM_laws Let_def)
  qed
qed auto

section \<open>The similarity as a number\<close>

lemma trgm_array_bound: "trgm_sorted xs \<Longrightarrow> length xs \<le> 2 ^ 24"
proof -
  assume "trgm_sorted xs"
  then have "length xs = card (set xs)" by (simp add: distinct_card [OF trgm_sorted_distinct])
  also have "\<dots> \<le> card (UNIV :: trgm set)" by (intro card_mono) auto
  also have "\<dots> = 2 ^ 24" by (simp add: card_word)
  finally show ?thesis .
qed

definition overlap :: "trgm list \<Rightarrow> trgm list \<Rightarrow> rat" where
  "overlap t1 t2 = of_nat (card (set t1 \<inter> set t2)) / of_nat (max (length t1) (length t2))"

lemma cnt_sml_overlap:
  assumes "trgm_sorted t1" "trgm_sorted t2" "t1 \<noteq> [] \<or> t2 \<noteq> []"
  shows "cnt_sml t1 t2 = Num (rnd float4_bits (overlap t1 t2))"
  using assms by (auto simp: cnt_sml_def cdiv_def overlap_def cnt_loop_inter Let_def max_def)

lemma cnt_sml_empty: "cnt_sml [] [] = NaN"
  by (simp add: cnt_sml_def cdiv_def)

lemma inter_card_le: "card (set t1 \<inter> set t2) \<le> length t1" "card (set t1 \<inter> set t2) \<le> length t2"
  using card_mono [of "set t1" "set t1 \<inter> set t2"] card_mono [of "set t2" "set t1 \<inter> set t2"]
    card_length [of t1] card_length [of t2] by auto

lemma overlap_unit: "0 \<le> overlap t1 t2" "overlap t1 t2 \<le> 1"
  using inter_card_le [of t1 t2] by (auto simp: overlap_def divide_le_eq)

lemma overlap_one:
  assumes "trgm_sorted t1" "trgm_sorted t2" "t1 \<noteq> [] \<or> t2 \<noteq> []"
  shows "overlap t1 t2 = 1 \<longleftrightarrow> set t1 = set t2"
proof -
  have len: "length t1 = card (set t1)" "length t2 = card (set t2)"
    using assms by (simp_all add: distinct_card trgm_sorted_distinct)
  have "overlap t1 t2 = 1 \<longleftrightarrow> card (set t1 \<inter> set t2) = max (length t1) (length t2)"
    using assms(3) by (auto simp: overlap_def divide_eq_eq max_def)
  also have "\<dots> \<longleftrightarrow> set t1 = set t2"
  proof
    assume c: "card (set t1 \<inter> set t2) = max (length t1) (length t2)"
    then have "card (set t1) \<le> card (set t1 \<inter> set t2)" "card (set t2) \<le> card (set t1 \<inter> set t2)" using len by auto
    then have "set t1 \<inter> set t2 = set t1" "set t1 \<inter> set t2 = set t2" by (simp_all add: card_seteq)
    then show "set t1 = set t2" by simp
  qed (simp add: len)
  finally show ?thesis .
qed

lemma overlap_rnd_one:
  assumes "trgm_sorted t1" "trgm_sorted t2" "t1 \<noteq> [] \<or> t2 \<noteq> []"
  shows "rnd float4_bits (overlap t1 t2) = 1 \<longleftrightarrow> overlap t1 t2 = 1"
proof
  let ?c = "card (set t1 \<inter> set t2)" and ?m = "max (length t1) (length t2)"
  assume r: "rnd float4_bits (overlap t1 t2) = 1"
  show "overlap t1 t2 = 1"
  proof (rule ccontr)
    assume "overlap t1 t2 \<noteq> 1"
    then have lt: "overlap t1 t2 < 1" using overlap_unit(2) [of t1 t2] by simp
    have pos: "0 < ?m" using assms(3) by (cases t1; cases t2) auto
    then have cm: "?c < ?m" using lt by (simp add: overlap_def divide_less_eq)
    have m: "?m \<le> 2 ^ 24" using trgm_array_bound [OF assms(1)] trgm_array_bound [OF assms(2)] by simp
    have "overlap t1 t2 \<le> (of_nat ?m - 1) / of_nat ?m"
      unfolding overlap_def using cm by (intro divide_right_mono) (auto simp: less_eq_Suc_le of_nat_diff le_diff_eq)
    also have "\<dots> = 1 - 1 / of_nat ?m" using pos by (simp add: diff_divide_distrib, cases t1, auto)
    also have "\<dots> \<le> 1 - 1 / 2 ^ 24"
    proof -
      have "(of_nat ?m :: rat) \<le> of_nat (2 ^ 24)" using m by (simp only: of_nat_le_iff)
      then have "1 / (2 ^ 24 :: rat) \<le> 1 / of_nat ?m" using pos by (intro divide_left_mono) auto
      then show ?thesis by simp
    qed
    finally have "rnd float4_bits (overlap t1 t2) \<le> rnd float4_bits (1 - 1 / 2 ^ 24)" by (intro rnd_mono) auto
    also have "rnd float4_bits (1 - 1 / 2 ^ 24) = 1 - 1 / 2 ^ 24"
      using rnd_exact [of 24 "2 ^ 24 - 1" "-24"] by (simp add: power_int_minus)
    finally show False using r by simp
  qed
qed simp

section \<open>trgm2int is injective\<close>

lemma trgm2int_value: "unat (trgm2int (a, b, c)) = (unat a * 256 + unat b) * 256 + unat c"
proof -
  have u: "unat (x :: byte) < 256" for x using unsigned_less [of x] by simp
  have ab: "unat (push_bit 8 (ucast a :: 32 word) OR ucast b) = unat a * 256 + unat b"
    using unat_push_bit_or [of "ucast b :: 32 word" 8 "ucast a"] u [of a] u [of b] by simp
  have "unat (push_bit 8 (push_bit 8 (ucast a :: 32 word) OR ucast b) OR ucast c)
        = (unat a * 256 + unat b) * 256 + unat c"
    using unat_push_bit_or [of "ucast c :: 32 word" 8 "push_bit 8 (ucast a) OR ucast b"]
      u [of a] u [of b] u [of c] unfolding ab by simp
  then show ?thesis by (simp add: trgm2int_def Let_def)
qed

lemma base256: "x * 256 + y = x' * 256 + y' \<Longrightarrow> y < 256 \<Longrightarrow> y' < (256 :: nat) \<Longrightarrow> x = x' \<and> y = y'"
proof -
  assume eq: "x * 256 + y = x' * 256 + y'" and y: "y < 256" "y' < 256"
  have "y = (x * 256 + y) mod 256" "y' = (x' * 256 + y') mod 256" using y by simp_all
  then have "y = y'" using eq by simp
  then show "x = x' \<and> y = y'" using eq by simp
qed

lemma trgm2int_inj: "trgm2int s = trgm2int t \<longleftrightarrow> s = t"
proof -
  obtain a b c where s: "s = (a, b, c)" by (cases s)
  obtain d e f where t: "t = (d, e, f)" by (cases t)
  have r: "unat (x :: byte) < 256" for x using unsigned_less [of x] by simp
  have "unat a = unat d \<and> unat b = unat e \<and> unat c = unat f" if "trgm2int s = trgm2int t"
  proof -
    have eq: "(unat a * 256 + unat b) * 256 + unat c = (unat d * 256 + unat e) * 256 + unat f"
      using that unfolding s t trgm2int_value [symmetric] by simp
    note hi = base256 [OF eq r r]
    from base256 [OF conjunct1 [OF hi] r r] conjunct2 [OF hi] show ?thesis by (simp only: simp_thms)
  qed
  then show ?thesis by (auto simp: s t dest: unsigned_word_eqI)
qed

section \<open>Reading back the threshold\<close>

lemma digit_char: "of_char (digit d) = 48 + d mod 10" "is_digit (digit d)"
proof -
  have m: "d mod 10 < 10" by simp
  then have "(48 + d mod 10) mod 256 = 48 + d mod 10" by (intro mod_less) linarith
  then show "of_char (digit d) = 48 + d mod 10" by (simp add: digit_def of_char_of)
  then show "is_digit (digit d)" using m unfolding is_digit_def by simp
qed

lemma dot_not_digit: "\<not> is_digit (CHR ''.'')"
  by (simp add: is_digit_def)

lemma div_step: "(k div m) div 10 * 10 + k div m mod 10 = k div (m :: nat)"
  by simp

lemma six_digits:
  "k div 1000000 * 1000000 + (10 * (10 * (10 * (10 * (10 * (k div 100000 mod 10) + k div 10000 mod 10) + k div 1000 mod 10)
     + k div 100 mod 10) + k div 10 mod 10) + k mod 10) = (k :: nat)"
proof -
  have d: "k div 1000000 = k div 100000 div 10" "k div 100000 = k div 10000 div 10" "k div 10000 = k div 1000 div 10"
    "k div 1000 = k div 100 div 10" "k div 100 = k div 10 div 10"
    by (simp_all add: div_mult2_eq [symmetric])
  have step: "a div 10 * 10 + a mod 10 = a" for a :: nat by (rule div_mult_mod_eq)
  have "k div 1000000 * 1000000 + (10 * (10 * (10 * (10 * (10 * (k div 100000 mod 10) + k div 10000 mod 10) + k div 1000 mod 10)
     + k div 100 mod 10) + k div 10 mod 10) + k mod 10) =
     (((((k div 1000000 * 10 + k div 100000 mod 10) * 10 + k div 10000 mod 10) * 10 + k div 1000 mod 10) * 10
     + k div 100 mod 10) * 10 + k div 10 mod 10) * 10 + k mod 10" by simp
  also have "\<dots> = k" unfolding d(1) step unfolding d(2) step unfolding d(3) step unfolding d(4) step
    unfolding d(5) step ..
  finally show ?thesis .
qed

lemma atof_sprintf:
  assumes "k < 10000000" and k: "k = nat (round_half_even (x * 1000000))"
  shows "atof (sprintf_f x) = Num (rnd float8_bits (of_nat k / 1000000))"
proof -
  have s: "sprintf_f x = [digit (k div 1000000), CHR ''.'', digit (k div 100000), digit (k div 10000),
          digit (k div 1000), digit (k div 100), digit (k div 10), digit k]"
    unfolding sprintf_f_def k Let_def ..
  have m: "k div 1000000 mod 10 = k div 1000000" using assms(1) by simp
  let ?f = "10 * (10 * (10 * (10 * (10 * (k div 100000 mod 10) + k div 10000 mod 10) + k div 1000 mod 10)
     + k div 100 mod 10) + k div 10 mod 10) + k mod 10"
  have nan: "sprintf_f x \<noteq> ''nan''" by (simp add: s)
  have "atof (sprintf_f x) = Num (rnd float8_bits (of_nat (k div 1000000) + of_nat ?f / 10 ^ 6))"
  proof -
    have i: "takeWhile is_digit (sprintf_f x) = [digit (k div 1000000)]" "dropWhile is_digit (sprintf_f x) = tl (sprintf_f x)"
      "takeWhile is_digit (tl (tl (sprintf_f x))) = tl (tl (sprintf_f x))"
      by (simp_all add: s digit_char dot_not_digit)
    have v: "digits_val [digit (k div 1000000)] = k div 1000000" "digits_val (tl (tl (sprintf_f x))) = ?f"
      by (simp_all add: s digits_val_def digit_char m)
    have l: "length (tl (tl (sprintf_f x))) = 6" "tl (sprintf_f x) \<noteq> []" "hd (tl (sprintf_f x)) = CHR ''.''" by (simp_all add: s)
    show ?thesis using nan unfolding atof_def Let_def i v by (simp only: l v i if_True simp_thms if_False)
  qed
  also have "of_nat (k div 1000000) + of_nat ?f / 10 ^ 6 = (of_nat (k div 1000000 * 1000000 + ?f) :: rat) / 1000000"
    by (simp add: field_simps)
  finally show ?thesis unfolding six_digits .
qed

lemma round_half_even_bound: "0 \<le> x \<Longrightarrow> x \<le> 1 \<Longrightarrow> nat (round_half_even (x * 1000000)) \<le> 1000000"
  using round_half_even_mono [of "x * 1000000" "of_int 1000000"] unfolding round_half_even_int by simp

lemma trgm_limit_after_set:
  assumes "0 \<le> x" "x \<le> 1"
  shows "trgm_limit (Some (sprintf_f x)) = Num (rnd float8_bits (of_int (round_half_even (x * 1000000)) / 1000000))"
proof -
  have "0 \<le> round_half_even (x * 1000000)" using round_half_even_mono [of "of_int 0" "x * 1000000"] assms unfolding round_half_even_int by simp
  then have k: "of_nat (nat (round_half_even (x * 1000000))) = (of_int (round_half_even (x * 1000000)) :: rat)"
    by (simp add: of_nat_nat)
  have "atof (sprintf_f x) = Num (rnd float8_bits (of_int (round_half_even (x * 1000000)) / 1000000))"
    using atof_sprintf [OF _ refl, of x] round_half_even_bound [OF assms] unfolding k by simp
  moreover have "sprintf_f x \<noteq> ''''" by (simp add: sprintf_f_def Let_def)
  ultimately show ?thesis by (simp add: trgm_limit_def)
qed

lemma rnd_07: "rnd float4_bits (7 / 10) = 11744051 / 16777216"
  "rnd float8_bits (7 / 10) = 6305039478318694 / 9007199254740992"
proof -
  have f: "flog2 (7 / 10) = - 1" by (rule flog2_unique) (simp_all add: power_int_minus)
  have r: "round_half_even (58720256 / 5) = 11744051" "round_half_even (31525197391593472 / 5) = 6305039478318694"
    by (rule round_half_even_unique; simp)+
  show "rnd float4_bits (7 / 10) = 11744051 / 16777216"
    "rnd float8_bits (7 / 10) = 6305039478318694 / 9007199254740992"
    by (simp_all add: rnd_def rnd_pos_def f Let_def power_int_minus r)
qed

lemma similarity_ascii:
  assumes "text_trigrams s = A" "text_trigrams t = B" "A \<noteq> {}" "pg_encoding_max_length e = 1"
  shows "similarity e s t = Num (rnd float4_bits (of_nat (card (A \<inter> B)) / of_nat (max (card A) (card B))))"
proof -
  have "set (generate_trgm e s) = A" "set (generate_trgm e t) = B"
    using generate_trgm_set mb_layout_single_byte [OF assms(4)] assms(1,2) by auto
  moreover from this have "length (generate_trgm e s) = card A" "length (generate_trgm e t) = card B"
    using distinct_card [OF trgm_sorted_distinct [OF generate_trgm_sorted]] by metis+
  moreover have "generate_trgm e s \<noteq> []" using calculation(1) assms(3) by auto
  ultimately show ?thesis
    using cnt_sml_overlap [OF generate_trgm_sorted generate_trgm_sorted, of e s e t]
    by (simp add: similarity_def overlap_def)
qed

section \<open>Properties\<close>

text \<open>The merge over two trigram arrays in \<open>cnt_sml\<close> counts the trigrams they share, and
  \<open>trgm_contained_by\<close> decides inclusion, for all arrays \<open>generate_trgm\<close> makes.\<close>

lemma trigram_merges:
  "cnt_loop (generate_trgm e s) (generate_trgm e t) = card (set (generate_trgm e s) \<inter> set (generate_trgm e t)) \<and>
   (trgm_contained_by (generate_trgm e s) (generate_trgm e t) \<longleftrightarrow> set (generate_trgm e s) \<subseteq> set (generate_trgm e t))"
  by (simp add: cnt_loop_inter contained_by_subset generate_trgm_sorted)

text \<open>The similarity does not depend on the order of its arguments; it is not-a-number if neither text
  has a trigram, and otherwise a number from 0 to 1 that is 1 just when the two texts have the same
  trigrams.\<close>

lemma similarity_number:
  "similarity e s t = similarity e t s \<and>
   (if generate_trgm e s = [] \<and> generate_trgm e t = [] then similarity e s t = NaN
    else \<exists>q. similarity e s t = Num q \<and> 0 \<le> q \<and> q \<le> 1 \<and>
             (q = 1 \<longleftrightarrow> set (generate_trgm e s) = set (generate_trgm e t)))"
proof -
  have comm: "overlap a b = overlap b a" for a b by (simp add: overlap_def Int_commute max.commute)
  show ?thesis
  proof (cases "generate_trgm e s = [] \<and> generate_trgm e t = []")
    case True
    then show ?thesis by (simp add: similarity_def cnt_sml_empty)
  next
    case False
    then have ne: "generate_trgm e s \<noteq> [] \<or> generate_trgm e t \<noteq> []" "generate_trgm e t \<noteq> [] \<or> generate_trgm e s \<noteq> []" by auto
    note srt = generate_trgm_sorted [of e s] generate_trgm_sorted [of e t]
    have "similarity e s t = Num (rnd float4_bits (overlap (generate_trgm e s) (generate_trgm e t)))"
      "similarity e t s = Num (rnd float4_bits (overlap (generate_trgm e s) (generate_trgm e t)))"
      using cnt_sml_overlap [OF srt ne(1)] cnt_sml_overlap [OF srt(2,1) ne(2)] comm by (simp_all add: similarity_def)
    then show ?thesis
      using False rnd_unit [OF _ overlap_unit, of float4_bits "generate_trgm e s" "generate_trgm e t"]
        overlap_rnd_one [OF srt ne(1)] overlap_one [OF srt ne(1)] by simp
  qed
qed

text \<open>\<open>trgm2int\<close>, which makes the key of a trigram in a GIN index, gives different trigrams different keys.\<close>

lemma trgm2int_injective: "inj trgm2int"
  by (rule injI) (simp add: trgm2int_inj)

text \<open>\<open>set_limit\<close> rejects what is not between 0 and 1; any other threshold it stores as a string of six
  decimals, so the threshold the operators then compare with is the \<open>double\<close> nearest to the argument
  rounded to a millionth, which differs from the argument by at most half a millionth before that
  last rounding, and what \<open>set_limit\<close> returns is that \<open>double\<close> narrowed.\<close>

lemma set_limit_threshold:
  "set_limit env (Num x) =
     (if x < 0 \<or> x > 1 then Inl WrongLimit
      else let t = rnd float8_bits (of_int (round_half_even (x * 1000000)) / 1000000)
           in Inr (Some (sprintf_f x), Num (rnd float4_bits t))) \<and>
   (0 \<le> x \<and> x \<le> 1 \<longrightarrow>
      trgm_limit (Some (sprintf_f x)) = Num (rnd float8_bits (of_int (round_half_even (x * 1000000)) / 1000000)) \<and>
      \<bar>of_int (round_half_even (x * 1000000)) / 1000000 - x\<bar> \<le> 1 / 2000000)"
proof -
  have "\<bar>of_int (round_half_even (x * 1000000)) / 1000000 - x\<bar> \<le> 1 / 2000000"
    using round_half_even_near [of "x * 1000000"] by (simp add: abs_le_iff field_simps)
  then show ?thesis
    using trgm_limit_after_set [of x] by (auto simp: set_limit_def Let_def not_less)
qed

lemma set_limit_threshold_witness:
  "trgm_limit (Some (sprintf_f (1 / 2))) = Num (1 / 2) \<and> set_limit None (Num 2) = Inl WrongLimit"
proof -
  have "round_half_even (500000 :: rat) = 500000" by (rule round_half_even_unique; simp)
  moreover have "rnd float8_bits (1 / 2) = 1 / 2" using rnd_exact [of 53 1 "-1"] by (simp add: power_int_minus)
  ultimately show ?thesis
    using set_limit_threshold [of None "1 / 2"] set_limit_threshold [of None 2] by simp
qed

text \<open>A threshold may miss a pair whose similarity equals it: after \<open>set_limit(0.7)\<close>, which returns
  \<open>0.7\<close>, and with \<open>show_limit()\<close> showing \<open>0.7\<close>, two texts whose \<open>similarity\<close> is the same \<open>0.7\<close> do not
  satisfy \<open>%\<close>: the operator compares the \<open>float4\<close> similarity with a \<open>double\<close> threshold.\<close>

lemma set_limit_seven_tenths:
  "\<exists>env lim. set_limit None (Num (rnd float4_bits (7 / 10))) = Inr (env, lim) \<and>
     similarity PG_SQL_ASCII [0x61, 0x62, 0x63, 0x64, 0x65, 0x66, 0x67, 0x68, 0x69] [0x61, 0x62, 0x63, 0x64, 0x65, 0x66, 0x67] = lim \<and>
     show_limit env = lim \<and>
     \<not> similarity_op env PG_SQL_ASCII [0x61, 0x62, 0x63, 0x64, 0x65, 0x66, 0x67, 0x68, 0x69] [0x61, 0x62, 0x63, 0x64, 0x65, 0x66, 0x67]"
proof -
  let ?s = "[0x61, 0x62, 0x63, 0x64, 0x65, 0x66, 0x67, 0x68, 0x69]" and ?t = "[0x61, 0x62, 0x63, 0x64, 0x65, 0x66, 0x67]"
  have "alnum_words ?s = [?s]" "alnum_words ?t = [?t]" by (simp_all add: alnum_words.simps c_ctype_defs)
  then have t: "text_trigrams ?s =
      {(0x20, 0x20, 0x61), (0x20, 0x61, 0x62), (0x61, 0x62, 0x63), (0x62, 0x63, 0x64), (0x63, 0x64, 0x65),
       (0x64, 0x65, 0x66), (0x65, 0x66, 0x67), (0x66, 0x67, 0x68), (0x67, 0x68, 0x69), (0x68, 0x69, 0x20)}"
    "text_trigrams ?t =
      {(0x20, 0x20, 0x61), (0x20, 0x61, 0x62), (0x61, 0x62, 0x63), (0x62, 0x63, 0x64), (0x63, 0x64, 0x65),
       (0x64, 0x65, 0x66), (0x65, 0x66, 0x67), (0x66, 0x67, 0x20)}"
    by (simp_all add: text_trigrams_def trigram_eval)
  have sim: "similarity PG_SQL_ASCII ?s ?t = Num (rnd float4_bits (7 / 10))"
    using similarity_ascii [OF t] by simp
  let ?x = "rnd float4_bits (7 / 10)"
  have k: "round_half_even (?x * 1000000) = 700000"
    unfolding rnd_07 by (rule round_half_even_unique; simp)
  have x: "0 \<le> ?x" "?x \<le> 1" unfolding rnd_07 by simp_all
  have lim: "trgm_limit (Some (sprintf_f ?x)) = Num (rnd float8_bits (7 / 10))"
    using trgm_limit_after_set [OF x] unfolding k by simp
  have f: "flog2 (3152519739159347 / 4503599627370496) = - 1" by (rule flog2_unique) (simp_all add: power_int_minus)
  have "round_half_even (3152519739159347 / 268435456) = 11744051" by (rule round_half_even_unique; simp)
  then have nar: "rnd float4_bits (rnd float8_bits (7 / 10)) = ?x"
    unfolding rnd_07 by (simp add: rnd_def rnd_pos_def f Let_def power_int_minus)
  have "set_limit None (Num ?x) = Inr (Some (sprintf_f ?x), Num ?x)"
    using x lim nar by (simp add: set_limit_def)
  moreover have "show_limit (Some (sprintf_f ?x)) = Num ?x" using lim nar by (simp add: show_limit_def)
  moreover have "\<not> similarity_op (Some (sprintf_f ?x)) PG_SQL_ASCII ?s ?t"
    unfolding similarity_op_def sim lim by (simp add: rnd_07)
  ultimately show ?thesis using sim by blast
qed

text \<open>The similarity of \<open>'wow'\<close> and \<open>'WOWa '\<close> is the \<open>float4\<close> nearest to 3/5, not the 0.5 that the module's
  regression test expects: without \<open>DIVUNION\<close> the divisor is the longer array, not the union.\<close>

lemma similarity_wow:
  "similarity PG_SQL_ASCII [0x77, 0x6F, 0x77] [0x57, 0x4F, 0x57, 0x61, 0x20] = Num (rnd float4_bits (3 / 5)) \<and>
   rnd float4_bits (3 / 5) \<noteq> 1 / 2"
proof -
  have "alnum_words [0x77, 0x6F, 0x77] = [[0x77, 0x6F, 0x77]]"
    "alnum_words [0x57, 0x4F, 0x57, 0x61, 0x20] = [[0x57, 0x4F, 0x57, 0x61]]"
    by (simp_all add: alnum_words.simps c_ctype_defs)
  then have t: "text_trigrams [0x77, 0x6F, 0x77] =
      {(0x20, 0x20, 0x77), (0x20, 0x77, 0x6F), (0x77, 0x6F, 0x77), (0x6F, 0x77, 0x20)}"
    "text_trigrams [0x57, 0x4F, 0x57, 0x61, 0x20] =
      {(0x20, 0x20, 0x77), (0x20, 0x77, 0x6F), (0x77, 0x6F, 0x77), (0x6F, 0x77, 0x61), (0x77, 0x61, 0x20)}"
    by (simp_all add: text_trigrams_def trigram_eval)
  have f: "flog2 (3 / 5) = - 1" by (rule flog2_unique) (simp_all add: power_int_minus)
  have "round_half_even (50331648 / 5) = 10066330" by (rule round_half_even_unique; simp)
  then have "rnd float4_bits (3 / 5) = 5033165 / 8388608"
    by (simp add: rnd_def rnd_pos_def f Let_def power_int_minus)
  then show ?thesis using similarity_ascii [OF t] by simp
qed

end
