(* ===== verification/TrgmWild.thy ===== *)
theory TrgmWild
  imports TrgmOp
begin

text \<open>
  The wildcard parser of trgm_op.c: \<open>get_wildcard_part\<close> finds the next literal stretch of a LIKE
  pattern inside a word, with padding where the pattern shows a word boundary, and
  \<open>generate_wildcard_trgm\<close> collects the trigrams of all stretches.  The two loops of
  \<open>get_wildcard_part\<close> are \<open>wild_skip\<close> and \<open>wild_copy\<close>; their arguments are the rest of the pattern and
  the flags \<open>in_escape\<close> and \<open>in_wildcard_meta\<close>.
\<close>

section \<open>Looking for the first word character\<close>

function wild_skip :: "pg_encoding \<Rightarrow> bytes \<Rightarrow> bool \<Rightarrow> bool \<Rightarrow> bytes \<times> bool" where
  "wild_skip e s in_escape in_wildcard_meta =
     (if s = [] then (s, in_wildcard_meta)
      else if in_escape
      then (if iswordchr s then (s, False) else wild_skip e (drop (pg_mblen e s) s) False False)
      else if ISESCAPECHAR (lead s) then wild_skip e (drop (pg_mblen e s) s) True in_wildcard_meta
      else if ISWILDCARDCHAR (lead s) then wild_skip e (drop (pg_mblen e s) s) False True
      else if iswordchr s then (s, in_wildcard_meta)
      else wild_skip e (drop (pg_mblen e s) s) False False)"
  by pat_completeness auto
termination by (relation "measure (\<lambda>(e, s, x, y). length s)") auto

section \<open>Copying the word\<close>

text \<open>
  The bytes copied with escapes stripped, the number of characters copied, \<open>in_wildcard_meta\<close> when the
  loop ends, and the pattern from \<open>endword\<close> on.
\<close>

function wild_copy :: "pg_encoding \<Rightarrow> bytes \<Rightarrow> bool \<Rightarrow> bytes \<times> nat \<times> bool \<times> bytes" where
  "wild_copy e s in_escape =
     (if s = [] then ([], 0, False, s)
      else if in_escape
      then (if iswordchr s
            then (case wild_copy e (drop (pg_mblen e s) s) False of (w, charlen, m, endword) \<Rightarrow>
                    (take (pg_mblen e s) s @ w, Suc charlen, m, endword))
            else ([], 0, False, s))
      else if ISESCAPECHAR (lead s) then wild_copy e (drop (pg_mblen e s) s) True
      else if ISWILDCARDCHAR (lead s) then ([], 0, True, s)
      else if iswordchr s
      then (case wild_copy e (drop (pg_mblen e s) s) False of (w, charlen, m, endword) \<Rightarrow>
              (take (pg_mblen e s) s @ w, Suc charlen, m, endword))
      else ([], 0, False, s))"
  by pat_completeness auto
termination by (relation "measure (\<lambda>(e, s, x). length s)") auto

declare wild_skip.simps [simp del] wild_copy.simps [simp del]

section \<open>The next part\<close>

text \<open>\<open>buf\<close> with its \<open>bytelen\<close> bytes, \<open>charlen\<close> and \<open>endword\<close>.\<close>

definition get_wildcard_part :: "pg_encoding \<Rightarrow> bytes \<Rightarrow> (bytes \<times> nat \<times> bytes) option" where
  "get_wildcard_part e str =
     (case wild_skip e str False False of
        ([], _) \<Rightarrow> None
      | (beginword, in_wildcard_meta) \<Rightarrow>
          (case wild_copy e beginword False of
             (w, charlen, in_wildcard_meta', endword) \<Rightarrow>
               let left = (if in_wildcard_meta then [] else replicate LPADDING 0x20);
                   right = (if in_wildcard_meta' then [] else replicate RPADDING 0x20)
               in Some (left @ w @ right, length left + charlen + length right, endword)))"

lemma wild_copy_rest: "wild_copy e s esc = (w, n, m, rest) \<Longrightarrow> length rest \<le> length s"
proof (induction e s esc arbitrary: w n m rest rule: wild_copy.induct)
  case (1 e s esc)
  show ?case using "1.prems" "1.IH"
    by (subst (asm) wild_copy.simps) (force split: if_splits prod.splits)
qed

lemma wild_skip_result:
  "wild_skip e s esc m = (b # r, m') \<Longrightarrow> length (b # r) \<le> length s \<and> iswordchr (b # r)"
proof (induction e s esc m arbitrary: b r m' rule: wild_skip.induct)
  case (1 e s esc m)
  show ?case using "1.prems" "1.IH"
    by (subst (asm) wild_skip.simps) (force split: if_splits prod.splits)
qed

lemma alnum_not_meta: "c_isalnum b \<Longrightarrow> \<not> ISESCAPECHAR b \<and> \<not> ISWILDCARDCHAR b"
  by (auto simp: ISESCAPECHAR_def ISWILDCARDCHAR_def c_ctype_defs)

lemma get_wildcard_part_rest:
  assumes "get_wildcard_part e s = Some (p, n, rest)"
  shows "length rest < length s"
proof -
  obtain b r m where sk: "wild_skip e s False False = (b # r, m)"
    using assms by (auto simp: get_wildcard_part_def split: prod.splits list.splits)
  obtain w k m' rest' where cp: "wild_copy e (b # r) False = (w, k, m', rest')" by (metis surj_pair)
  have rest: "rest = rest'" using assms by (simp add: get_wildcard_part_def sk cp Let_def)
  have le: "length (b # r) \<le> length s" and "c_isalnum b" using wild_skip_result [OF sk] by auto
  then obtain w' k' where "wild_copy e r False = (w', k', m', rest')"
    using cp alnum_not_meta [of b]
    by (auto simp: wild_copy.simps [of e "b # r"] mblen_alnum split: prod.splits)
  then show ?thesis using wild_copy_rest le unfolding rest by fastforce
qed

section \<open>Trigrams of a pattern\<close>

function generate_parts :: "pg_encoding \<Rightarrow> bytes \<Rightarrow> trgm list" where
  "generate_parts e eword =
     (case get_wildcard_part e eword of
        None \<Rightarrow> []
      | Some (buf, charlen, eword') \<Rightarrow>
          make_trigrams e (lowerstr_with_len buf) charlen @ generate_parts e eword')"
  by pat_completeness auto
termination by (relation "measure (\<lambda>(e, s). length s)") (auto dest: get_wildcard_part_rest)

declare generate_parts.simps [simp del]

definition generate_wildcard_trgm :: "pg_encoding \<Rightarrow> bytes \<Rightarrow> trgm list" where
  "generate_wildcard_trgm e str =
     (if length str + LPADDING + RPADDING < 3 \<or> length str = 0 then []
      else sort_unique (generate_parts e str))"

section \<open>What a part looks like\<close>

lemma wild_copy_word:
  "wild_copy e s esc = (w, n, m, rest) \<Longrightarrow>
   list_all c_isalnum w \<and> n = length w \<and> length w + length rest \<le> length s"
proof (induction e s esc arbitrary: w n m rest rule: wild_copy.induct)
  case (1 e s esc)
  show ?case
  proof (cases s)
    case Nil
    then show ?thesis using "1.prems" by (simp add: wild_copy.simps)
  next
    case (Cons b r)
    consider (copy) "c_isalnum b" | (esc) "\<not> esc" "ISESCAPECHAR b" | (stop) "\<not> c_isalnum b" "esc \<or> \<not> ISESCAPECHAR b"
      by blast
    then show ?thesis
    proof cases
      case copy
      then obtain w' n' where w: "wild_copy e r False = (w', n', m, rest)" "w = b # w'" "n = Suc n'"
        using "1.prems" alnum_not_meta [OF copy] unfolding Cons
        by (auto simp: wild_copy.simps [of e "b # r"] mblen_alnum split: prod.splits if_splits)
      have "list_all c_isalnum w' \<and> n' = length w' \<and> length w' + length rest \<le> length r"
        using "1.IH"(1) "1.IH"(3) w(1) copy alnum_not_meta [OF copy] unfolding Cons
        by (cases esc) (simp_all add: mblen_alnum)
      then show ?thesis using w copy by (simp add: Cons)
    next
      case esc
      then have "wild_copy e (drop (pg_mblen e s) s) True = (w, n, m, rest)"
        using "1.prems" unfolding Cons by (simp add: wild_copy.simps [of e "b # r" False])
      then show ?thesis using "1.IH"(2) esc unfolding Cons by fastforce
    next
      case stop
      then show ?thesis using "1.prems" unfolding Cons
        by (auto simp: wild_copy.simps [of e "b # r"] split: if_splits)
    qed
  qed
qed

end
