(* ===== verification/LikeMatch.thy ===== *)
theory LikeMatch
  imports TsLocale "HOL-Library.Sublist"
begin

text \<open>
  The LIKE matcher (src/backend/utils/adt/like_match.c), which like.c includes four times with
  different macros, and the dispatch in like.c.  \<open>like_variant\<close> names the inclusions that the modelled
  encodings reach: \<open>SB_MatchText\<close>, \<open>SB_IMatchText\<close> (with \<open>MATCH_LOWER\<close>) and \<open>UTF8_MatchText\<close>.
  \<open>MB_MatchText\<close> serves the other multibyte encodings and is not reached.  A text that is being
  scanned is the list of the bytes that remain, so \<open>tlen\<close> is its length.
\<close>

section \<open>The macros of the inclusions\<close>

datatype like_variant = SB | SB_I | UTF8

datatype like_result = LIKE_TRUE | LIKE_FALSE | LIKE_ABORT

definition pg_ascii_tolower :: "byte \<Rightarrow> byte" where
  "pg_ascii_tolower ch = (if 0x41 \<le> ch \<and> ch \<le> 0x5A then ch + 0x20 else ch)"

fun GETCHAR :: "like_variant \<Rightarrow> byte \<Rightarrow> byte" where
  "GETCHAR SB_I t = pg_ascii_tolower t"
| "GETCHAR SB t = t"
| "GETCHAR UTF8 t = t"

definition is_continuation :: "byte \<Rightarrow> bool" where
  "is_continuation b \<longleftrightarrow> b AND 0xC0 = 0x80"

fun NextChar :: "like_variant \<Rightarrow> bytes \<Rightarrow> bytes" where
  "NextChar UTF8 p = dropWhile is_continuation (tl p)"
| "NextChar SB p = tl p"
| "NextChar SB_I p = tl p"

lemma NextChar_shorter: "t \<noteq> [] \<Longrightarrow> length (NextChar v t) < length t"
  using length_dropWhile_le [of is_continuation "tl t"] by (cases v; cases t) auto

section \<open>MatchText\<close>

text \<open>
  The wildcards after a \<open>%\<close>: \<open>None\<close> when the text is too short for the underscores.
\<close>

fun skip_wildcards :: "like_variant \<Rightarrow> bytes \<Rightarrow> bytes \<Rightarrow> (bytes \<times> bytes) option" where
  "skip_wildcards v t [] = Some (t, [])"
| "skip_wildcards v t (c # p) =
     (if c = 0x25 then skip_wildcards v t p
      else if c = 0x5F then (if t = [] then None else skip_wildcards v (NextChar v t) p)
      else Some (t, c # p))"

lemma skip_wildcards_length: "skip_wildcards v t p = Some (t', p') \<Longrightarrow> length p' \<le> length p"
  by (induction v t p rule: skip_wildcards.induct) (auto split: if_splits)

text \<open>The end of the text: match if only \<open>%\<close> remains of the pattern.\<close>

definition match_end :: "bytes \<Rightarrow> bytes \<Rightarrow> like_result" where
  "match_end t p =
     (if t \<noteq> [] then LIKE_FALSE
      else if dropWhile (\<lambda>c. c = 0x25) p = [] then LIKE_TRUE
      else LIKE_ABORT)"

text \<open>
  \<open>MatchText\<close> is the entry with its fast path, \<open>match_loop\<close> the main loop, \<open>match_scan\<close> the search for a
  text position after a \<open>%\<close>.
\<close>

function (sequential) MatchText :: "like_variant \<Rightarrow> bytes \<Rightarrow> bytes \<Rightarrow> pg_error + like_result"
  and match_loop :: "like_variant \<Rightarrow> bytes \<Rightarrow> bytes \<Rightarrow> pg_error + like_result"
  and match_scan :: "like_variant \<Rightarrow> byte \<Rightarrow> bytes \<Rightarrow> bytes \<Rightarrow> pg_error + like_result" where
  "MatchText v t p = (if p = [0x25] then Inr LIKE_TRUE else match_loop v t p)"
| "match_loop v (c # t) (d # p) =
     (if d = 0x5C then
        (case p of
           [] \<Rightarrow> Inl InvalidEscapeSequence
         | d' # p' \<Rightarrow> if GETCHAR v d' \<noteq> GETCHAR v c then Inr LIKE_FALSE else match_loop v t p')
      else if d = 0x25 then
        (case skip_wildcards v (c # t) p of
           None \<Rightarrow> Inr LIKE_ABORT
         | Some (t', p') \<Rightarrow>
             (case p' of
                [] \<Rightarrow> Inr LIKE_TRUE
              | f # q \<Rightarrow>
                  if f = 0x5C then (case q of [] \<Rightarrow> Inl InvalidEscapeSequence
                                    | f' # _ \<Rightarrow> match_scan v (GETCHAR v f') t' p')
                  else match_scan v (GETCHAR v f) t' p'))
      else if d = 0x5F then match_loop v (NextChar v (c # t)) p
      else if GETCHAR v d \<noteq> GETCHAR v c then Inr LIKE_FALSE
      else match_loop v t p)"
| "match_loop v t p = Inr (match_end t p)"
| "match_scan v firstpat t p =
     (if t = [] then Inr LIKE_ABORT
      else if GETCHAR v (hd t) = firstpat
      then (case MatchText v t p of
              Inr LIKE_FALSE \<Rightarrow> match_scan v firstpat (NextChar v t) p
            | r \<Rightarrow> r)
      else match_scan v firstpat (NextChar v t) p)"
  by pat_completeness auto
termination
  by (relation "inv_image (less_than <*lex*> less_than <*lex*> less_than)
       (\<lambda>x. case x of Inl (v, t, p) \<Rightarrow> (length p, length t, 1 :: nat)
                    | Inr (Inl (v, t, p)) \<Rightarrow> (length p, length t, 0)
                    | Inr (Inr (v, f, t, p)) \<Rightarrow> (length p, length t, 2))")
    (auto simp: NextChar_shorter dest!: skip_wildcards_length)

declare MatchText.simps [simp del] match_scan.simps [simp del]

section \<open>like.c\<close>

fun GenericMatchText :: "pg_encoding \<Rightarrow> bytes \<Rightarrow> bytes \<Rightarrow> pg_error + like_result" where
  "GenericMatchText e s p =
     (if pg_encoding_max_length e = 1 then MatchText SB s p else MatchText UTF8 s p)"

definition textlike :: "pg_encoding \<Rightarrow> bytes \<Rightarrow> bytes \<Rightarrow> pg_error + bool" where
  "textlike e str pat = map_sum id (\<lambda>r. r = LIKE_TRUE) (GenericMatchText e str pat)"

definition textnlike :: "pg_encoding \<Rightarrow> bytes \<Rightarrow> bytes \<Rightarrow> pg_error + bool" where
  "textnlike e str pat = map_sum id (\<lambda>r. r \<noteq> LIKE_TRUE) (GenericMatchText e str pat)"

definition bytealike :: "bytes \<Rightarrow> bytes \<Rightarrow> pg_error + bool" where
  "bytealike str pat = map_sum id (\<lambda>r. r = LIKE_TRUE) (MatchText SB str pat)"

text \<open>
  In a multibyte database ILIKE folds both arguments with \<open>lower\<close> first; in the C locale that is
  \<open>pg_ascii_tolower\<close> on every byte (\<open>str_tolower\<close>).
\<close>

definition Generic_Text_IC_like :: "pg_encoding \<Rightarrow> bytes \<Rightarrow> bytes \<Rightarrow> pg_error + like_result" where
  "Generic_Text_IC_like e str pat =
     (if pg_encoding_max_length e > 1
      then MatchText UTF8 (map pg_ascii_tolower str) (map pg_ascii_tolower pat)
      else MatchText SB_I str pat)"

definition texticlike :: "pg_encoding \<Rightarrow> bytes \<Rightarrow> bytes \<Rightarrow> pg_error + bool" where
  "texticlike e str pat = map_sum id (\<lambda>r. r = LIKE_TRUE) (Generic_Text_IC_like e str pat)"

section \<open>The meaning of a pattern\<close>

text \<open>The positions \<open>%\<close> can skip to: the text itself and what follows each of its characters.\<close>

function char_suffixes :: "like_variant \<Rightarrow> bytes \<Rightarrow> bytes list" where
  "char_suffixes v t = t # (if t = [] then [] else char_suffixes v (NextChar v t))"
  by pat_completeness auto
termination by (relation "measure (\<lambda>(v, t). length t)") (auto simp: NextChar_shorter)

declare char_suffixes.simps [simp del]

fun like_sem :: "like_variant \<Rightarrow> bytes \<Rightarrow> bytes \<Rightarrow> bool" where
  "like_sem v [] t \<longleftrightarrow> t = []"
| "like_sem v (d # p) t \<longleftrightarrow>
     (if d = 0x25 then \<exists>u \<in> set (char_suffixes v t). like_sem v p u
      else if d = 0x5F then t \<noteq> [] \<and> like_sem v p (NextChar v t)
      else if d = 0x5C then
        (case p of [] \<Rightarrow> False
         | d' # p' \<Rightarrow> t \<noteq> [] \<and> GETCHAR v d' = GETCHAR v (hd t) \<and> like_sem v p' (tl t))
      else t \<noteq> [] \<and> GETCHAR v d = GETCHAR v (hd t) \<and> like_sem v p (tl t))"

text \<open>
  A pattern in which no wildcard is followed by the middle of a character: always, for single-byte
  variants, and for every valid UTF-8 pattern.
\<close>

fun starts_char :: "like_variant \<Rightarrow> byte \<Rightarrow> bool" where
  "starts_char UTF8 b \<longleftrightarrow> \<not> is_continuation b"
| "starts_char SB b \<longleftrightarrow> True"
| "starts_char SB_I b \<longleftrightarrow> True"

fun synced :: "like_variant \<Rightarrow> bool \<Rightarrow> bytes \<Rightarrow> bool" where
  "synced v w [] \<longleftrightarrow> True"
| "synced v w (d # p) \<longleftrightarrow>
     (if d = 0x25 \<or> d = 0x5F then synced v True p
      else if d = 0x5C then
        (case p of [] \<Rightarrow> True | d' # p' \<Rightarrow> (w \<longrightarrow> starts_char v d') \<and> synced v False p')
      else (w \<longrightarrow> starts_char v d) \<and> synced v False p)"

fun dangling_escape :: "bytes \<Rightarrow> bool" where
  "dangling_escape [] \<longleftrightarrow> False"
| "dangling_escape (d # p) \<longleftrightarrow>
     (if d = 0x5C then (case p of [] \<Rightarrow> True | _ # p' \<Rightarrow> dangling_escape p') else dangling_escape p)"

section \<open>Positions in the text\<close>

lemma suffix_dropWhile_mono: "suffix u t \<Longrightarrow> suffix (dropWhile P u) (dropWhile P t)"
proof (induction t)
  case (Cons c t)
  show ?case
  proof (cases "u = c # t")
    case False
    then have "suffix (dropWhile P u) (dropWhile P t)" using Cons by (simp add: suffix_Cons)
    moreover have "suffix (dropWhile P t) (dropWhile P (c # t))"
      using suffix_dropWhile [of P t] by (simp add: suffix_ConsI)
    ultimately show ?thesis by (rule suffix_order.trans)
  qed simp
qed simp

lemma suffix_tl_mono: "suffix u t \<Longrightarrow> suffix (tl u) (tl t)"
  by (cases t; cases u) (auto simp: suffix_Cons dest: suffix_ConsD)

lemma suffix_NextChar_mono: "suffix u t \<Longrightarrow> suffix (NextChar v u) (NextChar v t)"
  by (cases v) (auto intro: suffix_dropWhile_mono suffix_tl_mono)

lemma suffix_NextChar: "suffix (NextChar v t) t"
  using suffix_dropWhile [of is_continuation "tl t"] suffix_tl [of t]
  by (cases v) (auto intro: suffix_order.trans)

lemma NextChar_Nil [simp]: "NextChar v [] = []"
  by (cases v) auto

lemma char_suffixes_Nil [simp]: "char_suffixes v [] = [[]]"
  by (simp add: char_suffixes.simps)

lemma char_suffixes_step:
  "t \<noteq> [] \<Longrightarrow> set (char_suffixes v t) = insert t (set (char_suffixes v (NextChar v t)))"
  by (subst char_suffixes.simps) simp

lemma char_suffixes_self [simp]: "t \<in> set (char_suffixes v t)"
  by (subst char_suffixes.simps) simp

lemma char_suffixes_suffix: "u \<in> set (char_suffixes v t) \<Longrightarrow> suffix u t"
proof (induction v t rule: char_suffixes.induct)
  case (1 v t)
  show ?case
  proof (cases "t = []")
    case False
    then show ?thesis
      using 1 char_suffixes_step [OF False, of v] suffix_NextChar [of v t] suffix_order.trans by auto
  qed (use 1 in simp)
qed

lemma char_suffixes_trans:
  "u \<in> set (char_suffixes v t) \<Longrightarrow> w \<in> set (char_suffixes v u) \<Longrightarrow> w \<in> set (char_suffixes v t)"
proof (induction v t rule: char_suffixes.induct)
  case (1 v t)
  show ?case
  proof (cases "t = []")
    case False
    then show ?thesis using 1 char_suffixes_step [OF False, of v] by auto
  qed (use 1 in simp)
qed

lemma char_suffixes_next: "t \<noteq> [] \<Longrightarrow> u \<in> set (char_suffixes v (NextChar v t)) \<Longrightarrow> u \<in> set (char_suffixes v t)"
  by (simp add: char_suffixes_step)

lemma char_suffixes_NextChar:
  "t \<noteq> [] \<Longrightarrow> set (char_suffixes v (NextChar v t)) = NextChar v ` {u \<in> set (char_suffixes v t). u \<noteq> []}"
proof (induction v t rule: char_suffixes.induct)
  case (1 v t)
  show ?case
  proof (cases "NextChar v t = []")
    case True
    have "{u. (u = t \<or> u = []) \<and> u \<noteq> []} = {t}" using "1.prems" by auto
    then show ?thesis using True "1.prems" by (simp add: char_suffixes_step)
  next
    case False
    have "set (char_suffixes v (NextChar v t)) = insert (NextChar v t) (set (char_suffixes v (NextChar v (NextChar v t))))"
      by (rule char_suffixes_step [OF False])
    also have "\<dots> = insert (NextChar v t) (NextChar v ` {u \<in> set (char_suffixes v (NextChar v t)). u \<noteq> []})"
      using "1.IH" [OF "1.prems" False] by simp
    also have "\<dots> = NextChar v ` {u \<in> set (char_suffixes v t). u \<noteq> []}"
      using "1.prems" by (auto simp: char_suffixes_step)
    finally show ?thesis .
  qed
qed

lemma starts_char_suffix:
  "suffix u t \<Longrightarrow> u \<noteq> [] \<Longrightarrow> starts_char v (hd u) \<Longrightarrow> u \<in> set (char_suffixes v t)"
proof (induction v t rule: char_suffixes.induct)
  case (1 v t)
  then have t: "t \<noteq> []" by auto
  show ?case
  proof (cases "u = t")
    case False
    then have u: "suffix u (tl t)" using "1.prems"(1) t by (cases t) (auto simp: suffix_Cons)
    have "suffix u (NextChar v t)"
    proof (cases v)
      case UTF8
      then have "dropWhile is_continuation u = u" using "1.prems" by (cases u) auto
      then show ?thesis using suffix_dropWhile_mono [OF u, of is_continuation] UTF8 by simp
    qed (use u in simp_all)
    then show ?thesis using "1.IH" [OF t] "1.prems" char_suffixes_next [OF t] by blast
  qed simp
qed

section \<open>The matcher decides the meaning\<close>

definition any_sem :: "like_variant \<Rightarrow> bytes \<Rightarrow> bytes \<Rightarrow> bool" where
  "any_sem v p t \<longleftrightarrow> (\<exists>u \<in> set (char_suffixes v t). like_sem v p u)"

lemma any_sem_percent: "any_sem v (0x25 # p) t = any_sem v p t"
  unfolding any_sem_def using char_suffixes_trans char_suffixes_self by fastforce

lemma any_sem_underscore: "any_sem v (0x5F # p) t \<longleftrightarrow> t \<noteq> [] \<and> any_sem v p (NextChar v t)"
  by (cases "t = []") (auto simp: any_sem_def char_suffixes_NextChar)

lemma any_sem_step: "t \<noteq> [] \<Longrightarrow> any_sem v p t \<longleftrightarrow> like_sem v p t \<or> any_sem v p (NextChar v t)"
  by (auto simp: any_sem_def char_suffixes_step)

lemma skip_wildcards_sem:
  "skip_wildcards v t p = Some (t', p') \<Longrightarrow>
   any_sem v p t = any_sem v p' t' \<and>
   (\<forall>u. suffix u t \<longrightarrow> any_sem v p u \<longrightarrow> (\<exists>u'. suffix u' t' \<and> any_sem v p' u')) \<and>
   (p' = [] \<or> hd p' \<noteq> 0x25 \<and> hd p' \<noteq> 0x5F) \<and> (synced v True p \<longrightarrow> synced v True p') \<and>
   (dangling_escape p' \<longrightarrow> dangling_escape p)"
proof (induction v t p rule: skip_wildcards.induct)
  case (2 v t c p)
  consider "c = 0x25" | "c = 0x5F" | "c \<noteq> 0x25" "c \<noteq> 0x5F" by blast
  then show ?case
  proof cases
    case 1
    then show ?thesis using 2 by (simp add: any_sem_percent)
  next
    case us: 2
    then have t: "t \<noteq> []" using "2.prems" by auto
    have "skip_wildcards v (NextChar v t) p = Some (t', p')" using "2.prems" us t by simp
    then show ?thesis
      using "2.IH"(2) us t suffix_NextChar_mono [of _ t v] by (auto simp: any_sem_underscore)
  next
    case 3
    then show ?thesis using "2.prems" by auto
  qed
qed auto

lemma skip_wildcards_none: "skip_wildcards v t p = None \<Longrightarrow> suffix u t \<Longrightarrow> \<not> any_sem v p u"
proof (induction v t p arbitrary: u rule: skip_wildcards.induct)
  case (2 v t c p)
  consider "c = 0x25" | "c = 0x5F" "t = []" | "c = 0x5F" "t \<noteq> []" | "c \<noteq> 0x25" "c \<noteq> 0x5F" by blast
  then show ?case
    using 2 by cases (auto simp: any_sem_percent any_sem_underscore suffix_NextChar_mono)
qed auto

lemma dangling_no_match: "dangling_escape p \<Longrightarrow> \<not> like_sem v p t"
proof (induction p arbitrary: t rule: dangling_escape.induct)
  case (2 d p)
  show ?case
  proof (cases "d = 0x5C")
    case True
    then show ?thesis using 2 by (cases p) auto
  next
    case False
    then have "\<not> like_sem v p u" for u using 2 by simp
    then show ?thesis using False by simp
  qed
qed simp

text \<open>What a result says of the pattern and the text, and of what an enclosing \<open>%\<close> may try next.\<close>

fun result_ok :: "like_variant \<Rightarrow> bytes \<Rightarrow> bytes \<Rightarrow> pg_error + like_result \<Rightarrow> bool" where
  "result_ok v t p (Inl err) \<longleftrightarrow> err = InvalidEscapeSequence \<and> dangling_escape p"
| "result_ok v t p (Inr LIKE_TRUE) \<longleftrightarrow> like_sem v p t"
| "result_ok v t p (Inr LIKE_FALSE) \<longleftrightarrow> \<not> like_sem v p t"
| "result_ok v t p (Inr LIKE_ABORT) \<longleftrightarrow> (\<forall>u. suffix u t \<longrightarrow> \<not> like_sem v p u)"

fun scan_ok :: "like_variant \<Rightarrow> bytes \<Rightarrow> bytes \<Rightarrow> pg_error + like_result \<Rightarrow> bool" where
  "scan_ok v t p (Inl err) \<longleftrightarrow> err = InvalidEscapeSequence \<and> dangling_escape p"
| "scan_ok v t p (Inr LIKE_TRUE) \<longleftrightarrow> any_sem v p t"
| "scan_ok v t p (Inr LIKE_FALSE) \<longleftrightarrow> False"
| "scan_ok v t p (Inr LIKE_ABORT) \<longleftrightarrow> (\<forall>u. suffix u t \<longrightarrow> \<not> any_sem v p u)"

text \<open>The literal a scan looks for.\<close>

fun literal_first :: "like_variant \<Rightarrow> bytes \<Rightarrow> byte \<Rightarrow> bool" where
  "literal_first v [] f \<longleftrightarrow> False"
| "literal_first v (d # p) f \<longleftrightarrow>
     d \<noteq> 0x25 \<and> d \<noteq> 0x5F \<and>
     (if d = 0x5C then (case p of [] \<Rightarrow> False | d' # _ \<Rightarrow> GETCHAR v d' = f) else GETCHAR v d = f)"

lemma literal_first_match:
  assumes "literal_first v p f" "like_sem v p u" "synced v True p"
  shows "u \<noteq> [] \<and> GETCHAR v (hd u) = f \<and> starts_char v (hd u)"
  using assms
  by (cases p; cases v) (auto split: if_splits list.splits)

lemma scan_continue:
  assumes lit: "literal_first v p f" "synced v True p" and t: "t \<noteq> []" and no: "\<not> like_sem v p t"
    and rest: "scan_ok v (NextChar v t) p r"
  shows "scan_ok v t p r"
proof -
  have ab: "\<not> any_sem v p u" if "suffix u t" and no_next: "\<forall>u. suffix u (NextChar v t) \<longrightarrow> \<not> any_sem v p u" for u
  proof
    assume "any_sem v p u"
    then obtain w where w: "w \<in> set (char_suffixes v u)" "like_sem v p w" by (auto simp: any_sem_def)
    have "suffix w t" using char_suffixes_suffix [OF w(1)] that(1) suffix_order.trans by blast
    then have "w \<in> set (char_suffixes v t)"
      using literal_first_match [OF lit(1) w(2) lit(2)] starts_char_suffix by blast
    then have "any_sem v p (NextChar v t)"
      using w(2) no by (auto simp: char_suffixes_step [OF t] any_sem_def)
    then show False using no_next by auto
  qed
  show ?thesis
  proof (cases r)
    case (Inr x)
    then show ?thesis using rest ab no by (cases x) (auto simp: any_sem_step [OF t])
  qed (use rest in simp)
qed

text \<open>Consequences of one matched literal.\<close>

lemma result_ok_literal:
  assumes "result_ok v t p r" "GETCHAR v d = GETCHAR v c" "d \<noteq> 0x25" "d \<noteq> 0x5F" "d \<noteq> 0x5C"
  shows "result_ok v (c # t) (d # p) r"
proof (cases r)
  case (Inr x)
  have "\<not> like_sem v (d # p) u" if "suffix u (c # t)" "\<forall>u. suffix u t \<longrightarrow> \<not> like_sem v p u" for u
    using that assms(3-) suffix_tl_mono [OF that(1)] by auto
  then show ?thesis using Inr assms by (cases x) auto
qed (use assms in simp)

lemma result_ok_escaped:
  assumes "result_ok v t p r" "GETCHAR v d = GETCHAR v c"
  shows "result_ok v (c # t) (0x5C # d # p) r"
proof (cases r)
  case (Inr x)
  have "\<not> like_sem v (0x5C # d # p) u" if "suffix u (c # t)" "\<forall>u. suffix u t \<longrightarrow> \<not> like_sem v p u" for u
    using that suffix_tl_mono [OF that(1)] by auto
  then show ?thesis using Inr assms by (cases x) auto
qed (use assms in simp)

lemma result_ok_underscore:
  assumes "result_ok v (NextChar v (c # t)) p r"
  shows "result_ok v (c # t) (0x5F # p) r"
proof (cases r)
  case (Inr x)
  have "\<not> like_sem v (0x5F # p) u"
    if "suffix u (c # t)" "\<forall>u. suffix u (NextChar v (c # t)) \<longrightarrow> \<not> like_sem v p u" for u
    using that suffix_NextChar_mono [OF that(1), of v] by auto
  then show ?thesis using Inr assms by (cases x) auto
qed (use assms in simp)

lemma result_ok_percent:
  assumes "skip_wildcards v t p = Some (t', p')" "scan_ok v t' p' r"
  shows "result_ok v t (0x25 # p) r"
proof (cases r)
  case (Inl a)
  then show ?thesis using assms skip_wildcards_sem [OF assms(1)] by simp
next
  case (Inr x)
  then show ?thesis
    using assms skip_wildcards_sem [OF assms(1)] by (cases x) (auto simp: any_sem_def [symmetric])
qed

lemma char_suffixes_end: "[] \<in> set (char_suffixes v t)"
  by (induction v t rule: char_suffixes.induct) (subst char_suffixes.simps, auto)

lemma match_end_ok: "t = [] \<or> p = [] \<Longrightarrow> result_ok v t p (Inr (match_end t p))"
proof -
  have e: "like_sem v p [] \<longleftrightarrow> dropWhile (\<lambda>c. c = 0x25) p = []" for p
  proof (induction p)
    case (Cons d p)
    then show ?case by (cases "d = 0x25") (auto split: list.splits)
  qed simp
  assume "t = [] \<or> p = []"
  then show ?thesis using e [of p] by (cases t) (auto simp: match_end_def)
qed

lemma synced_weaken: "synced v True p \<Longrightarrow> synced v False p"
  by (cases p) (auto split: if_splits list.splits)

lemma match_correct_aux:
  "synced v False p \<Longrightarrow> result_ok v t p (MatchText v t p)"
  "synced v False p \<Longrightarrow> result_ok v t p (match_loop v t p)"
  "synced v True p \<Longrightarrow> literal_first v p f \<Longrightarrow> scan_ok v t p (match_scan v f t p)"
proof (induction v t p and v t p and v f t p rule: MatchText_match_loop_match_scan.induct)
  case (1 v t p)
  show ?case
  proof (cases "p = [0x25]")
    case True
    then show ?thesis using char_suffixes_end [of v t] by (simp add: MatchText.simps)
  qed (use 1 in \<open>simp add: MatchText.simps\<close>)
next
  case (2 v c t d p)
  consider (esc) "d = 0x5C" | (pc) "d = 0x25" | (us) "d = 0x5F" | (lit) "d \<noteq> 0x5C" "d \<noteq> 0x25" "d \<noteq> 0x5F" by blast
  then show ?case
  proof cases
    case esc
    show ?thesis
    proof (cases p)
      case (Cons d' p')
      then show ?thesis
        using "2.IH"(1) [OF esc Cons] "2.prems" esc
        by (cases "GETCHAR v d' = GETCHAR v c") (auto intro!: result_ok_escaped)
    qed (use esc in simp)
  next
    case us
    have "synced v False p" using "2.prems" us by (simp add: synced_weaken)
    then show ?thesis using "2.IH" us by (simp add: result_ok_underscore)
  next
    case lit
    then show ?thesis
      using "2.IH"(5) "2.prems"
      by (cases "GETCHAR v d = GETCHAR v c") (auto intro!: result_ok_literal)
  next
    case pc
    show ?thesis
    proof (cases "skip_wildcards v (c # t) p")
      case None
      then show ?thesis using skip_wildcards_none [OF None] pc by (simp add: any_sem_def [symmetric])
    next
      case (Some a)
      obtain t' p' where a: "a = (t', p')" by (cases a)
      note sk = Some [unfolded a]
      have sy: "synced v True p'" and ne: "p' = [] \<or> hd p' \<noteq> 0x25 \<and> hd p' \<noteq> 0x5F"
        and dg: "dangling_escape p' \<longrightarrow> dangling_escape p"
        using skip_wildcards_sem [OF sk] "2.prems" pc by auto
      have "scan_ok v t' p' (match_loop v (c # t) (d # p))"
      proof (cases p')
        case Nil
        then show ?thesis using pc sk char_suffixes_end [of v t'] by (auto simp: any_sem_def)
      next
        case (Cons f q)
        show ?thesis
        proof (cases "f = 0x5C \<and> q = []")
          case True
          then show ?thesis using pc sk Cons by simp
        next
          case False
          let ?f = "if f = 0x5C then hd q else f"
          have "match_loop v (c # t) (d # p) = match_scan v (GETCHAR v ?f) t' p'"
            using pc sk Cons False by (auto split: list.split)
          moreover have "literal_first v p' (GETCHAR v ?f)" using ne Cons False by (auto split: list.split)
          moreover have "literal_first v p' (GETCHAR v ?f) \<Longrightarrow> scan_ok v t' p' (match_scan v (GETCHAR v ?f) t' p')"
          proof (cases "f = 0x5C")
            case True
            then obtain f' q' where q: "q = f' # q'" using False by (cases q) auto
            have "d \<noteq> 0x5C" using pc by simp
            then show "literal_first v p' (GETCHAR v ?f) \<Longrightarrow> scan_ok v t' p' (match_scan v (GETCHAR v ?f) t' p')"
              using "2.IH"(2) [OF _ pc sk refl Cons True q sy] True q by simp
          next
            case neq: False
            have "d \<noteq> 0x5C" using pc by simp
            then show "literal_first v p' (GETCHAR v ?f) \<Longrightarrow> scan_ok v t' p' (match_scan v (GETCHAR v ?f) t' p')"
              using "2.IH"(3) [OF _ pc sk refl Cons neq sy] neq by simp
          qed
          ultimately show ?thesis by simp
        qed
      qed
      then show ?thesis using result_ok_percent [OF sk] pc by simp
    qed
  qed
next
  case (4 v f t p)
  show ?case
  proof (cases "t = []")
    case True
    have "\<not> like_sem v p []" using literal_first_match [OF "4.prems"(2) _ "4.prems"(1)] by blast
    then show ?thesis using True by (simp add: match_scan.simps any_sem_def)
  next
    case ne: False
    note continue = scan_continue [OF "4.prems"(2,1) ne]
    show ?thesis
    proof (cases "GETCHAR v (hd t) = f")
      case eq: True
      have IH: "result_ok v t p (MatchText v t p)"
        using "4.IH"(1) [OF ne eq] synced_weaken [OF "4.prems"(1)] by simp
      show ?thesis
      proof (cases "MatchText v t p = Inr LIKE_FALSE")
        case True
        then have "scan_ok v (NextChar v t) p (match_scan v f (NextChar v t) p)"
          using "4.IH"(2) [OF ne eq _ _ "4.prems"] by simp
        then show ?thesis using continue IH True ne eq by (simp add: match_scan.simps [of v f t p])
      next
        case False
        then have "match_scan v f t p = MatchText v t p"
          using ne eq by (simp add: match_scan.simps [of v f t p] split: sum.split like_result.split)
        moreover have "scan_ok v t p (MatchText v t p)"
        proof (cases "MatchText v t p")
          case (Inl err)
          then show ?thesis using IH by simp
        next
          case (Inr x)
          show ?thesis
          proof (cases x)
            case LIKE_TRUE
            then show ?thesis using IH Inr by (auto simp: any_sem_def intro: bexI [of _ t])
          next
            case LIKE_ABORT
            then have "\<not> like_sem v p u" if "suffix u t" for u using IH Inr that by simp
            then have "\<not> any_sem v p u" if "suffix u t" for u
              unfolding any_sem_def using that by (meson char_suffixes_suffix suffix_order.trans)
            then show ?thesis using Inr LIKE_ABORT by simp
          qed (use False Inr in simp)
        qed
        ultimately show ?thesis by simp
      qed
    next
      case neq: False
      then have "\<not> like_sem v p t" using literal_first_match [OF "4.prems"(2) _ "4.prems"(1)] by blast
      moreover have "scan_ok v (NextChar v t) p (match_scan v f (NextChar v t) p)"
        using "4.IH"(3) [OF ne neq "4.prems"] .
      ultimately show ?thesis using continue ne neq by (simp add: match_scan.simps [of v f t p])
    qed
  qed
qed (simp_all add: match_end_ok)

lemmas MatchText_result = match_correct_aux(1)

lemma result_ok_true: "result_ok v t p r \<Longrightarrow> r = Inr LIKE_TRUE \<longleftrightarrow> like_sem v p t"
  using dangling_no_match [of p v t] by (induction v t p r rule: result_ok.induct) auto

lemma MatchText_true: "synced v False p \<Longrightarrow> MatchText v t p = Inr LIKE_TRUE \<longleftrightarrow> like_sem v p t"
  by (rule result_ok_true [OF MatchText_result])

lemma MatchText_error: "synced v False p \<Longrightarrow> MatchText v t p = Inl err \<Longrightarrow> dangling_escape p"
  using MatchText_result [of v p t] by simp

section \<open>Properties\<close>

text \<open>C4: \<open>MatchText\<close>, with its shortcuts for wildcards and its early abort, decides the meaning of the
  pattern: it answers true just when the pattern matches, whatever the variant; when it gives up with
  \<open>LIKE_ABORT\<close> no later start in the text can match either; and it raises an error only for a pattern
  that ends with an escape.\<close>

theorem MatchText_decides:
  assumes "synced v False p"
  shows "(MatchText v t p = Inr LIKE_TRUE \<longleftrightarrow> like_sem v p t) \<and>
         (MatchText v t p = Inr LIKE_ABORT \<longrightarrow> (\<forall>u. suffix u t \<longrightarrow> \<not> like_sem v p u)) \<and>
         (\<forall>err. MatchText v t p = Inl err \<longrightarrow> err = InvalidEscapeSequence \<and> dangling_escape p)"
  using MatchText_true [OF assms] MatchText_result [OF assms, of t] by auto

theorem MatchText_decides_witness:
  "MatchText UTF8 [0x61, 0xC3, 0xA9, 0x62] [0x25, 0x5F, 0x62] = Inr LIKE_TRUE \<and>
   like_sem UTF8 [0x25, 0x5F, 0x62] [0x61, 0xC3, 0xA9, 0x62]"
proof -
  have "synced UTF8 False [0x25, 0x5F, 0x62]" by (simp add: is_continuation_def)
  from MatchText_decides [OF this, of "[0x61, 0xC3, 0xA9, 0x62]"]
  have "MatchText UTF8 [0x61, 0xC3, 0xA9, 0x62] [0x25, 0x5F, 0x62] = Inr LIKE_TRUE \<longleftrightarrow>
        like_sem UTF8 [0x25, 0x5F, 0x62] [0x61, 0xC3, 0xA9, 0x62]" by blast
  moreover have "MatchText UTF8 [0x61, 0xC3, 0xA9, 0x62] [0x25, 0x5F, 0x62] = Inr LIKE_TRUE"
    by (simp add: MatchText.simps match_scan.simps is_continuation_def match_end_def)
  ultimately show ?thesis by simp
qed

end
