(* ===== verification/TrgmLike.thy ===== *)
theory TrgmLike
  imports TrgmWild LikeMatch
begin

text \<open>
  Why an index on trigrams may be used for LIKE: the trigrams \<open>generate_wildcard_trgm\<close> takes from a
  pattern are trigrams of every text the matcher accepts.  The argument needs only a weak reading of
  the pattern, \<open>loose_sem\<close>, in which a wildcard skips any bytes and letters agree after folding.
  It holds for patterns whose escapes protect neither letters, digits nor backslashes
  (\<open>escapes_ok\<close>); for the others the code is wrong, as the two counterexamples show.
\<close>

section \<open>A weak reading of patterns\<close>

fun loose_sem :: "bytes \<Rightarrow> bytes \<Rightarrow> bool" where
  "loose_sem [] t \<longleftrightarrow> t = []"
| "loose_sem (d # p) t \<longleftrightarrow>
     (if d = 0x25 then \<exists>x u. t = x @ u \<and> loose_sem p u
      else if d = 0x5F then \<exists>x u. x \<noteq> [] \<and> t = x @ u \<and> loose_sem p u
      else if d = 0x5C then
        (case p of [] \<Rightarrow> False
         | d' # p' \<Rightarrow> \<exists>c u. t = c # u \<and> c_tolower d' = c_tolower c \<and> loose_sem p' u)
      else \<exists>c u. t = c # u \<and> c_tolower d = c_tolower c \<and> loose_sem p u)"

lemma GETCHAR_tolower: "GETCHAR v a = GETCHAR v b \<Longrightarrow> c_tolower a = c_tolower b"
proof (cases v)
  case SB_I
  have "pg_ascii_tolower = c_tolower" by (auto simp: pg_ascii_tolower_def c_tolower_def c_isupper_def)
  then show "GETCHAR v a = GETCHAR v b \<Longrightarrow> c_tolower a = c_tolower b" using SB_I by simp
qed simp_all

lemma NextChar_split: "t \<noteq> [] \<Longrightarrow> \<exists>x. x \<noteq> [] \<and> t = x @ NextChar v t"
proof -
  assume t: "t \<noteq> []"
  obtain x where x: "t = x @ NextChar v t" using suffix_NextChar [of v t] by (auto simp: suffix_def)
  then have "x \<noteq> []" using NextChar_shorter [OF t, of v] by auto
  then show ?thesis using x by blast
qed

lemma like_sem_loose: "like_sem v p t \<Longrightarrow> loose_sem p t"
proof (induction v p t rule: like_sem.induct)
  case (2 v d p t)
  consider (pc) "d = 0x25" | (us) "d = 0x5F" | (esc) "d = 0x5C" | (lit) "d \<noteq> 0x25" "d \<noteq> 0x5F" "d \<noteq> 0x5C" by blast
  then show ?case
  proof cases
    case pc
    then obtain u where u: "u \<in> set (char_suffixes v t)" "like_sem v p u" using "2.prems" by auto
    then have "loose_sem p u" using "2.IH" pc by simp
    moreover obtain x where "t = x @ u" using char_suffixes_suffix [OF u(1)] by (auto simp: suffix_def)
    ultimately show ?thesis using pc by auto
  next
    case us
    then show ?thesis using 2 NextChar_split [of t v] by auto
  next
    case esc
    then obtain d' p' c u where "p = d' # p'" "t = c # u" "GETCHAR v d' = GETCHAR v c" "like_sem v p' u"
      using "2.prems" by (cases t) (auto split: list.splits)
    moreover from this have "c_tolower d' = c_tolower c" "loose_sem p' u"
      using "2.IH"(3) [OF _ _ esc] esc by (blast dest: GETCHAR_tolower, simp)
    ultimately show ?thesis using esc by simp
  next
    case lit
    then obtain c u where "t = c # u" "GETCHAR v d = GETCHAR v c" "like_sem v p u"
      using "2.prems" by (cases t) auto
    moreover from this have "c_tolower d = c_tolower c" "loose_sem p u"
      using "2.IH"(4) [OF lit] by (blast dest: GETCHAR_tolower, simp)
    ultimately show ?thesis using lit by simp
  qed
qed simp

text \<open>The escaped bytes of a pattern are neither word characters nor backslashes.\<close>

fun escapes_ok :: "bytes \<Rightarrow> bool" where
  "escapes_ok [] \<longleftrightarrow> True"
| "escapes_ok (d # p) \<longleftrightarrow>
     (if d = 0x5C then
        (case p of [] \<Rightarrow> True | d' # p' \<Rightarrow> \<not> c_isalnum d' \<and> d' \<noteq> 0x5C \<and> escapes_ok p')
      else escapes_ok p)"

section \<open>A stretch of letters and digits inside a text\<close>

definition left_edge :: "bytes \<Rightarrow> bool" where
  "left_edge x \<longleftrightarrow> x = [] \<or> \<not> c_isalnum (last x)"

definition right_edge :: "bytes \<Rightarrow> bool" where
  "right_edge y \<longleftrightarrow> y = [] \<or> \<not> c_isalnum (hd y)"

lemma takeWhile_word:
  "list_all c_isalnum w \<Longrightarrow> right_edge y \<Longrightarrow> takeWhile c_isalnum (w @ y) = w"
  by (induction w) (auto simp: right_edge_def takeWhile_eq_Nil_iff)

lemma whole_word_in:
  "list_all c_isalnum w \<Longrightarrow> w \<noteq> [] \<Longrightarrow> left_edge x \<Longrightarrow> right_edge y \<Longrightarrow> w \<in> set (alnum_words (x @ w @ y))"
proof (induction "x @ w @ y" arbitrary: x rule: alnum_words.induct)
  case 1
  have hw: "c_isalnum (hd w)" using "1.prems"(1,2) by (cases w) auto
  show ?case
  proof (cases "\<forall>b \<in> set x. \<not> c_isalnum b")
    case True
    then have "dropWhile (\<lambda>b. \<not> c_isalnum b) (x @ w @ y) = w @ y"
      using "1.prems"(2) hw by (cases w) simp_all
    moreover obtain b r where br: "w @ y = b # r" using "1.prems"(2) by (cases w) auto
    ultimately have "alnum_words (x @ w @ y) = takeWhile c_isalnum (w @ y) # alnum_words (dropWhile c_isalnum (w @ y))"
      by (subst alnum_words.simps) (simp only: br list.case)
    then show ?thesis using takeWhile_word "1.prems" by simp
  next
    case False
    let ?d = "dropWhile (\<lambda>b. \<not> c_isalnum b) x"
    obtain b r where br: "?d = b # r" using False by (cases ?d) auto
    have d: "dropWhile (\<lambda>b. \<not> c_isalnum b) (x @ w @ y) = b # (r @ w @ y)"
      using False br by (auto simp: dropWhile_append1)
    have lx: "\<not> c_isalnum (last x)" "x \<noteq> []" using "1.prems"(3) False by (auto simp: left_edge_def)
    have lb: "last (b # r) = last x" using br by (metis last_appendR list.distinct(1) takeWhile_dropWhile_id)
    let ?x = "dropWhile c_isalnum (b # r)"
    have ex: "last (b # r) \<in> set (b # r)" "\<not> c_isalnum (last (b # r))" using lx(1) lb last_in_set [of "b # r"] by (simp_all only: list.distinct not_False_eq_True)
    then have tail: "dropWhile c_isalnum (b # (r @ w @ y)) = ?x @ w @ y"
      using dropWhile_append1 [of "last (b # r)" "b # r" c_isalnum "w @ y"] by (simp del: dropWhile.simps)
    have "?x \<noteq> []" using ex by (simp only: dropWhile_eq_Nil_conv) blast
    then have "last ?x = last (b # r)" by (metis last_appendR takeWhile_dropWhile_id)
    then have "left_edge ?x" using ex by (simp only: left_edge_def simp_thms)
    then have "w \<in> set (alnum_words (?x @ w @ y))"
      using "1.hyps" [of b "r @ w @ y" ?x] d tail "1.prems" by (simp del: dropWhile.simps)
    moreover have "alnum_words (x @ w @ y) = takeWhile c_isalnum (b # (r @ w @ y)) # alnum_words (?x @ w @ y)"
      by (subst alnum_words.simps) (simp only: d list.case tail)
    ultimately show ?thesis by simp
  qed
qed

lemma windows3_mono: "p = x @ q @ y \<Longrightarrow> windows3 q \<subseteq> windows3 p"
  using windows3_append by simp

text \<open>
  Padding may be added where the text has a word boundary: the trigrams of the stretch are then trigrams
  of the word around it.
\<close>

lemma part_trigrams:
  assumes u: "list_all c_isalnum u" "u \<noteq> []"
    and left: "l \<Longrightarrow> left_edge x" and right: "r \<Longrightarrow> right_edge y"
  shows "windows3 ((if l then replicate LPADDING 0x20 else []) @ map c_tolower u
                   @ (if r then replicate RPADDING 0x20 else [])) \<subseteq> text_trigrams (x @ u @ y)"
proof -
  define a where "a = rev (takeWhile c_isalnum (rev x))"
  define x0 where "x0 = rev (dropWhile c_isalnum (rev x))"
  have x: "x = x0 @ a" unfolding a_def x0_def by (metis rev_append rev_rev_ident takeWhile_dropWhile_id)
  have a: "list_all c_isalnum a" unfolding a_def using takeWhile_alnum [of "rev x"] by (simp add: list_all_iff)
  have x0: "left_edge x0"
    unfolding x0_def left_edge_def using hd_dropWhile [of c_isalnum "rev x"] by (auto simp: last_rev)
  define b where "b = takeWhile c_isalnum y"
  define y0 where "y0 = dropWhile c_isalnum y"
  have y: "y = b @ y0" by (simp add: b_def y0_def)
  have b: "list_all c_isalnum b" unfolding b_def by (rule takeWhile_alnum)
  have y0: "right_edge y0" unfolding y0_def right_edge_def using hd_dropWhile [of c_isalnum y] by blast
  have la: "l \<Longrightarrow> a = []" using left a unfolding x left_edge_def by (cases a rule: rev_cases) auto
  have rb: "r \<Longrightarrow> b = []" using right b unfolding y right_edge_def by (cases b) auto
  have "a @ u @ b \<in> set (alnum_words (x0 @ (a @ u @ b) @ y0))"
    by (rule whole_word_in) (use u a b x0 y0 in auto)
  then have w: "word_trigrams (a @ u @ b) \<subseteq> text_trigrams (x @ u @ y)"
    unfolding text_trigrams_def x y by auto
  let ?L = "if l then replicate LPADDING 0x20 else []" and ?R = "if r then replicate RPADDING 0x20 else []"
  have "pad_word (map c_tolower (a @ u @ b)) =
        (if l then [] else replicate LPADDING 0x20 @ map c_tolower a) @ (?L @ map c_tolower u @ ?R) @
        (if r then [] else map c_tolower b @ replicate RPADDING 0x20)"
    using la rb by (simp add: pad_word_def)
  then have "windows3 (?L @ map c_tolower u @ ?R) \<subseteq> word_trigrams (a @ u @ b)"
    unfolding word_trigrams_def by (rule windows3_mono)
  then show ?thesis using w by blast
qed

section \<open>The parser and the text in step\<close>

text \<open>\<open>loose_from\<close> and \<open>ok_from\<close>: the rest of the pattern when the parser is inside an escape.\<close>

definition loose_from :: "bool \<Rightarrow> bytes \<Rightarrow> bytes \<Rightarrow> bool" where
  "loose_from esc q v \<longleftrightarrow> (if esc then loose_sem (0x5C # q) v else loose_sem q v)"

definition ok_from :: "bool \<Rightarrow> bytes \<Rightarrow> bool" where
  "ok_from esc q \<longleftrightarrow> (if esc then escapes_ok (0x5C # q) else escapes_ok q)"

lemma high_byte: "0x80 \<le> (b :: byte) \<Longrightarrow> b \<noteq> 0x25 \<and> b \<noteq> 0x5F \<and> b \<noteq> 0x5C \<and> \<not> c_isalnum b"
  using alnum_ascii [of b] by (auto simp: word_le_nat_alt word_less_nat_alt)

lemma loose_high:
  assumes "list_all (\<lambda>b. 0x80 \<le> b) cs" "loose_sem (cs @ p) v"
  shows "\<exists>v1 v2. v = v1 @ v2 \<and> list_all (\<lambda>b. \<not> c_isalnum b) v1 \<and> loose_sem p v2"
  using assms
proof (induction cs arbitrary: v)
  case (Cons c cs)
  have c: "c \<noteq> 0x25" "c \<noteq> 0x5F" "c \<noteq> 0x5C" "\<not> c_isalnum c" using Cons.prems(1) high_byte [of c] by auto
  obtain d v' where v: "v = d # v'" "c_tolower c = c_tolower d" "loose_sem (cs @ p) v'"
    using Cons.prems(2) c by auto
  obtain v1 v2 where "v' = v1 @ v2" "list_all (\<lambda>b. \<not> c_isalnum b) v1" "loose_sem p v2"
    using Cons.IH [OF _ v(3)] Cons.prems(1) by auto
  moreover have "\<not> c_isalnum d" using c(4) v(2) by (metis c_tolower_alnum)
  ultimately show ?case using v(1) by (intro exI [of _ "d # v1"] exI [of _ v2]) simp
next
  case Nil
  then show ?case by (intro exI [of _ "[]"] exI [of _ v]) simp
qed

lemma escapes_ok_high: "list_all (\<lambda>b. 0x80 \<le> b) cs \<Longrightarrow> escapes_ok (cs @ p) = escapes_ok p"
  by (induction cs) (auto dest: high_byte)

text \<open>One character that is not part of a word: the text has such a character in the same place.\<close>

lemma loose_nonword_char:
  assumes lay: "mb_layout e (b # r)" and nw: "\<not> c_isalnum b"
    and step: "\<exists>c u. v = c # u \<and> c_tolower b = c_tolower c \<and> loose_sem r u" and ok: "escapes_ok r"
  shows "\<exists>v1 v2. v = v1 @ v2 \<and> left_edge (x @ v1) \<and> right_edge v \<and> loose_sem (drop (pg_mblen e (b # r)) (b # r)) v2 \<and>
           mb_layout e (drop (pg_mblen e (b # r)) (b # r)) \<and> escapes_ok (drop (pg_mblen e (b # r)) (b # r))"
proof -
  let ?n = "pg_mblen e (b # r) - 1"
  have lay': "list_all (\<lambda>b. 0x80 \<le> b) (take ?n r)" "mb_layout e (drop (pg_mblen e (b # r)) (b # r))"
    using lay unfolding mb_layout.simps [of e "b # r"] by simp_all
  have dr: "drop (pg_mblen e (b # r)) (b # r) = drop ?n r"
    using pg_mblen_pos(1) [of e "b # r"] by (cases "pg_mblen e (b # r)") auto
  obtain c u where c: "v = c # u" "c_tolower b = c_tolower c" "loose_sem (take ?n r @ drop ?n r) u"
    using step by auto
  obtain v1 v2 where v12: "u = v1 @ v2" "list_all (\<lambda>b. \<not> c_isalnum b) v1" "loose_sem (drop ?n r) v2"
    using loose_high [OF lay'(1) c(3)] by blast
  have nc: "\<not> c_isalnum c" using nw c(2) by (metis c_tolower_alnum)
  then have "left_edge (x @ c # v1)" using v12(2) by (cases v1 rule: rev_cases) (auto simp: left_edge_def)
  moreover have "right_edge v" using nc c(1) by (simp add: right_edge_def)
  moreover have "escapes_ok (drop ?n r)" using escapes_ok_high [OF lay'(1), of "drop ?n r"] ok by simp
  ultimately show ?thesis
    using lay'(2) v12 c(1) unfolding dr by (intro exI [of _ "c # v1"] exI [of _ v2]) simp
qed

lemma mb_layout_ascii_tail: "b < 0x80 \<Longrightarrow> mb_layout e (b # r) \<Longrightarrow> mb_layout e (drop (pg_mblen e (b # r)) (b # r))"
  by (simp add: mb_layout_Cons_ascii pg_mblen_ascii)

lemma drop_ascii [simp]: "b < 0x80 \<Longrightarrow> drop (pg_mblen e (b # r)) (b # r) = r"
  by (simp add: pg_mblen_ascii)

lemma wild_skip_in_step:
  assumes "wild_skip e q esc m = (b # r, m')" "mb_layout e q" "ok_from esc q" "loose_from esc q v"
    "esc \<or> m \<or> left_edge x \<or> (q \<noteq> [] \<and> \<not> c_isalnum (hd q))"
  shows "\<exists>x' v'. x @ v = x' @ v' \<and> loose_sem (b # r) v' \<and> (\<not> m' \<longrightarrow> left_edge x') \<and>
           mb_layout e (b # r) \<and> escapes_ok (b # r)"
  using assms
proof (induction e q esc m arbitrary: x v rule: wild_skip.induct)
  case (1 e q esc m)
  let ?d = "drop (pg_mblen e q) q"
  obtain c q' where q: "q = c # q'" using "1.prems"(1) by (cases q) (auto simp: wild_skip.simps)
  have step: ?case
    if rec: "wild_skip e ?d esc' m'' = (b # r, m')"
      and IH: "\<And>x v. mb_layout e ?d \<Longrightarrow> ok_from esc' ?d \<Longrightarrow> loose_from esc' ?d v \<Longrightarrow>
            esc' \<or> m'' \<or> left_edge x \<or> (?d \<noteq> [] \<and> \<not> c_isalnum (hd ?d)) \<Longrightarrow>
            \<exists>x' v'. x @ v = x' @ v' \<and> loose_sem (b # r) v' \<and> (\<not> m' \<longrightarrow> left_edge x') \<and>
              mb_layout e (b # r) \<and> escapes_ok (b # r)"
      and inv: "\<exists>v1 v2. v = v1 @ v2 \<and> loose_from esc' ?d v2 \<and> (esc' \<or> m'' \<or> left_edge (x @ v1)) \<and>
            mb_layout e ?d \<and> ok_from esc' ?d" for esc' m''
  proof -
    obtain v1 v2 where v: "v = v1 @ v2" and p: "mb_layout e ?d" "ok_from esc' ?d" "loose_from esc' ?d v2"
        "esc' \<or> m'' \<or> left_edge (x @ v1) \<or> (?d \<noteq> [] \<and> \<not> c_isalnum (hd ?d))" using inv by blast
    show ?thesis using IH [OF p] unfolding v by simp
  qed
  consider (esc) esc | (bs) "\<not> esc" "c = 0x5C" | (pc) "\<not> esc" "c = 0x25" | (us) "\<not> esc" "c = 0x5F"
    | (word) "\<not> esc" "c_isalnum c" | (other) "\<not> esc" "\<not> c_isalnum c" "c \<noteq> 0x5C" "c \<noteq> 0x25" "c \<noteq> 0x5F" by blast
  then show ?case
  proof cases
    case esc
    have nw: "\<not> c_isalnum c" and okr: "escapes_ok q'" using "1.prems"(3) esc unfolding q ok_from_def by simp_all
    have st: "\<exists>d u. v = d # u \<and> c_tolower c = c_tolower d \<and> loose_sem q' u"
      using "1.prems"(4) esc unfolding q loose_from_def by simp
    have rec: "wild_skip e ?d False False = (b # r, m')"
      using "1.prems"(1) esc nw unfolding q by (simp add: wild_skip.simps [of e "c # q'"])
    show ?thesis
    proof (rule step [OF rec "1.IH"(1) [OF _ esc _ rec]])
      show "\<exists>v1 v2. v = v1 @ v2 \<and> loose_from False ?d v2 \<and> (False \<or> False \<or> left_edge (x @ v1)) \<and>
            mb_layout e ?d \<and> ok_from False ?d"
        using loose_nonword_char [OF "1.prems"(2) [unfolded q] nw st okr, of x]
        unfolding q loose_from_def ok_from_def by auto
    qed (use q nw in auto)
  next
    case bs
    have rec: "wild_skip e ?d True m = (b # r, m')"
      using "1.prems"(1) bs unfolding q by (simp add: wild_skip.simps [of e "0x5C # q'"] ISESCAPECHAR_def)
    show ?thesis
    proof (rule step [OF rec "1.IH"(2) [OF _ bs(1) _ rec]])
      show "\<exists>v1 v2. v = v1 @ v2 \<and> loose_from True ?d v2 \<and> (True \<or> m \<or> left_edge (x @ v1)) \<and>
            mb_layout e ?d \<and> ok_from True ?d"
        using "1.prems"(2,3,4) bs unfolding q loose_from_def ok_from_def
        by (intro exI [of _ "[]"] exI [of _ v]) (simp add: mb_layout_Cons_ascii del: loose_sem.simps)
    qed (use q bs in \<open>auto simp: ISESCAPECHAR_def\<close>)
  next
    case pc
    have rec: "wild_skip e ?d False True = (b # r, m')"
      using "1.prems"(1) pc unfolding q
      by (simp add: wild_skip.simps [of e "0x25 # q'"] ISESCAPECHAR_def ISWILDCARDCHAR_def)
    show ?thesis
    proof (rule step [OF rec "1.IH"(3) [OF _ pc(1) _ _ rec]])
      show "\<exists>v1 v2. v = v1 @ v2 \<and> loose_from False ?d v2 \<and> (False \<or> True \<or> left_edge (x @ v1)) \<and>
            mb_layout e ?d \<and> ok_from False ?d"
        using "1.prems"(2,3,4) pc unfolding q loose_from_def ok_from_def
        by (auto simp: mb_layout_Cons_ascii)
    qed (use q pc in \<open>auto simp: ISESCAPECHAR_def ISWILDCARDCHAR_def\<close>)
  next
    case us
    have rec: "wild_skip e ?d False True = (b # r, m')"
      using "1.prems"(1) us unfolding q
      by (simp add: wild_skip.simps [of e "0x5F # q'"] ISESCAPECHAR_def ISWILDCARDCHAR_def)
    show ?thesis
    proof (rule step [OF rec "1.IH"(3) [OF _ us(1) _ _ rec]])
      show "\<exists>v1 v2. v = v1 @ v2 \<and> loose_from False ?d v2 \<and> (False \<or> True \<or> left_edge (x @ v1)) \<and>
            mb_layout e ?d \<and> ok_from False ?d"
        using "1.prems"(2,3,4) us unfolding q loose_from_def ok_from_def
        by (auto simp: mb_layout_Cons_ascii)
    qed (use q us in \<open>auto simp: ISESCAPECHAR_def ISWILDCARDCHAR_def\<close>)
  next
    case word
    then have "(b # r, m') = (c # q', m)"
      using "1.prems"(1) alnum_not_meta [OF word(2)] unfolding q by (simp add: wild_skip.simps [of e "c # q'"])
    then show ?thesis
      using "1.prems"(2-5) word unfolding q loose_from_def ok_from_def
      by (intro exI [of _ x] exI [of _ v]) (auto simp del: loose_sem.simps escapes_ok.simps)
  next
    case other
    have rec: "wild_skip e ?d False False = (b # r, m')"
      using "1.prems"(1) other unfolding q
      by (simp add: wild_skip.simps [of e "c # q'"] ISESCAPECHAR_def ISWILDCARDCHAR_def)
    have st: "\<exists>d u. v = d # u \<and> c_tolower c = c_tolower d \<and> loose_sem q' u"
      and okr: "escapes_ok q'"
      using "1.prems"(3,4) other unfolding q loose_from_def ok_from_def by simp_all
    show ?thesis
    proof (rule step [OF rec "1.IH"(4) [OF _ other(1) _ _ _ rec]])
      show "\<exists>v1 v2. v = v1 @ v2 \<and> loose_from False ?d v2 \<and> (False \<or> False \<or> left_edge (x @ v1)) \<and>
            mb_layout e ?d \<and> ok_from False ?d"
        using loose_nonword_char [OF "1.prems"(2) [unfolded q] other(2) st okr, of x]
        unfolding q loose_from_def ok_from_def by auto
    qed (use q other in \<open>auto simp: ISESCAPECHAR_def ISWILDCARDCHAR_def\<close>)
  qed
qed

lemma loose_sem_literal:
  assumes "v = d # u" "c_tolower c = c_tolower d" "loose_sem q u" "c \<noteq> 0x5C"
  shows "loose_sem (c # q) v"
proof -
  have "\<exists>x y. x \<noteq> [] \<and> v = x @ y \<and> loose_sem q y"
    by (intro exI [of _ "[d]"] exI [of _ u]) (simp add: assms)
  then show ?thesis using assms by auto
qed

lemma wild_copy_in_step:
  assumes "wild_copy e q esc = (w, n, m, rest)" "mb_layout e q" "ok_from esc q" "loose_from esc q v"
  shows "\<exists>u v'. v = u @ v' \<and> map c_tolower u = map c_tolower w \<and> (\<not> m \<longrightarrow> right_edge v') \<and>
           loose_sem rest v' \<and> mb_layout e rest \<and> escapes_ok rest \<and> (rest = [] \<or> \<not> c_isalnum (hd rest))"
  using assms
proof (induction e q esc arbitrary: w n v rule: wild_copy.induct)
  case (1 e q esc)
  show ?case
  proof (cases q)
    case Nil
    then show ?thesis using "1.prems" unfolding loose_from_def
      by (cases esc) (auto simp: wild_copy.simps right_edge_def)
  next
    case q: (Cons c q')
    consider (esc) esc | (bs) "\<not> esc" "c = 0x5C" | (wild) "\<not> esc" "c = 0x25 \<or> c = 0x5F"
      | (word) "\<not> esc" "c_isalnum c" | (other) "\<not> esc" "\<not> c_isalnum c" "c \<noteq> 0x5C" "c \<noteq> 0x25" "c \<noteq> 0x5F" by blast
    then show ?thesis
    proof cases
      case esc
      have nw: "\<not> c_isalnum c" "c \<noteq> 0x5C" and okr: "escapes_ok q'"
        using "1.prems"(3) esc unfolding q ok_from_def by simp_all
      have out: "w = []" "m = False" "rest = q"
        using "1.prems"(1) esc nw unfolding q by (simp_all add: wild_copy.simps [of e "c # q'"])
      obtain d u where v: "v = d # u" "c_tolower c = c_tolower d" "loose_sem q' u"
        using "1.prems"(4) esc unfolding q loose_from_def by auto
      have nd: "\<not> c_isalnum d" using nw(1) v(2) by (metis c_tolower_alnum)
      have "loose_sem q v" unfolding q by (rule loose_sem_literal [OF v nw(2)])
      moreover have "escapes_ok q" using okr nw unfolding q by simp
      ultimately show ?thesis
        using out nd nw v(1) "1.prems"(2) unfolding q by (intro exI [of _ "[]"] exI [of _ v]) (simp add: right_edge_def)
    next
      case bs
      have "wild_copy e (drop (pg_mblen e q) q) True = (w, n, m, rest)"
        using "1.prems"(1) bs unfolding q by (simp add: wild_copy.simps [of e "0x5C # q'"] ISESCAPECHAR_def)
      then show ?thesis
        using "1.IH"(2) [of w n v] "1.prems"(2-4) bs
        unfolding q loose_from_def ok_from_def by (simp add: mb_layout_Cons_ascii ISESCAPECHAR_def)
    next
      case wild
      then have "(w, n, m, rest) = ([], 0, True, q)"
        using "1.prems"(1) unfolding q by (auto simp: wild_copy.simps [of e "c # q'"] ISESCAPECHAR_def ISWILDCARDCHAR_def)
      moreover have "\<not> c_isalnum c" using wild(2) alnum_not_meta [of c] by (auto simp: ISWILDCARDCHAR_def)
      ultimately show ?thesis
        using "1.prems"(2-4) wild(1) unfolding q loose_from_def ok_from_def
        by (intro exI [of _ "[]"] exI [of _ v]) simp
    next
      case word
      have a: "c < 0x80" "c \<noteq> 0x25" "c \<noteq> 0x5F" "c \<noteq> 0x5C"
        using alnum_ascii [OF word(2)] alnum_not_meta [OF word(2)] by (auto simp: ISESCAPECHAR_def ISWILDCARDCHAR_def)
      obtain w' n' where w: "wild_copy e q' False = (w', n', m, rest)" "w = c # w'"
        using "1.prems"(1) word a unfolding q
        by (auto simp: wild_copy.simps [of e "c # q'"] mblen_alnum ISESCAPECHAR_def ISWILDCARDCHAR_def split: prod.splits)
      obtain d u where v: "v = d # u" "c_tolower c = c_tolower d" "loose_sem q' u"
        using "1.prems"(4) word a unfolding q loose_from_def by auto
      have "ok_from False q'" "mb_layout e q'"
        using "1.prems"(2,3) word a unfolding q ok_from_def by (simp_all add: mb_layout_Cons_ascii)
      then obtain u1 v1 where "u = u1 @ v1" "map c_tolower u1 = map c_tolower w'" "\<not> m \<longrightarrow> right_edge v1"
           "loose_sem rest v1" "mb_layout e rest" "escapes_ok rest" "rest = [] \<or> \<not> c_isalnum (hd rest)"
        using "1.IH"(3) [of w' n' u] w v word a unfolding q loose_from_def
        by (auto simp: ISESCAPECHAR_def ISWILDCARDCHAR_def)
      then show ?thesis using v w by (intro exI [of _ "d # u1"] exI [of _ v1]) simp
    next
      case other
      have out: "w = []" "m = False" "rest = q"
        using "1.prems"(1) other unfolding q
        by (simp_all add: wild_copy.simps [of e "c # q'"] ISESCAPECHAR_def ISWILDCARDCHAR_def)
      obtain d u where v: "v = d # u" "c_tolower c = c_tolower d"
        using "1.prems"(4) other unfolding q loose_from_def by auto
      have "\<not> c_isalnum d" using other(2) v(2) by (metis c_tolower_alnum)
      then show ?thesis
        using out other v(1) "1.prems"(2-4) unfolding q loose_from_def ok_from_def
        by (intro exI [of _ "[]"] exI [of _ v]) (simp add: right_edge_def)
    qed
  qed
qed

section \<open>All parts\<close>

lemma lowerstr_padded:
  assumes "list_all c_isalnum w" "set l \<subseteq> {0x20}" "set r \<subseteq> {0x20}"
  shows "lowerstr_with_len (l @ w @ r) = l @ map c_tolower w @ r"
proof -
  have sp: "c_tolower 0x20 = 0x20" by (simp add: c_tolower_def c_isupper_def)
  have "map c_tolower xs = xs" if "set xs \<subseteq> {0x20}" for xs using that sp by (induction xs) auto
  then have m: "map c_tolower l = l" "map c_tolower r = r" using assms by auto
  have "0 \<notin> set w" using assms(1) alnum_nonzero by (auto simp: list_all_iff)
  then have "b \<noteq> 0" if "b \<in> set (l @ w @ r)" for b using assms(2,3) that by auto
  then have "takeWhile (\<lambda>b. b \<noteq> 0) (l @ w @ r) = l @ w @ r" by (simp add: takeWhile_eq_all_conv)
  then show ?thesis unfolding lowerstr_with_len_def by (simp only: map_append m)
qed

lemma ascii_padded:
  assumes "list_all c_isalnum w" "set l \<subseteq> {0x20}" "set r \<subseteq> {0x20}"
  shows "list_all (\<lambda>b. b < 0x80) (l @ map c_tolower w @ r)"
  using assms alnum_ascii c_tolower_alnum by (auto simp: list_all_iff)

text \<open>The trigrams of one part, and where the next part starts.\<close>

lemma generate_parts_in_step:
  assumes "mb_layout e q" "escapes_ok q" "loose_sem q v"
    "left_edge x \<or> q = [] \<or> \<not> c_isalnum (hd q)"
  shows "set (generate_parts e q) \<subseteq> text_trigrams (x @ v)"
  using assms
proof (induction e q arbitrary: x v rule: generate_parts.induct)
  case (1 e q)
  show ?case
  proof (cases "get_wildcard_part e q")
    case None
    then show ?thesis by (subst generate_parts.simps) simp
  next
    case (Some part)
    obtain b r m where sk: "wild_skip e q False False = (b # r, m)"
      using Some by (auto simp: get_wildcard_part_def split: prod.splits list.splits)
    obtain w n m' rest where cp: "wild_copy e (b # r) False = (w, n, m', rest)" by (metis surj_pair)
    let ?l = "if m then [] else replicate LPADDING 0x20 :: bytes" and ?r = "if m' then [] else replicate RPADDING 0x20 :: bytes"
    have part: "part = (?l @ w @ ?r, length ?l + n + length ?r, rest)"
      using Some unfolding get_wildcard_part_def sk cp by (auto simp only: cp prod.case list.case Let_def option.inject)
    have qn: "q \<noteq> []" using sk by (auto simp: wild_skip.simps)
    obtain x' v' where A: "x @ v = x' @ v'" "loose_sem (b # r) v'" "\<not> m \<longrightarrow> left_edge x'"
        "mb_layout e (b # r)" "escapes_ok (b # r)"
      using wild_skip_in_step [OF sk "1.prems"(1), of v x] "1.prems"(2-4) qn
      unfolding ok_from_def loose_from_def by (auto simp del: loose_sem.simps escapes_ok.simps)
    obtain u v2 where B: "v' = u @ v2" "map c_tolower u = map c_tolower w" "\<not> m' \<longrightarrow> right_edge v2"
        "loose_sem rest v2" "mb_layout e rest" "escapes_ok rest" "rest = [] \<or> \<not> c_isalnum (hd rest)"
      using wild_copy_in_step [OF cp A(4), of v'] A(2,5)
      unfolding ok_from_def loose_from_def by (auto simp del: loose_sem.simps escapes_ok.simps)
    have w: "list_all c_isalnum w" "n = length w" using wild_copy_word [OF cp] by auto
    have wne: "w \<noteq> []"
      using cp wild_skip_result [OF sk] alnum_not_meta [of b]
      by (auto simp: wild_copy.simps [of e "b # r"] mblen_alnum split: prod.splits)
    have "list_all c_isalnum (map c_tolower u)" using w(1) unfolding B(2) by (simp add: list_all_iff c_tolower_alnum)
    then have u: "list_all c_isalnum u" by (simp add: list_all_iff c_tolower_alnum)
    have une: "u \<noteq> []" using B(2) wne by auto
    have sets: "set ?l \<subseteq> {0x20}" "set ?r \<subseteq> {0x20}" by auto
    have low: "lowerstr_with_len (?l @ w @ ?r) = ?l @ map c_tolower u @ ?r"
      unfolding B(2) by (rule lowerstr_padded [OF w(1) sets])
    have "make_trigrams e (?l @ map c_tolower u @ ?r) (length ?l + n + length ?r) =
          make_trigrams_narrow (?l @ map c_tolower u @ ?r)"
      by (rule make_trigrams_ascii [OF ascii_padded [OF u sets]]) (use w B(2) map_eq_imp_length_eq in fastforce)
    moreover have "windows3 (?l @ map c_tolower u @ ?r) \<subseteq> text_trigrams (x @ v)"
      using part_trigrams [OF u une, of "\<not> m" x' "\<not> m'" v2] A(1,3) B(1,3) by (simp split: if_splits)
    moreover have "set (generate_parts e rest) \<subseteq> text_trigrams (x @ v)"
      using "1.IH" [OF Some part [symmetric] refl B(5,6,4), of "x' @ u"] B(7) A(1) B(1) by simp
    ultimately show ?thesis
      unfolding generate_parts.simps [of e q] Some
      by (simp only: option.case part prod.case low set_append make_trigrams_narrow_set Un_subset_iff simp_thms)
  qed
qed


lemma wildcard_trigrams_sound:
  assumes "mb_layout e pat" "mb_layout e str" "escapes_ok pat" "loose_sem pat str"
  shows "set (generate_wildcard_trgm e pat) \<subseteq> set (generate_trgm e str)"
proof -
  have "set (generate_parts e pat) \<subseteq> text_trigrams str"
    using generate_parts_in_step [OF assms(1,3,4), of "[]"] by (simp add: left_edge_def)
  then show ?thesis
    unfolding generate_trgm_set [OF assms(2)] by (auto simp: generate_wildcard_trgm_def sort_unique_set)
qed

end
