(* ===== verification/TrgmGin.thy ===== *)
theory TrgmGin
  imports TrgmSim TrgmLike
begin

text \<open>
  The GIN operator class (contrib/pg_trgm/trgm_gin.c): which keys a text has in the index, which keys a
  query looks up, and the consistency test.  The scan of the index (theory GinScan) calls
  \<open>gin_trgm_consistent\<close> with an array \<open>check\<close> that tells which of the query's keys the indexed text has
  (\<open>check_of\<close>).  Datums are the 32-bit integers they hold.
\<close>

section \<open>Strategies: trgm.h\<close>

definition SimilarityStrategyNumber :: nat where "SimilarityStrategyNumber = 1"
definition DistanceStrategyNumber :: nat where "DistanceStrategyNumber = 2"
definition LikeStrategyNumber :: nat where "LikeStrategyNumber = 3"
definition ILikeStrategyNumber :: nat where "ILikeStrategyNumber = 4"

lemmas strategy_defs = SimilarityStrategyNumber_def DistanceStrategyNumber_def LikeStrategyNumber_def
  ILikeStrategyNumber_def

section \<open>Extracting keys\<close>

definition gin_extract_value_trgm :: "pg_encoding \<Rightarrow> bytes \<Rightarrow> 32 word list" where
  "gin_extract_value_trgm e val = map trgm2int (generate_trgm e val)"

datatype gin_search_mode = GIN_SEARCH_MODE_DEFAULT | GIN_SEARCH_MODE_ALL

definition gin_extract_query_trgm ::
  "pg_encoding \<Rightarrow> bytes \<Rightarrow> nat \<Rightarrow> pg_error + (32 word list \<times> gin_search_mode)" where
  "gin_extract_query_trgm e val strategy =
     (if strategy = SimilarityStrategyNumber \<or> strategy = ILikeStrategyNumber \<or> strategy = LikeStrategyNumber
      then let trg = (if strategy = SimilarityStrategyNumber then generate_trgm e val
                      else generate_wildcard_trgm e val)
           in Inr (map trgm2int trg, if trg = [] then GIN_SEARCH_MODE_ALL else GIN_SEARCH_MODE_DEFAULT)
      else Inl (UnrecognizedStrategy strategy))"

text \<open>The entry point for operator classes of older catalogs dispatches on the number of arguments.\<close>

definition gin_extract_trgm ::
  "nat \<Rightarrow> pg_encoding \<Rightarrow> bytes \<Rightarrow> nat \<Rightarrow> pg_error + (32 word list \<times> gin_search_mode)" where
  "gin_extract_trgm nargs e val strategy =
     (if nargs = 3 then Inr (gin_extract_value_trgm e val, GIN_SEARCH_MODE_DEFAULT)
      else if nargs = 7 then gin_extract_query_trgm e val strategy
      else Inl UnexpectedNumberOfArguments)"

section \<open>The consistency test\<close>

text \<open>\<open>recheck\<close> is always set.\<close>

definition gin_trgm_consistent :: "env \<Rightarrow> bool list \<Rightarrow> nat \<Rightarrow> pg_error + (bool \<times> bool)" where
  "gin_trgm_consistent env check strategy =
     (let nkeys = length check in
      if strategy = SimilarityStrategyNumber then
        let ntrue = length (filter (\<lambda>c. c) check)
        in Inr (if nkeys = 0 then False
                else cge (cdiv float4_bits (of_nat ntrue) (of_nat nkeys)) (trgm_limit env), True)
      else if strategy = ILikeStrategyNumber \<or> strategy = LikeStrategyNumber then Inr (list_all (\<lambda>c. c) check, True)
      else Inl (UnrecognizedStrategy strategy))"

definition check_of :: "32 word list \<Rightarrow> 32 word list \<Rightarrow> bool list" where
  "check_of entries keys = map (\<lambda>k. k \<in> set keys) entries"

section \<open>What the keys tell\<close>

lemma key_mem: "trgm2int t \<in> set (map trgm2int ts) \<longleftrightarrow> t \<in> set ts"
  by (auto simp: trgm2int_inj)

lemma check_of_keys: "check_of (map trgm2int q) (map trgm2int ts) = map (\<lambda>t. t \<in> set ts) q"
  unfolding check_of_def using key_mem by (simp del: set_map)

lemma filter_check_count:
  "trgm_sorted q \<Longrightarrow> length (filter (\<lambda>c. c) (map (\<lambda>t. t \<in> set ts) q)) = card (set q \<inter> set ts)"
proof -
  assume s: "trgm_sorted q"
  have "length (filter (\<lambda>c. c) (map (\<lambda>t. t \<in> set ts) q)) = length (filter (\<lambda>t. t \<in> set ts) q)"
    by (simp add: filter_map comp_def)
  also have "\<dots> = card (set (filter (\<lambda>t. t \<in> set ts) q))"
    using trgm_sorted_distinct [OF s] by (intro distinct_card [symmetric]) simp
  also have "set (filter (\<lambda>t. t \<in> set ts) q) = set q \<inter> set ts" by auto
  finally show ?thesis .
qed

lemma cge_mono: "x \<le> y \<Longrightarrow> cge (Num x) l \<Longrightarrow> cge (Num y) l"
  by (cases l) auto

lemma meta_not_upper: "\<not> c_isupper 0x25" "\<not> c_isupper 0x5F" "\<not> c_isupper 0x5C"
  by (simp_all add: c_isupper_def)

lemma loose_sem_fold: "loose_sem (map c_tolower p) (map c_tolower t) \<Longrightarrow> loose_sem p t"
proof (induction p t rule: loose_sem.induct)
  case (2 d p t)
  have lowered: "c_tolower d = x \<longleftrightarrow> d = x" if "x = 0x25 \<or> x = 0x5F \<or> x = 0x5C" for d x :: byte
    using that alnum_not_meta [of "c_tolower d"] c_tolower_alnum [of d] meta_not_upper
    by (auto simp: c_tolower_def c_isalnum_def c_isalpha_def ISESCAPECHAR_def ISWILDCARDCHAR_def split: if_splits)
  consider (pc) "d = 0x25" | (us) "d = 0x5F" | (esc) "d = 0x5C" | (lit) "d \<noteq> 0x25" "d \<noteq> 0x5F" "d \<noteq> 0x5C" by blast
  then show ?case
  proof cases
    case pc
    then have "c_tolower d = 0x25" using lowered by simp
    then obtain x u where "map c_tolower t = x @ u" "loose_sem (map c_tolower p) u" using "2.prems" by auto
    then obtain x' u' where t: "t = x' @ u'" "loose_sem (map c_tolower p) (map c_tolower u')"
      by (auto simp: map_eq_append_conv)
    then have "loose_sem p u'" using "2.IH"(1) [OF pc] by blast
    then show ?thesis using pc t(1) by auto
  next
    case us
    then have l: "c_tolower d = 0x5F" using lowered by simp
    have "(0x5F :: byte) \<noteq> 0x25" by simp
    then obtain x u where "x \<noteq> []" "map c_tolower t = x @ u" "loose_sem (map c_tolower p) u"
      using "2.prems" l by auto
    then obtain x' u' where t: "x' \<noteq> []" "t = x' @ u'" "loose_sem (map c_tolower p) (map c_tolower u')"
      by (auto simp: map_eq_append_conv)
    then have "loose_sem p u'" using "2.IH"(2) us by simp
    then show ?thesis using us t(1,2) by auto
  next
    case esc
    then have l: "c_tolower d = 0x5C" using lowered by simp
    then obtain d' p' c u where t: "p = d' # p'" "t = c # u" "c_tolower d' = c_tolower c"
        "loose_sem (map c_tolower p') (map c_tolower u)"
      using "2.prems" by (cases p; cases t) auto
    then have "loose_sem p' u" using "2.IH"(3) esc by simp
    then show ?thesis using esc t by simp
  next
    case lit
    then have l: "c_tolower d \<noteq> 0x25" "c_tolower d \<noteq> 0x5F" "c_tolower d \<noteq> 0x5C" using lowered by auto
    then obtain c u where t: "t = c # u" "c_tolower d = c_tolower c" "loose_sem (map c_tolower p) (map c_tolower u)"
      using "2.prems" by (cases t) auto
    then have "loose_sem p u" using "2.IH"(4) [OF lit(1,2,3)] by blast
    then show ?thesis using lit t by simp
  qed
qed simp

section \<open>LIKE and ILIKE through the index\<close>

lemma pg_ascii_tolower_fold: "pg_ascii_tolower = c_tolower"
  by (auto simp: pg_ascii_tolower_def c_tolower_def c_isupper_def)

lemma continuation_high: "is_continuation b \<Longrightarrow> 0x80 \<le> b"
proof (rule ccontr)
  assume c: "is_continuation b" and "\<not> 0x80 \<le> b"
  then have "b AND 0x80 = 0" by (intro ascii_high_bit) simp
  have "(b AND 0xC0) AND 0x80 = b AND (0xC0 AND 0x80)" by (rule and.assoc)
  moreover have "0xC0 AND (0x80 :: byte) = 0x80" by simp
  ultimately have "(0x80 :: byte) AND 0x80 = 0"
    using c \<open>b AND 0x80 = 0\<close> by (simp only: is_continuation_def)
  then show False by simp
qed

lemma continuation_fold: "is_continuation (c_tolower b) = is_continuation b"
proof (cases "c_isupper b")
  case True
  then have "c_isalnum b" "c_isalnum (c_tolower b)" using c_tolower_alnum [of b] by (auto simp: c_isalnum_def c_isalpha_def)
  then have "\<not> 0x80 \<le> b" "\<not> 0x80 \<le> c_tolower b" using high_byte by blast+
  then show ?thesis using continuation_high by blast
qed (simp add: c_tolower_def)

lemma meta_fold: "x = 0x25 \<or> x = 0x5F \<or> x = 0x5C \<Longrightarrow> c_tolower d = x \<longleftrightarrow> d = x"
  using alnum_not_meta [of "c_tolower d"] c_tolower_alnum [of d] meta_not_upper
  by (auto simp: c_tolower_def c_isalnum_def c_isalpha_def ISESCAPECHAR_def ISWILDCARDCHAR_def split: if_splits)

lemma starts_char_fold: "starts_char v (c_tolower b) = starts_char v b"
  by (cases v) (simp_all add: continuation_fold)

lemma synced_fold: "synced v w p \<Longrightarrow> synced v w (map c_tolower p)"
proof (induction v w p rule: synced.induct)
  case (2 v w d p)
  have m: "c_tolower d = 0x25 \<longleftrightarrow> d = 0x25" "c_tolower d = 0x5F \<longleftrightarrow> d = 0x5F" "c_tolower d = 0x5C \<longleftrightarrow> d = 0x5C"
    by (simp_all add: meta_fold)
  show ?case
  proof (cases p)
    case Nil
    then show ?thesis using 2 by (simp add: m starts_char_fold split: if_splits)
  next
    case (Cons d' p')
    show ?thesis
    proof (cases "d = 0x5C")
      case True
      have "synced v w (map c_tolower (d # p)) \<longleftrightarrow>
            (w \<longrightarrow> starts_char v (c_tolower d')) \<and> synced v False (map c_tolower p')"
        by (simp add: m Cons True c_tolower_def meta_not_upper)
      then show ?thesis unfolding starts_char_fold using 2 True Cons by simp
    qed (use 2 in \<open>auto simp: m starts_char_fold split: if_splits\<close>)
  qed
qed simp

definition variant_of :: "pg_encoding \<Rightarrow> like_variant" where
  "variant_of e = (if pg_encoding_max_length e = 1 then SB else UTF8)"

lemma matches_loose:
  assumes "textlike e str pat = Inr True \<or> texticlike e str pat = Inr True"
    and "synced (variant_of e) False pat"
  shows "loose_sem pat str"
proof -
  have tr: "map_sum id (\<lambda>r. r = LIKE_TRUE) x = Inr True \<longleftrightarrow> x = Inr LIKE_TRUE" for x :: "pg_error + like_result"
    by (cases x) auto
  have i: "synced SB_I False pat" if "synced SB False pat"
  proof -
    have "synced SB w p = synced SB_I w p" for w p
      by (induction SB w p rule: synced.induct) (auto split: list.split)
    then show ?thesis using that by simp
  qed
  show ?thesis
  proof (cases "pg_encoding_max_length e = 1")
    case True
    then have "MatchText SB str pat = Inr LIKE_TRUE \<or> MatchText SB_I str pat = Inr LIKE_TRUE"
      using assms(1) by (auto simp: textlike_def texticlike_def Generic_Text_IC_like_def tr)
    moreover have "synced SB False pat" using assms(2) True by (simp add: variant_of_def)
    ultimately show ?thesis using MatchText_true like_sem_loose i by metis
  next
    case False
    then have gt: "pg_encoding_max_length e > 1" by (cases e) auto
    have u: "synced UTF8 False pat" using assms(2) False by (simp add: variant_of_def)
    have "MatchText UTF8 str pat = Inr LIKE_TRUE \<or>
          MatchText UTF8 (map c_tolower str) (map c_tolower pat) = Inr LIKE_TRUE"
      using assms(1) False gt
      by (auto simp: textlike_def texticlike_def Generic_Text_IC_like_def tr pg_ascii_tolower_fold)
    then have "loose_sem pat str \<or> loose_sem (map c_tolower pat) (map c_tolower str)"
      using MatchText_true [OF u] MatchText_true [OF synced_fold [OF u]] like_sem_loose by blast
    then show ?thesis using loose_sem_fold by blast
  qed
qed

lemma gin_like_complete:
  assumes "mb_layout e pat" "mb_layout e str" "escapes_ok pat" "synced (variant_of e) False pat"
    and "textlike e str pat = Inr True \<or> texticlike e str pat = Inr True"
    and strat: "strategy = LikeStrategyNumber \<or> strategy = ILikeStrategyNumber"
    and q: "gin_extract_query_trgm e pat strategy = Inr (entries, mode)"
  shows "gin_trgm_consistent env (check_of entries (gin_extract_value_trgm e str)) strategy = Inr (True, True)"
proof -
  have sub: "set (generate_wildcard_trgm e pat) \<subseteq> set (generate_trgm e str)"
    using wildcard_trigrams_sound [OF assms(1-3)] matches_loose [OF assms(5,4)] by blast
  have "entries = map trgm2int (generate_wildcard_trgm e pat)"
    using q strat by (auto simp: gin_extract_query_trgm_def strategy_defs Let_def)
  then have "check_of entries (gin_extract_value_trgm e str)
      = map (\<lambda>t. t \<in> set (generate_trgm e str)) (generate_wildcard_trgm e pat)"
    by (simp only: gin_extract_value_trgm_def check_of_keys)
  then show ?thesis using sub strat by (auto simp: gin_trgm_consistent_def strategy_defs list_all_iff Let_def)
qed

section \<open>Misses, and the similarity strategy\<close>

lemma gin_like_miss:
  assumes "t \<in> set (generate_parts e pat)" "pat \<noteq> []" "mb_layout e str" "t \<notin> text_trigrams str"
  shows "\<exists>entries mode. gin_extract_query_trgm e pat LikeStrategyNumber = Inr (entries, mode) \<and>
    gin_trgm_consistent env (check_of entries (gin_extract_value_trgm e str)) LikeStrategyNumber = Inr (False, True)"
proof -
  have "t \<in> set (generate_wildcard_trgm e pat)"
    using assms(1,2) by (cases pat) (auto simp: generate_wildcard_trgm_def sort_unique_set LPADDING_def RPADDING_def)
  moreover have "t \<notin> set (generate_trgm e str)" using assms(3,4) by (simp add: generate_trgm_set)
  ultimately have "\<not> list_all (\<lambda>c. c) (map (\<lambda>t. t \<in> set (generate_trgm e str)) (generate_wildcard_trgm e pat))"
    by (auto simp: list_all_iff)
  then show ?thesis
    by (simp add: gin_extract_query_trgm_def strategy_defs Let_def gin_extract_value_trgm_def check_of_keys
        gin_trgm_consistent_def)
qed

lemma padding_eval: "replicate LPADDING x = [x, x]" "replicate RPADDING x = [x]"
  by (simp_all add: LPADDING_def RPADDING_def numeral_2_eq_2)

lemmas wild_eval = get_wildcard_part_def wild_skip.simps wild_copy.simps ISESCAPECHAR_def ISWILDCARDCHAR_def
  pg_ascii_mblen_def c_ctype_defs Let_def

lemma gw1: "get_wildcard_part PG_SQL_ASCII [0x61, 0x62, 0x63, 0x5C, 0x5C, 0x25, 0x64, 0x65, 0x66] =
  Some ([0x20,0x20,0x61,0x62,0x63,0x20], 6, [0x5C, 0x25, 0x64, 0x65, 0x66])"
  by (simp add: wild_eval padding_eval)
lemma gw2: "get_wildcard_part PG_SQL_ASCII [0x5C, 0x25, 0x64, 0x65, 0x66] =
  Some ([0x20,0x20,0x64,0x65,0x66,0x20], 6, [])"
  by (simp add: wild_eval padding_eval)
lemma gp2: "(0x20,0x20,0x64) \<in> set (generate_parts PG_SQL_ASCII [0x5C, 0x25, 0x64, 0x65, 0x66])"
  by (simp add: generate_parts.simps [of _ "[0x5C, 0x25, 0x64, 0x65, 0x66]"] gw2 lowerstr_with_len_def c_tolower_def c_isupper_def make_trigrams_def CPTRGM_def)

lemma gw3: "get_wildcard_part PG_SQL_ASCII [0x25, 0x5C, 0x61, 0x62, 0x63] =
  Some ([0x20,0x20,0x61,0x62,0x63,0x20], 6, [])"
  by (simp add: wild_eval padding_eval)

lemma gin_similarity_value:
  assumes "generate_trgm e q \<noteq> []"
  shows "gin_trgm_consistent env (check_of (map trgm2int (generate_trgm e q)) (gin_extract_value_trgm e str)) SimilarityStrategyNumber
    = Inr (cge (Num (rnd float4_bits (of_nat (card (set (generate_trgm e q) \<inter> set (generate_trgm e str))) / of_nat (length (generate_trgm e q))))) (trgm_limit env), True)"
  unfolding gin_extract_value_trgm_def check_of_keys gin_trgm_consistent_def Let_def
    filter_check_count [OF generate_trgm_sorted]
  using assms by (simp add: cdiv_def)

section \<open>Similarity, and two patterns that lose rows\<close>

text \<open>For the similarity operator too, the consistency test accepts the keys of a matching text.\<close>

lemma gin_similarity_complete:
  assumes "generate_trgm e q \<noteq> []" "similarity_op env e str q"
  shows "\<exists>entries mode. gin_extract_query_trgm e q SimilarityStrategyNumber = Inr (entries, mode) \<and>
    gin_trgm_consistent env (check_of entries (gin_extract_value_trgm e str)) SimilarityStrategyNumber = Inr (True, True)"
proof -
  let ?q = "generate_trgm e q" and ?s = "generate_trgm e str"
  have sim: "similarity e str q = Num (rnd float4_bits (overlap ?s ?q))"
    using cnt_sml_overlap [OF generate_trgm_sorted generate_trgm_sorted, of e str e q] assms(1) by (simp add: similarity_def)
  have pos: "0 < length ?q" using assms(1) by simp
  then have "overlap ?s ?q \<le> of_nat (card (set ?q \<inter> set ?s)) / of_nat (length ?q)"
    unfolding overlap_def Int_commute [of "set ?s"] using pos by (intro divide_left_mono mult_pos_pos) (simp_all add: less_max_iff_disj)
  then have "rnd float4_bits (overlap ?s ?q) \<le> rnd float4_bits (of_nat (card (set ?q \<inter> set ?s)) / of_nat (length ?q))"
    by (intro rnd_mono) simp_all
  then have "cge (Num (rnd float4_bits (of_nat (card (set ?q \<inter> set ?s)) / of_nat (length ?q)))) (trgm_limit env)"
    using assms(2) unfolding similarity_op_def sim by (rule cge_mono)
  then have "gin_trgm_consistent env (check_of (map trgm2int ?q) (gin_extract_value_trgm e str)) SimilarityStrategyNumber = Inr (True, True)"
    using gin_similarity_value [OF assms(1)] by simp
  then show ?thesis by (simp add: gin_extract_query_trgm_def Let_def)
qed

text \<open>The pattern \<open>abc\\%def\<close> (letters, an escaped backslash, a wildcard, letters) matches the text
  \<open>abc\xdef\<close>, but the index says it does not: after copying \<open>abc\<close> the parser stops on the escaped
  backslash, and the next call takes that byte for an escape, so \<open>def\<close> is padded as if it began a word.\<close>

lemma wildcard_escaped_backslash:
  "textlike PG_SQL_ASCII [0x61, 0x62, 0x63, 0x5C, 0x78, 0x64, 0x65, 0x66]
     [0x61, 0x62, 0x63, 0x5C, 0x5C, 0x25, 0x64, 0x65, 0x66] = Inr True \<and>
   (\<exists>entries mode. gin_extract_query_trgm PG_SQL_ASCII
        [0x61, 0x62, 0x63, 0x5C, 0x5C, 0x25, 0x64, 0x65, 0x66] LikeStrategyNumber = Inr (entries, mode) \<and>
      gin_trgm_consistent env (check_of entries (gin_extract_value_trgm PG_SQL_ASCII
        [0x61, 0x62, 0x63, 0x5C, 0x78, 0x64, 0x65, 0x66])) LikeStrategyNumber = Inr (False, True))"
proof
  show "textlike PG_SQL_ASCII [0x61, 0x62, 0x63, 0x5C, 0x78, 0x64, 0x65, 0x66]
     [0x61, 0x62, 0x63, 0x5C, 0x5C, 0x25, 0x64, 0x65, 0x66] = Inr True"
    by (simp add: textlike_def MatchText.simps match_scan.simps match_end_def)
  have "alnum_words [0x61, 0x62, 0x63, 0x5C, 0x78, 0x64, 0x65, 0x66] = [[0x61, 0x62, 0x63], [0x78, 0x64, 0x65, 0x66]]"
    by (simp add: alnum_words.simps c_ctype_defs)
  then have "(0x20, 0x20, 0x64) \<notin> text_trigrams [0x61, 0x62, 0x63, 0x5C, 0x78, 0x64, 0x65, 0x66]"
    by (simp add: text_trigrams_def trigram_eval)
  moreover have "(0x20, 0x20, 0x64) \<in> set (generate_parts PG_SQL_ASCII [0x61, 0x62, 0x63, 0x5C, 0x5C, 0x25, 0x64, 0x65, 0x66])"
    using gp2 by (subst generate_parts.simps) (simp add: gw1)
  ultimately show "\<exists>entries mode. gin_extract_query_trgm PG_SQL_ASCII
        [0x61, 0x62, 0x63, 0x5C, 0x5C, 0x25, 0x64, 0x65, 0x66] LikeStrategyNumber = Inr (entries, mode) \<and>
      gin_trgm_consistent env (check_of entries (gin_extract_value_trgm PG_SQL_ASCII
        [0x61, 0x62, 0x63, 0x5C, 0x78, 0x64, 0x65, 0x66])) LikeStrategyNumber = Inr (False, True)"
    by (intro gin_like_miss mb_layout_single_byte) simp_all
qed

text \<open>The pattern \<open>%\abc\<close> (a wildcard, an escaped letter) matches the text \<open>xabc\<close>, but the index says it
  does not: the escape makes the parser forget that a wildcard came before the word.\<close>

lemma wildcard_escaped_letter:
  "textlike PG_SQL_ASCII [0x78, 0x61, 0x62, 0x63] [0x25, 0x5C, 0x61, 0x62, 0x63] = Inr True \<and>
   (\<exists>entries mode. gin_extract_query_trgm PG_SQL_ASCII [0x25, 0x5C, 0x61, 0x62, 0x63] LikeStrategyNumber = Inr (entries, mode) \<and>
      gin_trgm_consistent env (check_of entries (gin_extract_value_trgm PG_SQL_ASCII
        [0x78, 0x61, 0x62, 0x63])) LikeStrategyNumber = Inr (False, True))"
proof
  show "textlike PG_SQL_ASCII [0x78, 0x61, 0x62, 0x63] [0x25, 0x5C, 0x61, 0x62, 0x63] = Inr True"
    by (simp add: textlike_def MatchText.simps match_scan.simps match_end_def)
  have "alnum_words [0x78, 0x61, 0x62, 0x63] = [[0x78, 0x61, 0x62, 0x63]]"
    by (simp add: alnum_words.simps c_ctype_defs)
  then have "(0x20, 0x20, 0x61) \<notin> text_trigrams [0x78, 0x61, 0x62, 0x63]"
    by (simp add: text_trigrams_def trigram_eval)
  moreover have "(0x20, 0x20, 0x61) \<in> set (generate_parts PG_SQL_ASCII [0x25, 0x5C, 0x61, 0x62, 0x63])"
    by (subst generate_parts.simps)
      (simp add: gw3 lowerstr_with_len_def c_tolower_def c_isupper_def make_trigrams_def CPTRGM_def)
  ultimately show "\<exists>entries mode. gin_extract_query_trgm PG_SQL_ASCII [0x25, 0x5C, 0x61, 0x62, 0x63] LikeStrategyNumber = Inr (entries, mode) \<and>
      gin_trgm_consistent env (check_of entries (gin_extract_value_trgm PG_SQL_ASCII
        [0x78, 0x61, 0x62, 0x63])) LikeStrategyNumber = Inr (False, True)"
    by (intro gin_like_miss mb_layout_single_byte) simp_all
qed

end
