(* ===== verification/GinScan.thy ===== *)
theory GinScan
  imports TrgmGin
begin

text \<open>
  A scan of a GIN index on one column of texts with one condition: the operator class of theory TrgmGin
  called by the access method (access/gin/ginscan.c and ginget.c), and the recheck of the rows found.
  An item is the number of a row, in the order of the heap; the stream of an entry is its posting list.
  The hidden entry of the search mode \<open>ALL\<close> has the items of the whole index: a text without keys is in
  the index under a placeholder.  Pages of the index, lossy items, partial matches, nulls and the pending
  list are not modelled.
\<close>

section \<open>Scan keys: ginscan.c\<close>

definition posting_list :: "32 word list list \<Rightarrow> 32 word \<Rightarrow> nat list" where
  "posting_list index k = filter (\<lambda>i. k \<in> set (index ! i)) [0..<length index]"

text \<open>Search modes other than the default add a hidden entry.\<close>

definition ginFillScanKey :: "32 word list list \<Rightarrow> gin_search_mode \<Rightarrow> 32 word list \<Rightarrow> nat list list" where
  "ginFillScanKey index searchMode queryValues =
     map (posting_list index) queryValues
     @ (if searchMode \<noteq> GIN_SEARCH_MODE_DEFAULT then [[0..<length index]] else [])"

section \<open>Items: ginget.c\<close>

text \<open>The least of the current items of the entries that are not finished.\<close>

fun minItem :: "nat list list \<Rightarrow> nat option" where
  "minItem [] = None"
| "minItem ([] # ss) = minItem ss"
| "minItem ((x # xs) # ss) = (case minItem ss of None \<Rightarrow> Some x | Some y \<Rightarrow> Some (min x y))"

text \<open>
  The item, whether it passes, and whether it has to be rechecked; \<open>None\<close> when all entries are finished.
  The consistency function sees the entries of the query only.
\<close>

definition keyGetItem ::
  "(bool list \<Rightarrow> pg_error + (bool \<times> bool)) \<Rightarrow> nat \<Rightarrow> nat list list \<Rightarrow> (pg_error + (nat \<times> bool \<times> bool)) option" where
  "keyGetItem consistentFn nuserentries entries =
     (case minItem entries of
        None \<Rightarrow> None
      | Some item \<Rightarrow>
          let entryRes = map (\<lambda>s. s \<noteq> [] \<and> hd s = item) entries
          in Some (map_sum id (\<lambda>r. (item, r)) (consistentFn (take nuserentries entryRes))))"

lemma minItem_None: "minItem ss = None \<longleftrightarrow> (\<forall>s \<in> set ss. s = [])"
  by (induction ss rule: minItem.induct) (auto split: option.splits)

lemma minItem_least:
  "minItem ss = Some m \<Longrightarrow> (\<exists>s \<in> set ss. s \<noteq> [] \<and> hd s = m) \<and> (\<forall>s \<in> set ss. s \<noteq> [] \<longrightarrow> m \<le> hd s)"
proof (induction ss arbitrary: m rule: minItem.induct)
  case (3 x xs ss)
  show ?case
  proof (cases "minItem ss")
    case None
    then have "\<forall>s \<in> set ss. s = []" by (simp add: minItem_None)
    then show ?thesis using "3.prems" None by auto
  next
    case (Some y)
    then have "m = min x y" using "3.prems" by simp
    then show ?thesis using "3.IH" [OF Some] by (cases "x \<le> y") (auto simp: min_def intro: order_trans)
  qed
qed auto

text \<open>Past an item every entry is advanced; the sum of what is left of them decreases.\<close>

definition advance :: "nat \<Rightarrow> nat list list \<Rightarrow> nat list list" where
  "advance item entries = map (dropWhile (\<lambda>i. i \<le> item)) entries"

lemma advance_decreases:
  assumes "minItem ss = Some m"
  shows "sum_list (map length (advance m ss)) < sum_list (map length ss)"
proof -
  obtain s where s: "s \<in> set ss" "s \<noteq> []" "hd s = m" using minItem_least [OF assms] by blast
  have "length (dropWhile (\<lambda>i. i \<le> m) s) < length s"
    using s(2,3) by (cases s) (auto simp: less_Suc_eq_le length_dropWhile_le)
  moreover have "length (dropWhile (\<lambda>i. i \<le> m) t) \<le> length t" for t by (rule length_dropWhile_le)
  ultimately show ?thesis unfolding advance_def
    using s(1) by (induction ss) (auto intro: add_less_le_mono add_le_less_mono add_less_mono simp: sum_list_mono add_mono comp_def)
qed

function scan_items :: "(bool list \<Rightarrow> pg_error + (bool \<times> bool)) \<Rightarrow> nat \<Rightarrow> nat list list \<Rightarrow> pg_error + (nat \<times> bool) list" where
  "scan_items consistentFn nuserentries entries =
     (case keyGetItem consistentFn nuserentries entries of
        None \<Rightarrow> Inr []
      | Some (Inl err) \<Rightarrow> Inl err
      | Some (Inr (item, matches, recheck)) \<Rightarrow>
          map_sum id (\<lambda>r. if matches then (item, recheck) # r else r)
            (scan_items consistentFn nuserentries (advance item entries)))"
  by pat_completeness auto
termination
  by (relation "measure (\<lambda>(c, n, ss). sum_list (map length ss))", simp)
    (auto simp: keyGetItem_def Let_def map_sum_def advance_decreases split: option.splits sum.splits)

declare scan_items.simps [simp del]

text \<open>The bitmap of a scan; no key in the default mode is an unsatisfiable query.\<close>

definition gingetbitmap :: "env \<Rightarrow> pg_encoding \<Rightarrow> 32 word list list \<Rightarrow> bytes \<Rightarrow> nat \<Rightarrow> pg_error + (nat \<times> bool) list" where
  "gingetbitmap env e index query strategy =
     (case gin_extract_query_trgm e query strategy of
        Inl err \<Rightarrow> Inl err
      | Inr (queryValues, searchMode) \<Rightarrow>
          if queryValues = [] \<and> searchMode = GIN_SEARCH_MODE_DEFAULT then Inr []
          else scan_items (\<lambda>entryRes. gin_trgm_consistent env entryRes strategy) (length queryValues)
                 (ginFillScanKey index searchMode queryValues))"

section \<open>Scans of a table\<close>

text \<open>The operators of the class; LIKE raises an error for some patterns.\<close>

definition trgm_operator :: "env \<Rightarrow> pg_encoding \<Rightarrow> nat \<Rightarrow> bytes \<Rightarrow> bytes \<Rightarrow> pg_error + bool" where
  "trgm_operator env e strategy query str =
     (if strategy = SimilarityStrategyNumber then Inr (similarity_op env e str query)
      else if strategy = LikeStrategyNumber then textlike e str query
      else if strategy = ILikeStrategyNumber then texticlike e str query
      else Inl (UnrecognizedStrategy strategy))"

text \<open>The elements that satisfy a condition, in order, or the first error.\<close>

fun filter_err :: "('a \<Rightarrow> 'e + bool) \<Rightarrow> 'a list \<Rightarrow> 'e + 'a list" where
  "filter_err p [] = Inr []"
| "filter_err p (x # xs) =
     (case p x of Inl err \<Rightarrow> Inl err | Inr b \<Rightarrow> map_sum id (\<lambda>r. if b then x # r else r) (filter_err p xs))"

definition seq_scan :: "env \<Rightarrow> pg_encoding \<Rightarrow> bytes list \<Rightarrow> bytes \<Rightarrow> nat \<Rightarrow> pg_error + nat list" where
  "seq_scan env e rows query strategy =
     filter_err (\<lambda>i. trgm_operator env e strategy query (rows ! i)) [0..<length rows]"

text \<open>The rows the index finds, rechecked where the consistency function asks for it.\<close>

definition index_scan :: "env \<Rightarrow> pg_encoding \<Rightarrow> bytes list \<Rightarrow> bytes \<Rightarrow> nat \<Rightarrow> pg_error + nat list" where
  "index_scan env e rows query strategy =
     (case gingetbitmap env e (map (gin_extract_value_trgm e) rows) query strategy of
        Inl err \<Rightarrow> Inl err
      | Inr items \<Rightarrow>
          map_sum id (map fst)
            (filter_err (\<lambda>(i, recheck). if recheck then trgm_operator env e strategy query (rows ! i) else Inr True) items))"

section \<open>What a scan finds\<close>

text \<open>With posting lists in order, the scan finds the items of some entry that pass, in order.\<close>

lemma advance_set:
  assumes "sorted_wrt (<) s"
  shows "set (dropWhile (\<lambda>i. i \<le> m) s) = {x \<in> set s. m < (x :: nat)}"
  using assms by (induction s) auto

lemma sorted_hd_mem:
  assumes "sorted_wrt (<) s" "s \<noteq> [] \<Longrightarrow> m \<le> hd s"
  shows "s \<noteq> [] \<and> hd s = (m :: nat) \<longleftrightarrow> m \<in> set s"
  using assms by (cases s) auto

lemma scan_items_spec:
  assumes "\<And>c. consistentFn c = Inr (f c, True)"
    and "\<forall>s \<in> set ss. sorted_wrt (<) s \<and> (\<forall>x \<in> set s. l \<le> x \<and> x < n)"
  shows "scan_items consistentFn k ss =
    Inr (map (\<lambda>i. (i, True)) (filter (\<lambda>i. (\<exists>s \<in> set ss. i \<in> set s) \<and> f (take k (map (\<lambda>s. i \<in> set s) ss))) [l..<n]))"
  using assms(2)
proof (induction "sum_list (map length ss)" arbitrary: ss l rule: less_induct)
  case less
  show ?case
  proof (cases "minItem ss")
    case None
    then have "\<forall>s \<in> set ss. s = []" by (simp add: minItem_None)
    then have "filter (\<lambda>i. (\<exists>s \<in> set ss. i \<in> set s) \<and> f (take k (map (\<lambda>s. i \<in> set s) ss))) [l..<n] = []" by (auto simp: filter_empty_conv)
    then show ?thesis using None by (simp add: scan_items.simps [of _ _ ss] keyGetItem_def)
  next
    case (Some m)
    note min = minItem_least [OF Some]
    have srt: "sorted_wrt (<) s" if "s \<in> set ss" for s using less.prems that by blast
    have mem: "s \<noteq> [] \<and> hd s = m \<longleftrightarrow> m \<in> set s" if "s \<in> set ss" for s
      using sorted_hd_mem [OF srt [OF that]] min that by blast
    obtain t where t: "t \<in> set ss" "m \<in> set t" using min mem by blast
    then have m: "l \<le> m" "m < n" using less.prems by blast+
    have no: "\<not> x \<in> set s" if "s \<in> set ss" "x < m" for s x
      using srt [OF that(1)] min that by (cases s) fastforce+
    let ?P = "\<lambda>ss i. (\<exists>s \<in> set ss. i \<in> set s) \<and> f (take k (map (\<lambda>s. i \<in> set s) ss))"
    have ac: "set (dropWhile (\<lambda>i. i \<le> m) s) = {x \<in> set s. m < x}" if "s \<in> set ss" for s by (rule advance_set [OF srt [OF that]])
    have adv: "?P (advance m ss) i \<longleftrightarrow> ?P ss i" if "m < i" for i
    proof -
      have "map (\<lambda>s. i \<in> set s) (advance m ss) = map (\<lambda>s. i \<in> set s) ss"
        unfolding advance_def map_map comp_def using ac that by (intro map_cong) auto
      moreover have "(\<exists>s \<in> set (advance m ss). i \<in> set s) \<longleftrightarrow> (\<exists>s \<in> set ss. i \<in> set s)"
        unfolding advance_def using ac that by auto
      ultimately show ?thesis by simp
    qed
    have "\<forall>s \<in> set (advance m ss). sorted_wrt (<) s \<and> (\<forall>x \<in> set s. Suc m \<le> x \<and> x < n)"
      unfolding advance_def using ac less.prems by (auto simp: sorted_wrt_dropWhile Suc_le_eq)
    then have IH: "scan_items consistentFn k (advance m ss) = Inr (map (\<lambda>i. (i, True)) (filter (?P (advance m ss)) [Suc m..<n]))"
      using less.hyps [OF advance_decreases [OF Some]] by blast
    have rest: "filter (?P (advance m ss)) [Suc m..<n] = filter (?P ss) [Suc m..<n]"
      using adv by (intro filter_cong) auto
    have none: "filter (?P ss) [l..<m] = []" using no by (auto simp: filter_empty_conv)
    have split: "[l..<n] = [l..<m] @ m # [Suc m..<n]"
      using m upt_add_eq_append [of l m "n - m"] by (simp add: upt_conv_Cons)
    have here: "?P ss m \<longleftrightarrow> f (take k (map (\<lambda>s. s \<noteq> [] \<and> hd s = m) ss))"
    proof -
      have "map (\<lambda>s. s \<noteq> [] \<and> hd s = m) ss = map (\<lambda>s. m \<in> set s) ss" using mem by (intro map_cong) auto
      then show ?thesis using t by metis
    qed
    have "scan_items consistentFn k ss =
      map_sum id (\<lambda>r. if ?P ss m then (m, True) # r else r) (scan_items consistentFn k (advance m ss))"
      unfolding here scan_items.simps [of consistentFn k ss] by (simp add: keyGetItem_def Some Let_def assms(1))
    then show ?thesis unfolding IH rest split by (simp add: none del: upt_Suc)
  qed
qed

lemma posting_list_ok: "sorted_wrt (<) (posting_list index k) \<and> set (posting_list index k) = {i. i < length index \<and> k \<in> set (index ! i)}"
  by (auto simp: posting_list_def sorted_wrt_filter)

text \<open>The items of a scan: candidates by the search mode, and consistent.\<close>

lemma gingetbitmap_items:
  assumes q: "gin_extract_query_trgm e query strategy = Inr (entries, mode)" "mode = (if entries = [] then GIN_SEARCH_MODE_ALL else GIN_SEARCH_MODE_DEFAULT)"
    and f: "\<And>c. gin_trgm_consistent env c strategy = Inr (f c, True)"
  shows "gingetbitmap env e index query strategy =
    Inr (map (\<lambda>i. (i, True)) (filter (\<lambda>i. (entries = [] \<or> (\<exists>k \<in> set entries. k \<in> set (index ! i))) \<and> f (check_of entries (index ! i))) [0..<length index]))"
proof -
  let ?ss = "ginFillScanKey index mode entries"
  have ok: "\<forall>s \<in> set ?ss. sorted_wrt (<) s \<and> (\<forall>x \<in> set s. 0 \<le> x \<and> x < length index)"
    using posting_list_ok by (auto simp: ginFillScanKey_def)
  have g: "gingetbitmap env e index query strategy = scan_items (\<lambda>c. gin_trgm_consistent env c strategy) (length entries) ?ss"
    using q by (auto simp: gingetbitmap_def)
  have "(\<exists>s \<in> set ?ss. i \<in> set s) \<longleftrightarrow> entries = [] \<or> (\<exists>k \<in> set entries. k \<in> set (index ! i))" if "i < length index" for i
    using that posting_list_ok q(2) by (auto simp: ginFillScanKey_def)
  moreover have "take (length entries) (map (\<lambda>s. i \<in> set s) ?ss) = check_of entries (index ! i)" if "i < length index" for i
    using that posting_list_ok by (auto simp: ginFillScanKey_def check_of_def)
  ultimately show ?thesis unfolding g scan_items_spec [OF f ok]
    by (intro arg_cong [where f = Inr] arg_cong [where f = "map (\<lambda>i. (i, True))"] filter_cong) auto
qed

lemma filter_err_Inr: "filter_err p xs = Inr r \<longleftrightarrow> (\<forall>x \<in> set xs. \<exists>b. p x = Inr b) \<and> r = filter (\<lambda>x. p x = Inr True) xs"
proof (induction xs arbitrary: r)
  case (Cons x xs)
  show ?case
  proof (cases "p x")
    case (Inr b)
    then show ?thesis using Cons by (cases "filter_err p xs") (auto simp: split: if_splits)
  qed simp
qed auto

text \<open>If every row that satisfies the operator passes, the index scan returns the rows of the sequential scan.\<close>

lemma index_scan_complete:
  assumes "gingetbitmap env e (map (gin_extract_value_trgm e) rows) query strategy =
      Inr (map (\<lambda>i. (i, True)) (filter P [0..<length rows]))"
    and "\<And>i. i < length rows \<Longrightarrow> trgm_operator env e strategy query (rows ! i) = Inr True \<Longrightarrow> P i"
    and "seq_scan env e rows query strategy = Inr r"
  shows "index_scan env e rows query strategy = Inr r"
proof -
  let ?p = "\<lambda>i. trgm_operator env e strategy query (rows ! i)"
  let ?items = "map (\<lambda>i. (i, True)) (filter P [0..<length rows])"
  have ok: "\<forall>i < length rows. \<exists>b. ?p i = Inr b" and r: "r = filter (\<lambda>i. ?p i = Inr True) [0..<length rows]"
    using assms(3) unfolding seq_scan_def filter_err_Inr by auto
  have "filter_err (\<lambda>(i, recheck). if recheck then ?p i else Inr True) ?items
      = Inr (filter (\<lambda>x. (\<lambda>(i, recheck). if recheck then ?p i else Inr True) x = Inr True) ?items)"
    unfolding filter_err_Inr using ok by auto
  moreover have "map fst (filter (\<lambda>x. (\<lambda>(i, recheck). if recheck then ?p i else Inr True) x = Inr True) ?items)
      = filter (\<lambda>i. ?p i = Inr True) (filter P [0..<length rows])"
    by (simp add: filter_map comp_def)
  moreover have "\<dots> = r" unfolding r using assms(2) by (auto intro: filter_cong)
  ultimately show ?thesis unfolding index_scan_def assms(1) by simp
qed

section \<open>Matching rows are candidates\<close>

lemma check_candidate: "entries \<noteq> [] \<Longrightarrow> list_all (\<lambda>c. c) (check_of entries keys) \<Longrightarrow> \<exists>k \<in> set entries. k \<in> set keys"
  by (cases entries) (auto simp: check_of_def)

lemma extract_query_like:
  "strategy = LikeStrategyNumber \<or> strategy = ILikeStrategyNumber \<Longrightarrow>
   gin_extract_query_trgm e pat strategy =
     Inr (map trgm2int (generate_wildcard_trgm e pat),
          if map trgm2int (generate_wildcard_trgm e pat) = [] then GIN_SEARCH_MODE_ALL else GIN_SEARCH_MODE_DEFAULT)"
  by (auto simp: gin_extract_query_trgm_def strategy_defs)

lemma consistent_like:
  "strategy = LikeStrategyNumber \<or> strategy = ILikeStrategyNumber \<Longrightarrow>
   gin_trgm_consistent env c strategy = Inr (list_all (\<lambda>c. c) c, True)"
  by (auto simp: gin_trgm_consistent_def strategy_defs)

lemma like_operator:
  "strategy = LikeStrategyNumber \<or> strategy = ILikeStrategyNumber \<Longrightarrow>
   trgm_operator env e strategy pat str = Inr True \<Longrightarrow> textlike e str pat = Inr True \<or> texticlike e str pat = Inr True"
  by (auto simp: trgm_operator_def strategy_defs)

lemma no_common_trigram:
  assumes "set (generate_trgm e str) \<inter> set (generate_trgm e q) = {}" "\<not> cge (Num 0) (trgm_limit env)"
  shows "\<not> similarity_op env e str q"
proof (cases "generate_trgm e str = [] \<and> generate_trgm e q = []")
  case True
  have "\<not> cge NaN l" for l by (cases l) simp_all
  then show ?thesis using True by (simp add: similarity_op_def similarity_def cnt_sml_empty)
next
  case False
  then have "similarity e str q = Num (rnd float4_bits (overlap (generate_trgm e str) (generate_trgm e q)))"
    unfolding similarity_def by (intro cnt_sml_overlap generate_trgm_sorted) blast
  also have "overlap (generate_trgm e str) (generate_trgm e q) = 0" using assms(1) by (simp add: overlap_def)
  finally show ?thesis using assms(2) by (simp add: similarity_op_def)
qed

lemma extract_query_similarity:
  "gin_extract_query_trgm e q SimilarityStrategyNumber =
     Inr (map trgm2int (generate_trgm e q),
          if map trgm2int (generate_trgm e q) = [] then GIN_SEARCH_MODE_ALL else GIN_SEARCH_MODE_DEFAULT)"
  by (auto simp: gin_extract_query_trgm_def)

definition share_ok :: "env \<Rightarrow> bool list \<Rightarrow> bool" where
  "share_ok env check \<longleftrightarrow>
     check \<noteq> [] \<and> cge (cdiv float4_bits (of_nat (length (filter (\<lambda>c. c) check))) (of_nat (length check))) (trgm_limit env)"

lemma consistent_similarity: "gin_trgm_consistent env c SimilarityStrategyNumber = Inr (share_ok env c, True)"
  by (auto simp: gin_trgm_consistent_def share_ok_def Let_def)

section \<open>Properties\<close>

text \<open>C2: a scan of the GIN index for LIKE or ILIKE, with its search mode, its entries, the consistency test and the
  recheck, returns exactly the rows of a sequential scan whenever that ends without an error, for every pattern
  whose escapes protect neither letters, digits nor backslashes, in single-byte encodings and in UTF-8.\<close>

theorem gin_like_scan:
  assumes "mb_layout e pat" "escapes_ok pat" "synced (variant_of e) False pat" "\<forall>str \<in> set rows. mb_layout e str"
    and "strategy = LikeStrategyNumber \<or> strategy = ILikeStrategyNumber"
    and "seq_scan env e rows pat strategy = Inr r"
  shows "index_scan env e rows pat strategy = Inr r"
proof -
  let ?q = "map trgm2int (generate_wildcard_trgm e pat)"
  let ?P = "\<lambda>keys. (?q = [] \<or> (\<exists>k \<in> set ?q. k \<in> set keys)) \<and> list_all (\<lambda>c. c) (check_of ?q keys)"
  have items: "gingetbitmap env e (map (gin_extract_value_trgm e) rows) pat strategy =
      Inr (map (\<lambda>i. (i, True)) (filter (\<lambda>i. ?P (map (gin_extract_value_trgm e) rows ! i)) [0..<length rows]))"
    using gingetbitmap_items [OF extract_query_like [OF assms(5)] refl consistent_like [OF assms(5)]] by simp
  show ?thesis
  proof (rule index_scan_complete [OF items _ assms(6)])
    fix i assume i: "i < length rows" and op: "trgm_operator env e strategy pat (rows ! i) = Inr True"
    have "gin_trgm_consistent env (check_of ?q (gin_extract_value_trgm e (rows ! i))) strategy = Inr (True, True)"
      using gin_like_complete [OF assms(1) _ assms(2,3) like_operator [OF assms(5) op] assms(5) extract_query_like [OF assms(5)]]
        assms(4) i by simp
    then have "list_all (\<lambda>c. c) (check_of ?q (gin_extract_value_trgm e (rows ! i)))"
      unfolding consistent_like [OF assms(5)] by simp
    then show "?P (map (gin_extract_value_trgm e) rows ! i)" using check_candidate i by (simp only: nth_map) blast
  qed
qed

text \<open>The pattern \<open>%\<close> has no trigrams: every row is found.\<close>

theorem gin_like_scan_witness: "index_scan None PG_UTF8 [[0x78, 0x61], []] [0x25] LikeStrategyNumber = Inr [0, 1]"
proof (rule gin_like_scan)
  show "seq_scan None PG_UTF8 [[0x78, 0x61], []] [0x25] LikeStrategyNumber = Inr [0, 1]"
  proof -
    have "textlike PG_UTF8 [0x78, 0x61] [0x25] = Inr True" "textlike PG_UTF8 [] [0x25] = Inr True"
      by (simp_all add: textlike_def MatchText.simps)
    moreover have "[0..<2] = [0, 1 :: nat]" by (simp add: upt_conv_Cons)
    ultimately show ?thesis by (simp add: seq_scan_def trgm_operator_def strategy_defs)
  qed
qed (simp_all add: mb_layout_ascii variant_of_def is_continuation_def)

text \<open>C16: a scan of the GIN index for the similarity operator returns the rows of a sequential scan for every query,
  with or without trigrams, unless the threshold is zero or less; then it loses the rows that share no trigram
  with the query.\<close>

theorem gin_similarity_scan:
  assumes "\<not> cge (Num 0) (trgm_limit env)"
  shows "index_scan env e rows q SimilarityStrategyNumber = seq_scan env e rows q SimilarityStrategyNumber"
proof -
  let ?q = "map trgm2int (generate_trgm e q)"
  let ?P = "\<lambda>keys. (?q = [] \<or> (\<exists>k \<in> set ?q. k \<in> set keys)) \<and> share_ok env (check_of ?q keys)"
  have items: "gingetbitmap env e (map (gin_extract_value_trgm e) rows) q SimilarityStrategyNumber =
      Inr (map (\<lambda>i. (i, True)) (filter (\<lambda>i. ?P (map (gin_extract_value_trgm e) rows ! i)) [0..<length rows]))"
    using gingetbitmap_items [OF extract_query_similarity refl consistent_similarity] by simp
  obtain r where r: "seq_scan env e rows q SimilarityStrategyNumber = Inr r"
    unfolding seq_scan_def filter_err_Inr by (simp add: trgm_operator_def)
  have "index_scan env e rows q SimilarityStrategyNumber = Inr r"
  proof (rule index_scan_complete [OF items _ r])
    fix i assume i: "i < length rows" and "trgm_operator env e SimilarityStrategyNumber q (rows ! i) = Inr True"
    then have op: "similarity_op env e (rows ! i) q" by (simp add: trgm_operator_def)
    then have "set (generate_trgm e (rows ! i)) \<inter> set (generate_trgm e q) \<noteq> {}" using no_common_trigram [OF _ assms] by blast
    then obtain t where t: "t \<in> set (generate_trgm e (rows ! i))" "t \<in> set (generate_trgm e q)" by blast
    then have c: "\<exists>k \<in> set ?q. k \<in> set (gin_extract_value_trgm e (rows ! i))" by (auto simp: gin_extract_value_trgm_def)
    have "gin_trgm_consistent env (check_of ?q (gin_extract_value_trgm e (rows ! i))) SimilarityStrategyNumber = Inr (True, True)"
    proof -
      have "generate_trgm e q \<noteq> []" using t(2) by auto
      then show ?thesis using gin_similarity_complete [OF _ op] unfolding extract_query_similarity by auto
    qed
    then have "share_ok env (check_of ?q (gin_extract_value_trgm e (rows ! i)))" unfolding consistent_similarity by simp
    then show "?P (map (gin_extract_value_trgm e) rows ! i)" using c i by (simp only: nth_map) blast
  qed
  then show ?thesis using r by simp
qed

theorem gin_similarity_scan_witness:
  "index_scan None PG_SQL_ASCII [[0x57], [0x58]] [0x77] SimilarityStrategyNumber =
   seq_scan None PG_SQL_ASCII [[0x57], [0x58]] [0x77] SimilarityStrategyNumber"
proof (rule gin_similarity_scan)
  have "flog2 (3 / 10) = - 2" by (rule flog2_unique) (simp_all add: power_int_minus)
  then have "0 < rnd float8_bits (3 / 10)" using rnd_pos_pos [of "3 / 10" float8_bits] by (simp add: rnd_def)
  then show "\<not> cge (Num 0) (trgm_limit None)" by (simp add: trgm_limit_def)
qed

text \<open>With the threshold 0, which \<open>set_limit\<close> accepts, every pair of texts with a trigram is similar, but the index
  finds only rows that share a trigram with the query.\<close>

lemma gin_zero_limit:
  assumes "trgm_limit env = Num 0" "generate_trgm e q \<noteq> []" "generate_trgm e str \<noteq> []"
    and "set (generate_trgm e str) \<inter> set (generate_trgm e q) = {}"
  shows "seq_scan env e [str] q SimilarityStrategyNumber = Inr [0] \<and> index_scan env e [str] q SimilarityStrategyNumber = Inr []"
proof
  have "similarity e str q = Num (rnd float4_bits (overlap (generate_trgm e str) (generate_trgm e q)))"
    unfolding similarity_def by (intro cnt_sml_overlap generate_trgm_sorted) (use assms(2) in blast)
  then have "similarity_op env e str q" using assms(1,4) by (simp add: similarity_op_def overlap_def)
  then show "seq_scan env e [str] q SimilarityStrategyNumber = Inr [0]" by (simp add: seq_scan_def trgm_operator_def)
  have "\<not> (\<exists>k \<in> set (map trgm2int (generate_trgm e q)). k \<in> set (gin_extract_value_trgm e str))"
    using assms(4) by (auto simp: gin_extract_value_trgm_def trgm2int_inj)
  then have "gingetbitmap env e (map (gin_extract_value_trgm e) [str]) q SimilarityStrategyNumber = Inr []"
    using gingetbitmap_items [OF extract_query_similarity refl consistent_similarity, where index = "[gin_extract_value_trgm e str]"] assms(2)
    by simp
  then show "index_scan env e [str] q SimilarityStrategyNumber = Inr []" by (simp add: index_scan_def)
qed

end
