(* ===== verification/TrgmHw4.thy ===== *)
theory TrgmHw4
  imports TrgmSim
begin

text \<open>
  The trigram module of the hw4 tree (src/hw4/postgresql-9.1.2/contrib/pg_trgm/trgm_op.c and trgm.h),
  the starting point the course hands out for q-grams.  It does with pointers into untyped memory
  what the hw5 module does with typed pointers: a trigram is three bytes at an address, a step to the
  next one adds \<open>sizeof(trgm)\<close>, lengths are differences of addresses in bytes.  So the model keeps the
  memory: a block \<open>palloc\<close> returned is the list of its bytes, whose contents before the first write are
  an arbitrary function \<open>m\<close>; a pointer is an offset in its block; and every access outside the block,
  every failing \<open>Assert\<close> and every oversized request is a fault.  The properties say that no fault
  happens and that the results are those of the hw5 module (theories TrgmOp and TrgmSim).
\<close>

section \<open>Memory\<close>

datatype fault = AllocTooLarge | OutOfBounds | AssertFailed

type_synonym 'a run = "fault + 'a"

definition bindE :: "'a run \<Rightarrow> ('a \<Rightarrow> 'b run) \<Rightarrow> 'b run" where
  "bindE c f = (case c of Inl e \<Rightarrow> Inl e | Inr x \<Rightarrow> f x)"

lemma bindE_simps [simp]: "bindE (Inl e) f = Inl e" "bindE (Inr x) f = f x"
  by (simp_all add: bindE_def)

definition MaxAllocSize :: nat where "MaxAllocSize = 0x3fffffff"

definition palloc :: "(nat \<Rightarrow> byte) \<Rightarrow> nat \<Rightarrow> bytes run" where
  "palloc m n = (if n \<le> MaxAllocSize then Inr (map m [0..<n]) else Inl AllocTooLarge)"

definition read_byte :: "bytes \<Rightarrow> nat \<Rightarrow> byte run" where
  "read_byte a p = (if p < length a then Inr (a ! p) else Inl OutOfBounds)"

definition write_byte :: "bytes \<Rightarrow> nat \<Rightarrow> byte \<Rightarrow> bytes run" where
  "write_byte a p x = (if p < length a then Inr (a[p := x]) else Inl OutOfBounds)"

definition memcpy :: "bytes \<Rightarrow> nat \<Rightarrow> bytes \<Rightarrow> bytes run" where
  "memcpy a p src =
     (if p + length src \<le> length a then Inr (take p a @ src @ drop (p + length src) a)
      else Inl OutOfBounds)"

text \<open>\<open>sizeof(trgm)\<close>, and the two steps by it.\<close>

definition sizeof_trgm :: nat where "sizeof_trgm = 3"

definition SCOOT_TRIGRAM_RIGHT :: "nat \<Rightarrow> nat" where
  "SCOOT_TRIGRAM_RIGHT ptr = ptr + sizeof_trgm"

section \<open>Comparing and copying trigrams\<close>

definition cmpchar :: "byte \<Rightarrow> byte \<Rightarrow> int" where
  "cmpchar a b = (if a = b then 0 else if sint a < sint b then -1 else 1)"

definition cmppchar :: "bytes \<Rightarrow> nat \<Rightarrow> bytes \<Rightarrow> nat \<Rightarrow> nat \<Rightarrow> int run" where
  "cmppchar a p b q i =
     bindE (read_byte a (p + i)) (\<lambda>x. bindE (read_byte b (q + i)) (\<lambda>y. Inr (cmpchar x y)))"

text \<open>The loop of \<open>cmptrgm\<close> stops at the first difference.\<close>

function cmptrgm_loop :: "bytes \<Rightarrow> nat \<Rightarrow> bytes \<Rightarrow> nat \<Rightarrow> nat \<Rightarrow> int run" where
  "cmptrgm_loop a p b q i =
     (if i < 3
      then bindE (cmppchar a p b q i) (\<lambda>result. if result \<noteq> 0 then Inr result else cmptrgm_loop a p b q (Suc i))
      else Inr 0)"
  by pat_completeness auto
termination by (relation "measure (\<lambda>(a, p, b, q, i). 3 - i)") auto

declare cmptrgm_loop.simps [simp del]

definition cmptrgm :: "bytes \<Rightarrow> nat \<Rightarrow> bytes \<Rightarrow> nat \<Rightarrow> int run" where
  "cmptrgm a p b q = cmptrgm_loop a p b q 0"

text \<open>
  The three byte copies of \<open>cptrgm\<close>.  The source may lie in the block that is written, so it is a
  function of that block.
\<close>

definition cptrgm_byte :: "(bytes \<Rightarrow> bytes) \<Rightarrow> bytes \<Rightarrow> nat \<Rightarrow> nat \<Rightarrow> bytes run" where
  "cptrgm_byte src a p q = bindE (read_byte (src a) q) (write_byte a p)"

definition cptrgm :: "(bytes \<Rightarrow> bytes) \<Rightarrow> bytes \<Rightarrow> nat \<Rightarrow> nat \<Rightarrow> bytes run" where
  "cptrgm src a p q =
     bindE (cptrgm_byte src a (p + 0) (q + 0)) (\<lambda>a.
     bindE (cptrgm_byte src a (p + 1) (q + 1)) (\<lambda>a.
     cptrgm_byte src a (p + 2) (q + 2)))"

section \<open>Sorting and removing duplicates\<close>

text \<open>The trigram at an address, and the first \<open>n\<close> trigrams of a block.\<close>

definition trgm_at :: "bytes \<Rightarrow> nat \<Rightarrow> trgm" where
  "trgm_at a p = (a ! p, a ! (p + 1), a ! (p + 2))"

definition trgms_of :: "bytes \<Rightarrow> nat \<Rightarrow> trgm list" where
  "trgms_of a n = map (\<lambda>i. trgm_at a (3 * i)) [0..<n]"

fun trgm_bytes :: "trgm \<Rightarrow> bytes" where
  "trgm_bytes (a, b, c) = [a, b, c]"

text \<open>\<open>comp_trgm\<close> is called by \<open>qsort\<close> with the addresses of two elements, which it only reads.\<close>

definition comp_trgm4 :: "trgm \<Rightarrow> trgm \<Rightarrow> int" where
  "comp_trgm4 a b = (case cmptrgm (trgm_bytes a) 0 (trgm_bytes b) 0 of Inl e \<Rightarrow> 0 | Inr r \<Rightarrow> r)"

definition qsort_trgms :: "bytes \<Rightarrow> nat \<Rightarrow> bytes" where
  "qsort_trgms a len = concat (map trgm_bytes (pg_qsort comp_trgm4 (trgms_of a len))) @ drop (len * sizeof_trgm) a"

function unique_loop4 :: "bytes \<Rightarrow> nat \<Rightarrow> nat \<Rightarrow> nat \<Rightarrow> (bytes \<times> nat) run" where
  "unique_loop4 a num_grams curend tmp =
     (if tmp < num_grams * sizeof_trgm
      then bindE (cmptrgm a tmp a curend) (\<lambda>r.
             if r \<noteq> 0
             then bindE (cptrgm (\<lambda>a. a) a (SCOOT_TRIGRAM_RIGHT curend) tmp) (\<lambda>a'.
                    unique_loop4 a' num_grams (SCOOT_TRIGRAM_RIGHT curend) (SCOOT_TRIGRAM_RIGHT tmp))
             else unique_loop4 a num_grams curend (SCOOT_TRIGRAM_RIGHT tmp))
      else Inr (a, curend))"
  by pat_completeness auto
termination
  by (relation "measure (\<lambda>(a, n, c, t). n * sizeof_trgm - t)") (auto simp: SCOOT_TRIGRAM_RIGHT_def sizeof_trgm_def)

declare unique_loop4.simps [simp del]

definition unique_array4 :: "bytes \<Rightarrow> nat \<Rightarrow> (bytes \<times> nat) run" where
  "unique_array4 a num_grams =
     bindE (unique_loop4 a num_grams 0 0) (\<lambda>(a', curend). Inr (a', curend div sizeof_trgm + 1))"

section \<open>Words\<close>

text \<open>
  Pointers into the text are offsets; the search for a word gets the rest of the text, so its limit
  is always the end of the text.
\<close>

function beginword_loop :: "pg_encoding \<Rightarrow> bytes \<Rightarrow> nat \<Rightarrow> nat" where
  "beginword_loop e str beginword =
     (if beginword < length str \<and> \<not> iswordchr (drop beginword str)
      then beginword_loop e str (beginword + pg_mblen e (drop beginword str))
      else beginword)"
  by pat_completeness auto
termination
  by (relation "measure (\<lambda>(e, str, p). length str - p)") (auto intro: diff_less_mono2)

function endword_loop :: "pg_encoding \<Rightarrow> bytes \<Rightarrow> nat \<Rightarrow> nat \<Rightarrow> nat \<times> nat" where
  "endword_loop e str endword charlen =
     (if endword < length str \<and> iswordchr (drop endword str)
      then endword_loop e str (endword + pg_mblen e (drop endword str)) (charlen + 1)
      else (endword, charlen))"
  by pat_completeness auto
termination
  by (relation "measure (\<lambda>(e, str, p, c). length str - p)") (auto intro: diff_less_mono2)

declare beginword_loop.simps [simp del] endword_loop.simps [simp del]

text \<open>The result: the word's first byte, the byte after it, and its length in characters.\<close>

definition find_word4 :: "pg_encoding \<Rightarrow> bytes \<Rightarrow> nat \<Rightarrow> (nat \<times> nat \<times> nat) option" where
  "find_word4 e str p =
     (let beginword = beginword_loop e str p
      in if length str \<le> beginword then None
         else (case endword_loop e str beginword 0 of (endword, charlen) \<Rightarrow> Some (beginword, endword, charlen)))"

section \<open>Trigrams of a word\<close>

function make_loop4 :: "bytes \<Rightarrow> nat \<Rightarrow> bytes \<Rightarrow> nat \<Rightarrow> nat \<Rightarrow> (bytes \<times> nat) run" where
  "make_loop4 a tptr str bytelen ptr =
     (if ptr < bytelen - 2
      then bindE (cptrgm (\<lambda>_. str) a tptr ptr) (\<lambda>a'.
             make_loop4 a' (SCOOT_TRIGRAM_RIGHT tptr) str bytelen (ptr + 1))
      else Inr (a, tptr))"
  by pat_completeness auto
termination by (relation "measure (\<lambda>(a, t, s, n, p). n - 2 - p)") auto

declare make_loop4.simps [simp del]

text \<open>The loop is reached with \<open>bytelen = charlen \<ge> 3\<close>, so \<open>bytelen - 2\<close> does not go below zero.\<close>

definition make_trigrams4 :: "bytes \<Rightarrow> nat \<Rightarrow> bytes \<Rightarrow> nat \<Rightarrow> nat \<Rightarrow> (bytes \<times> nat) run" where
  "make_trigrams4 a tptr str bytelen charlen =
     (if charlen < 3 then Inr (a, tptr)
      else if bytelen \<noteq> charlen then Inl AssertFailed
      else make_loop4 a tptr str bytelen 0)"

section \<open>Trigrams of a text\<close>

lemma beginword_loop_ge: "p \<le> beginword_loop e str p"
proof (induction e str p rule: beginword_loop.induct)
  case (1 e str p)
  show ?case
  proof (cases "p < length str \<and> \<not> iswordchr (drop p str)")
    case True
    then have "beginword_loop e str p = beginword_loop e str (p + pg_mblen e (drop p str))"
      by (simp add: beginword_loop.simps [of e str p])
    then show ?thesis using "1.IH" [OF True] by simp
  qed (auto simp: beginword_loop.simps [of e str p])
qed

lemma beginword_loop_word:
  "beginword_loop e str p < length str \<Longrightarrow> iswordchr (drop (beginword_loop e str p) str)"
proof (induction e str p rule: beginword_loop.induct)
  case (1 e str p)
  show ?case
  proof (cases "p < length str \<and> \<not> iswordchr (drop p str)")
    case True
    then have eq: "beginword_loop e str p = beginword_loop e str (p + pg_mblen e (drop p str))"
      by (simp add: beginword_loop.simps [of e str p])
    show ?thesis using "1.IH" [OF True] "1.prems" unfolding eq by simp
  qed (use "1.prems" in \<open>auto simp: beginword_loop.simps [of e str p]\<close>)
qed

lemma iswordchr_head: "p < length str \<Longrightarrow> iswordchr (drop p str) = c_isalnum (str ! p)"
  by (simp add: Cons_nth_drop_Suc [symmetric])

lemma endword_loop_alnum:
  "endword_loop e str p n =
   (p + length (takeWhile c_isalnum (drop p str)), n + length (takeWhile c_isalnum (drop p str)))"
proof (induction e str p n rule: endword_loop.induct)
  case (1 e str p n)
  show ?case
  proof (cases "p < length str \<and> iswordchr (drop p str)")
    case True
    then have al: "c_isalnum (str ! p)" using iswordchr_head by blast
    have dr: "drop p str = str ! p # drop (Suc p) str" using True by (simp add: Cons_nth_drop_Suc)
    have "pg_mblen e (drop p str) = 1" unfolding dr by (rule mblen_alnum [OF al])
    then show ?thesis using "1.IH" [OF True] True al by (simp add: endword_loop.simps [of e str p n] dr)
  next
    case False
    then have "takeWhile c_isalnum (drop p str) = []"
      by (cases "p < length str") (auto simp: iswordchr_head Cons_nth_drop_Suc [symmetric])
    moreover have "endword_loop e str p n = (p, n)"
      using False unfolding endword_loop.simps [of e str p n] by (simp only: if_False)
    ultimately show ?thesis by simp
  qed
qed

lemma find_word4_some:
  assumes "find_word4 e str p = Some (bword, eword, charlen)"
  shows "p \<le> bword" "bword < eword" "eword \<le> length str" "charlen = eword - bword"
    "bword = beginword_loop e str p" "eword = bword + length (takeWhile c_isalnum (drop bword str))"
proof -
  have b: "bword = beginword_loop e str p" "bword < length str"
    and w: "eword = bword + length (takeWhile c_isalnum (drop bword str))"
      "charlen = length (takeWhile c_isalnum (drop bword str))"
    using assms by (auto simp: find_word4_def Let_def endword_loop_alnum split: if_splits)
  have "c_isalnum (str ! bword)" using beginword_loop_word [of e str p] b by (simp add: iswordchr_head)
  then have "takeWhile c_isalnum (drop bword str) \<noteq> []" using b(2) by (simp add: Cons_nth_drop_Suc [symmetric])
  moreover have "length (takeWhile c_isalnum (drop bword str)) \<le> length str - bword"
    using length_takeWhile_le [of c_isalnum "drop bword str"] by simp
  ultimately show "p \<le> bword" "bword < eword" "eword \<le> length str" "charlen = eword - bword"
    "bword = beginword_loop e str p" "eword = bword + length (takeWhile c_isalnum (drop bword str))"
    using b w beginword_loop_ge [of p e str] by auto
qed

text \<open>
  The loop over the words: \<open>a\<close> is the array of the result and \<open>tptr\<close> its end, \<open>buf\<close> the padded word.
  \<open>lowerstr_with_len\<close> stops at a zero byte, so \<open>strlen\<close> of its result is its length; a word that ended after
  the text would make it read outside the text.
\<close>

function words_loop :: "pg_encoding \<Rightarrow> bytes \<Rightarrow> bytes \<Rightarrow> nat \<Rightarrow> bytes \<Rightarrow> nat \<Rightarrow> (bytes \<times> nat) run" where
  "words_loop e str a tptr buf eword =
     (case find_word4 e str eword of
        None \<Rightarrow> Inr (a, tptr)
      | Some (bword, eword', charlen) \<Rightarrow>
          if length str < eword' then Inl OutOfBounds
          else let w = lowerstr_with_len (take (eword' - bword) (drop bword str)); bytelen = length w
               in bindE (memcpy buf LPADDING w) (\<lambda>buf.
                  bindE (write_byte buf (LPADDING + bytelen) 0x20) (\<lambda>buf.
                  bindE (write_byte buf (LPADDING + bytelen + 1) 0x20) (\<lambda>buf.
                  bindE (make_trigrams4 a tptr buf (bytelen + LPADDING + RPADDING) (charlen + LPADDING + RPADDING))
                    (\<lambda>(a, tptr). words_loop e str a tptr buf eword')))))"
  by pat_completeness auto
termination
proof (relation "measure (\<lambda>(e, str, a, t, b, p). length str - p)")
  fix e str a t buf p x bword y eword' charlen b1 b2 b3 b4 z a' t'
  assume f: "find_word4 e str p = Some x" "(bword, y) = x" "(eword', charlen) = y"
  then have "find_word4 e str p = Some (bword, eword', charlen)" by simp
  from find_word4_some(1-3) [OF this] have "p < eword'" "p < length str" by auto
  then show "((e, str, a', t', b4, eword'), e, str, a, t, buf, p) \<in> measure (\<lambda>(e, str, a, t, b, p). length str - p)"
    by simp
qed simp

declare words_loop.simps [simp del]

record TRGM4 =
  VARSIZE4 :: nat
  flag4 :: byte
  GETARR4 :: bytes

definition TRGMHDRSIZE4 :: nat where "TRGMHDRSIZE4 = 5"
definition ARRKEY4 :: byte where "ARRKEY4 = 0x01"

definition ARRNELEM4 :: "TRGM4 \<Rightarrow> nat" where
  "ARRNELEM4 x = (VARSIZE4 x - TRGMHDRSIZE4) div sizeof_trgm"

text \<open>
  The bytes after the header of the block \<open>trg\<close> are \<open>GETARR4\<close>.  The padding at the start of \<open>buf\<close> is
  written once and kept by every word.
\<close>

definition generate_trgm4 :: "pg_encoding \<Rightarrow> (nat \<Rightarrow> byte) \<Rightarrow> bytes \<Rightarrow> TRGM4 run" where
  "generate_trgm4 e m str =
     (let slen = length str in
      bindE (palloc m (TRGMHDRSIZE4 + sizeof_trgm * (slen + 4))) (\<lambda>block.
      bindE (palloc m (slen + 4)) (\<lambda>buf.
      bindE (write_byte buf 0 0x20) (\<lambda>buf.
      bindE (write_byte buf 1 0x20) (\<lambda>buf.
      bindE (words_loop e str (drop TRGMHDRSIZE4 block) 0 buf 0) (\<lambda>(a, tptr).
        let len = tptr div sizeof_trgm in
        if len = 0 then Inr \<lparr>VARSIZE4 = TRGMHDRSIZE4, flag4 = ARRKEY4, GETARR4 = a\<rparr>
        else bindE (unique_array4 (qsort_trgms a len) len) (\<lambda>(a, len).
               Inr \<lparr>VARSIZE4 = TRGMHDRSIZE4 + len * sizeof_trgm, flag4 = ARRKEY4, GETARR4 = a\<rparr>)))))))"

section \<open>The SQL functions\<close>

function cnt_loop4 :: "TRGM4 \<Rightarrow> TRGM4 \<Rightarrow> nat \<Rightarrow> nat \<Rightarrow> nat \<Rightarrow> nat run" where
  "cnt_loop4 trg1 trg2 ptr1 ptr2 cnt =
     (if ptr1 < ARRNELEM4 trg1 * sizeof_trgm \<and> ptr2 < ARRNELEM4 trg2 * sizeof_trgm
      then bindE (cmptrgm (GETARR4 trg1) ptr1 (GETARR4 trg2) ptr2) (\<lambda>res.
             if res < 0 then cnt_loop4 trg1 trg2 (SCOOT_TRIGRAM_RIGHT ptr1) ptr2 cnt
             else if res > 0 then cnt_loop4 trg1 trg2 ptr1 (SCOOT_TRIGRAM_RIGHT ptr2) cnt
             else cnt_loop4 trg1 trg2 (SCOOT_TRIGRAM_RIGHT ptr1) (SCOOT_TRIGRAM_RIGHT ptr2) (cnt + 1))
      else Inr cnt)"
  by pat_completeness auto
termination
  by (relation "measure (\<lambda>(x, y, p, r, c). (ARRNELEM4 x * sizeof_trgm - p) + (ARRNELEM4 y * sizeof_trgm - r))")
    (auto simp: SCOOT_TRIGRAM_RIGHT_def sizeof_trgm_def)

declare cnt_loop4.simps [simp del]

definition cnt_sml4 :: "TRGM4 \<Rightarrow> TRGM4 \<Rightarrow> cfloat run" where
  "cnt_sml4 trg1 trg2 =
     (let nelem1 = ARRNELEM4 trg1; nelem2 = ARRNELEM4 trg2
      in bindE (cnt_loop4 trg1 trg2 0 0 0) (\<lambda>cnt.
           Inr (cdiv float4_bits (of_nat cnt) (of_nat (if nelem1 > nelem2 then nelem1 else nelem2)))))"

definition similarity4 :: "pg_encoding \<Rightarrow> (nat \<Rightarrow> byte) \<Rightarrow> bytes \<Rightarrow> bytes \<Rightarrow> cfloat run" where
  "similarity4 e m in1 in2 =
     bindE (generate_trgm4 e m in1) (\<lambda>trg1. bindE (generate_trgm4 e m in2) (\<lambda>trg2. cnt_sml4 trg1 trg2))"

definition similarity_dist4 :: "pg_encoding \<Rightarrow> (nat \<Rightarrow> byte) \<Rightarrow> bytes \<Rightarrow> bytes \<Rightarrow> cfloat run" where
  "similarity_dist4 e m in1 in2 =
     bindE (similarity4 e m in1 in2) (\<lambda>res. Inr (cnarrow float4_bits (csub float8_bits 1 res)))"

text \<open>The threshold is a \<open>float4\<close> variable of the backend process, passed as an argument.\<close>

definition trgm_limit4 :: cfloat where
  "trgm_limit4 = Num (rnd float4_bits (3 / 10))"

definition set_limit4 :: "cfloat \<Rightarrow> pg_error + cfloat" where
  "set_limit4 nlimit =
     (if cgt (Num 0) nlimit \<or> cgt nlimit (Num 1) then Inl WrongLimit else Inr nlimit)"

definition show_limit4 :: "cfloat \<Rightarrow> cfloat" where
  "show_limit4 limit = limit"

definition similarity_op4 :: "cfloat \<Rightarrow> pg_encoding \<Rightarrow> (nat \<Rightarrow> byte) \<Rightarrow> bytes \<Rightarrow> bytes \<Rightarrow> bool run" where
  "similarity_op4 limit e m in1 in2 = bindE (similarity4 e m in1 in2) (\<lambda>res. Inr (cge res limit))"

text \<open>The texts of the array \<open>show_trgm\<close> returns; each is a block of its own for the three bytes.\<close>

function show_loop4 :: "(nat \<Rightarrow> byte) \<Rightarrow> TRGM4 \<Rightarrow> nat \<Rightarrow> nat \<Rightarrow> bytes list run" where
  "show_loop4 m trg i ptr =
     (if i < ARRNELEM4 trg
      then bindE (palloc m (4 + sizeof_trgm)) (\<lambda>item.
           bindE (cptrgm (\<lambda>_. GETARR4 trg) (drop 4 item) 0 ptr) (\<lambda>item.
           bindE (show_loop4 m trg (i + 1) (SCOOT_TRIGRAM_RIGHT ptr)) (\<lambda>d. Inr (item # d))))
      else Inr [])"
  by pat_completeness auto
termination by (relation "measure (\<lambda>(m, t, i, p). ARRNELEM4 t - i)") auto

declare show_loop4.simps [simp del]

definition show_trgm4 :: "pg_encoding \<Rightarrow> (nat \<Rightarrow> byte) \<Rightarrow> bytes \<Rightarrow> bytes list run" where
  "show_trgm4 e m txt = bindE (generate_trgm4 e m txt) (\<lambda>trg. show_loop4 m trg 0 0)"

section \<open>Printing a trigram\<close>

text \<open>\<open>sprintf(s, "%c, ", c)\<close> writes the character, a comma, a space and the terminating zero.\<close>

definition sprintf_c :: "bytes \<Rightarrow> nat \<Rightarrow> byte \<Rightarrow> bytes run" where
  "sprintf_c s p c = memcpy s p [c, 0x2C, 0x20, 0]"

function print_loop :: "bytes \<Rightarrow> bytes \<Rightarrow> nat \<Rightarrow> bytes run" where
  "print_loop s t i =
     (if i < 3
      then bindE (read_byte t i) (\<lambda>c. bindE (sprintf_c s (1 + 3 * i) c) (\<lambda>s. print_loop s t (i + 1)))
      else Inr s)"
  by pat_completeness auto
termination by (relation "measure (\<lambda>(s, t, i). 3 - i)") auto

declare print_loop.simps [simp del]

text \<open>The string that is logged, for a block of \<open>n\<close> bytes; the code asks for \<open>1 + 3 * 3\<close>.\<close>

definition print_qgram_in :: "nat \<Rightarrow> (nat \<Rightarrow> byte) \<Rightarrow> bytes \<Rightarrow> bytes run" where
  "print_qgram_in n m t =
     bindE (palloc m n) (\<lambda>s.
     bindE (write_byte s 0 0x5B) (\<lambda>s.
     bindE (print_loop s t 0) (\<lambda>s.
     bindE (write_byte s (3 * 3 - 1) 0x5D) (\<lambda>s.
     bindE (write_byte s (0 + 3 * 3) 0) (\<lambda>s.
       Inr (takeWhile (\<lambda>c. c \<noteq> 0) s))))))"

definition print_qgram :: "(nat \<Rightarrow> byte) \<Rightarrow> bytes \<Rightarrow> bytes run" where
  "print_qgram m t = print_qgram_in (1 + 3 * 3) m t"

fun print_qgram_array :: "(nat \<Rightarrow> byte) \<Rightarrow> bytes \<Rightarrow> nat \<Rightarrow> bytes list run" where
  "print_qgram_array m trgms 0 = Inr []"
| "print_qgram_array m trgms (Suc n) =
     bindE (print_qgram m trgms) (\<lambda>s.
     bindE (print_qgram_array m (drop sizeof_trgm trgms) n) (\<lambda>r. Inr (s # r)))"

section \<open>Trigrams in memory\<close>

lemma SCOOT_step: "SCOOT_TRIGRAM_RIGHT (3 * x) = 3 * Suc x"
  by (simp add: SCOOT_TRIGRAM_RIGHT_def sizeof_trgm_def)

lemma read_byte_ok [simp]: "p < length a \<Longrightarrow> read_byte a p = Inr (a ! p)"
  by (simp add: read_byte_def)

lemma write_byte_ok [simp]: "p < length a \<Longrightarrow> write_byte a p x = Inr (a[p := x])"
  by (simp add: write_byte_def)

lemma cmpchar_eq: "cmpchar = CMPCHAR"
  by (intro ext) (simp add: cmpchar_def CMPCHAR_def)

lemma cmptrgm_ok [simp]:
  assumes "p + 2 < length a" "q + 2 < length b"
  shows "cmptrgm a p b q = Inr (CMPTRGM (trgm_at a p) (trgm_at b q))"
  using assms
  by (simp add: cmptrgm_def cmptrgm_loop.simps cmppchar_def CMPTRGM_def trgm_at_def cmpchar_eq numeral_2_eq_2)

fun put_trgm :: "bytes \<Rightarrow> nat \<Rightarrow> trgm \<Rightarrow> bytes" where
  "put_trgm a p (x, y, z) = a[p := x, p + 1 := y, p + 2 := z]"

lemma length_put_trgm [simp]: "length (put_trgm a p t) = length a"
  by (cases t) simp

lemma cptrgm_from [simp]:
  assumes "p + 2 < length a" "q + 2 < length b"
  shows "cptrgm (\<lambda>_. b) a p q = Inr (put_trgm a p (trgm_at b q))"
  using assms by (simp add: cptrgm_def cptrgm_byte_def trgm_at_def)

text \<open>Within one block the two trigrams are the same or do not overlap.\<close>

lemma cptrgm_same:
  assumes "3 * i + 2 < length a" "3 * j + 2 < length a"
  shows "cptrgm (\<lambda>a. a) a (3 * i) (3 * j) = Inr (put_trgm a (3 * i) (trgm_at a (3 * j)))"
proof -
  have "i = j \<or> 3 * i + 2 < 3 * j \<or> 3 * j + 2 < 3 * i" by arith
  then show ?thesis using assms by (auto simp: cptrgm_def cptrgm_byte_def trgm_at_def nth_list_update)
qed

lemma trgm_at_put:
  assumes "3 * i + 2 < length a"
  shows "trgm_at (put_trgm a (3 * i) t) (3 * j) = (if i = j then t else trgm_at a (3 * j))"
proof -
  have "i = j \<or> 3 * i + 2 < 3 * j \<or> 3 * j + 2 < 3 * i" by arith
  then show ?thesis using assms by (cases t) (auto simp: trgm_at_def nth_list_update)
qed

lemma length_trgms_of [simp]: "length (trgms_of a n) = n"
  by (simp add: trgms_of_def)

lemma nth_trgms_of [simp]: "i < n \<Longrightarrow> trgms_of a n ! i = trgm_at a (3 * i)"
  by (simp add: trgms_of_def)

lemma trgms_of_0 [simp]: "trgms_of a 0 = []"
  by (simp add: trgms_of_def)

lemma trgms_of_Suc: "trgms_of a (Suc n) = trgms_of a n @ [trgm_at a (3 * n)]"
  by (simp add: trgms_of_def)

lemma trgms_of_put: "3 * i + 2 < length a \<Longrightarrow> trgms_of (put_trgm a (3 * i) t) n = (trgms_of a n)[i := t]"
  by (rule nth_equalityI) (auto simp: trgm_at_put nth_list_update)

lemma take_trgms_of: "k \<le> n \<Longrightarrow> take k (trgms_of a n) = trgms_of a k"
  by (simp add: trgms_of_def take_map)

lemma trgms_of_bytes: "trgms_of (concat (map trgm_bytes ts) @ r) (length ts) = ts"
proof (induction ts arbitrary: r rule: rev_induct)
  case (snoc t ts)
  have len: "length (concat (map trgm_bytes ts)) = 3 * length ts" by (induction ts) auto
  have "trgms_of (concat (map trgm_bytes ts) @ trgm_bytes t @ r) (length ts) = ts"
    using snoc [of "trgm_bytes t @ r"] by simp
  moreover have "trgm_at (concat (map trgm_bytes ts) @ trgm_bytes t @ r) (3 * length ts) = t"
    using len by (cases t) (simp add: trgm_at_def nth_append)
  ultimately show ?case by (simp add: trgms_of_Suc)
qed simp

section \<open>Sorting in memory\<close>

lemma comp_trgm4_eq: "comp_trgm4 = comp_trgm"
proof (intro ext)
  fix a b
  have "trgm_at (trgm_bytes t) 0 = t" for t by (cases t) (simp add: trgm_at_def)
  moreover have "length (trgm_bytes t) = 3" for t by (cases t) simp
  ultimately show "comp_trgm4 a b = comp_trgm a b" by (simp add: comp_trgm4_def comp_trgm_def)
qed

lemma qsort_trgms_ok:
  assumes "3 * n \<le> length a"
  shows "trgms_of (qsort_trgms a n) n = pg_qsort comp_trgm (trgms_of a n)" "length (qsort_trgms a n) = length a"
proof -
  have len: "length (pg_qsort comp_trgm (trgms_of a n)) = n"
    using pgq.srt_length [OF comp_trgm_ok, of "trgms_of a n"] by simp
  then show "trgms_of (qsort_trgms a n) n = pg_qsort comp_trgm (trgms_of a n)"
    using trgms_of_bytes [of "pg_qsort comp_trgm (trgms_of a n)"] by (simp add: qsort_trgms_def comp_trgm4_eq)
  have "length (concat (map trgm_bytes ts)) = 3 * length ts" for ts by (induction ts) auto
  then show "length (qsort_trgms a n) = length a"
    using len assms by (simp add: qsort_trgms_def comp_trgm4_eq sizeof_trgm_def)
qed

lemma unique_loop4_ok:
  assumes "3 * n \<le> length a" "c \<le> t" "c < n \<or> n \<le> t"
  shows "\<exists>a' c'. unique_loop4 a n (3 * c) (3 * t) = Inr (a', 3 * c') \<and> length a' = length a \<and>
           unique_loop (trgms_of a n) c t = (trgms_of a' n, c')"
  using assms
proof (induction "n - t" arbitrary: a c t)
  case 0
  then show ?case by (simp add: unique_loop4.simps unique_loop.simps sizeof_trgm_def)
next
  case (Suc k)
  then have lt: "t < n" "c < n" "3 * t + 2 < length a" "3 * c + 2 < length a" by auto
  show ?case
  proof (cases "CMPTRGM (trgm_at a (3 * t)) (trgm_at a (3 * c)) = 0")
    case True
    then have "unique_loop4 a n (3 * c) (3 * t) = unique_loop4 a n (3 * c) (3 * Suc t)"
      "unique_loop (trgms_of a n) c t = unique_loop (trgms_of a n) c (Suc t)"
      using lt unfolding unique_loop4.simps [of a n "3 * c" "3 * t"] unique_loop.simps [of _ c t]
      by (simp_all add: sizeof_trgm_def SCOOT_step del: mult_Suc_right)
    then show ?thesis using Suc.hyps(1) [of "Suc t" a c] Suc.hyps(2) Suc.prems lt by simp
  next
    case False
    then have ct: "c < t" using Suc.prems(2) by (cases "c = t") (auto simp: CMPTRGM_laws)
    let ?a = "put_trgm a (3 * Suc c) (trgm_at a (3 * t))"
    have "cptrgm (\<lambda>a. a) a (3 * Suc c) (3 * t) = Inr ?a" by (rule cptrgm_same) (use ct lt in auto)
    then have "unique_loop4 a n (3 * c) (3 * t) = unique_loop4 ?a n (3 * Suc c) (3 * Suc t)"
      using False lt unfolding unique_loop4.simps [of a n "3 * c" "3 * t"]
      by (simp add: sizeof_trgm_def SCOOT_step del: mult_Suc_right)
    moreover have "unique_loop (trgms_of a n) c t = unique_loop (trgms_of ?a n) (Suc c) (Suc t)"
    proof -
      have "trgms_of ?a n = (trgms_of a n)[Suc c := trgm_at a (3 * t)]" by (rule trgms_of_put) (use ct lt in auto)
      then show ?thesis using False lt unfolding unique_loop.simps [of _ c t] by simp
    qed
    ultimately show ?thesis using Suc.hyps(1) [of "Suc t" ?a "Suc c"] Suc.hyps(2) Suc.prems ct lt by simp
  qed
qed

lemma unique_array4_ok:
  assumes "3 * n \<le> length a" "0 < n"
  shows "\<exists>a' k. unique_array4 a n = Inr (a', k) \<and> length a' = length a \<and> k \<le> n \<and>
           unique_array (trgms_of a n) = (trgms_of a' n, k)"
proof -
  obtain a' c' where u: "unique_loop4 a n 0 0 = Inr (a', 3 * c')" "length a' = length a"
      "unique_loop (trgms_of a n) 0 0 = (trgms_of a' n, c')"
    using unique_loop4_ok [of n a 0 0] assms by auto
  then have "c' < n" using unique_loop_result [of 0 0 "trgms_of a n"] assms by simp
  then show ?thesis using u by (simp add: unique_array4_def unique_array_def sizeof_trgm_def)
qed

section \<open>Words and their trigrams\<close>

lemma beginword_loop_drop: "drop (beginword_loop e str p) str = skip_nonword e (drop p str)"
proof (induction e str p rule: beginword_loop.induct)
  case (1 e str p)
  show ?case
  proof (cases "p < length str \<and> \<not> iswordchr (drop p str)")
    case True
    then have "beginword_loop e str p = beginword_loop e str (p + pg_mblen e (drop p str))"
      by (simp add: beginword_loop.simps [of e str p])
    moreover have "skip_nonword e (drop p str) = skip_nonword e (drop (p + pg_mblen e (drop p str)) str)"
      using True by (simp add: skip_nonword.simps [of e "drop p str"] add.commute)
    ultimately show ?thesis using "1.IH" [OF True] by simp
  next
    case False
    then have "beginword_loop e str p = p" "skip_nonword e (drop p str) = drop p str"
      unfolding beginword_loop.simps [of e str p] skip_nonword.simps [of e "drop p str"] by auto
    then show ?thesis by simp
  qed
qed

text \<open>The search by offsets finds what \<open>find_word\<close> finds in the rest of the text.\<close>

lemma find_word4_none: "find_word4 e str p = None \<longleftrightarrow> find_word e (drop p str) = None"
proof -
  have "find_word e s = None \<longleftrightarrow> skip_nonword e s = []" for s by (simp add: find_word_def split: list.split)
  then show ?thesis
    unfolding find_word4_def by (simp add: beginword_loop_drop [symmetric] Let_def split: prod.split)
qed

lemma find_word4_word:
  assumes "find_word4 e str p = Some (bword, eword, charlen)"
  shows "find_word e (drop p str) = Some (take (eword - bword) (drop bword str), charlen, drop eword str)"
    "list_all c_isalnum (take (eword - bword) (drop bword str))"
proof -
  note f = find_word4_some [OF assms]
  let ?t = "takeWhile c_isalnum (drop bword str)"
  have len: "eword - bword = length ?t" using f(6) by simp
  have w: "take (eword - bword) (drop bword str) = ?t"
    unfolding len by (rule takeWhile_eq_take [symmetric])
  have d: "drop eword str = dropWhile c_isalnum (drop bword str)"
    using f(6) by (simp add: dropWhile_eq_drop add.commute)
  have "skip_nonword e (drop p str) = drop bword str" using beginword_loop_drop f(5) by metis
  moreover have "drop bword str \<noteq> []" using f(2,3) by simp
  ultimately show "find_word e (drop p str) = Some (take (eword - bword) (drop bword str), charlen, drop eword str)"
    using f(4,6) w d by (auto simp: find_word_def take_word_alnum split: list.split)
  show "list_all c_isalnum (take (eword - bword) (drop bword str))" unfolding w by (rule takeWhile_alnum)
qed

lemma narrow_nth:
  "make_trigrams_narrow p = map (\<lambda>i. (p ! i, p ! (i + 1), p ! (i + 2))) [0..<length p - 2]"
proof (induction p rule: make_trigrams_narrow.induct)
  case (1 a b c p)
  have "[0..<length (a # b # c # p) - 2] = 0 # map Suc [0..<length (b # c # p) - 2]"
    by (simp add: upt_conv_Cons map_Suc_upt del: upt_Suc)
  then show ?case using 1 by (simp add: CPTRGM_def comp_def)
qed simp_all

lemma make_loop4_ok:
  assumes "3 * (k + (n - 2 - i)) \<le> length a" "n \<le> length str"
  shows "\<exists>a'. make_loop4 a (3 * k) str n i = Inr (a', 3 * (k + (n - 2 - i))) \<and> length a' = length a \<and>
           trgms_of a' (k + (n - 2 - i)) = trgms_of a k @ map (trgm_at str) [i..<n - 2]"
  using assms
proof (induction "n - 2 - i" arbitrary: a i k)
  case 0
  then have "\<not> i < n - 2" by simp
  then show ?case by (simp add: make_loop4.simps)
next
  case (Suc j)
  then have lt: "i < n - 2" "3 * k + 2 < length a" "i + 2 < length str" by auto
  let ?a = "put_trgm a (3 * k) (trgm_at str i)"
  have "make_loop4 a (3 * k) str n i = make_loop4 ?a (3 * Suc k) str n (Suc i)"
    using lt unfolding make_loop4.simps [of a "3 * k"]
    by (simp add: SCOOT_step del: mult_Suc_right)
  moreover have "trgms_of ?a (Suc k) = trgms_of a k @ [trgm_at str i]"
    using lt(2) by (simp add: trgms_of_put trgms_of_Suc trgm_at_put list_update_beyond)
  moreover have "Suc k + (n - 2 - Suc i) = k + (n - 2 - i)" "[i..<n - 2] = i # [Suc i..<n - 2]"
    using lt(1) by (simp_all add: upt_conv_Cons)
  ultimately show ?case
    using Suc.hyps(1) [of "Suc i" "Suc k" ?a] Suc.hyps(2) Suc.prems by (simp del: mult_Suc_right)
qed

text \<open>One word: the memory operations of \<open>generate_trgm\<close> append the trigrams of the padded word.\<close>

lemma make_trigrams4_ok:
  assumes "3 \<le> n" "n \<le> length buf" "3 * (k + (n - 2)) \<le> length a"
  shows "\<exists>a'. make_trigrams4 a (3 * k) buf n n = Inr (a', 3 * (k + (n - 2))) \<and> length a' = length a \<and>
           trgms_of a' (k + (n - 2)) = trgms_of a k @ make_trigrams_narrow (take n buf)"
proof -
  have "make_trigrams_narrow (take n buf) = map (trgm_at buf) [0..<n - 2]"
    using assms(2) by (auto simp: narrow_nth trgm_at_def)
  then show ?thesis using make_loop4_ok [of k n 0 a buf] assms by (simp add: make_trigrams4_def)
qed

text \<open>The buffer after a word was padded in it: the two leading spaces are those of the first word.\<close>

lemma pad_in_buffer:
  assumes "length w + 4 \<le> length buf" "take 2 buf = [0x20, 0x20]"
  shows "bindE (memcpy buf LPADDING w) (\<lambda>buf.
         bindE (write_byte buf (LPADDING + length w) 0x20) (\<lambda>buf.
         bindE (write_byte buf (LPADDING + length w + 1) 0x20) f)) =
         f (pad_word w @ 0x20 # drop (length w + 4) buf)"
proof -
  obtain a b r where buf: "buf = a # b # r" using assms(2) by (cases buf; cases "tl buf") auto
  then have ab: "a = 0x20" "b = 0x20" "length w + 2 \<le> length r" using assms by auto
  obtain c d r' where r: "drop (length w) r = c # d # r'"
  proof -
    have "Suc (Suc 0) \<le> length (drop (length w) r)" using ab(3) by simp
    then show ?thesis unfolding Suc_le_length_iff using that by blast
  qed
  have "drop (Suc (Suc (length w))) r = drop 2 (drop (length w) r)" by simp
  then have "drop (length w + 4) buf = r'" by (simp add: buf r eval_nat_numeral)
  then show ?thesis
    using ab r by (simp add: memcpy_def LPADDING_def buf pad_word_eval list_update_append numeral_2_eq_2)
qed

lemma length_pad_word: "length (pad_word w) = length w + 3"
  by (simp add: pad_word_eval)

lemma find_word_parts:
  assumes "find_word e s = Some (w, n, rest)"
  shows "list_all c_isalnum w" "n = length w" "rest = [] \<or> \<not> c_isalnum (hd rest)"
    "length w + length rest \<le> length s" "\<not> c_isalnum (hd s) \<Longrightarrow> length w + length rest < length s"
proof -
  obtain b r where b: "skip_nonword e s = b # r" "take_word e (b # r) = (w, n, rest)"
    using assms by (auto simp: find_word_def split: list.splits)
  have w: "w = takeWhile c_isalnum (b # r)" "n = length w" "rest = dropWhile c_isalnum (b # r)"
    using b(2) unfolding take_word_alnum by auto
  then show "list_all c_isalnum w" "n = length w" by (simp_all only: takeWhile_alnum)
  show "rest = [] \<or> \<not> c_isalnum (hd rest)" unfolding w(3) using hd_dropWhile by blast
  have len: "length w + length rest = length (b # r)" unfolding w by (metis length_append takeWhile_dropWhile_id)
  then show "length w + length rest \<le> length s" using skip_nonword_result [OF b(1)] by simp
  assume na: "\<not> c_isalnum (hd s)"
  then have s: "s \<noteq> []" "\<not> iswordchr s" using b(1) by (cases s; simp add: skip_nonword.simps [of e "[]"])+
  then have "skip_nonword e (drop (pg_mblen e s) s) = b # r" using b(1) by (simp add: skip_nonword.simps [of e s])
  then have "length (b # r) \<le> length (drop (pg_mblen e s) s)" using skip_nonword_result by blast
  also have "\<dots> < length s" using s(1) by simp
  finally show "length w + length rest < length s" using len by simp
qed

text \<open>A word of \<open>n\<close> bytes gives \<open>n + 1\<close> trigrams, in every encoding and for every text.\<close>

lemma generate_words_step:
  assumes "find_word e s = Some (w, n, rest)"
  shows "generate_words e s = make_trigrams_narrow (pad_word (map c_tolower w)) @ generate_words e rest"
  using find_word_parts(1,2) [OF assms] unfolding generate_words.simps [of e s] assms
  by (simp only: option.case prod.case word_make_trigrams)

lemma generate_words_bound:
  "length (generate_words e s) \<le> length s + (if s \<noteq> [] \<and> c_isalnum (hd s) then 1 else 0)"
proof (induction e s rule: generate_words.induct)
  case (1 e s)
  show ?case
  proof (cases "find_word e s")
    case None
    then show ?thesis by (simp add: generate_words.simps [of e s])
  next
    case (Some x)
    obtain w n rest where x: "x = (w, n, rest)" by (cases x) auto
    note fw = Some [unfolded x]
    have "length (generate_words e rest) \<le> length rest"
      using "1.IH" [OF fw refl refl] find_word_parts(3) [OF fw] by auto
    then have "length (generate_words e s) \<le> length w + 1 + length rest"
      unfolding generate_words_step [OF fw] by (simp add: make_trigrams_narrow_length pad_word_def LPADDING_def RPADDING_def)
    moreover have "s \<noteq> []" using find_word_rest [OF fw] by auto
    ultimately show ?thesis using find_word_parts(4,5) [OF fw] by (cases "c_isalnum (hd s)") auto
  qed
qed

lemma words_loop_ok:
  assumes "length buf = length str + 4" "take 2 buf = [0x20, 0x20]"
    and "3 * (k + length (generate_words e (drop p str))) \<le> length a"
  shows "\<exists>a'. words_loop e str a (3 * k) buf p = Inr (a', 3 * (k + length (generate_words e (drop p str)))) \<and>
           length a' = length a \<and>
           trgms_of a' (k + length (generate_words e (drop p str))) = trgms_of a k @ generate_words e (drop p str)"
  using assms
proof (induction "length str - p" arbitrary: a k buf p rule: less_induct)
  case less
  show ?case
  proof (cases "find_word4 e str p")
    case None
    then have "generate_words e (drop p str) = []" by (simp add: generate_words.simps find_word4_none)
    then show ?thesis using None by (simp add: words_loop.simps)
  next
    case (Some x)
    obtain bword eword charlen where x: "x = (bword, eword, charlen)" by (cases x) auto
    note f = find_word4_some [OF Some [unfolded x]] and fw = find_word4_word [OF Some [unfolded x]]
    let ?t = "take (eword - bword) (drop bword str)"
    let ?w = "map c_tolower ?t" and ?n = "eword - bword + 3"
    let ?buf = "pad_word ?w @ 0x20 # drop (length ?w + 4) buf"
    let ?g = "make_trigrams_narrow (pad_word ?w)" and ?r = "generate_words e (drop eword str)"
    have lt: "lowerstr_with_len ?t = ?w" by (rule lowerstr_alnum [OF fw(2)])
    have lw: "length ?w = eword - bword" using f(3) by simp
    have gw: "generate_words e (drop p str) = ?g @ ?r" by (rule generate_words_step [OF fw(1)])
    have lg: "length ?g = ?n - 2" using lw by (simp add: make_trigrams_narrow_length pad_word_eval)
    have tk: "take ?n ?buf = pad_word ?w" using lw by (simp add: length_pad_word)
    have buf: "length ?buf = length str + 4" "take 2 ?buf = [0x20, 0x20]"
      using lw f(2,3) less.prems(1) by (simp_all add: pad_word_eval)
    have sz: "3 * (k + (?n - 2)) \<le> length a" "?n \<le> length ?buf" "3 \<le> ?n"
      using less.prems(3) f(2,3) lg gw buf(1) by auto
    obtain a1 where a1: "make_trigrams4 a (3 * k) ?buf ?n ?n = Inr (a1, 3 * (k + (?n - 2)))"
        "length a1 = length a" "trgms_of a1 (k + (?n - 2)) = trgms_of a k @ ?g"
      using make_trigrams4_ok [OF sz(3,2,1)] unfolding tk by blast
    have "words_loop e str a (3 * k) buf p = words_loop e str a1 (3 * (k + (?n - 2))) ?buf eword"
    proof -
      have "length ?w + 4 \<le> length buf" using lw f(3) less.prems(1) by simp
      note pd = pad_in_buffer [OF this less.prems(2), unfolded lw]
      have n: "eword - bword + LPADDING + RPADDING = ?n" by (simp add: LPADDING_def RPADDING_def)
      have "\<not> length str < eword" using f(3) by simp
      then show ?thesis
        unfolding words_loop.simps [of e str a] Some x option.case prod.case Let_def lt lw f(4) n
        by (simp only: if_False pd n a1(1) [unfolded lw] bindE_simps prod.case)
    qed
    moreover have "length str - eword < length str - p" using f(1-3) by simp
    moreover have "3 * (k + (?n - 2) + length ?r) \<le> length a1" using less.prems(3) gw lg a1(2) by simp
    moreover have len: "k + (?n - 2) + length ?r = k + length (generate_words e (drop p str))" using gw lg by simp
    ultimately show ?thesis
      using less.hyps [OF _ buf, of eword "k + (?n - 2)" a1] unfolding len a1(2,3) unfolding gw append_assoc
      by (simp only: simp_thms)
  qed
qed

section \<open>The array of a text\<close>

text \<open>The array of a \<open>TRGM\<close>, and that its block is large enough for it.\<close>

definition trgms :: "TRGM4 \<Rightarrow> trgm list" where
  "trgms t = trgms_of (GETARR4 t) (ARRNELEM4 t)"

definition TRGM4_ok :: "TRGM4 \<Rightarrow> bool" where
  "TRGM4_ok t \<longleftrightarrow> VARSIZE4 t = TRGMHDRSIZE4 + length (trgms t) * sizeof_trgm \<and> flag4 t = ARRKEY4 \<and>
     length (trgms t) * sizeof_trgm \<le> length (GETARR4 t)"

lemma length_trgms [simp]: "length (trgms t) = ARRNELEM4 t"
  by (simp add: trgms_def)

text \<open>The longest text whose result array \<open>palloc\<close> grants.\<close>

definition max_text :: nat where "max_text = 357913935"

lemma palloc_sizes:
  "n \<le> max_text \<longleftrightarrow> TRGMHDRSIZE4 + sizeof_trgm * (n + 4) \<le> MaxAllocSize"
  "n \<le> max_text \<Longrightarrow> n + 4 \<le> MaxAllocSize"
  unfolding max_text_def TRGMHDRSIZE4_def sizeof_trgm_def MaxAllocSize_def by presburger+

lemma ARRNELEM4_header [simp]: "ARRNELEM4 \<lparr>VARSIZE4 = TRGMHDRSIZE4 + n * sizeof_trgm, flag4 = f, GETARR4 = a\<rparr> = n"
  "ARRNELEM4 \<lparr>VARSIZE4 = TRGMHDRSIZE4, flag4 = f, GETARR4 = a\<rparr> = 0"
  by (simp_all add: ARRNELEM4_def sizeof_trgm_def)

lemma generate_trgm_words: "generate_trgm e str = sort_unique (generate_words e str)"
proof (cases "str = []")
  case True
  then have "find_word e str = None" by (simp add: find_word_def skip_nonword.simps)
  then show ?thesis by (simp add: True generate_trgm_def sort_unique_def generate_words.simps [of e "[]"])
qed (simp add: generate_trgm_def LPADDING_def RPADDING_def)

lemma generate_trgm4_ok:
  assumes "length str \<le> max_text"
  shows "\<exists>t. generate_trgm4 e m str = Inr t \<and> trgms t = generate_trgm e str \<and> TRGM4_ok t"
proof -
  let ?g = "generate_words e str"
  let ?a = "drop TRGMHDRSIZE4 (map m [0..<TRGMHDRSIZE4 + sizeof_trgm * (length str + 4)])"
  let ?b = "(map m [0..<length str + 4]) [0 := 0x20, 1 := 0x20]"
  have la: "length ?a = 3 * (length str + 4)" by (simp add: TRGMHDRSIZE4_def sizeof_trgm_def)
  have lg: "length ?g \<le> length str + 1" using generate_words_bound [of e str] by (simp split: if_splits)
  have b: "length ?b = length str + 4" "take 2 ?b = [0x20, 0x20]"
    by (simp_all add: numeral_2_eq_2 upt_conv_Cons del: upt_Suc)
  obtain a where a: "words_loop e str ?a 0 ?b 0 = Inr (a, 3 * length ?g)" "length a = length ?a"
      "trgms_of a (length ?g) = ?g"
    using words_loop_ok [OF b, of 0 e 0 ?a] lg la by auto
  have gen: "generate_trgm4 e m str =
     (let len = length ?g in
      if len = 0 then Inr \<lparr>VARSIZE4 = TRGMHDRSIZE4, flag4 = ARRKEY4, GETARR4 = a\<rparr>
      else bindE (unique_array4 (qsort_trgms a len) len) (\<lambda>(a, len).
             Inr \<lparr>VARSIZE4 = TRGMHDRSIZE4 + len * sizeof_trgm, flag4 = ARRKEY4, GETARR4 = a\<rparr>))"
  proof -
    have "palloc m (TRGMHDRSIZE4 + sizeof_trgm * (length str + 4)) =
            Inr (map m [0..<TRGMHDRSIZE4 + sizeof_trgm * (length str + 4)])"
      "palloc m (length str + 4) = Inr (map m [0..<length str + 4])"
      using palloc_sizes [of "length str"] assms by (simp_all only: palloc_def if_True)
    moreover have "write_byte (map m [0..<length str + 4]) 0 0x20 = Inr ((map m [0..<length str + 4]) [0 := 0x20])"
      "write_byte ((map m [0..<length str + 4]) [0 := 0x20]) 1 0x20 = Inr ?b" by simp_all
    moreover have "3 * length ?g div sizeof_trgm = length ?g" by (simp add: sizeof_trgm_def)
    ultimately show ?thesis unfolding generate_trgm4_def Let_def by (simp only: bindE_simps a(1) prod.case)
  qed
  show ?thesis
  proof (cases "?g = []")
    case True
    then show ?thesis
      unfolding gen by (simp add: trgms_def TRGM4_ok_def generate_trgm_words sort_unique_def)
  next
    case False
    let ?n = "length ?g"
    have n: "3 * ?n \<le> length a" "0 < ?n" using lg la a(2) False by auto
    obtain a' k where u: "unique_array4 (qsort_trgms a ?n) ?n = Inr (a', k)" "length a' = length a" "k \<le> ?n"
        "unique_array (pg_qsort comp_trgm ?g) = (trgms_of a' ?n, k)"
      using unique_array4_ok [of ?n "qsort_trgms a ?n"] qsort_trgms_ok [OF n(1)] n a(3) by auto
    have "generate_trgm e str = trgms_of a' k"
      using False u(3,4) by (simp add: generate_trgm_words sort_unique_def take_trgms_of)
    moreover have "k * sizeof_trgm \<le> length a'"
      using u(2,3) n(1) qsort_trgms_ok(2) [OF n(1)] by (simp add: sizeof_trgm_def)
    ultimately show ?thesis
      unfolding gen using False u(1) by (simp add: trgms_def TRGM4_ok_def Let_def)
  qed
qed

lemma generate_trgm4_too_large: "max_text < length str \<Longrightarrow> generate_trgm4 e m str = Inl AllocTooLarge"
  using palloc_sizes(1) [of "length str"]
  unfolding generate_trgm4_def Let_def palloc_def by (simp only: not_le [symmetric] if_False bindE_simps)

section \<open>The merge and the SQL functions\<close>

lemma TRGM4_okD: "TRGM4_ok t \<Longrightarrow> i < ARRNELEM4 t \<Longrightarrow> 3 * i + 2 < length (GETARR4 t)"
  by (simp add: TRGM4_ok_def sizeof_trgm_def)

lemma trgms_drop: "i < ARRNELEM4 t \<Longrightarrow> drop i (trgms t) = trgm_at (GETARR4 t) (3 * i) # drop (Suc i) (trgms t)"
  by (simp add: Cons_nth_drop_Suc [symmetric]) (simp add: trgms_def)

lemma cnt_loop4_ok:
  assumes "TRGM4_ok t1" "TRGM4_ok t2"
  shows "cnt_loop4 t1 t2 (3 * i) (3 * j) c = Inr (c + cnt_loop (drop i (trgms t1)) (drop j (trgms t2)))"
proof (induction "(ARRNELEM4 t1 - i) + (ARRNELEM4 t2 - j)" arbitrary: i j c rule: less_induct)
  case less
  show ?case
  proof (cases "i < ARRNELEM4 t1 \<and> j < ARRNELEM4 t2")
    case True
    note b = TRGM4_okD [OF assms(1), of i] TRGM4_okD [OF assms(2), of j]
    let ?r = "CMPTRGM (trgm_at (GETARR4 t1) (3 * i)) (trgm_at (GETARR4 t2) (3 * j))"
    have c4: "cnt_loop4 t1 t2 (3 * i) (3 * j) c =
       (if ?r < 0 then cnt_loop4 t1 t2 (3 * Suc i) (3 * j) c
        else if ?r > 0 then cnt_loop4 t1 t2 (3 * i) (3 * Suc j) c
        else cnt_loop4 t1 t2 (3 * Suc i) (3 * Suc j) (c + 1))"
      using True b unfolding cnt_loop4.simps [of t1 t2 "3 * i" "3 * j" c]
      by (simp add: sizeof_trgm_def SCOOT_step del: mult_Suc_right)
    have dr: "drop i (trgms t1) = trgm_at (GETARR4 t1) (3 * i) # drop (Suc i) (trgms t1)"
      "drop j (trgms t2) = trgm_at (GETARR4 t2) (3 * j) # drop (Suc j) (trgms t2)"
      using True by (simp_all only: trgms_drop)
    consider "?r < 0" | "?r > 0" | "?r = 0" by linarith
    then show ?thesis
    proof cases
      case 1
      then have "cnt_loop (drop i (trgms t1)) (drop j (trgms t2)) = cnt_loop (drop (Suc i) (trgms t1)) (drop j (trgms t2))"
        unfolding dr by (subst cnt_loop.simps(1)) (simp only: Let_def 1 if_True)
      moreover have "cnt_loop4 t1 t2 (3 * i) (3 * j) c = cnt_loop4 t1 t2 (3 * Suc i) (3 * j) c"
        by (simp only: c4 1 if_True)
      moreover have "ARRNELEM4 t1 - Suc i + (ARRNELEM4 t2 - j) < ARRNELEM4 t1 - i + (ARRNELEM4 t2 - j)" using True by linarith
      ultimately show ?thesis using less.hyps [of "Suc i" j c] by (simp only:)
    next
      case 2
      then have n: "\<not> ?r < 0" by simp
      have "cnt_loop (drop i (trgms t1)) (drop j (trgms t2)) = cnt_loop (drop i (trgms t1)) (drop (Suc j) (trgms t2))"
        unfolding dr by (subst cnt_loop.simps(1)) (simp only: Let_def n 2 if_True if_False)
      moreover have "cnt_loop4 t1 t2 (3 * i) (3 * j) c = cnt_loop4 t1 t2 (3 * i) (3 * Suc j) c"
        by (simp only: c4 n 2 if_True if_False)
      moreover have "ARRNELEM4 t1 - i + (ARRNELEM4 t2 - Suc j) < ARRNELEM4 t1 - i + (ARRNELEM4 t2 - j)" using True by linarith
      ultimately show ?thesis using less.hyps [of i "Suc j" c] by (simp only:)
    next
      case 3
      then have n: "\<not> ?r < 0" "\<not> ?r > 0" by simp_all
      have "cnt_loop (drop i (trgms t1)) (drop j (trgms t2)) = Suc (cnt_loop (drop (Suc i) (trgms t1)) (drop (Suc j) (trgms t2)))"
        unfolding dr by (subst cnt_loop.simps(1)) (simp only: Let_def n if_False)
      moreover have "cnt_loop4 t1 t2 (3 * i) (3 * j) c = cnt_loop4 t1 t2 (3 * Suc i) (3 * Suc j) (c + 1)"
        by (simp only: c4 n if_False)
      moreover have "ARRNELEM4 t1 - Suc i + (ARRNELEM4 t2 - Suc j) < ARRNELEM4 t1 - i + (ARRNELEM4 t2 - j)" using True by linarith
      ultimately show ?thesis using less.hyps [of "Suc i" "Suc j" "c + 1"] by simp
    qed
  next
    case False
    then have "cnt_loop (drop i (trgms t1)) (drop j (trgms t2)) = 0"
      by (cases "i < ARRNELEM4 t1") (simp_all add: cnt_loop.simps(2,3) trgms_drop)
    then show ?thesis using False unfolding cnt_loop4.simps [of t1 t2 "3 * i" "3 * j" c] by (auto simp: sizeof_trgm_def)
  qed
qed

lemma cnt_sml4_ok: "TRGM4_ok t1 \<Longrightarrow> TRGM4_ok t2 \<Longrightarrow> cnt_sml4 t1 t2 = Inr (cnt_sml (trgms t1) (trgms t2))"
  using cnt_loop4_ok [of t1 t2 0 0 0] by (simp add: cnt_sml4_def cnt_sml_def Let_def)

lemma similarity4_ok:
  assumes "length s \<le> max_text" "length t \<le> max_text"
  shows "similarity4 e m s t = Inr (similarity e s t)"
proof -
  obtain x y where "generate_trgm4 e m s = Inr x" "trgms x = generate_trgm e s" "TRGM4_ok x"
      "generate_trgm4 e m t = Inr y" "trgms y = generate_trgm e t" "TRGM4_ok y"
    using generate_trgm4_ok [OF assms(1), of e m] generate_trgm4_ok [OF assms(2), of e m] by auto
  then show ?thesis by (simp add: similarity4_def similarity_def cnt_sml4_ok)
qed

lemma show_loop4_ok:
  assumes "TRGM4_ok t"
  shows "show_loop4 m t i (3 * i) = Inr (map trgm_bytes (drop i (trgms t)))"
proof (induction "ARRNELEM4 t - i" arbitrary: i rule: less_induct)
  case less
  show ?case
  proof (cases "i < ARRNELEM4 t")
    case True
    let ?item = "drop 4 (map m [0..<4 + sizeof_trgm])"
    have item: "?item = [m 4, m 5, m 6]" by (simp add: sizeof_trgm_def upt_conv_Cons eval_nat_numeral)
    have "palloc m (4 + sizeof_trgm) = Inr (map m [0..<4 + sizeof_trgm])"
      by (simp add: palloc_def sizeof_trgm_def MaxAllocSize_def)
    moreover have "cptrgm (\<lambda>_. GETARR4 t) ?item 0 (3 * i) = Inr (trgm_bytes (trgm_at (GETARR4 t) (3 * i)))"
      using TRGM4_okD [OF assms True] unfolding item by (simp add: trgm_at_def)
    ultimately show ?thesis
      using True less.hyps [of "Suc i"] unfolding show_loop4.simps [of m t i]
      by (simp add: trgms_drop SCOOT_step del: mult_Suc_right)
  next
    case False
    then show ?thesis by (simp add: show_loop4.simps)
  qed
qed

text \<open>In the C locale every trigram is printable, so the hw5 module never shows one in hexadecimal.\<close>

lemma narrow_bytes: "(a, b, c) \<in> set (make_trigrams_narrow p) \<Longrightarrow> {a, b, c} \<subseteq> set p"
  by (induction p rule: make_trigrams_narrow.induct) (auto simp: CPTRGM_def)

lemma generate_words_printable: "t \<in> set (generate_words e s) \<Longrightarrow> ISPRINTABLETRGM t"
proof (induction e s rule: generate_words.induct)
  case (1 e s)
  show ?case
  proof (cases "find_word e s")
    case None
    then show ?thesis using "1.prems" by (simp add: generate_words.simps [of e s])
  next
    case (Some x)
    obtain w n rest where x: "x = (w, n, rest)" by (cases x) auto
    note fw = Some [unfolded x]
    consider "t \<in> set (make_trigrams_narrow (pad_word (map c_tolower w)))" | "t \<in> set (generate_words e rest)"
      using "1.prems" unfolding generate_words_step [OF fw] by auto
    then show ?thesis
    proof cases
      case 1
      obtain a b c where t: "t = (a, b, c)" by (cases t) auto
      have "ISPRINTABLECHAR x" if "x \<in> set (pad_word (map c_tolower w))" for x
        using that find_word_parts(1) [OF fw]
        by (auto simp: pad_word_eval ISPRINTABLECHAR_def list_all_iff c_tolower_alnum alnum_ascii)
      then show ?thesis using narrow_bytes [of a b c] 1 by (simp add: t)
    qed (rule "1.IH" [OF fw refl refl])
  qed
qed

lemma show_trgm4_ok:
  assumes "length s \<le> max_text"
  shows "show_trgm4 e m s = Inr (show_trgm e s)"
proof -
  obtain x where x: "generate_trgm4 e m s = Inr x" "trgms x = generate_trgm e s" "TRGM4_ok x"
    using generate_trgm4_ok [OF assms, of e m] by auto
  have "ISPRINTABLETRGM t" if "t \<in> set (generate_trgm e s)" for t
    using that generate_words_printable [of t e s] by (simp add: generate_trgm_words sort_unique_set)
  then have "map trgm_bytes (generate_trgm e s) = show_trgm e s"
    unfolding show_trgm_def by (intro map_cong) (auto simp: show_item_def split: prod.split)
  then show ?thesis using show_loop4_ok [OF x(3), of m 0] x by (simp add: show_trgm4_def)
qed

section \<open>Properties\<close>

text \<open>C13: \<open>generate_trgm\<close> of the hw4 tree never reads or writes outside the blocks it allocates and no
  \<open>Assert\<close> fails, whatever the text, the encoding and the old contents of the memory are: a text of at
  most 357913935 bytes gives exactly the array of the hw5 module, which fits its block, and for a longer
  one \<open>palloc\<close> refuses the block and raises an error.\<close>

theorem trigrams_in_memory:
  "if length str \<le> max_text
   then \<exists>t. generate_trgm4 e m str = Inr t \<and> trgms t = generate_trgm e str \<and> TRGM4_ok t
   else generate_trgm4 e m str = Inl AllocTooLarge"
  using generate_trgm4_ok [of str e m] generate_trgm4_too_large [of str e m] by simp

text \<open>C18: on texts that fit in memory \<open>similarity\<close>, \<open>similarity_dist\<close> and \<open>show_trgm\<close> of the hw4 tree
  return without a fault what those of the hw5 tree return, although one module walks over bytes and
  the other over arrays of trigrams.\<close>

theorem hw4_functions_agree:
  assumes "length s \<le> max_text" "length t \<le> max_text"
  shows "similarity4 e m s t = Inr (similarity e s t) \<and>
         similarity_dist4 e m s t = Inr (similarity_dist e s t) \<and>
         show_trgm4 e m s = Inr (show_trgm e s)"
  using similarity4_ok [OF assms, of e m] show_trgm4_ok [OF assms(1), of e m]
  by (simp add: similarity_dist4_def similarity_dist_def)

theorem hw4_functions_agree_witness:
  "similarity4 PG_UTF8 (\<lambda>_. 0) [0x61, 0x62] [] = Inr (similarity PG_UTF8 [0x61, 0x62] []) \<and>
   similarity_dist4 PG_UTF8 (\<lambda>_. 0) [0x61, 0x62] [] = Inr (similarity_dist PG_UTF8 [0x61, 0x62] []) \<and>
   show_trgm4 PG_UTF8 (\<lambda>_. 0) [0x61, 0x62] = Inr (show_trgm PG_UTF8 [0x61, 0x62])"
  using hw4_functions_agree [of "[0x61, 0x62]" "[]" PG_UTF8 "\<lambda>_. 0"] by (simp add: max_text_def)

text \<open>C35: the threshold of the hw4 module is exact: \<open>set_limit\<close> accepts the \<open>float4\<close> value of every number
  \<open>p\<close> from 0 to 1 and \<open>show_limit\<close> returns it unchanged, and then \<open>%\<close> holds for a pair of texts just if the
  \<open>float4\<close> value of the fraction of trigrams they share is at least the threshold, so for every pair that shares a
  fraction of at least \<open>p\<close>.  The threshold itself passes, where the manual (pgtrgm.sgml) says greater than the
  threshold.  (The hw5 module loses pairs at the threshold.)\<close>

theorem limit_respected:
  assumes "0 \<le> p" "p \<le> 1" "length s \<le> max_text" "length t \<le> max_text"
    and "generate_trgm e s \<noteq> [] \<or> generate_trgm e t \<noteq> []"
  shows "\<exists>limit. set_limit4 (Num (rnd float4_bits p)) = Inr limit \<and>
           show_limit4 limit = Num (rnd float4_bits p) \<and>
           similarity_op4 limit e m s t =
             Inr (rnd float4_bits p \<le> rnd float4_bits (overlap (generate_trgm e s) (generate_trgm e t))) \<and>
           (p \<le> overlap (generate_trgm e s) (generate_trgm e t) \<longrightarrow> similarity_op4 limit e m s t = Inr True)"
proof -
  have "0 \<le> rnd float4_bits p \<and> rnd float4_bits p \<le> 1" using assms(1,2) by (intro rnd_unit) auto
  then have "set_limit4 (Num (rnd float4_bits p)) = Inr (Num (rnd float4_bits p))" by (simp add: set_limit4_def)
  moreover have "similarity e s t = Num (rnd float4_bits (overlap (generate_trgm e s) (generate_trgm e t)))"
    unfolding similarity_def by (rule cnt_sml_overlap [OF generate_trgm_sorted generate_trgm_sorted assms(5)])
  moreover have "p \<le> overlap (generate_trgm e s) (generate_trgm e t) \<Longrightarrow>
      rnd float4_bits p \<le> rnd float4_bits (overlap (generate_trgm e s) (generate_trgm e t))"
    by (rule rnd_mono) simp_all
  ultimately show ?thesis
    using similarity4_ok [OF assms(3,4), of e m] by (simp add: show_limit4_def similarity_op4_def)
qed

theorem limit_respected_witness:
  "\<exists>limit. set_limit4 (Num (rnd float4_bits 1)) = Inr limit \<and>
     show_limit4 limit = Num (rnd float4_bits 1) \<and>
     similarity_op4 limit PG_SQL_ASCII (\<lambda>_. 0) [0x61, 0x62] [0x41, 0x62] = Inr True"
proof -
  have "alnum_words [0x61, 0x62] = [[0x61, 0x62]]" "alnum_words [0x41, 0x62] = [[0x41, 0x62]]"
    by (simp_all add: alnum_words.simps c_ctype_defs)
  then have t: "text_trigrams [0x61, 0x62] = {(0x20, 0x20, 0x61), (0x20, 0x61, 0x62), (0x61, 0x62, 0x20)}"
    "text_trigrams [0x41, 0x62] = {(0x20, 0x20, 0x61), (0x20, 0x61, 0x62), (0x61, 0x62, 0x20)}"
    by (simp_all add: text_trigrams_def trigram_eval)
  let ?x = "generate_trgm PG_SQL_ASCII [0x61, 0x62]" and ?y = "generate_trgm PG_SQL_ASCII [0x41, 0x62]"
  have "mb_layout PG_SQL_ASCII [0x61, 0x62]" "mb_layout PG_SQL_ASCII [0x41, 0x62]" by (rule mb_layout_ascii; simp)+
  then have s: "set ?x = {(0x20, 0x20, 0x61), (0x20, 0x61, 0x62), (0x61, 0x62, 0x20)}" "set ?x = set ?y"
    using generate_trgm_set t by auto
  then have ne: "?x \<noteq> [] \<or> ?y \<noteq> []" by auto
  then have "1 \<le> overlap ?x ?y" using overlap_one [OF generate_trgm_sorted generate_trgm_sorted ne] s(2) by simp
  moreover have "length [0x61, 0x62 :: byte] \<le> max_text" "length [0x41, 0x62 :: byte] \<le> max_text" by (simp_all add: max_text_def)
  ultimately show ?thesis using limit_respected [OF zero_le_one order_refl _ _ ne, of "\<lambda>_. 0"] by blast
qed

text \<open>C40: \<open>print_qgram\<close> writes past the end of its string: the third \<open>sprintf\<close> puts its terminating zero
  one byte after the ten bytes the code asks for, for every trigram.  With one byte more it would log
  the trigram as its comment says.\<close>

theorem print_qgram_overflows:
  "print_qgram m [a, b, c] = Inl OutOfBounds \<and>
   print_qgram_in 11 m [a, b, c] =
     Inr (takeWhile (\<lambda>x. x \<noteq> 0) [0x5B, a, 0x2C, 0x20, b, 0x2C, 0x20, c, 0x5D])"
proof -
  have "[0..<10] = [0, 1, 2, 3, 4, 5, 6, 7, 8, 9]" "[0..<11] = [0, 1, 2, 3, 4, 5, 6, 7, 8, 9, 10]"
    by (simp_all add: upt_conv_Cons)
  then show ?thesis
    by (simp add: print_qgram_def print_qgram_in_def palloc_def MaxAllocSize_def print_loop.simps sprintf_c_def memcpy_def)
qed

text \<open>A threshold that is not a number passes the range check of \<open>set_limit\<close>; no pair satisfies it.\<close>

lemma set_limit4_nan: "set_limit4 NaN = Inr NaN \<and> similarity_op4 NaN e m s t \<noteq> Inr True"
proof -
  have "\<not> cge x NaN" for x by (cases x) simp_all
  then show ?thesis by (cases "similarity4 e m s t") (simp_all add: set_limit4_def similarity_op4_def)
qed

end
