(* ===== verification/BitTables.thy ===== *)
theory BitTables
  imports Prelude
begin

text \<open>
  The byte tables with which the code counts and finds bits: \<open>number_of_ones\<close> (contrib/pg_trgm/trgm_gist.c and
  nodes/bitmapset.c have the same) and \<open>rightmost_one_pos\<close> (nodes/bitmapset.c).
\<close>

section \<open>The number of bits of a byte\<close>

definition number_of_ones :: "nat list" where
  "number_of_ones =
  [0, 1, 1, 2, 1, 2, 2, 3, 1, 2, 2, 3, 2, 3, 3, 4,
   1, 2, 2, 3, 2, 3, 3, 4, 2, 3, 3, 4, 3, 4, 4, 5,
   1, 2, 2, 3, 2, 3, 3, 4, 2, 3, 3, 4, 3, 4, 4, 5,
   2, 3, 3, 4, 3, 4, 4, 5, 3, 4, 4, 5, 4, 5, 5, 6,
   1, 2, 2, 3, 2, 3, 3, 4, 2, 3, 3, 4, 3, 4, 4, 5,
   2, 3, 3, 4, 3, 4, 4, 5, 3, 4, 4, 5, 4, 5, 5, 6,
   2, 3, 3, 4, 3, 4, 4, 5, 3, 4, 4, 5, 4, 5, 5, 6,
   3, 4, 4, 5, 4, 5, 5, 6, 4, 5, 5, 6, 5, 6, 6, 7,
   1, 2, 2, 3, 2, 3, 3, 4, 2, 3, 3, 4, 3, 4, 4, 5,
   2, 3, 3, 4, 3, 4, 4, 5, 3, 4, 4, 5, 4, 5, 5, 6,
   2, 3, 3, 4, 3, 4, 4, 5, 3, 4, 4, 5, 4, 5, 5, 6,
   3, 4, 4, 5, 4, 5, 5, 6, 4, 5, 5, 6, 5, 6, 6, 7,
   2, 3, 3, 4, 3, 4, 4, 5, 3, 4, 4, 5, 4, 5, 5, 6,
   3, 4, 4, 5, 4, 5, 5, 6, 4, 5, 5, 6, 5, 6, 6, 7,
   3, 4, 4, 5, 4, 5, 5, 6, 4, 5, 5, 6, 5, 6, 6, 7,
   4, 5, 5, 6, 5, 6, 6, 7, 5, 6, 6, 7, 6, 7, 7, 8]"

definition popcount8 :: "byte \<Rightarrow> nat" where
  "popcount8 w = card {i. i < 8 \<and> bit w i}"

lemma top_bit_div: "m < 2 ^ k \<Longrightarrow> (2 ^ k + m :: nat) div 2 ^ k = 1"
  using div_add_self1 [of "2 ^ k" m] div_less [of m "2 ^ k"] by simp

text \<open>The table is made by doubling: the upper half of \<open>2 ^ (k + 1)\<close> entries has one bit more.\<close>

primrec ones_table :: "nat \<Rightarrow> nat list" where
  "ones_table 0 = [0]"
| "ones_table (Suc k) = ones_table k @ map Suc (ones_table k)"

lemma number_of_ones_table: "number_of_ones = ones_table 8"
  by code_simp

lemma ones_table_length: "length (ones_table k) = 2 ^ k"
  by (induction k) simp_all

lemma ones_table_bits: "n < 2 ^ k \<Longrightarrow> ones_table k ! n = (\<Sum>i<k. n div 2 ^ i mod 2)"
proof (induction k arbitrary: n)
  case (Suc k)
  show ?case
  proof (cases "n < 2 ^ k")
    case True
    then show ?thesis using Suc.IH [OF True] by (simp add: nth_append ones_table_length)
  next
    case False
    then obtain m where n: "n = 2 ^ k + m" by (metis le_Suc_ex not_less)
    then have m: "m < 2 ^ k" using Suc.prems by simp
    have "n div 2 ^ i mod 2 = m div 2 ^ i mod 2" if "i < k" for i
    proof -
      have "(2 :: nat) ^ k = 2 ^ i * (2 * 2 ^ (k - Suc i))"
        using that by (simp flip: power_add power_Suc)
      then show ?thesis unfolding n by simp
    qed
    then have "(\<Sum>i<k. n div 2 ^ i mod 2) = (\<Sum>i<k. m div 2 ^ i mod 2)" by simp
    moreover have "n div 2 ^ k = 1" unfolding n by (rule top_bit_div [OF m])
    ultimately show ?thesis using Suc.IH [OF m] m n by (simp add: nth_append ones_table_length)
  qed
qed simp

lemma number_of_ones_popcount: "number_of_ones ! unat (w :: byte) = popcount8 w"
proof -
  have e: "unat w div 2 ^ i mod 2 = of_bool (bit w i)" for i
  proof -
    have "bit (unat w) i = bit w i" by (simp add: bit_unsigned_iff)
    then show ?thesis using bit_iff_odd [of "unat w" i] by (simp add: mod_2_eq_odd)
  qed
  have "number_of_ones ! unat w = (\<Sum>i<8. unat w div 2 ^ i mod 2)"
    using ones_table_bits [of "unat w" 8] unsigned_less [of w] by (simp add: number_of_ones_table)
  also have "\<dots> = (\<Sum>i<8. of_bool (bit w i))" by (simp only: e)
  also have "\<dots> = card ({..<8} \<inter> {i. bit w i})" by (simp add: sum.If_cases of_bool_def)
  also have "{..<8} \<inter> {i. bit w i} = {i. i < 8 \<and> bit w i}" by auto
  finally show ?thesis by (simp add: popcount8_def)
qed

section \<open>The rightmost bit of a byte\<close>

definition rightmost_one_pos :: "nat list" where
  "rightmost_one_pos =
  [0, 0, 1, 0, 2, 0, 1, 0, 3, 0, 1, 0, 2, 0, 1, 0,
   4, 0, 1, 0, 2, 0, 1, 0, 3, 0, 1, 0, 2, 0, 1, 0,
   5, 0, 1, 0, 2, 0, 1, 0, 3, 0, 1, 0, 2, 0, 1, 0,
   4, 0, 1, 0, 2, 0, 1, 0, 3, 0, 1, 0, 2, 0, 1, 0,
   6, 0, 1, 0, 2, 0, 1, 0, 3, 0, 1, 0, 2, 0, 1, 0,
   4, 0, 1, 0, 2, 0, 1, 0, 3, 0, 1, 0, 2, 0, 1, 0,
   5, 0, 1, 0, 2, 0, 1, 0, 3, 0, 1, 0, 2, 0, 1, 0,
   4, 0, 1, 0, 2, 0, 1, 0, 3, 0, 1, 0, 2, 0, 1, 0,
   7, 0, 1, 0, 2, 0, 1, 0, 3, 0, 1, 0, 2, 0, 1, 0,
   4, 0, 1, 0, 2, 0, 1, 0, 3, 0, 1, 0, 2, 0, 1, 0,
   5, 0, 1, 0, 2, 0, 1, 0, 3, 0, 1, 0, 2, 0, 1, 0,
   4, 0, 1, 0, 2, 0, 1, 0, 3, 0, 1, 0, 2, 0, 1, 0,
   6, 0, 1, 0, 2, 0, 1, 0, 3, 0, 1, 0, 2, 0, 1, 0,
   4, 0, 1, 0, 2, 0, 1, 0, 3, 0, 1, 0, 2, 0, 1, 0,
   5, 0, 1, 0, 2, 0, 1, 0, 3, 0, 1, 0, 2, 0, 1, 0,
   4, 0, 1, 0, 2, 0, 1, 0, 3, 0, 1, 0, 2, 0, 1, 0]"

text \<open>\<open>lowest b k\<close>: the rightmost bit that is set is bit \<open>k\<close>.\<close>

definition lowest :: "'a :: semiring_bits \<Rightarrow> nat \<Rightarrow> bool" where
  "lowest b k \<longleftrightarrow> bit b k \<and> (\<forall>j < k. \<not> bit b j)"

primrec rightmost_table :: "nat \<Rightarrow> nat list" where
  "rightmost_table 0 = [0]"
| "rightmost_table (Suc k) = rightmost_table k @ k # tl (rightmost_table k)"

lemma rightmost_one_pos_table: "rightmost_one_pos = rightmost_table 8"
  by code_simp

lemma rightmost_table_length: "length (rightmost_table k) = 2 ^ k"
  by (induction k) simp_all

lemma bit_below: "j < k \<Longrightarrow> bit (2 ^ k + m :: nat) j = bit m j"
proof -
  assume "j < k"
  then have "(2 :: nat) ^ k = 2 ^ j * (2 * 2 ^ (k - Suc j))" by (simp flip: power_add power_Suc)
  then show ?thesis by (simp add: bit_iff_odd)
qed

lemma bit_above: "m < 2 ^ k \<Longrightarrow> bit (2 ^ k + m :: nat) k"
  by (simp add: bit_iff_odd top_bit_div)

lemma bit_small: "(m :: nat) < 2 ^ k \<Longrightarrow> bit m j \<Longrightarrow> j < k"
proof (rule ccontr)
  assume m: "m < 2 ^ k" "bit m j" "\<not> j < k"
  then have "(2 :: nat) ^ k \<le> 2 ^ j" by (intro power_increasing) simp_all
  then have "m div 2 ^ j = 0" using m(1) by (intro div_less) linarith
  then show False using m(2) by (simp add: bit_iff_odd)
qed

lemma rightmost_table_lowest: "0 < n \<Longrightarrow> n < 2 ^ k \<Longrightarrow> lowest n (rightmost_table k ! n)"
proof (induction k arbitrary: n)
  case (Suc k)
  show ?case
  proof (cases "n < 2 ^ k")
    case True
    then show ?thesis using Suc by (simp add: nth_append rightmost_table_length)
  next
    case False
    then obtain m where n: "n = 2 ^ k + m" by (metis le_Suc_ex not_less)
    then have m: "m < 2 ^ k" using Suc.prems by simp
    show ?thesis
    proof (cases "m = 0")
      case True
      then show ?thesis using n by (simp add: nth_append rightmost_table_length lowest_def bit_exp_iff)
    next
      case pos: False
      have "rightmost_table (Suc k) ! n = rightmost_table k ! m"
        using pos n m by (cases "rightmost_table k") (auto simp: nth_append rightmost_table_length nth_Cons' rightmost_table_length [symmetric])
      moreover have "lowest m (rightmost_table k ! m)" using Suc.IH pos m by simp
      moreover from this have "rightmost_table k ! m < k" using bit_small [OF m] by (simp add: lowest_def)
      ultimately show ?thesis unfolding n by (simp add: lowest_def bit_below)
    qed
  qed
qed simp

lemma rightmost_one_pos_lowest: "b \<noteq> 0 \<Longrightarrow> lowest (b :: byte) (rightmost_one_pos ! unat b)"
proof -
  assume b: "b \<noteq> 0"
  then have "0 < unat b" by (simp add: unat_gt_0)
  then have "lowest (unat b) (rightmost_one_pos ! unat b)"
    using rightmost_table_lowest [of "unat b" 8] unsigned_less [of b] by (simp add: rightmost_one_pos_table)
  then show ?thesis by (simp add: lowest_def bit_unsigned_iff)
qed

end
