(* ===== verification/TrgmGist.thy ===== *)
theory TrgmGist
  imports TrgmGin BitTables
begin

text \<open>
  The GiST operator class (contrib/pg_trgm/trgm_gist.c).  A key is the sorted trigram array of a text on
  a leaf page, and above the leaves a signature: a bit vector of \<open>SIGLEN\<close> bytes in which every trigram
  sets the bit it hashes to, or the flag that all bits are set.  \<open>TRGM\<close> is the tagged union the code
  keeps in \<open>flag\<close>.  A signature is the list of its bytes.  The machine is little endian.
\<close>

section \<open>Signatures: trgm.h\<close>

type_synonym BITVEC = bytes

definition SIGLEN :: nat where "SIGLEN = 12"

definition SIGLENBIT :: nat where "SIGLENBIT = SIGLEN * 8 - 1"

definition GETBYTE :: "BITVEC \<Rightarrow> nat \<Rightarrow> byte" where
  "GETBYTE x i = x ! (i div 8)"

definition SETBIT :: "BITVEC \<Rightarrow> nat \<Rightarrow> BITVEC" where
  "SETBIT x i = x[i div 8 := GETBYTE x i OR push_bit (i mod 8) 1]"

definition GETBIT :: "BITVEC \<Rightarrow> nat \<Rightarrow> nat" where
  "GETBIT x i = unat (drop_bit (i mod 8) (GETBYTE x i) AND 1)"

definition HASHVAL :: "32 word \<Rightarrow> nat" where
  "HASHVAL val = unat val mod SIGLENBIT"

definition HASH :: "BITVEC \<Rightarrow> 32 word \<Rightarrow> BITVEC" where
  "HASH sign val = SETBIT sign (HASHVAL val)"

datatype TRGM = ARRKEY "trgm list" | SIGNKEY BITVEC | ALLISTRUE

fun ISARRKEY :: "TRGM \<Rightarrow> bool" where
  "ISARRKEY (ARRKEY a) = True"
| "ISARRKEY _ = False"

fun ISALLTRUE :: "TRGM \<Rightarrow> bool" where
  "ISALLTRUE ALLISTRUE = True"
| "ISALLTRUE _ = False"

text \<open>\<open>GETSIGN\<close> and \<open>GETARR\<close> of a key of the right kind.\<close>

fun GETSIGN :: "TRGM \<Rightarrow> BITVEC" where
  "GETSIGN (SIGNKEY s) = s"
| "GETSIGN _ = []"

fun GETARR :: "TRGM \<Rightarrow> trgm list" where
  "GETARR (ARRKEY a) = a"
| "GETARR _ = []"

section \<open>Signing, compressing\<close>

text \<open>The three bytes of a trigram copied over the low-order bytes of a zero \<open>int4\<close>.\<close>

definition trgm_tmp :: "trgm \<Rightarrow> 32 word" where
  "trgm_tmp t = (case t of (a, b, c) \<Rightarrow> ucast a OR (push_bit 8 (ucast b) OR push_bit 16 (ucast c)))"

definition makesign :: "trgm list \<Rightarrow> BITVEC" where
  "makesign a = foldl (\<lambda>sign t. HASH sign (trgm_tmp t)) (SETBIT (replicate SIGLEN 0) SIGLENBIT) a"

datatype gist_key = TextKey bytes | TrgmKey TRGM

text \<open>A new leaf entry is a text; an entry made by \<open>union\<close> or \<open>picksplit\<close> is a signature.\<close>

fun gtrgm_compress :: "pg_encoding \<Rightarrow> gist_key \<Rightarrow> gist_key" where
  "gtrgm_compress e (TextKey val) = TrgmKey (ARRKEY (generate_trgm e val))"
| "gtrgm_compress e (TrgmKey (SIGNKEY sign)) =
     (if list_all (\<lambda>b. b AND 0xff = 0xff) sign then TrgmKey ALLISTRUE else TrgmKey (SIGNKEY sign))"
| "gtrgm_compress e k = k"

section \<open>Consistency\<close>

text \<open>\<open>GETBIT\<close> counts 1 for every trigram of the query whose bit is set.\<close>

definition cnt_sml_sign_common :: "trgm list \<Rightarrow> BITVEC \<Rightarrow> nat" where
  "cnt_sml_sign_common qtrg sign = sum_list (map (\<lambda>t. GETBIT sign (HASHVAL (trgm_tmp t))) qtrg)"

text \<open>
  The extracted query is cached in \<open>fn_extra\<close> with the strategy and the query text it belongs to.
\<close>

type_synonym gist_cache = "(nat \<times> bytes \<times> trgm list) option"

definition query_trgm :: "pg_encoding \<Rightarrow> bytes \<Rightarrow> nat \<Rightarrow> pg_error + trgm list" where
  "query_trgm e query strategy =
     (if strategy = SimilarityStrategyNumber then Inr (generate_trgm e query)
      else if strategy = ILikeStrategyNumber \<or> strategy = LikeStrategyNumber then Inr (generate_wildcard_trgm e query)
      else Inl (UnrecognizedStrategy strategy))"

definition cached_query ::
  "pg_encoding \<Rightarrow> gist_cache \<Rightarrow> bytes \<Rightarrow> nat \<Rightarrow> pg_error + (trgm list \<times> gist_cache)" where
  "cached_query e cache query strategy =
     (case cache of
        Some (s, q, qtrg) \<Rightarrow>
          if strategy = s \<and> q = query then Inr (qtrg, cache)
          else (case query_trgm e query strategy of Inl err \<Rightarrow> Inl err
                | Inr qtrg \<Rightarrow> Inr (qtrg, Some (strategy, query, qtrg)))
      | None \<Rightarrow> (case query_trgm e query strategy of Inl err \<Rightarrow> Inl err
                | Inr qtrg \<Rightarrow> Inr (qtrg, Some (strategy, query, qtrg))))"

text \<open>
  The test itself: the result and \<open>recheck\<close>.  On a leaf the key is the array of the text.  In an
  inner page the signature counts are compared as \<open>double\<close>s.
\<close>

definition consistent_test :: "env \<Rightarrow> bool \<Rightarrow> TRGM \<Rightarrow> trgm list \<Rightarrow> nat \<Rightarrow> pg_error + (bool \<times> bool)" where
  "consistent_test env leaf key qtrg strategy =
     (if strategy = SimilarityStrategyNumber then
        Inr (if leaf then cgt (cnt_sml (GETARR key) qtrg) (trgm_limit env)
             else if ISALLTRUE key then True
             else (let count = cnt_sml_sign_common qtrg (GETSIGN key); len = length qtrg
                   in if len = 0 then False
                      else cge (cdiv float8_bits (of_nat count) (of_nat len)) (trgm_limit env)), False)
      else if strategy = ILikeStrategyNumber \<or> strategy = LikeStrategyNumber then
        Inr (if leaf then trgm_contained_by qtrg (GETARR key)
             else if ISALLTRUE key then True
             else list_all (\<lambda>t. GETBIT (GETSIGN key) (HASHVAL (trgm_tmp t)) \<noteq> 0) qtrg, True)
      else Inl (UnrecognizedStrategy strategy))"

definition gtrgm_consistent ::
  "env \<Rightarrow> pg_encoding \<Rightarrow> gist_cache \<Rightarrow> bool \<Rightarrow> TRGM \<Rightarrow> bytes \<Rightarrow> nat \<Rightarrow> pg_error + ((bool \<times> bool) \<times> gist_cache)" where
  "gtrgm_consistent env e cache leaf key query strategy =
     (case cached_query e cache query strategy of
        Inl err \<Rightarrow> Inl err
      | Inr (qtrg, cache') \<Rightarrow>
          (case consistent_test env leaf key qtrg strategy of Inl err \<Rightarrow> Inl err | Inr r \<Rightarrow> Inr (r, cache')))"

text \<open>The distance function has a cache of its own, which holds the query and its trigrams.\<close>

definition gtrgm_distance ::
  "pg_encoding \<Rightarrow> (bytes \<times> trgm list) option \<Rightarrow> bool \<Rightarrow> TRGM \<Rightarrow> bytes \<Rightarrow> nat \<Rightarrow>
   pg_error + (cfloat \<times> (bytes \<times> trgm list) option)" where
  "gtrgm_distance e cache leaf key query strategy =
     (let qtrg = (case cache of Some (q, t) \<Rightarrow> if q = query then t else generate_trgm e query
                  | None \<Rightarrow> generate_trgm e query);
          cache' = Some (query, qtrg)
      in if strategy = DistanceStrategyNumber then
           Inr (if leaf then csub float8_bits 1 (cnt_sml (GETARR key) qtrg)
                else if ISALLTRUE key then Num 0
                else (let count = cnt_sml_sign_common qtrg (GETSIGN key); len = length qtrg
                      in if len = 0 then Num (- 1)
                         else csub float8_bits 1 (cdiv float8_bits (of_nat count) (of_nat len))), cache')
         else Inl (UnrecognizedStrategy strategy))"

section \<open>Union and equality\<close>

text \<open>\<open>None\<close> is the code's result 1: the union is all true.\<close>

definition or_bytes :: "BITVEC \<Rightarrow> BITVEC \<Rightarrow> BITVEC" where
  "or_bytes a b = map (\<lambda>i. a ! i OR b ! i) [0..<SIGLEN]"

fun unionkey :: "BITVEC \<Rightarrow> TRGM \<Rightarrow> BITVEC option" where
  "unionkey sbase ALLISTRUE = None"
| "unionkey sbase (SIGNKEY sadd) = Some (or_bytes sbase sadd)"
| "unionkey sbase (ARRKEY ptr) = Some (foldl (\<lambda>sign t. HASH sign (trgm_tmp t)) sbase ptr)"

fun union_loop :: "BITVEC \<Rightarrow> TRGM list \<Rightarrow> TRGM" where
  "union_loop base [] = SIGNKEY base"
| "union_loop base (k # ks) = (case unionkey base k of None \<Rightarrow> ALLISTRUE | Some base' \<Rightarrow> union_loop base' ks)"

definition gtrgm_union :: "TRGM list \<Rightarrow> TRGM" where
  "gtrgm_union entryvec = union_loop (replicate SIGLEN 0) entryvec"

fun gtrgm_same :: "TRGM \<Rightarrow> TRGM \<Rightarrow> bool" where
  "gtrgm_same ALLISTRUE ALLISTRUE = True"
| "gtrgm_same ALLISTRUE b = False"
| "gtrgm_same (SIGNKEY a) ALLISTRUE = False"
| "gtrgm_same (SIGNKEY sa) b = list_all (\<lambda>i. sa ! i = GETSIGN b ! i) [0..<SIGLEN]"
| "gtrgm_same (ARRKEY a) b =
     (if length a \<noteq> length (GETARR b) then False
      else list_all (\<lambda>i. CMPTRGM (a ! i) (GETARR b ! i) = 0) [0..<length a])"

section \<open>Distances between signatures\<close>

definition sizebitvec :: "BITVEC \<Rightarrow> int" where
  "sizebitvec sign = sum_list (map (\<lambda>i. int (number_of_ones ! unat (sign ! i))) [0..<SIGLEN])"

definition hemdistsign :: "BITVEC \<Rightarrow> BITVEC \<Rightarrow> int" where
  "hemdistsign a b = sum_list (map (\<lambda>i. int (number_of_ones ! unat (a ! i XOR b ! i))) [0..<SIGLEN])"

definition hemdist :: "TRGM \<Rightarrow> TRGM \<Rightarrow> int" where
  "hemdist a b =
     (if ISALLTRUE a then (if ISALLTRUE b then 0 else int SIGLENBIT - sizebitvec (GETSIGN b))
      else if ISALLTRUE b then int SIGLENBIT - sizebitvec (GETSIGN a)
      else hemdistsign (GETSIGN a) (GETSIGN b))"

text \<open>The penalty is a \<open>float\<close>; the integers involved are below 100, so the conversions are exact.\<close>

definition gtrgm_penalty :: "TRGM \<Rightarrow> TRGM \<Rightarrow> cfloat" where
  "gtrgm_penalty origval newval =
     (case newval of
        ARRKEY a \<Rightarrow>
          (let sign = makesign a in
           if ISALLTRUE origval
           then cdiv float4_bits (of_int (int SIGLENBIT - sizebitvec sign)) (of_nat (SIGLENBIT + 1))
           else Num (of_int (hemdistsign sign (GETSIGN origval))))
      | _ \<Rightarrow> Num (of_int (hemdist origval newval)))"

section \<open>Splitting a page\<close>

text \<open>The \<open>sign\<close> of a cache entry with \<open>allistrue\<close> is not initialised; nothing reads it as such.\<close>

record CACHESIGN =
  allistrue :: bool
  sign :: BITVEC

fun fillcache :: "TRGM \<Rightarrow> CACHESIGN" where
  "fillcache (ARRKEY a) = \<lparr>allistrue = False, sign = makesign a\<rparr>"
| "fillcache ALLISTRUE = \<lparr>allistrue = True, sign = []\<rparr>"
| "fillcache (SIGNKEY s) = \<lparr>allistrue = False, sign = s\<rparr>"

definition hemdistcache :: "CACHESIGN \<Rightarrow> CACHESIGN \<Rightarrow> int" where
  "hemdistcache a b =
     (if allistrue a then (if allistrue b then 0 else int SIGLENBIT - sizebitvec (sign b))
      else if allistrue b then int SIGLENBIT - sizebitvec (sign a)
      else hemdistsign (sign a) (sign b))"

definition WISH_F :: "nat \<Rightarrow> nat \<Rightarrow> rat" where
  "WISH_F a b = rnd float8_bits (- of_int ((int a - int b) ^ 3) * rnd float8_bits (1 / 10))"

record SPLITCOST =
  pos :: nat
  cost :: int

definition comparecost :: "SPLITCOST \<Rightarrow> SPLITCOST \<Rightarrow> int" where
  "comparecost a b = (if cost a = cost b then 0 else if cost a > cost b then 1 else - 1)"

text \<open>The pair of entries that are furthest apart, the first of them in the order of the loops.\<close>

definition seed_pairs :: "nat \<Rightarrow> (nat \<times> nat) list" where
  "seed_pairs maxoff = concat (map (\<lambda>k. map (\<lambda>j. (k, j)) [Suc k..<Suc maxoff]) [1..<maxoff])"

fun find_seeds :: "(nat \<Rightarrow> CACHESIGN) \<Rightarrow> (nat \<times> nat) list \<Rightarrow> int \<Rightarrow> nat \<times> nat \<Rightarrow> nat \<times> nat" where
  "find_seeds cache [] waste seeds = seeds"
| "find_seeds cache ((k, j) # ps) waste seeds =
     (let size_waste = hemdistcache (cache j) (cache k) in
      if size_waste > waste then find_seeds cache ps size_waste (k, j)
      else find_seeds cache ps waste seeds)"

definition choose_seeds :: "(nat \<Rightarrow> CACHESIGN) \<Rightarrow> nat \<Rightarrow> nat \<times> nat" where
  "choose_seeds cache maxoff =
     (case find_seeds cache (seed_pairs maxoff) (- 1) (0, 0) of
        (s1, s2) \<Rightarrow> if s1 = 0 \<or> s2 = 0 then (1, 2) else (s1, s2))"

definition seed_datum :: "CACHESIGN \<Rightarrow> TRGM" where
  "seed_datum c = (if allistrue c then ALLISTRUE else SIGNKEY (sign c))"

text \<open>
  The growth of a side if an entry joins it.  When the side is all true and the entry is not, the code
  passes \<open>GETSIGN(cache[j].sign)\<close>, which skips a header the cache entry does not have: it reads the
  bytes from five past the start of the signature.  \<open>past j\<close> stands for whatever is there.
\<close>

definition split_size :: "(nat \<Rightarrow> BITVEC) \<Rightarrow> (nat \<Rightarrow> CACHESIGN) \<Rightarrow> TRGM \<Rightarrow> nat \<Rightarrow> int" where
  "split_size past cache datum j =
     (if ISALLTRUE datum \<or> allistrue (cache j)
      then (if ISALLTRUE datum \<and> allistrue (cache j) then 0
            else int SIGLENBIT - sizebitvec (if allistrue (cache j) then GETSIGN datum else past j))
      else hemdistsign (sign (cache j)) (GETSIGN datum))"

definition split_add :: "CACHESIGN \<Rightarrow> TRGM \<Rightarrow> TRGM" where
  "split_add c datum =
     (if ISALLTRUE datum \<or> allistrue c
      then (if \<not> ISALLTRUE datum then SIGNKEY (replicate SIGLEN 0xff) else datum)
      else SIGNKEY (or_bytes (GETSIGN datum) (sign c)))"

record GIST_SPLITVEC =
  spl_left :: "nat list"
  spl_right :: "nat list"
  spl_ldatum :: TRGM
  spl_rdatum :: TRGM

definition split_step ::
  "(nat \<Rightarrow> BITVEC) \<Rightarrow> (nat \<Rightarrow> CACHESIGN) \<Rightarrow> nat \<times> nat \<Rightarrow> GIST_SPLITVEC \<Rightarrow> nat \<Rightarrow> GIST_SPLITVEC" where
  "split_step past cache seeds v j =
     (if j = fst seeds then v\<lparr>spl_left := spl_left v @ [j]\<rparr>
      else if j = snd seeds then v\<lparr>spl_right := spl_right v @ [j]\<rparr>
      else (let size_alpha = split_size past cache (spl_ldatum v) j;
                size_beta = split_size past cache (spl_rdatum v) j
            in if of_int size_alpha
                  < rnd float8_bits (of_int size_beta + WISH_F (length (spl_left v)) (length (spl_right v)))
               then v\<lparr>spl_left := spl_left v @ [j], spl_ldatum := split_add (cache j) (spl_ldatum v)\<rparr>
               else v\<lparr>spl_right := spl_right v @ [j], spl_rdatum := split_add (cache j) (spl_rdatum v)\<rparr>))"

text \<open>
  The cache: the first entry is filled before the loops over the pairs and the others up to \<open>maxoff\<close> in
  them, each before it is read; the last entry of the page, at \<open>maxoff + 1\<close>, is filled only after the keys
  of the seeds are formed.  \<open>fresh j\<close> is what \<open>palloc\<close> left in a cache entry that is not filled yet.
\<close>

definition fill_pairs :: "(nat \<Rightarrow> CACHESIGN) \<Rightarrow> TRGM list \<Rightarrow> nat \<Rightarrow> nat \<Rightarrow> CACHESIGN" where
  "fill_pairs fresh entryvec maxoff j =
     (if j = 1 \<or> (1 < j \<and> j \<le> maxoff) then fillcache (entryvec ! j) else fresh j)"

definition gtrgm_picksplit :: "(nat \<Rightarrow> BITVEC) \<Rightarrow> (nat \<Rightarrow> CACHESIGN) \<Rightarrow> TRGM list \<Rightarrow> GIST_SPLITVEC" where
  "gtrgm_picksplit past fresh entryvec =
     (let maxoff = length entryvec - 2;
          cache = fill_pairs fresh entryvec maxoff;
          seeds = choose_seeds cache maxoff;
          v = \<lparr>spl_left = [], spl_right = [], spl_ldatum = seed_datum (cache (fst seeds)),
               spl_rdatum = seed_datum (cache (snd seeds))\<rparr>;
          maxoff = Suc maxoff;
          cache = cache(maxoff := fillcache (entryvec ! maxoff));
          costvector = map (\<lambda>j. \<lparr>pos = j, cost = \<bar>hemdistcache (cache (fst seeds)) (cache j)
                                                - hemdistcache (cache (snd seeds)) (cache j)\<bar>\<rparr>) [1..<Suc maxoff];
          costvector = pg_qsort comparecost costvector
      in foldl (split_step past cache seeds) v (map pos costvector))"

section \<open>Not implemented\<close>

definition gtrgm_in :: "pg_error + TRGM" where "gtrgm_in = Inl NotImplemented"
definition gtrgm_out :: "pg_error + bytes" where "gtrgm_out = Inl NotImplemented"

end
