(* ===== verification/TrgmGistSearch.thy ===== *)
theory TrgmGistSearch
  imports TrgmGist
begin

text \<open>
  Searching a GiST index of trigrams: a key above the leaves admits every trigram of the keys below it
  (\<open>covers\<close>), \<open>union\<close> and \<open>compress\<close> keep that, and the consistency test never prunes a subtree that
  holds a match.  The contract an index search relies on is the locale \<open>gist_opclass\<close>, which the
  operator class meets for the LIKE strategies and, under a condition on the threshold, for similarity.
\<close>

section \<open>Bits of a signature\<close>

lemma GETBIT_bit: "GETBIT x i = of_bool (bit (GETBYTE x i) (i mod 8))"
  by (simp add: GETBIT_def and_one_eq mod_2_eq_odd bit_iff_odd_drop_bit)

lemma length_SETBIT [simp]: "length (SETBIT x i) = length x"
  by (simp add: SETBIT_def)

lemma GETBIT_SETBIT:
  assumes "i < 8 * length x" "j < 8 * length x"
  shows "GETBIT (SETBIT x i) j = (if i = j then 1 else GETBIT x j)"
proof (cases "i div 8 = j div 8")
  case True
  have i: "i div 8 < length x" using assms by simp
  have "i = j \<longleftrightarrow> i mod 8 = j mod 8" using True by (metis div_mult_mod_eq)
  moreover have "j mod 8 < 8" by simp
  ultimately show ?thesis using i True
    by (auto simp: GETBIT_bit GETBYTE_def SETBIT_def bit_or_iff bit_exp_iff)
next
  case False
  then show ?thesis by (auto simp: GETBIT_bit GETBYTE_def SETBIT_def)
qed

definition hash_bit :: "trgm \<Rightarrow> nat" where
  "hash_bit t = HASHVAL (trgm_tmp t)"

lemma hash_bit_bound [simp]: "hash_bit t < 95" "hash_bit t < 8 * SIGLEN"
  by (simp_all add: hash_bit_def HASHVAL_def SIGLENBIT_def SIGLEN_def)

lemma HASH_bit:
  assumes "length x = SIGLEN" "j < 8 * SIGLEN"
  shows "GETBIT (HASH x (trgm_tmp t)) j = (if hash_bit t = j then 1 else GETBIT x j)"
  using GETBIT_SETBIT [of "hash_bit t" x j] assms by (simp add: HASH_def hash_bit_def [symmetric])

lemma hash_fold:
  "length x = SIGLEN \<Longrightarrow> length (foldl (\<lambda>s t. HASH s (trgm_tmp t)) x a) = SIGLEN \<and>
     (\<forall>j < 8 * SIGLEN. GETBIT (foldl (\<lambda>s t. HASH s (trgm_tmp t)) x a) j =
        (if j \<in> hash_bit ` set a then 1 else GETBIT x j))"
proof (induction a arbitrary: x)
  case (Cons t a)
  have "length (HASH x (trgm_tmp t)) = SIGLEN" using Cons.prems by (simp add: HASH_def)
  from Cons.IH [OF this] show ?case using HASH_bit [OF Cons.prems, of _ t] by auto
qed simp

lemma GETBIT_zero [simp]: "j < 8 * n \<Longrightarrow> GETBIT (replicate n 0) j = 0"
  by (simp add: GETBIT_bit GETBYTE_def)

lemma makesign_length [simp]: "length (makesign a) = SIGLEN"
  using hash_fold [of "SETBIT (replicate SIGLEN 0) SIGLENBIT" a] by (simp add: makesign_def)

lemma makesign_bit:
  "j < 8 * SIGLEN \<Longrightarrow> GETBIT (makesign a) j = (if j \<in> hash_bit ` set a \<or> j = SIGLENBIT then 1 else 0)"
  using hash_fold [of "SETBIT (replicate SIGLEN 0) SIGLENBIT" a]
    GETBIT_SETBIT [of SIGLENBIT "replicate SIGLEN 0" j]
  by (auto simp: makesign_def SIGLENBIT_def SIGLEN_def)

lemma or_bytes_length [simp]: "length (or_bytes a b) = SIGLEN"
  by (simp add: or_bytes_def)

lemma or_bytes_bit:
  "j < 8 * SIGLEN \<Longrightarrow> GETBIT (or_bytes a b) j = (if GETBIT a j = 1 \<or> GETBIT b j = 1 then 1 else 0)"
proof -
  assume "j < 8 * SIGLEN"
  then have "j div 8 < SIGLEN" by (simp add: SIGLEN_def)
  then show ?thesis by (auto simp: GETBIT_bit GETBYTE_def or_bytes_def bit_or_iff)
qed

lemma GETBIT_one [simp]: "GETBIT a j \<noteq> 0 \<longleftrightarrow> GETBIT a j = 1" "0 < GETBIT a j \<longleftrightarrow> GETBIT a j = 1"
  by (simp_all add: GETBIT_bit)

section \<open>What a key admits\<close>

fun key_has :: "TRGM \<Rightarrow> trgm \<Rightarrow> bool" where
  "key_has (ARRKEY a) t \<longleftrightarrow> t \<in> set a"
| "key_has (SIGNKEY s) t \<longleftrightarrow> GETBIT s (hash_bit t) = 1"
| "key_has ALLISTRUE t \<longleftrightarrow> True"

definition covers :: "TRGM \<Rightarrow> TRGM \<Rightarrow> bool" where
  "covers k l \<longleftrightarrow> (\<forall>t. key_has l t \<longrightarrow> key_has k t)"

fun key_ok :: "TRGM \<Rightarrow> bool" where
  "key_ok (ARRKEY a) \<longleftrightarrow> trgm_sorted a"
| "key_ok (SIGNKEY s) \<longleftrightarrow> length s = SIGLEN"
| "key_ok ALLISTRUE \<longleftrightarrow> True"

lemma covers_refl [simp]: "covers k k" and covers_all [simp]: "covers ALLISTRUE k"
  by (simp_all add: covers_def)

lemma covers_trans: "covers a b \<Longrightarrow> covers b c \<Longrightarrow> covers a c"
  by (auto simp: covers_def)

text \<open>\<open>unionkey\<close> adds the bits of a key and keeps those that were there.\<close>

lemma unionkey_covers:
  assumes "length base = SIGLEN" "key_ok k" "unionkey base k = Some base'"
  shows "length base' = SIGLEN \<and> covers (SIGNKEY base') k \<and> covers (SIGNKEY base') (SIGNKEY base)"
proof (cases k)
  case (ARRKEY a)
  then show ?thesis using assms hash_fold [OF assms(1), of a] by (auto simp: covers_def)
next
  case (SIGNKEY s)
  then show ?thesis using assms by (auto simp: covers_def or_bytes_bit)
qed (use assms in simp)

lemma union_loop_covers:
  "length base = SIGLEN \<Longrightarrow> \<forall>k \<in> set ks. key_ok k \<Longrightarrow>
   key_ok (union_loop base ks) \<and> covers (union_loop base ks) (SIGNKEY base) \<and>
   (\<forall>k \<in> set ks. covers (union_loop base ks) k)"
proof (induction ks arbitrary: base)
  case (Cons k ks)
  show ?case
  proof (cases "unionkey base k")
    case (Some base')
    have u: "length base' = SIGLEN" "covers (SIGNKEY base') k" "covers (SIGNKEY base') (SIGNKEY base)"
      using unionkey_covers [OF Cons.prems(1) _ Some] Cons.prems(2) by auto
    have IH: "key_ok (union_loop base' ks)" "covers (union_loop base' ks) (SIGNKEY base')"
      "\<forall>k \<in> set ks. covers (union_loop base' ks) k"
      using Cons.IH [OF u(1)] Cons.prems(2) by auto
    show ?thesis using IH covers_trans [OF IH(2) u(2)] covers_trans [OF IH(2) u(3)] Some by simp
  qed simp
qed simp

lemma gtrgm_union_covers_all:
  assumes "\<forall>k \<in> set ks. key_ok k"
  shows "key_ok (gtrgm_union ks) \<and> (\<forall>k \<in> set ks. covers (gtrgm_union ks) k)"
  using union_loop_covers [OF _ assms, of "replicate SIGLEN 0"] by (simp add: gtrgm_union_def)

lemma all_ones_bit: "(b :: byte) AND 0xff = 0xff \<Longrightarrow> i < 8 \<Longrightarrow> bit b i"
proof -
  assume b: "b AND 0xff = 0xff" and i: "i < 8"
  have "bit (mask 8 :: byte) i" using i by (simp add: bit_mask_iff)
  moreover have "(mask 8 :: byte) = 0xff" by (simp add: mask_eq_exp_minus_1)
  ultimately have "bit (b AND 0xff) i" using b by simp
  then show "bit b i" by (simp only: bit_and_iff)
qed

lemma compress_equiv:
  "key_ok k \<Longrightarrow> \<exists>k'. gtrgm_compress e (TrgmKey k) = TrgmKey k' \<and> key_ok k' \<and> (\<forall>t. key_has k' t = key_has k t)"
proof (cases k)
  case (SIGNKEY s)
  assume ok: "key_ok k"
  show ?thesis
  proof (cases "list_all (\<lambda>b. b AND 0xff = 0xff) s")
    case True
    have "GETBIT s (hash_bit t) = 1" for t
    proof -
      have "hash_bit t div 8 < length s" using ok SIGNKEY hash_bit_bound(2) [of t] by (simp add: SIGLEN_def)
      then have "s ! (hash_bit t div 8) AND 0xff = 0xff" using True by (simp add: list_all_length)
      then have "bit (s ! (hash_bit t div 8)) (hash_bit t mod 8)" by (rule all_ones_bit) simp
      then show ?thesis by (simp add: GETBIT_bit GETBYTE_def)
    qed
    then show ?thesis using SIGNKEY True by simp
  qed (use SIGNKEY ok in simp)
qed simp_all

section \<open>The search\<close>

text \<open>
  A search descends into an entry only if the test accepts its key.  A page above the leaves is keyed
  when the key of every entry is above the keys of the page it points to.
\<close>

datatype 'k gist_tree = GLeaf "'k list" | GNode "('k \<times> 'k gist_tree) list"

fun gist_search :: "(bool \<Rightarrow> 'k \<Rightarrow> bool) \<Rightarrow> 'k gist_tree \<Rightarrow> 'k list" where
  "gist_search test (GLeaf ks) = filter (test True) ks"
| "gist_search test (GNode es) = concat (map (\<lambda>(k, t). if test False k then gist_search test t else []) es)"

fun gist_leaves :: "'k gist_tree \<Rightarrow> 'k list" where
  "gist_leaves (GLeaf ks) = ks"
| "gist_leaves (GNode es) = concat (map (\<lambda>(k, t). gist_leaves t) es)"

fun gist_keys :: "'k gist_tree \<Rightarrow> 'k list" where
  "gist_keys (GLeaf ks) = ks"
| "gist_keys (GNode es) = map fst es"

fun gist_keyed :: "('k \<Rightarrow> bool) \<Rightarrow> ('k \<Rightarrow> 'k \<Rightarrow> bool) \<Rightarrow> 'k gist_tree \<Rightarrow> bool" where
  "gist_keyed ok upon (GLeaf ks) \<longleftrightarrow> list_all ok ks"
| "gist_keyed ok upon (GNode es) \<longleftrightarrow>
     list_all (\<lambda>(k, t). ok k \<and> gist_keyed ok upon t \<and> list_all (upon k) (gist_keys t)) es"

definition gist_parent :: "('k list \<Rightarrow> 'k) \<Rightarrow> 'k gist_tree list \<Rightarrow> 'k gist_tree" where
  "gist_parent un ts = GNode (map (\<lambda>t. (un (gist_keys t), t)) ts)"

text \<open>
  The contract between the search and an operator class: the test above the leaves accepts a key that is
  above an accepted leaf, and a union is above the keys it was made of.
\<close>

locale gist_opclass =
  fixes test :: "bool \<Rightarrow> 'k \<Rightarrow> bool"
    and ok :: "'k \<Rightarrow> bool"
    and upon :: "'k \<Rightarrow> 'k \<Rightarrow> bool"
    and un :: "'k list \<Rightarrow> 'k"
  assumes leaf_up: "ok k \<Longrightarrow> ok l \<Longrightarrow> upon k l \<Longrightarrow> test True l \<Longrightarrow> test False k"
    and above_trans: "upon k l \<Longrightarrow> upon l m \<Longrightarrow> upon k m"
    and union_ok: "list_all ok ks \<Longrightarrow> ok (un ks)"
    and union_above: "list_all ok ks \<Longrightarrow> l \<in> set ks \<Longrightarrow> upon (un ks) l"
begin

lemma keyed_keys: "gist_keyed ok upon t \<Longrightarrow> list_all ok (gist_keys t)"
  by (cases t) (auto simp: list_all_iff)

lemma keyed_leaves:
  "gist_keyed ok upon t \<Longrightarrow> list_all (upon k) (gist_keys t) \<Longrightarrow> l \<in> set (gist_leaves t) \<Longrightarrow> ok l \<and> upon k l"
proof (induction t arbitrary: k)
  case (GNode es)
  obtain k' s where e: "(k', s) \<in> set es" "l \<in> set (gist_leaves s)" using GNode.prems(3) by auto
  have w: "gist_keyed ok upon s" "list_all (upon k') (gist_keys s)" "upon k k'"
    using GNode.prems(1,2) e(1) by (auto simp: list_all_iff)
  have "ok l \<and> upon k' l" using GNode.IH [OF e(1) _ w(1,2) e(2)] by simp
  then show ?case using above_trans [OF w(3)] by blast
qed (simp add: list_all_iff)

lemma search_complete:
  "gist_keyed ok upon t \<Longrightarrow> l \<in> set (gist_leaves t) \<Longrightarrow> test True l \<Longrightarrow> l \<in> set (gist_search test t)"
proof (induction t)
  case (GNode es)
  obtain k s where e: "(k, s) \<in> set es" "l \<in> set (gist_leaves s)" using GNode.prems(2) by auto
  then have w: "ok k" "gist_keyed ok upon s" "list_all (upon k) (gist_keys s)"
    using GNode.prems(1) by (auto simp: list_all_iff)
  have "ok l" "upon k l" using keyed_leaves [OF w(2,3) e(2)] by simp_all
  then have "test False k" using leaf_up w(1) GNode.prems(3) by blast
  moreover have "l \<in> set (gist_search test s)" using GNode.IH [OF e(1) _ w(2) e(2) GNode.prems(3)] by simp
  ultimately show ?case using e(1) by force
qed simp

lemma search_sound: "l \<in> set (gist_search test t) \<Longrightarrow> l \<in> set (gist_leaves t) \<and> test True l"
proof (induction t)
  case (GNode es)
  then obtain k s where e: "(k, s) \<in> set es" "l \<in> set (gist_search test s)" by (auto split: if_splits)
  then show ?case using GNode.IH [OF e(1) _ e(2)] by force
qed simp

lemma search_exact:
  "gist_keyed ok upon t \<Longrightarrow> set (gist_search test t) = {l \<in> set (gist_leaves t). test True l}"
  using search_complete search_sound by blast

lemma parent_keyed: "list_all (gist_keyed ok upon) ts \<Longrightarrow> gist_keyed ok upon (gist_parent un ts)"
  using keyed_keys union_ok union_above by (auto simp: gist_parent_def list_all_iff)

end

section \<open>The operator class\<close>

text \<open>
  The key a page gets in the page above it: the union of its keys, compressed.  It stands \<open>above\<close>
  them: it is a signature, and covers them.
\<close>

definition parent_key :: "pg_encoding \<Rightarrow> TRGM list \<Rightarrow> TRGM" where
  "parent_key e ks = (case gtrgm_compress e (TrgmKey (gtrgm_union ks)) of TrgmKey k \<Rightarrow> k | TextKey v \<Rightarrow> gtrgm_union ks)"

definition key_above :: "TRGM \<Rightarrow> TRGM \<Rightarrow> bool" where
  "key_above k l \<longleftrightarrow> covers k l \<and> \<not> ISARRKEY k"


definition sim_test :: "env \<Rightarrow> trgm list \<Rightarrow> bool \<Rightarrow> TRGM \<Rightarrow> bool" where
  "sim_test env qtrg leaf key = (consistent_test env leaf key qtrg SimilarityStrategyNumber = Inr (True, False))"

lemma union_loop_signature: "\<not> ISARRKEY (union_loop base ks)"
  by (induction base ks rule: union_loop.induct) (auto split: option.split)

lemma parent_key_covers:
  assumes "list_all key_ok ks"
  shows "key_ok (parent_key e ks)" "k \<in> set ks \<Longrightarrow> key_above (parent_key e ks) k"
proof -
  have u: "key_ok (gtrgm_union ks)" "\<forall>k \<in> set ks. covers (gtrgm_union ks) k"
    using gtrgm_union_covers_all [of ks] assms by (auto simp: list_all_iff)
  have c: "key_ok (parent_key e ks) \<and> (\<forall>t. key_has (parent_key e ks) t = key_has (gtrgm_union ks) t)"
    using compress_equiv [OF u(1), of e] by (auto simp: parent_key_def)
  have "\<not> ISARRKEY (gtrgm_union ks)" by (simp add: gtrgm_union_def union_loop_signature)
  then have "\<not> ISARRKEY (parent_key e ks)" by (cases "gtrgm_union ks") (auto simp: parent_key_def)
  then show "key_ok (parent_key e ks)" "k \<in> set ks \<Longrightarrow> key_above (parent_key e ks) k"
    using c u(2) by (auto simp: key_above_def covers_def)
qed







text \<open>
  The similarity strategy compares the \<open>double\<close> quotient of an inner page with the threshold, and on a
  leaf the \<open>float4\<close> similarity.  That is safe when the threshold is a \<open>float4\<close> number.
\<close>

lemma representable_mono: "representable p x \<Longrightarrow> p \<le> p' \<Longrightarrow> representable p' x"
proof -
  assume "representable p x" "p \<le> p'"
  then obtain m e where m: "x = of_int m * 2 powi e" "\<bar>m\<bar> \<le> 2 ^ p" by (auto simp: representable_def)
  have "(2 :: int) ^ p \<le> 2 ^ p'" using \<open>p \<le> p'\<close> by (intro power_increasing) simp_all
  then have "\<bar>m\<bar> \<le> 2 ^ p'" using m(2) by linarith
  then show "representable p' x" unfolding representable_def using m(1) by (intro exI [of _ m] exI [of _ e] conjI)
qed

lemma cnt_sml_sign_common_filter:
  "cnt_sml_sign_common q s = length (filter (key_has (SIGNKEY s)) q)"
proof (induction q)
  case (Cons t q)
  have "GETBIT s (hash_bit t) = 0 \<or> GETBIT s (hash_bit t) = 1" by (simp add: GETBIT_bit)
  then show ?case using Cons by (auto simp: cnt_sml_sign_common_def hash_bit_def)
qed (simp add: cnt_sml_sign_common_def)

lemma common_le_sign:
  assumes "covers (SIGNKEY s) (ARRKEY a)"
  shows "card (set a \<inter> set q) \<le> cnt_sml_sign_common q s"
proof -
  have "set a \<inter> set q \<subseteq> set (filter (key_has (SIGNKEY s)) q)" using assms by (auto simp: covers_def)
  then have "card (set a \<inter> set q) \<le> card (set (filter (key_has (SIGNKEY s)) q))" by (intro card_mono) simp_all
  also have "\<dots> \<le> length (filter (key_has (SIGNKEY s)) q)" by (rule card_length)
  finally show ?thesis by (simp add: cnt_sml_sign_common_filter)
qed

lemma overlap_le: "q \<noteq> [] \<Longrightarrow> overlap a q \<le> of_nat (card (set a \<inter> set q)) / of_nat (length q)"
  unfolding overlap_def by (intro divide_left_mono mult_pos_pos) (auto simp: less_max_iff_disj)

lemma sim_leaf_array:
  assumes "trgm_sorted q" "key_ok l" "0 \<le> x" "trgm_limit env = Num x" "sim_test env q True l"
  obtains a where "l = ARRKEY a" "q \<noteq> []" "x < rnd float4_bits (overlap a q)"
proof -
  have g: "cgt (cnt_sml (GETARR l) q) (Num x)"
    using assms(4,5) by (simp add: sim_test_def consistent_test_def)
  have srt: "trgm_sorted (GETARR l)" using assms(2) by (cases l) auto
  have ne: "GETARR l \<noteq> [] \<and> q \<noteq> []"
  proof (rule ccontr)
    assume "\<not> ?thesis"
    then have "overlap (GETARR l) q = 0" by (auto simp: overlap_def)
    then have "cnt_sml (GETARR l) q = NaN \<or> cnt_sml (GETARR l) q = Num 0"
      using cnt_sml_overlap [OF srt assms(1)] cnt_sml_empty by (cases "GETARR l = [] \<and> q = []") auto
    then show False using g assms(3) by auto
  qed
  then have "x < rnd float4_bits (overlap (GETARR l) q)" using cnt_sml_overlap [OF srt assms(1)] g by simp
  then show ?thesis using that ne by (cases l) auto
qed

lemma sim_leaf_up:
  assumes "trgm_sorted q" "0 \<le> x" "representable float4_bits x" "trgm_limit env = Num x"
    and "key_ok l" "key_above k l" "sim_test env q True l"
  shows "sim_test env q False k"
proof -
  obtain a where a: "l = ARRKEY a" "q \<noteq> []" "x < rnd float4_bits (overlap a q)"
    using sim_leaf_array [OF assms(1,5,2,4,7)] .
  have "x < overlap a q"
    using rnd_mono [of "overlap a q" x float4_bits] a(3) rnd_representable [OF _ assms(3)] by fastforce
  show ?thesis
  proof (cases k)
    case (SIGNKEY s)
    have "overlap a q \<le> of_nat (card (set a \<inter> set q)) / of_nat (length q)" by (rule overlap_le [OF a(2)])
    also have "\<dots> \<le> of_nat (cnt_sml_sign_common q s) / of_nat (length q)"
      using common_le_sign [of s a q] assms(6) a(1) SIGNKEY by (intro divide_right_mono) (simp_all add: key_above_def)
    finally have "x \<le> of_nat (cnt_sml_sign_common q s) / of_nat (length q)" using \<open>x < overlap a q\<close> by simp
    then have "rnd float8_bits x \<le> rnd float8_bits (of_nat (cnt_sml_sign_common q s) / of_nat (length q))"
      by (intro rnd_mono) simp_all
    moreover have "representable float8_bits x"
      using representable_mono [OF assms(3)] by simp
    ultimately show ?thesis using SIGNKEY a(2) assms(4) rnd_representable [of float8_bits x]
      by (simp add: sim_test_def consistent_test_def Let_def cdiv_def)
  qed (use assms(6) in \<open>simp_all add: key_above_def sim_test_def consistent_test_def\<close>)
qed

lemma sim_opclass:
  assumes "trgm_sorted q" "0 \<le> x" "representable float4_bits x" "trgm_limit env = Num x"
  shows "gist_opclass (sim_test env q) key_ok key_above (parent_key e)"
  by unfold_locales
    (use sim_leaf_up [OF assms] parent_key_covers in \<open>auto simp: key_above_def intro: covers_trans\<close>)


lemma half_limit: "set_limit None (Num (1 / 2)) = Inr (Some (sprintf_f (1 / 2)), Num (1 / 2))"
  and half_threshold: "trgm_limit (Some (sprintf_f (1 / 2))) = Num (1 / 2)"
proof -
  have "round_half_even (500000 :: rat) = 500000" by (rule round_half_even_unique; simp)
  moreover have r: "rnd p (1 / 2) = 1 / 2" if "0 < p" for p using rnd_exact [OF that, of 1 "-1"] by (simp add: power_int_minus)
  ultimately show t: "trgm_limit (Some (sprintf_f (1 / 2))) = Num (1 / 2)"
    using trgm_limit_after_set [of "1 / 2"] by simp
  then show "set_limit None (Num (1 / 2)) = Inr (Some (sprintf_f (1 / 2)), Num (1 / 2))"
    using r by (simp add: set_limit_def)
qed

lemma half_representable: "representable p (1 / 2)"
  unfolding representable_def by (rule exI [of _ 1], rule exI [of _ "- 1"]) (simp add: power_int_minus)

section \<open>Properties\<close>





text \<open>The index disagrees with the operator at the threshold itself: after \<open>set_limit(0.5)\<close>, \<open>'abc' % 'abd'\<close>
  holds, but no search of a GiST index returns the entry: the leaf test wants more than the threshold.\<close>

lemma gist_similarity_misses_equal:
  "\<exists>env. set_limit None (Num (1 / 2)) = Inr (env, Num (1 / 2)) \<and>
     similarity_op env PG_SQL_ASCII [0x61, 0x62, 0x63] [0x61, 0x62, 0x64] \<and>
     ARRKEY (generate_trgm PG_SQL_ASCII [0x61, 0x62, 0x63])
       \<notin> set (gist_search (sim_test env (generate_trgm PG_SQL_ASCII [0x61, 0x62, 0x64])) tree)"
proof (intro exI conjI)
  let ?env = "Some (sprintf_f (1 / 2))"
  have "alnum_words [0x61, 0x62, 0x63] = [[0x61, 0x62, 0x63]]" "alnum_words [0x61, 0x62, 0x64] = [[0x61, 0x62, 0x64]]"
    by (simp_all add: alnum_words.simps c_ctype_defs)
  then have t: "text_trigrams [0x61, 0x62, 0x63] =
      {(0x20, 0x20, 0x61), (0x20, 0x61, 0x62), (0x61, 0x62, 0x63), (0x62, 0x63, 0x20)}"
    "text_trigrams [0x61, 0x62, 0x64] =
      {(0x20, 0x20, 0x61), (0x20, 0x61, 0x62), (0x61, 0x62, 0x64), (0x62, 0x64, 0x20)}"
    by (simp_all add: text_trigrams_def trigram_eval)
  have r: "rnd float4_bits (1 / 2) = 1 / 2" using rnd_representable [OF _ half_representable] by simp
  have sim: "similarity PG_SQL_ASCII [0x61, 0x62, 0x63] [0x61, 0x62, 0x64] = Num (1 / 2)"
    using similarity_ascii [OF t] by (simp add: r)
  show "set_limit None (Num (1 / 2)) = Inr (?env, Num (1 / 2))" by (rule half_limit)
  show "similarity_op ?env PG_SQL_ASCII [0x61, 0x62, 0x63] [0x61, 0x62, 0x64]"
    unfolding similarity_op_def sim half_threshold by simp
  have "\<not> sim_test ?env (generate_trgm PG_SQL_ASCII [0x61, 0x62, 0x64]) True (ARRKEY (generate_trgm PG_SQL_ASCII [0x61, 0x62, 0x63]))"
    using sim half_threshold by (simp add: sim_test_def consistent_test_def similarity_def)
  then show "ARRKEY (generate_trgm PG_SQL_ASCII [0x61, 0x62, 0x63])
       \<notin> set (gist_search (sim_test ?env (generate_trgm PG_SQL_ASCII [0x61, 0x62, 0x64])) tree)"
    using gist_opclass.search_sound [OF sim_opclass [OF generate_trgm_sorted _ half_representable half_threshold]] by fastforce
qed

end
