(* ===== verification/TrgmGistSplit.thy ===== *)
theory TrgmGistSplit
  imports TrgmGistSearch
begin

text \<open>
  The rest of the GiST operator class: what a page split promises with three entries or more and what it does with
  two, the Hamming distances behind it, the query caches of the consistency and the distance function, and the form of keys.
\<close>

section \<open>Splitting\<close>

text \<open>A side of the split: its members are covered by its datum, and so is the seed it started from.\<close>

definition side_ok :: "(nat \<Rightarrow> TRGM) \<Rightarrow> TRGM \<Rightarrow> nat list \<Rightarrow> TRGM \<Rightarrow> bool" where
  "side_ok key seed js datum \<longleftrightarrow> key_above datum seed \<and> (\<forall>j \<in> set js. key_above datum (key j))"

lemma makesign_covers: "covers (SIGNKEY (makesign a)) (ARRKEY a)"
  by (auto simp: covers_def makesign_bit)

lemma seed_datum_above: "key_above (seed_datum (fillcache k)) k"
  by (cases k) (simp_all add: key_above_def seed_datum_def makesign_covers)

lemma key_above_trans: "key_above k l \<Longrightarrow> key_above l m \<Longrightarrow> key_above k m"
  by (auto simp: key_above_def intro: covers_trans)

lemma ff_covers: "covers (SIGNKEY (replicate SIGLEN 0xff)) k"
proof -
  have "GETBIT (replicate SIGLEN 0xff) j = 1" if "j < 8 * SIGLEN" for j
  proof -
    have "bit (mask 8 :: byte) (j mod 8)" by (simp add: bit_mask_iff)
    then have "bit (0xff :: byte) (j mod 8)" by (simp add: mask_eq_exp_minus_1)
    moreover have "j div 8 < SIGLEN" using that by simp
    ultimately show ?thesis by (simp add: GETBIT_bit GETBYTE_def)
  qed
  then show ?thesis by (simp add: covers_def)
qed

lemma or_bytes_above:
  "covers (SIGNKEY (or_bytes a b)) (SIGNKEY a)" "covers (SIGNKEY (or_bytes a b)) (SIGNKEY b)"
  by (simp_all add: covers_def or_bytes_bit)

lemma split_add_above:
  assumes "\<not> ISARRKEY datum"
  shows "key_above (split_add c datum) datum \<and> key_above (split_add c datum) (seed_datum c)"
proof (cases datum)
  case (SIGNKEY s)
  then show ?thesis
    by (cases "allistrue c") (simp_all add: split_add_def key_above_def seed_datum_def ff_covers or_bytes_above)
qed (use assms in \<open>simp_all add: split_add_def key_above_def\<close>)

lemma side_ok_add:
  assumes "side_ok key seed js datum"
  shows "side_ok key seed (js @ [j]) (split_add (fillcache (key j)) datum)"
proof -
  have "\<not> ISARRKEY datum" using assms by (simp add: side_ok_def key_above_def)
  note a = split_add_above [OF this, of "fillcache (key j)", THEN conjunct1]
    split_add_above [OF this, of "fillcache (key j)", THEN conjunct2]
  have "key_above (split_add (fillcache (key j)) datum) (key j)" by (rule key_above_trans [OF a(2) seed_datum_above])
  then show ?thesis using assms key_above_trans [OF a(1)] by (auto simp: side_ok_def)
qed

definition split_ok :: "(nat \<Rightarrow> TRGM) \<Rightarrow> nat \<times> nat \<Rightarrow> nat list \<Rightarrow> GIST_SPLITVEC \<Rightarrow> bool" where
  "split_ok key seeds js v \<longleftrightarrow>
     mset (spl_left v @ spl_right v) = mset js \<and>
     side_ok key (key (fst seeds)) (spl_left v) (spl_ldatum v) \<and>
     side_ok key (key (snd seeds)) (spl_right v) (spl_rdatum v) \<and>
     (fst seeds \<in> set js \<longrightarrow> fst seeds \<in> set (spl_left v)) \<and>
     (snd seeds \<in> set js \<longrightarrow> snd seeds \<noteq> fst seeds \<longrightarrow> snd seeds \<in> set (spl_right v))"

lemma split_step_ok:
  assumes "split_ok key seeds js v"
  shows "split_ok key seeds (js @ [j]) (split_step past (\<lambda>j. fillcache (key j)) seeds v j)"
proof -
  have s: "side_ok key (key (fst seeds)) (spl_left v) (spl_ldatum v)"
    "side_ok key (key (snd seeds)) (spl_right v) (spl_rdatum v)" using assms by (simp_all add: split_ok_def)
  consider "j = fst seeds" | "j \<noteq> fst seeds" "j = snd seeds" | "j \<noteq> fst seeds" "j \<noteq> snd seeds" by blast
  then show ?thesis
  proof cases
    case 1
    then show ?thesis using assms by (auto simp: split_step_def split_ok_def side_ok_def)
  next
    case 2
    then show ?thesis using assms by (auto simp: split_step_def split_ok_def side_ok_def)
  next
    case 3
    then show ?thesis using assms side_ok_add [OF s(1), of j] side_ok_add [OF s(2), of j]
      by (auto simp: split_step_def split_ok_def Let_def)
  qed
qed

lemma split_foldl_ok:
  "split_ok key seeds js v \<Longrightarrow>
   split_ok key seeds (js @ ks) (foldl (split_step past (\<lambda>j. fillcache (key j)) seeds) v ks)"
proof (induction ks arbitrary: js v)
  case (Cons k ks)
  show ?case using Cons.IH [OF split_step_ok [OF Cons.prems, of k past]] by simp
qed simp

lemma comparecost_ok: "cmp_ok comparecost"
  by (auto simp: cmp_ok_def comparecost_def split: if_splits)

lemma find_seeds_in: "find_seeds cache ps w s \<in> set ps \<union> {s}"
  by (induction cache ps w s rule: find_seeds.induct) (auto simp: Let_def)

lemma choose_seeds_range:
  assumes "choose_seeds cache m = (s1, s2)" "2 \<le> m"
  shows "1 \<le> s1 \<and> s1 < s2 \<and> s2 \<le> m"
proof -
  have "find_seeds cache (seed_pairs m) (- 1) (0, 0) \<in> set (seed_pairs m) \<union> {(0, 0)}" by (rule find_seeds_in)
  then show ?thesis using assms by (auto simp: choose_seeds_def seed_pairs_def split: if_splits prod.splits)
qed

lemma cost_order:
  assumes "\<And>j. pos (f j) = j"
  shows "mset (map pos (pg_qsort comparecost (map f js))) = mset js"
proof -
  have "mset (map pos (pg_qsort comparecost (map f js))) = image_mset pos (mset (map f js))"
    by (simp only: mset_map pgq.srt_mset [OF comparecost_ok])
  then show ?thesis by (simp add: multiset.map_comp comp_def assms)
qed

lemma split_step_cong: "cache j = cache' j \<Longrightarrow> split_step past cache seeds v j = split_step past cache' seeds v j"
  by (simp add: split_step_def split_size_def Let_def)

text \<open>With three entries or more the seeds are filled when their keys are formed, and all entries are in the loop.\<close>

lemma picksplit_eval:
  assumes n: "4 \<le> length entryvec"
  shows "\<exists>s1 s2 js. 1 \<le> s1 \<and> s1 < s2 \<and> s2 < length entryvec \<and> mset js = mset [1..<length entryvec] \<and>
    gtrgm_picksplit past fresh entryvec =
      foldl (split_step past (\<lambda>j. fillcache (entryvec ! j)) (s1, s2))
        \<lparr>spl_left = [], spl_right = [], spl_ldatum = seed_datum (fillcache (entryvec ! s1)),
         spl_rdatum = seed_datum (fillcache (entryvec ! s2))\<rparr> js"
proof -
  let ?m = "length entryvec - 2"
  let ?c = "fill_pairs fresh entryvec ?m"
  let ?d = "?c(Suc ?m := fillcache (entryvec ! Suc ?m))"
  obtain s1 s2 where s: "choose_seeds ?c ?m = (s1, s2)" by (cases "choose_seeds ?c ?m")
  have r: "1 \<le> s1" "s1 < s2" "s2 \<le> ?m" using choose_seeds_range [OF s] n by auto
  have m: "Suc (Suc ?m) = length entryvec" using n by simp
  have seeds: "?c s1 = fillcache (entryvec ! s1)" "?c s2 = fillcache (entryvec ! s2)" using r by (auto simp: fill_pairs_def)
  have d: "?d j = fillcache (entryvec ! j)" if "j \<in> set [1..<length entryvec]" for j
    using that n by (auto simp: fill_pairs_def)
  let ?cost = "\<lambda>j. \<lparr>pos = j, cost = \<bar>hemdistcache (?d s1) (?d j) - hemdistcache (?d s2) (?d j)\<bar>\<rparr>"
  define js where "js = map pos (pg_qsort comparecost (map ?cost [1..<length entryvec]))"
  have js: "mset js = mset [1..<length entryvec]" unfolding js_def by (rule cost_order) simp
  then have "set js = set [1..<length entryvec]" by (rule mset_eq_setD)
  then have "foldl (split_step past ?d (s1, s2)) v js = foldl (split_step past (\<lambda>j. fillcache (entryvec ! j)) (s1, s2)) v js" for v
    by (intro foldl_cong split_step_cong d) auto
  moreover have "gtrgm_picksplit past fresh entryvec = foldl (split_step past ?d (s1, s2))
      \<lparr>spl_left = [], spl_right = [], spl_ldatum = seed_datum (?c s1), spl_rdatum = seed_datum (?c s2)\<rparr> js"
    unfolding gtrgm_picksplit_def Let_def s fst_conv snd_conv js_def m ..
  ultimately show ?thesis using r n js unfolding seeds by (intro exI [of _ s1] exI [of _ s2] exI [of _ js]) simp
qed

lemma picksplit_ok:
  assumes n: "4 \<le> length entryvec"
  shows "\<exists>seeds js. fst seeds \<noteq> snd seeds \<and> fst seeds \<in> set js \<and> snd seeds \<in> set js \<and>
    mset js = mset [1..<length entryvec] \<and> split_ok (\<lambda>j. entryvec ! j) seeds js (gtrgm_picksplit past fresh entryvec)"
proof -
  let ?key = "\<lambda>j. entryvec ! j"
  obtain s1 s2 js where r: "1 \<le> s1" "s1 < s2" "s2 < length entryvec" and js: "mset js = mset [1..<length entryvec]"
    and eq: "gtrgm_picksplit past fresh entryvec = foldl (split_step past (\<lambda>j. fillcache (?key j)) (s1, s2))
        \<lparr>spl_left = [], spl_right = [], spl_ldatum = seed_datum (fillcache (?key s1)), spl_rdatum = seed_datum (fillcache (?key s2))\<rparr> js"
    using picksplit_eval [OF n] by blast
  have "set js = set [1..<length entryvec]" using js by (rule mset_eq_setD)
  then have in_js: "s1 \<in> set js" "s2 \<in> set js" using r by auto
  have "split_ok ?key (s1, s2) [] \<lparr>spl_left = [], spl_right = [], spl_ldatum = seed_datum (fillcache (?key s1)),
      spl_rdatum = seed_datum (fillcache (?key s2))\<rparr>"
    by (simp add: split_ok_def side_ok_def seed_datum_above)
  from split_foldl_ok [OF this, of js past] show ?thesis
    unfolding eq using js in_js r by (intro exI [of _ "(s1, s2)"] exI [of _ js]) simp
qed

text \<open>With two entries there are no pairs: the seeds are 1 and 2, and the second is not filled yet.\<close>

lemma picksplit_two:
  assumes n: "length entryvec = 3"
  shows "gtrgm_picksplit past fresh entryvec =
    \<lparr>spl_left = [1], spl_right = [2], spl_ldatum = seed_datum (fillcache (entryvec ! 1)), spl_rdatum = seed_datum (fresh 2)\<rparr>"
proof -
  let ?c = "fill_pairs fresh entryvec 1"
  let ?d = "?c(2 := fillcache (entryvec ! 2))"
  let ?cost = "\<lambda>j. \<lparr>pos = j, cost = \<bar>hemdistcache (?d 1) (?d j) - hemdistcache (?d 2) (?d j)\<bar>\<rparr>"
  let ?v = "\<lparr>spl_left = [], spl_right = [], spl_ldatum = seed_datum (fillcache (entryvec ! 1)), spl_rdatum = seed_datum (fresh 2)\<rparr>"
  define js where "js = map pos (pg_qsort comparecost (map ?cost [1..<3]))"
  have "mset js = mset [1..<3]" unfolding js_def by (rule cost_order) simp
  also have "\<dots> = {#1, 2#}" by (simp add: numeral_eq_Suc)
  finally have m: "mset js = {#1, 2#}" .
  then have "length js = 2" by (metis size_mset size_add_mset size_empty numeral_2_eq_2)
  then obtain a b where ab: "js = [a, b]" by (auto simp: numeral_2_eq_2 length_Suc_conv)
  then have js: "js = [1, 2] \<or> js = [2, 1]" using m by (auto simp: add_eq_conv_ex)
  have s: "choose_seeds ?c 1 = (1, 2)" by (simp add: choose_seeds_def seed_pairs_def)
  have c: "?c 1 = fillcache (entryvec ! 1)" "?c 2 = fresh 2" by (simp_all add: fill_pairs_def)
  have len: "length entryvec - 2 = 1" "Suc 1 = (2 :: nat)" "Suc 2 = (3 :: nat)" using n by simp_all
  have "gtrgm_picksplit past fresh entryvec = foldl (split_step past ?d (1, 2)) ?v js"
    unfolding gtrgm_picksplit_def Let_def len s fst_conv snd_conv c js_def ..
  then show ?thesis using js by (auto simp: split_step_def)
qed

section \<open>Distances\<close>

text \<open>Summing over the bytes gives the bits of the whole signature.\<close>

lemma bits_of_bytes:
  assumes "\<And>i. i < n \<Longrightarrow> f i = card {b. b < 8 \<and> P i b}"
  shows "sum_list (map (\<lambda>i. int (f i)) [0..<n]) = int (card {j. j < 8 * n \<and> P (j div 8) (j mod 8)})"
  using assms
proof (induction n)
  case (Suc n)
  let ?A = "{j. j < 8 * n \<and> P (j div 8) (j mod 8)}" and ?B = "(\<lambda>b. 8 * n + b) ` {b. b < 8 \<and> P n b}"
  have "{j. j < 8 * Suc n \<and> P (j div 8) (j mod 8)} = ?A \<union> ?B"
  proof (intro set_eqI iffI)
    fix j assume j: "j \<in> {j. j < 8 * Suc n \<and> P (j div 8) (j mod 8)}"
    show "j \<in> ?A \<union> ?B"
    proof (cases "j < 8 * n")
      case False
      then have "j = 8 * n + (j - 8 * n)" "j - 8 * n < 8" using j by auto
      then obtain b where "j = 8 * n + b" "b < 8" by blast
      then show ?thesis using j by auto
    qed (use j in simp)
  qed auto
  moreover have "?A \<inter> ?B = {}" by auto
  moreover have "card ?B = f n" using Suc.prems by (simp add: card_image inj_on_def)
  ultimately have "card {j. j < 8 * Suc n \<and> P (j div 8) (j mod 8)} = card ?A + f n"
    by (simp add: card_Un_disjoint)
  then show ?case using Suc.IH Suc.prems by simp
qed simp

lemma GETBIT_neq: "GETBIT a j \<noteq> GETBIT b j \<longleftrightarrow> bit (a ! (j div 8) XOR b ! (j div 8)) (j mod 8)"
  by (auto simp: GETBIT_bit GETBYTE_def bit_xor_iff)

lemma hemdistsign_bits: "hemdistsign a b = int (card {j. j < 8 * SIGLEN \<and> GETBIT a j \<noteq> GETBIT b j})"
  unfolding hemdistsign_def GETBIT_neq
  by (rule bits_of_bytes) (simp add: number_of_ones_popcount popcount8_def)

lemma sizebitvec_bits: "sizebitvec s = int (card {j. j < 8 * SIGLEN \<and> GETBIT s j = 1})"
proof -
  have "{j. j < 8 * SIGLEN \<and> GETBIT s j = 1} = {j. j < 8 * SIGLEN \<and> bit (s ! (j div 8)) (j mod 8)}"
    by (auto simp: GETBIT_bit GETBYTE_def)
  then show ?thesis unfolding sizebitvec_def
    by (simp add: bits_of_bytes number_of_ones_popcount popcount8_def)
qed

lemma hemdistsign_triangle: "hemdistsign a c \<le> hemdistsign a b + hemdistsign b c"
proof -
  let ?D = "\<lambda>a b. {j. j < 8 * SIGLEN \<and> GETBIT a j \<noteq> GETBIT b j}"
  have "card (?D a c) \<le> card (?D a b \<union> ?D b c)" by (rule card_mono) auto
  also have "\<dots> \<le> card (?D a b) + card (?D b c)" by (rule card_Un_le)
  finally show ?thesis unfolding hemdistsign_bits by simp
qed

section \<open>The query caches\<close>

text \<open>
  The calls of a scan share the cache in \<open>fn_extra\<close>, which starts empty; an error ends the scan.  Calls may
  differ in anything: a rescan has another query, and the threshold may be changed between them.
\<close>

fun consistent_calls ::
  "pg_encoding \<Rightarrow> gist_cache \<Rightarrow> (env \<times> bool \<times> TRGM \<times> bytes \<times> nat) list \<Rightarrow> pg_error + (bool \<times> bool) list" where
  "consistent_calls e cache [] = Inr []"
| "consistent_calls e cache ((env, leaf, key, query, strategy) # calls) =
     (case gtrgm_consistent env e cache leaf key query strategy of
        Inl err \<Rightarrow> Inl err
      | Inr (r, cache') \<Rightarrow> map_sum id (Cons r) (consistent_calls e cache' calls))"

fun distance_calls ::
  "pg_encoding \<Rightarrow> (bytes \<times> trgm list) option \<Rightarrow> (bool \<times> TRGM \<times> bytes \<times> nat) list \<Rightarrow> pg_error + cfloat list" where
  "distance_calls e cache [] = Inr []"
| "distance_calls e cache ((leaf, key, query, strategy) # calls) =
     (case gtrgm_distance e cache leaf key query strategy of
        Inl err \<Rightarrow> Inl err
      | Inr (r, cache') \<Rightarrow> map_sum id (Cons r) (distance_calls e cache' calls))"

text \<open>Every call for itself, without a cache.\<close>

fun each_call :: "('c \<Rightarrow> 'e + 'r \<times> 's) \<Rightarrow> 'c list \<Rightarrow> 'e + 'r list" where
  "each_call f [] = Inr []"
| "each_call f (c # cs) = (case f c of Inl err \<Rightarrow> Inl err | Inr (r, _) \<Rightarrow> map_sum id (Cons r) (each_call f cs))"

definition cache_ok :: "pg_encoding \<Rightarrow> gist_cache \<Rightarrow> bool" where
  "cache_ok e cache \<longleftrightarrow> (\<forall>s q t. cache = Some (s, q, t) \<longrightarrow> query_trgm e q s = Inr t)"

lemma cached_query_ok:
  "cache_ok e cache \<Longrightarrow> map_sum id fst (cached_query e cache q s) = query_trgm e q s \<and>
     (\<forall>t cache'. cached_query e cache q s = Inr (t, cache') \<longrightarrow> cache_ok e cache')"
  by (auto simp: cached_query_def cache_ok_def split: option.splits sum.splits)

text \<open>The answer of a call with a cache that belongs to its key is that of a call without one.\<close>

lemma consistent_cached:
  assumes "cache_ok e cache"
  shows "map_sum id fst (gtrgm_consistent env e cache leaf key query strategy) =
      map_sum id fst (gtrgm_consistent env e None leaf key query strategy)"
    and "gtrgm_consistent env e cache leaf key query strategy = Inr (r, cache') \<Longrightarrow> cache_ok e cache'"
proof -
  have "map_sum id fst (gtrgm_consistent env e c leaf key query strategy)
      = (case query_trgm e query strategy of Inl err \<Rightarrow> Inl err
         | Inr qtrg \<Rightarrow> consistent_test env leaf key qtrg strategy)" if "cache_ok e c" for c
    using cached_query_ok [OF that, of query strategy] by (auto simp: gtrgm_consistent_def split: sum.splits prod.splits)
  from this [OF assms] this [of None]
  show "map_sum id fst (gtrgm_consistent env e cache leaf key query strategy) =
      map_sum id fst (gtrgm_consistent env e None leaf key query strategy)" by (simp add: cache_ok_def)
  show "gtrgm_consistent env e cache leaf key query strategy = Inr (r, cache') \<Longrightarrow> cache_ok e cache'"
    using cached_query_ok [OF assms, of query strategy] by (auto simp: gtrgm_consistent_def split: sum.splits prod.splits)
qed

lemma consistent_calls_cached:
  "cache_ok e cache \<Longrightarrow> consistent_calls e cache calls =
     each_call (\<lambda>(env, leaf, key, query, strategy). gtrgm_consistent env e None leaf key query strategy) calls"
proof (induction calls arbitrary: cache)
  case (Cons c calls)
  obtain env leaf key query strategy where c: "c = (env, leaf, key, query, strategy)" by (cases c)
  note k = consistent_cached [OF Cons.prems, of env leaf key query strategy]
  show ?case
  proof (cases "gtrgm_consistent env e cache leaf key query strategy")
    case (Inl err)
    then show ?thesis using k(1) by (cases "gtrgm_consistent env e None leaf key query strategy") (simp_all add: c)
  next
    case (Inr x)
    obtain r cache' where x: "x = (r, cache')" by (cases x)
    have "cache_ok e cache'" using k(2) Inr x by blast
    then have IH: "consistent_calls e cache' calls =
        each_call (\<lambda>(env, leaf, key, query, strategy). gtrgm_consistent env e None leaf key query strategy) calls" by (rule Cons.IH)
    show ?thesis using k(1) Inr x IH by (cases "gtrgm_consistent env e None leaf key query strategy") (auto simp: c)
  qed
qed simp

lemma distance_cached:
  assumes "\<forall>q t. cache = Some (q, t) \<longrightarrow> t = generate_trgm e q"
  shows "gtrgm_distance e cache leaf key query strategy = gtrgm_distance e None leaf key query strategy"
    and "gtrgm_distance e cache leaf key query strategy = Inr (r, cache') \<Longrightarrow> cache' = Some (query, generate_trgm e query)"
proof -
  have t: "(case cache of Some (q, t) \<Rightarrow> if q = query then t else generate_trgm e query | None \<Rightarrow> generate_trgm e query)
      = generate_trgm e query" using assms by (auto split: option.split)
  show "gtrgm_distance e cache leaf key query strategy = gtrgm_distance e None leaf key query strategy"
    unfolding gtrgm_distance_def t by simp
  show "gtrgm_distance e cache leaf key query strategy = Inr (r, cache') \<Longrightarrow> cache' = Some (query, generate_trgm e query)"
    unfolding gtrgm_distance_def t by (auto simp: Let_def split: if_splits)
qed

lemma distance_calls_cached:
  "\<forall>q t. cache = Some (q, t) \<longrightarrow> t = generate_trgm e q \<Longrightarrow>
   distance_calls e cache calls = each_call (\<lambda>(leaf, key, query, strategy). gtrgm_distance e None leaf key query strategy) calls"
proof (induction calls arbitrary: cache)
  case (Cons c calls)
  obtain leaf key query strategy where c: "c = (leaf, key, query, strategy)" by (cases c)
  note k = distance_cached [OF Cons.prems, of leaf key query strategy]
  show ?case
  proof (cases "gtrgm_distance e cache leaf key query strategy")
    case (Inl err)
    then show ?thesis using k(1) by (simp add: c)
  next
    case (Inr x)
    obtain r cache' where x: "x = (r, cache')" by (cases x)
    then have "cache' = Some (query, generate_trgm e query)" using k(2) Inr by blast
    then have "distance_calls e cache' calls = each_call (\<lambda>(leaf, key, query, strategy). gtrgm_distance e None leaf key query strategy) calls"
      by (intro Cons.IH) simp
    moreover have "gtrgm_distance e None leaf key query strategy = Inr (r, cache')" using k(1) Inr x by simp
    ultimately show ?thesis using Inr x by (simp add: c)
  qed
qed simp

section \<open>Properties\<close>

text \<open>C14: \<open>picksplit\<close> puts every entry of a page with at least three on exactly one side, leaves neither side
  empty, and gives each side a key that covers its members, whatever the bytes are that the split cost
  reads past a signature and whatever the memory of the cache held.\<close>

theorem picksplit_splits:
  assumes "4 \<le> length entryvec" and "v = gtrgm_picksplit past fresh entryvec"
  shows "mset (spl_left v) + mset (spl_right v) = mset [1..<length entryvec] \<and> spl_left v \<noteq> [] \<and> spl_right v \<noteq> [] \<and>
         (\<forall>j \<in> set (spl_left v). key_above (spl_ldatum v) (entryvec ! j)) \<and>
         (\<forall>j \<in> set (spl_right v). key_above (spl_rdatum v) (entryvec ! j))"
proof -
  obtain seeds js where s: "fst seeds \<noteq> snd seeds" "fst seeds \<in> set js" "snd seeds \<in> set js"
    "mset js = mset [1..<length entryvec]" "split_ok (\<lambda>j. entryvec ! j) seeds js v"
    using picksplit_ok [OF assms(1)] assms(2) by blast
  then have "fst seeds \<in> set (spl_left v)" "snd seeds \<in> set (spl_right v)" by (simp_all add: split_ok_def)
  then have "spl_left v \<noteq> []" "spl_right v \<noteq> []" by auto
  then show ?thesis using s(4,5) by (simp add: split_ok_def side_ok_def)
qed

theorem picksplit_splits_witness:
  "spl_left (gtrgm_picksplit (\<lambda>_. []) (\<lambda>_. undefined) [ALLISTRUE, ARRKEY [], ARRKEY [(1, 2, 3)], SIGNKEY (replicate SIGLEN 0)]) \<noteq> []"
  using picksplit_splits [of "[ALLISTRUE, ARRKEY [], ARRKEY [(1, 2, 3)], SIGNKEY (replicate SIGLEN 0)]" _ "\<lambda>_. []" "\<lambda>_. undefined"]
  by simp

text \<open>A page with two entries is split into one entry each, and the key of the right side is made from a cache
  entry that is filled only afterwards: it is what \<open>palloc\<close> left in memory, whatever the second entry is, so
  nothing makes it cover that entry, and a search can lose its row.\<close>

lemma picksplit_two_uninitialised:
  assumes "length entryvec = 3" and "v = gtrgm_picksplit past fresh entryvec"
  shows "spl_left v = [1] \<and> spl_right v = [2] \<and> key_above (spl_ldatum v) (entryvec ! 1) \<and> spl_rdatum v = seed_datum (fresh 2)"
  using picksplit_two [OF assms(1), of past fresh] assms(2) by (simp add: seed_datum_above)

lemma picksplit_two_uninitialised_witness:
  "\<not> key_above (spl_rdatum (gtrgm_picksplit (\<lambda>_. []) (\<lambda>_. \<lparr>allistrue = False, sign = replicate SIGLEN 0\<rparr>)
       [ALLISTRUE, ARRKEY [], ARRKEY [(1, 2, 3)]])) (ARRKEY [(1, 2, 3)])"
proof -
  have "hash_bit (1, 2, 3) div 8 < SIGLEN" using hash_bit_bound(2) [of "(1, 2, 3)"] by (simp add: SIGLEN_def)
  then have "\<not> key_has (SIGNKEY (replicate SIGLEN 0)) (1, 2, 3)" by (simp add: GETBIT_bit GETBYTE_def)
  moreover have "key_has (ARRKEY [(1, 2, 3)]) (1, 2, 3)" by simp
  ultimately have "\<not> covers (SIGNKEY (replicate SIGLEN 0)) (ARRKEY [(1, 2, 3)])" unfolding covers_def by blast
  then show ?thesis
    using picksplit_two_uninitialised [of "[ALLISTRUE, ARRKEY [], ARRKEY [(1, 2, 3)]]" _ "\<lambda>_. []"
        "\<lambda>_. \<lparr>allistrue = False, sign = replicate SIGLEN 0\<rparr>"]
    by (simp add: seed_datum_def key_above_def)
qed

text \<open>\<open>hemdistsign\<close>, which adds table entries for the bytes of the exclusive or, is the number of bits in
  which two signatures differ, \<open>sizebitvec\<close> the number of bits that are set; so the distance is a
  pseudometric.\<close>

lemma hemdistsign_counts_bits:
  "hemdistsign a b = int (card {j. j < 8 * SIGLEN \<and> GETBIT a j \<noteq> GETBIT b j}) \<and>
   sizebitvec a = int (card {j. j < 8 * SIGLEN \<and> GETBIT a j = 1}) \<and>
   hemdistsign a b = hemdistsign b a \<and> hemdistsign a c \<le> hemdistsign a b + hemdistsign b c"
proof -
  have "{j. j < 8 * SIGLEN \<and> GETBIT a j \<noteq> GETBIT b j} = {j. j < 8 * SIGLEN \<and> GETBIT b j \<noteq> GETBIT a j}" by auto
  then show ?thesis using hemdistsign_triangle [of a c b] by (simp add: hemdistsign_bits sizebitvec_bits)
qed

text \<open>C38: the query caches are transparent: over any sequence of calls, with whatever queries, strategies, keys
  and thresholds follow each other, \<open>gtrgm_consistent\<close> and \<open>gtrgm_distance\<close> answer, or fail, with the cache they
  pass from call to call as they do when every call is made without one.\<close>

theorem query_caches_transparent:
  "consistent_calls e None calls =
     each_call (\<lambda>(env, leaf, key, query, strategy). gtrgm_consistent env e None leaf key query strategy) calls \<and>
   distance_calls e None dcalls =
     each_call (\<lambda>(leaf, key, query, strategy). gtrgm_distance e None leaf key query strategy) dcalls"
  using consistent_calls_cached [of e None calls] distance_calls_cached [of None e dcalls] by (simp add: cache_ok_def)

section \<open>Keys keep their form\<close>

definition page_key :: "TRGM \<Rightarrow> bool" where
  "page_key k \<longleftrightarrow> key_ok k \<and> \<not> ISARRKEY k"

lemma seed_datum_page: "key_ok k \<Longrightarrow> page_key (seed_datum (fillcache k))"
  by (cases k) (simp_all add: page_key_def seed_datum_def makesign_length)

lemma split_add_page: "page_key datum \<Longrightarrow> page_key (split_add c datum)"
  by (cases datum) (simp_all add: page_key_def split_add_def)

lemma split_step_page:
  "page_key (spl_ldatum v) \<and> page_key (spl_rdatum v) \<Longrightarrow>
   page_key (spl_ldatum (split_step past cache seeds v j)) \<and> page_key (spl_rdatum (split_step past cache seeds v j))"
  by (simp add: split_step_def split_add_page Let_def)

lemma split_foldl_page:
  "page_key (spl_ldatum v) \<and> page_key (spl_rdatum v) \<Longrightarrow>
   page_key (spl_ldatum (foldl (split_step past cache seeds) v js)) \<and> page_key (spl_rdatum (foldl (split_step past cache seeds) v js))"
  by (induction js arbitrary: v) (simp_all add: split_step_page)

lemma picksplit_page:
  assumes "\<forall>k \<in> set entryvec. key_ok k" "4 \<le> length entryvec"
  shows "page_key (spl_ldatum (gtrgm_picksplit past fresh entryvec)) \<and> page_key (spl_rdatum (gtrgm_picksplit past fresh entryvec))"
proof -
  obtain s1 s2 js where r: "s1 < s2" "s2 < length entryvec"
    and eq: "gtrgm_picksplit past fresh entryvec = foldl (split_step past (\<lambda>j. fillcache (entryvec ! j)) (s1, s2))
        \<lparr>spl_left = [], spl_right = [], spl_ldatum = seed_datum (fillcache (entryvec ! s1)),
         spl_rdatum = seed_datum (fillcache (entryvec ! s2))\<rparr> js"
    using picksplit_eval [OF assms(2)] by blast
  then have "page_key (seed_datum (fillcache (entryvec ! s1)))" "page_key (seed_datum (fillcache (entryvec ! s2)))"
    using assms(1) seed_datum_page by simp_all
  then show ?thesis unfolding eq by (intro split_foldl_page) simp
qed

text \<open>C39: The support functions keep keys in their form: the key of an indexed text is a sorted array without duplicates; from keys
  that are sorted arrays or signatures of full length or all true, \<open>compress\<close>, \<open>union\<close> and \<open>picksplit\<close> make such keys again, and
  \<open>union\<close> and \<open>picksplit\<close> of a page with at least three entries, whose keys go above the leaves, never make an array.\<close>

theorem gist_keys_typed:
  assumes "\<forall>k \<in> set ks. key_ok k"
  shows "(\<exists>a. gtrgm_compress e (TextKey text) = TrgmKey (ARRKEY a) \<and> key_ok (ARRKEY a)) \<and>
    (\<forall>k \<in> set ks. \<exists>k'. gtrgm_compress e (TrgmKey k) = TrgmKey k' \<and> key_ok k') \<and> page_key (gtrgm_union ks) \<and>
    (4 \<le> length ks \<longrightarrow> page_key (spl_ldatum (gtrgm_picksplit past fresh ks)) \<and> page_key (spl_rdatum (gtrgm_picksplit past fresh ks)))"
proof -
  have "key_ok (ARRKEY (generate_trgm e text))" by (simp add: generate_trgm_sorted)
  moreover have "\<forall>k \<in> set ks. \<exists>k'. gtrgm_compress e (TrgmKey k) = TrgmKey k' \<and> key_ok k'" using assms compress_equiv by blast
  moreover have "page_key (gtrgm_union ks)" using gtrgm_union_covers_all [OF assms] by (simp add: page_key_def gtrgm_union_def union_loop_signature)
  ultimately show ?thesis using picksplit_page [OF assms] by simp
qed

theorem gist_keys_typed_witness:
  "page_key (spl_rdatum (gtrgm_picksplit (\<lambda>_. []) (\<lambda>_. undefined) [ALLISTRUE, ARRKEY [(1, 2, 3)], SIGNKEY (replicate SIGLEN 0), ARRKEY []]))"
  using gist_keys_typed [of "[ALLISTRUE, ARRKEY [(1, 2, 3)], SIGNKEY (replicate SIGLEN 0), ARRKEY []]" PG_UTF8 "[]" "\<lambda>_. []" "\<lambda>_. undefined"]
  by simp

end
