(* ===== verification/SimIndex.thy ===== *)
theory SimIndex
  imports TrgmOp
begin

text \<open>
  The in-memory inverted index of the similarity join (executor/simjoinUtil.c, executor/simjoinUtil.h):
  entries are stored unordered, the index is finalised by sorting them, and then the entries of a
  trigram are reached by a binary search for the first and a step to the next.
\<close>

section \<open>Entries\<close>

text \<open>
  A \<open>MinimalTuple\<close> is known by its address; addresses of a process are 47 bits wide on the platform
  (x86-64).  The trigram an entry points to is its three bytes.
\<close>

type_synonym address = "47 word"

record WrappedMinimalTuple =
  numTrgms :: int
  minTuple :: address

record SimIndexEntry =
  entry_trgm :: trgm
  wMinTuple :: WrappedMinimalTuple

text \<open>\<open>entries\<close> holds the \<open>numEntries\<close> cells of the array that are in use.\<close>

record SimInvertedIndex =
  entries :: "SimIndexEntry list"
  finalized :: bool

abbreviation numEntries :: "SimInvertedIndex \<Rightarrow> nat" where
  "numEntries index \<equiv> length (entries index)"

definition NULL_ENTRY_ID :: int where "NULL_ENTRY_ID = - 1"

definition GET_TRGM :: "SimInvertedIndex \<Rightarrow> int \<Rightarrow> trgm option" where
  "GET_TRGM index entryId = (if entryId \<ge> 0 then Some (entry_trgm (entries index ! nat entryId)) else None)"

definition GET_TUP :: "SimInvertedIndex \<Rightarrow> int \<Rightarrow> address option" where
  "GET_TUP index entryId = (if entryId \<ge> 0 then Some (minTuple (wMinTuple (entries index ! nat entryId))) else None)"

definition GET_NTRGMS :: "SimInvertedIndex \<Rightarrow> int \<Rightarrow> int" where
  "GET_NTRGMS index entryId = (if entryId \<ge> 0 then numTrgms (wMinTuple (entries index ! nat entryId)) else - 1)"

section \<open>Building\<close>

text \<open>The array has room for 50000 entries; storing beyond it is undefined, which the model reports.\<close>

definition max_entries :: nat where "max_entries = 50000"

definition CreateSimInvertedIndex :: SimInvertedIndex where
  "CreateSimInvertedIndex = \<lparr>entries = [], finalized = False\<rparr>"

definition ExecStoreSimIndexEntry ::
  "SimInvertedIndex \<Rightarrow> trgm \<Rightarrow> address \<Rightarrow> int \<Rightarrow> pg_error + SimInvertedIndex" where
  "ExecStoreSimIndexEntry index t tup n =
     (if numEntries index < max_entries
      then Inr (index\<lparr>entries := entries index @ [\<lparr>entry_trgm = t, wMinTuple = \<lparr>numTrgms = n, minTuple = tup\<rparr>\<rparr>]\<rparr>)
      else Inl IndexOutOfBounds)"

definition cmptup :: "address \<Rightarrow> address \<Rightarrow> int" where
  "cmptup a b =
     (let x = (ucast a :: 64 word) - ucast b
      in if x = 0 then 0 else if sint x < 0 then - 1 else 1)"

definition cmpIndex :: "SimIndexEntry \<Rightarrow> SimIndexEntry \<Rightarrow> int" where
  "cmpIndex entryA entryB =
     (let cmp = CMPTRGM (entry_trgm entryA) (entry_trgm entryB)
      in if cmp \<noteq> 0 then cmp else cmptup (minTuple (wMinTuple entryA)) (minTuple (wMinTuple entryB)))"

definition ExecFinalizeSimInvertedIndex :: "SimInvertedIndex \<Rightarrow> SimInvertedIndex" where
  "ExecFinalizeSimInvertedIndex index =
     index\<lparr>entries := pg_qsort cmpIndex (entries index), finalized := True\<rparr>"

section \<open>Looking up\<close>

function scan_back :: "SimIndexEntry list \<Rightarrow> trgm \<Rightarrow> int \<Rightarrow> int" where
  "scan_back es t imid =
     (if imid \<ge> 0
      then if CMPTRGM t (entry_trgm (es ! nat imid)) \<noteq> 0 then imid + 1 else scan_back es t (imid - 1)
      else 0)"
  by pat_completeness auto
termination by (relation "measure (\<lambda>(es, t, imid). nat (imid + 1))") auto

function search_first :: "SimIndexEntry list \<Rightarrow> trgm \<Rightarrow> int \<Rightarrow> int \<Rightarrow> int" where
  "search_first es t imin imax =
     (if imax \<ge> imin
      then let imid = (imin + imax) div 2; cmp = CMPTRGM (entry_trgm (es ! nat imid)) t
           in if cmp < 0 then search_first es t (imid + 1) imax
              else if cmp > 0 then search_first es t imin (imid - 1)
              else scan_back es t imid
      else NULL_ENTRY_ID)"
  by pat_completeness auto
termination by (relation "measure (\<lambda>(es, t, imin, imax). nat (imax - imin + 1))") auto

declare scan_back.simps [simp del] search_first.simps [simp del]

definition ExecGetFirstEntryIdForTrigram :: "SimInvertedIndex \<Rightarrow> trgm \<Rightarrow> pg_error + int" where
  "ExecGetFirstEntryIdForTrigram index t =
     (if \<not> finalized index then Inl IndexNotFinalized
      else Inr (search_first (entries index) t 0 (int (numEntries index) - 1)))"

text \<open>\<open>CMPTRGM\<close> of a null pointer ends the process.\<close>

definition ExecGetNextEntryId :: "SimInvertedIndex \<Rightarrow> int \<Rightarrow> pg_error + int" where
  "ExecGetNextEntryId index currentEntryId =
     (if \<not> finalized index then Inl IndexNotFinalized
      else let nextEntryId = currentEntryId + 1
           in if currentEntryId + 1 < int (numEntries index)
              then (case (GET_TRGM index currentEntryId, GET_TRGM index nextEntryId) of
                      (Some a, Some b) \<Rightarrow> Inr (if CMPTRGM a b = 0 then nextEntryId else NULL_ENTRY_ID)
                    | _ \<Rightarrow> Inl NullPointer)
              else Inr NULL_ENTRY_ID)"

section \<open>Posting lists\<close>

text \<open>
  What a join needs of such an index: the positions with one key are consecutive, \<open>first\<close> finds the first
  of them and \<open>next\<close> goes through them.  \<open>postings\<close> is the loop of a client.
\<close>

fun postings :: "(int \<Rightarrow> 'e + int) \<Rightarrow> nat \<Rightarrow> int \<Rightarrow> 'e + int list" where
  "postings nxt n i =
     (if i < 0 then Inr []
      else case n of 0 \<Rightarrow> Inr [] | Suc m \<Rightarrow>
        (case nxt i of Inl err \<Rightarrow> Inl err
         | Inr j \<Rightarrow> (case postings nxt m j of Inl err \<Rightarrow> Inl err | Inr js \<Rightarrow> Inr (i # js))))"

declare postings.simps [simp del]

locale posting_index =
  fixes key :: "nat \<Rightarrow> 'k" and len :: nat and first :: "'k \<Rightarrow> 'e + int" and nxt :: "int \<Rightarrow> 'e + int"
  assumes grouped: "i \<le> j \<Longrightarrow> j \<le> l \<Longrightarrow> l < len \<Longrightarrow> key i = key l \<Longrightarrow> key j = key l"
    and first_none: "(\<And>j. j < len \<Longrightarrow> key j \<noteq> k) \<Longrightarrow> first k = Inr (- 1)"
    and first_some: "j < len \<Longrightarrow> key j = k \<Longrightarrow> (\<And>i. i < j \<Longrightarrow> key i \<noteq> k) \<Longrightarrow> first k = Inr (int j)"
    and next_same: "Suc j < len \<Longrightarrow> key (Suc j) = key j \<Longrightarrow> nxt (int j) = Inr (int (Suc j))"
    and next_other: "j < len \<Longrightarrow> Suc j = len \<or> key (Suc j) \<noteq> key j \<Longrightarrow> nxt (int j) = Inr (- 1)"
begin

definition run_from :: "'k \<Rightarrow> nat \<Rightarrow> int list" where
  "run_from k j = map int (filter (\<lambda>i. key i = k) [j..<len])"

lemma postings_from:
  "j < len \<Longrightarrow> key j = k \<Longrightarrow> len - j < n \<Longrightarrow> postings nxt n (int j) = Inr (run_from k j)"
proof (induction n arbitrary: j)
  case (Suc n)
  have up: "[j..<len] = j # [Suc j..<len]" using Suc.prems(1) by (simp add: upt_conv_Cons)
  show ?case
  proof (cases "Suc j < len \<and> key (Suc j) = key j")
    case True
    have "postings nxt n (int (Suc j)) = Inr (run_from k (Suc j))"
      using True Suc.prems by (intro Suc.IH) auto
    then show ?thesis
      using next_same [of j] True Suc.prems(2) up by (simp add: postings.simps [of nxt "Suc n"] run_from_def)
  next
    case False
    have "filter (\<lambda>i. key i = k) [Suc j..<len] = []"
    proof (rule ccontr)
      assume "filter (\<lambda>i. key i = k) [Suc j..<len] \<noteq> []"
      then obtain i where "Suc j \<le> i" "i < len" "key i = k" by (auto simp: filter_empty_conv)
      then have "Suc j < len" "key (Suc j) = key i" using grouped [of j "Suc j" i] Suc.prems(2) by auto
      then show False using False Suc.prems(2) \<open>key i = k\<close> by simp
    qed
    moreover have "nxt (int j) = Inr (- 1)" using next_other [OF Suc.prems(1)] False Suc.prems(1) by auto
    ultimately show ?thesis
      using up Suc.prems(2) by (simp add: postings.simps [of nxt "Suc n"] postings.simps [of nxt n "- 1"] run_from_def)
  qed
qed simp

lemma postings_all:
  "\<exists>i. first k = Inr i \<and> postings nxt (Suc len) i = Inr (map int (filter (\<lambda>i. key i = k) [0..<len]))"
proof (cases "\<exists>j < len. key j = k")
  case True
  define j where "j = (LEAST j. j < len \<and> key j = k)"
  have j: "j < len" "key j = k" using True LeastI_ex [of "\<lambda>j. j < len \<and> key j = k"] by (auto simp: j_def)
  have least: "key i \<noteq> k" if "i < j" for i
    using not_less_Least [of i "\<lambda>j. j < len \<and> key j = k"] that j(1) by (auto simp: j_def)
  have "[0..<len] = [0..<j] @ [j..<len]" using upt_add_eq_append [of 0 j "len - j"] j(1) by simp
  moreover have "filter (\<lambda>i. key i = k) [0..<j] = []" using least by (auto simp: filter_empty_conv)
  ultimately have "run_from k j = map int (filter (\<lambda>i. key i = k) [0..<len])" by (simp add: run_from_def)
  then show ?thesis using first_some [OF j least] postings_from [OF j, of "Suc len"] by auto
next
  case False
  then have "filter (\<lambda>i. key i = k) [0..<len] = []" by (auto simp: filter_empty_conv)
  then show ?thesis using first_none [of k] False by (auto simp: postings.simps)
qed

end

section \<open>The order of the entries\<close>

lemma address_bound: "uint (a :: address) < 2 ^ 47" "0 \<le> uint a"
  using unsigned_less [of a, where ?'a = int] by simp_all

lemma signed_difference:
  "x < (2 :: int) ^ 47 \<Longrightarrow> 0 \<le> x \<Longrightarrow> y < 2 ^ 47 \<Longrightarrow> 0 \<le> y \<Longrightarrow> sint (word_of_int (x - y) :: 64 word) = x - y"
  by (subst signed_of_int) (simp add: signed_take_bit_int_eq_self_iff)

lemma cmptup_diff: "sint ((ucast a :: 64 word) - ucast b) = uint (a :: address) - uint (b :: address)"
proof -
  have "(ucast a :: 64 word) - ucast b = word_of_int (uint a - uint b)" unfolding ucast_eq by simp
  then show ?thesis by (simp only: signed_difference [OF address_bound address_bound])
qed

lemma cmptup_eq: "(ucast a :: 64 word) - ucast b = 0 \<longleftrightarrow> uint (a :: address) = uint (b :: address)"
proof -
  have "(ucast a :: 64 word) - ucast b = 0 \<longleftrightarrow> sint ((ucast a :: 64 word) - ucast b) = 0"
    by (simp add: signed_eq_0_iff)
  then show ?thesis unfolding cmptup_diff by linarith
qed

lemma cmptup_order:
  "cmptup a b = (if uint a < uint b then - 1 else if uint a = uint b then 0 else 1)"
  unfolding cmptup_def Let_def cmptup_eq cmptup_diff by auto

definition entry_key :: "SimIndexEntry \<Rightarrow> int \<times> int" where
  "entry_key e = (trgm_key (entry_trgm e), uint (minTuple (wMinTuple e)))"

lemma cmpIndex_key:
  "cmpIndex a b < 0 \<longleftrightarrow> fst (entry_key a) < fst (entry_key b) \<or>
     fst (entry_key a) = fst (entry_key b) \<and> snd (entry_key a) < snd (entry_key b)"
  "cmpIndex a b \<le> 0 \<longleftrightarrow> fst (entry_key a) < fst (entry_key b) \<or>
     fst (entry_key a) = fst (entry_key b) \<and> snd (entry_key a) \<le> snd (entry_key b)"
  "cmpIndex a b > 0 \<longleftrightarrow> fst (entry_key b) < fst (entry_key a) \<or>
     fst (entry_key a) = fst (entry_key b) \<and> snd (entry_key b) < snd (entry_key a)"
  unfolding cmpIndex_def cmptup_order entry_key_def Let_def CMPTRGM_key fst_conv snd_conv by simp_all

lemma cmpIndex_ok: "cmp_ok cmpIndex"
proof (rule cmp_okI)
  show "cmpIndex a b < 0 \<longleftrightarrow> 0 < cmpIndex b a" for a b unfolding cmpIndex_key by auto
  show "cmpIndex a c \<le> 0" if "cmpIndex a b \<le> 0" "cmpIndex b c \<le> 0" for a b c
    using that unfolding cmpIndex_key by linarith
qed

section \<open>Searching\<close>

abbreviation key_at :: "SimIndexEntry list \<Rightarrow> nat \<Rightarrow> int" where
  "key_at es i \<equiv> trgm_key (entry_trgm (es ! i))"

definition keys_sorted :: "SimIndexEntry list \<Rightarrow> bool" where
  "keys_sorted es \<longleftrightarrow> (\<forall>i j. i \<le> j \<longrightarrow> j < length es \<longrightarrow> key_at es i \<le> key_at es j)"

lemma finalize_sorted: "keys_sorted (entries (ExecFinalizeSimInvertedIndex index))"
proof -
  let ?es = "pg_qsort cmpIndex (entries index)"
  have srt: "sorted_wrt (cmp_le cmpIndex) ?es" by (rule pgq.srt_sorted [OF cmpIndex_ok])
  have "key_at ?es i \<le> key_at ?es j" if "i \<le> j" "j < length ?es" for i j
  proof (cases "i = j")
    case False
    then have "cmpIndex (?es ! i) (?es ! j) \<le> 0" using srt that by (simp add: sorted_wrt_iff_nth_less)
    then show ?thesis unfolding cmpIndex_key entry_key_def fst_conv by linarith
  qed simp
  then show ?thesis by (simp add: ExecFinalizeSimInvertedIndex_def keys_sorted_def)
qed

lemma scan_back_first:
  "i < length es \<Longrightarrow> entry_trgm (es ! i) = t \<Longrightarrow> keys_sorted es \<Longrightarrow>
   \<exists>j \<le> i. scan_back es t (int i) = int j \<and> entry_trgm (es ! j) = t \<and> (\<forall>k < j. entry_trgm (es ! k) \<noteq> t)"
proof (induction i)
  case 0
  then show ?case by (simp add: scan_back.simps CMPTRGM_laws)
next
  case (Suc i)
  have step: "scan_back es t (int (Suc i)) = scan_back es t (int i)"
    using Suc.prems(2) by (subst scan_back.simps) (simp add: CMPTRGM_laws nat_add_distrib)
  show ?case
  proof (cases "entry_trgm (es ! i) = t")
    case True
    then obtain j where "j \<le> i" "scan_back es t (int i) = int j" "entry_trgm (es ! j) = t" "\<forall>k < j. entry_trgm (es ! k) \<noteq> t"
      using Suc by auto
    then show ?thesis using step by (intro exI [of _ j]) auto
  next
    case False
    have stop: "scan_back es t (int i) = int (Suc i)" using False by (subst scan_back.simps) (simp add: CMPTRGM_laws)
    have "entry_trgm (es ! k) \<noteq> t" if "k < Suc i" for k
    proof
      assume k: "entry_trgm (es ! k) = t"
      have "key_at es k \<le> key_at es i" "key_at es i \<le> key_at es (Suc i)"
        using Suc.prems(1,3) that by (auto simp: keys_sorted_def)
      then have "key_at es i = trgm_key t" using k Suc.prems(2) by simp
      then show False using False by (simp add: trgm_key_inj)
    qed
    then show ?thesis using step stop Suc.prems(2) by (intro exI [of _ "Suc i"]) auto
  qed
qed

text \<open>What the search returns: nothing if the trigram does not occur, else its first position.\<close>

definition first_result :: "SimIndexEntry list \<Rightarrow> trgm \<Rightarrow> int \<Rightarrow> bool" where
  "first_result es t r \<longleftrightarrow>
     r = - 1 \<and> (\<forall>i < length es. entry_trgm (es ! i) \<noteq> t) \<or>
     (\<exists>j < length es. r = int j \<and> entry_trgm (es ! j) = t \<and> (\<forall>k < j. entry_trgm (es ! k) \<noteq> t))"

definition hits_within :: "SimIndexEntry list \<Rightarrow> trgm \<Rightarrow> int \<Rightarrow> int \<Rightarrow> bool" where
  "hits_within es t imin imax \<longleftrightarrow> (\<forall>i < length es. entry_trgm (es ! i) = t \<longrightarrow> imin \<le> int i \<and> int i \<le> imax)"

lemma hits_up:
  assumes "keys_sorted es" "hits_within es t imin imax" "m < length es" "key_at es m < trgm_key t"
  shows "hits_within es t (int m + 1) imax"
  unfolding hits_within_def
proof (intro allI impI conjI)
  fix i assume i: "i < length es" "entry_trgm (es ! i) = t"
  have "i \<le> m \<Longrightarrow> key_at es i \<le> key_at es m" using assms(1,3) by (simp add: keys_sorted_def)
  then have "\<not> i \<le> m" using assms(4) i(2) by auto
  then show "int m + 1 \<le> int i" by simp
  show "int i \<le> imax" using assms(2) i by (simp add: hits_within_def)
qed

lemma hits_down:
  assumes "keys_sorted es" "hits_within es t imin imax" "m < length es" "trgm_key t < key_at es m"
  shows "hits_within es t imin (int m - 1)"
  unfolding hits_within_def
proof (intro allI impI conjI)
  fix i assume i: "i < length es" "entry_trgm (es ! i) = t"
  have "m \<le> i \<Longrightarrow> key_at es m \<le> key_at es i" using assms(1) i(1) by (simp add: keys_sorted_def)
  then have "\<not> m \<le> i" using assms(4) i(2) by auto
  then show "int i \<le> int m - 1" by simp
  show "imin \<le> int i" using assms(2) i by (simp add: hits_within_def)
qed

lemma search_first_correct:
  "keys_sorted es \<Longrightarrow> 0 \<le> imin \<Longrightarrow> imax < int (length es) \<Longrightarrow> hits_within es t imin imax \<Longrightarrow>
   first_result es t (search_first es t imin imax)"
proof (induction es t imin imax rule: search_first.induct)
  case (1 es t imin imax)
  show ?case
  proof (cases "imax \<ge> imin")
    case False
    then have "\<forall>i < length es. entry_trgm (es ! i) \<noteq> t" using 1(6) by (fastforce simp: hits_within_def)
    then show ?thesis using False by (simp add: search_first.simps NULL_ENTRY_ID_def first_result_def)
  next
    case True
    define m where "m = nat ((imin + imax) div 2)"
    have m: "(imin + imax) div 2 = int m" "m < length es" using True 1(4,5) by (auto simp: m_def)
    have b: "imin \<le> int m" "int m \<le> imax" using True m(1) by linarith+
    consider "key_at es m < trgm_key t" | "trgm_key t < key_at es m" | "entry_trgm (es ! m) = t"
      using trgm_key_inj [of "entry_trgm (es ! m)" t] by linarith
    then show ?thesis
    proof cases
      case less: 1
      have "search_first es t imin imax = search_first es t (int m + 1) imax"
        using True less by (subst search_first.simps) (simp add: m(1) CMPTRGM_key)
      moreover have "first_result es t (search_first es t ((imin + imax) div 2 + 1) imax)"
        using hits_up [OF 1(3,6) m(2) less] less 1(3-5) b
        by (intro 1(1) [OF True refl refl]) (simp_all add: m(1) CMPTRGM_key)
      ultimately show ?thesis by (simp add: m(1))
    next
      case greater: 2
      have "search_first es t imin imax = search_first es t imin (int m - 1)"
        using True greater by (subst search_first.simps) (simp add: m(1) CMPTRGM_key)
      moreover have "first_result es t (search_first es t imin ((imin + imax) div 2 - 1))"
        using hits_down [OF 1(3,6) m(2) greater] greater 1(3-5) b m(2)
        by (intro 1(2) [OF True refl refl]) (simp_all add: m(1) CMPTRGM_key)
      ultimately show ?thesis by (simp add: m(1))
    next
      case hit: 3
      have "search_first es t imin imax = scan_back es t (int m)"
        using True hit by (subst search_first.simps) (simp add: m(1) CMPTRGM_laws)
      then show ?thesis using scan_back_first [OF m(2) hit 1(3)] m(2)
        by (auto simp: first_result_def)
    qed
  qed
qed

section \<open>The index meets the contract\<close>

lemma get_first_result:
  "\<exists>r. ExecGetFirstEntryIdForTrigram (ExecFinalizeSimInvertedIndex index) t = Inr r \<and>
     first_result (entries (ExecFinalizeSimInvertedIndex index)) t r"
  using search_first_correct [OF finalize_sorted, of 0 "int (numEntries (ExecFinalizeSimInvertedIndex index)) - 1" index t]
  by (simp add: ExecGetFirstEntryIdForTrigram_def hits_within_def) (simp add: ExecFinalizeSimInvertedIndex_def)

lemma get_next:
  "ExecGetNextEntryId (ExecFinalizeSimInvertedIndex index) (int j) =
     Inr (if Suc j < numEntries (ExecFinalizeSimInvertedIndex index) \<and>
             entry_trgm (entries (ExecFinalizeSimInvertedIndex index) ! Suc j) = entry_trgm (entries (ExecFinalizeSimInvertedIndex index) ! j)
          then int (Suc j) else - 1)"
  by (auto simp: ExecGetNextEntryId_def ExecFinalizeSimInvertedIndex_def GET_TRGM_def CMPTRGM_laws NULL_ENTRY_ID_def
      nat_add_distrib Let_def)

lemma finalize_grouped:
  assumes "i \<le> j" "j \<le> l" "l < numEntries (ExecFinalizeSimInvertedIndex index)"
    and "entry_trgm (entries (ExecFinalizeSimInvertedIndex index) ! i) = entry_trgm (entries (ExecFinalizeSimInvertedIndex index) ! l)"
  shows "entry_trgm (entries (ExecFinalizeSimInvertedIndex index) ! j) = entry_trgm (entries (ExecFinalizeSimInvertedIndex index) ! l)"
proof -
  let ?es = "entries (ExecFinalizeSimInvertedIndex index)"
  have "key_at ?es i \<le> key_at ?es j" "key_at ?es j \<le> key_at ?es l"
    using finalize_sorted [of index] assms(1-3) by (auto simp: keys_sorted_def)
  then have "key_at ?es j = key_at ?es l" using assms(4) by simp
  then show ?thesis by (simp only: trgm_key_inj)
qed

interpretation simindex: posting_index
  "\<lambda>i. entry_trgm (entries (ExecFinalizeSimInvertedIndex index) ! i)"
  "numEntries (ExecFinalizeSimInvertedIndex index)"
  "ExecGetFirstEntryIdForTrigram (ExecFinalizeSimInvertedIndex index)"
  "ExecGetNextEntryId (ExecFinalizeSimInvertedIndex index)"
  for index
proof (unfold_locales, goal_cases)
  case (1 i j l) then show ?case by (rule finalize_grouped)
next
  case (2 k) then show ?case using get_first_result [of index k] by (auto simp: first_result_def)
next
  case (3 j k)
  then obtain r where r: "ExecGetFirstEntryIdForTrigram (ExecFinalizeSimInvertedIndex index) k = Inr r"
    "first_result (entries (ExecFinalizeSimInvertedIndex index)) k r" using get_first_result by blast
  then show ?case using 3 unfolding first_result_def by (metis linorder_neqE_nat)
next
  case (4 j) then show ?case by (simp add: get_next)
next
  case (5 j) then show ?case by (auto simp: get_next)
qed

section \<open>Building and reading an index\<close>

fun store_all :: "SimInvertedIndex \<Rightarrow> (trgm \<times> address \<times> int) list \<Rightarrow> pg_error + SimInvertedIndex" where
  "store_all index [] = Inr index"
| "store_all index ((t, tup, n) # xs) =
     (case ExecStoreSimIndexEntry index t tup n of Inl err \<Rightarrow> Inl err | Inr index' \<Rightarrow> store_all index' xs)"

definition entry_of :: "trgm \<times> address \<times> int \<Rightarrow> SimIndexEntry" where
  "entry_of x = (case x of (t, tup, n) \<Rightarrow> \<lparr>entry_trgm = t, wMinTuple = \<lparr>numTrgms = n, minTuple = tup\<rparr>\<rparr>)"

lemma store_all_result:
  "store_all index xs =
     (if xs = [] \<or> numEntries index + length xs \<le> max_entries
      then Inr (index\<lparr>entries := entries index @ map entry_of xs\<rparr>) else Inl IndexOutOfBounds)"
  by (induction index xs rule: store_all.induct) (auto simp: ExecStoreSimIndexEntry_def entry_of_def)

lemma filter_at: "map ((!) xs) (filter (\<lambda>i. P (xs ! i)) [0..<length xs]) = filter P xs"
proof -
  have "filter P xs = filter P (map ((!) xs) [0..<length xs])" by (simp only: map_nth)
  then show ?thesis by (simp only: filter_map comp_def)
qed

lemma sorted_by_tuple:
  assumes "\<forall>e \<in> set es. entry_trgm e = t" "sorted_wrt (cmp_le cmpIndex) es"
  shows "sorted (map (\<lambda>e. uint (minTuple (wMinTuple e))) es)"
  using assms by (induction es) (auto simp: cmpIndex_key entry_key_def)

section \<open>Properties\<close>

text \<open>C8: the index refines a multimap: after storing any entries the array has room for and finalising, the
  binary search and the steps from it yield exactly the entries of a trigram, in the order of the
  tuples' addresses, and nothing for a trigram that was not stored.\<close>

theorem simindex_postings:
  assumes "length xs \<le> max_entries"
  shows "\<exists>index i ids. store_all CreateSimInvertedIndex xs = Inr index \<and>
    ExecGetFirstEntryIdForTrigram (ExecFinalizeSimInvertedIndex index) t = Inr i \<and>
    postings (ExecGetNextEntryId (ExecFinalizeSimInvertedIndex index)) (Suc (length xs)) i = Inr ids \<and>
    mset (map (\<lambda>j. (GET_TUP (ExecFinalizeSimInvertedIndex index) j, GET_NTRGMS (ExecFinalizeSimInvertedIndex index) j)) ids)
      = mset (map (\<lambda>(t, tup, n). (Some tup, n)) (filter (\<lambda>(t', tup, n). t' = t) xs)) \<and>
    sorted (map (\<lambda>j. uint (the (GET_TUP (ExecFinalizeSimInvertedIndex index) j))) ids)"
proof -
  define index where "index = \<lparr>entries = map entry_of xs, finalized = False\<rparr>"
  let ?ix = "ExecFinalizeSimInvertedIndex index" and ?es = "pg_qsort cmpIndex (map entry_of xs)"
  have es: "entries ?ix = ?es" by (simp add: ExecFinalizeSimInvertedIndex_def index_def)
  have perm: "mset ?es = mset (map entry_of xs)" by (rule pgq.srt_mset [OF cmpIndex_ok])
  have len: "length ?es = length xs" using mset_eq_length [OF perm] by simp
  have st: "store_all CreateSimInvertedIndex xs = Inr index"
    using assms by (simp add: store_all_result CreateSimInvertedIndex_def index_def)
  obtain i where i: "ExecGetFirstEntryIdForTrigram ?ix t = Inr i"
    and p: "postings (ExecGetNextEntryId ?ix) (Suc (length ?es)) i
      = Inr (map int (filter (\<lambda>i. entry_trgm (?es ! i) = t) [0..<length ?es]))"
    using simindex.postings_all [of index t] unfolding es by blast
  let ?ids = "filter (\<lambda>i. entry_trgm (?es ! i) = t) [0..<length ?es]" and ?hits = "filter (\<lambda>e. entry_trgm e = t) ?es"
  have at: "map ((!) ?es) ?ids = ?hits" by (rule filter_at)
  have "map (\<lambda>j. (GET_TUP ?ix j, GET_NTRGMS ?ix j)) (map int ?ids)
      = map (\<lambda>e. (Some (minTuple (wMinTuple e)), numTrgms (wMinTuple e))) (map ((!) ?es) ?ids)"
    by (simp add: GET_TUP_def GET_NTRGMS_def es)
  also have "mset \<dots> = mset (map (\<lambda>e. (Some (minTuple (wMinTuple e)), numTrgms (wMinTuple e)))
      (filter (\<lambda>e. entry_trgm e = t) (map entry_of xs)))"
    unfolding at by (simp only: mset_map mset_filter perm)
  also have "\<dots> = mset (map (\<lambda>(t, tup, n). (Some tup, n)) (filter (\<lambda>(t', tup, n). t' = t) xs))"
    by (simp add: filter_map comp_def entry_of_def case_prod_unfold)
  finally have m: "mset (map (\<lambda>j. (GET_TUP ?ix j, GET_NTRGMS ?ix j)) (map int ?ids)) = \<dots>" .
  have "sorted (map (\<lambda>e. uint (minTuple (wMinTuple e))) ?hits)"
    by (rule sorted_by_tuple [of _ t]) (simp_all add: pgq.srt_sorted [OF cmpIndex_ok] sorted_wrt_filter)
  then have srt: "sorted (map (\<lambda>j. uint (the (GET_TUP ?ix j))) (map int ?ids))"
    unfolding at [symmetric] by (simp add: GET_TUP_def es comp_def)
  have p': "postings (ExecGetNextEntryId ?ix) (Suc (length xs)) i = Inr (map int ?ids)" using p unfolding len .
  show ?thesis using st i p' m srt by blast
qed

theorem simindex_postings_witness:
  "\<exists>index i ids. store_all CreateSimInvertedIndex [((0x61, 0x62, 0x63), 9, 4), ((0x61, 0x62, 0x63), 7, 2)] = Inr index \<and>
    ExecGetFirstEntryIdForTrigram (ExecFinalizeSimInvertedIndex index) (0x61, 0x62, 0x63) = Inr i \<and>
    postings (ExecGetNextEntryId (ExecFinalizeSimInvertedIndex index)) 3 i = Inr ids \<and> length ids = 2"
proof -
  let ?xs = "[((0x61, 0x62, 0x63), 9, 4), ((0x61, 0x62, 0x63), 7, 2)] :: (trgm \<times> address \<times> int) list"
  obtain index i ids where "store_all CreateSimInvertedIndex ?xs = Inr index"
    "ExecGetFirstEntryIdForTrigram (ExecFinalizeSimInvertedIndex index) (0x61, 0x62, 0x63) = Inr i"
    "postings (ExecGetNextEntryId (ExecFinalizeSimInvertedIndex index)) (Suc (length ?xs)) i = Inr ids"
    and m: "mset (map (\<lambda>j. (GET_TUP (ExecFinalizeSimInvertedIndex index) j, GET_NTRGMS (ExecFinalizeSimInvertedIndex index) j)) ids)
      = mset (map (\<lambda>(t, tup, n). (Some tup, n)) (filter (\<lambda>(t', tup, n). t' = (0x61, 0x62, 0x63)) ?xs))"
    using simindex_postings [of ?xs "(0x61, 0x62, 0x63)"] by (auto simp: max_entries_def)
  moreover have "length ids = 2" using arg_cong [OF m, of size] by simp
  ultimately show ?thesis by (auto simp: numeral_3_eq_3)
qed

text \<open>The array of the index never grows: storing one entry more than 50000 writes past its end.\<close>

lemma simindex_capacity:
  "store_all CreateSimInvertedIndex xs = Inl IndexOutOfBounds \<longleftrightarrow> 50000 < length xs"
  by (auto simp: store_all_result CreateSimInvertedIndex_def max_entries_def)

end
