(* ===== verification/NodeLimit.thy ===== *)
theory NodeLimit
  imports Prelude
begin

text \<open>
  Two nodes of the executor that can run in both directions: VALUES scans (executor/nodeValuesscan.c) and
  LIMIT/OFFSET (executor/nodeLimit.c).  The contract between a node and its subplan is that of a cursor
  over a list of rows, the locale \<open>cursor\<close>.  A values scan meets it, and a LIMIT node meets it for the
  window of rows it selects if its subplan meets it.
\<close>

datatype ScanDirection = BackwardScanDirection | NoMovementScanDirection | ForwardScanDirection

definition ScanDirectionIsForward :: "ScanDirection \<Rightarrow> bool" where
  "ScanDirectionIsForward d \<longleftrightarrow> d = ForwardScanDirection"

section \<open>VALUES\<close>

text \<open>\<open>exprlists\<close> are the rows, \<open>ev\<close> evaluates an expression.  \<open>None\<close> is the empty slot.\<close>

record 'x ValuesScanState =
  exprlists :: "'x list list"
  curr_idx :: int
  marked_idx :: int

definition array_len :: "'x ValuesScanState \<Rightarrow> int" where
  "array_len node = int (length (exprlists node))"

definition values_index :: "ScanDirection \<Rightarrow> 'x ValuesScanState \<Rightarrow> int" where
  "values_index direction node =
     (if ScanDirectionIsForward direction
      then (if curr_idx node < array_len node then curr_idx node + 1 else curr_idx node)
      else (if curr_idx node \<ge> 0 then curr_idx node - 1 else curr_idx node))"

definition ValuesNext ::
  "('x \<Rightarrow> 'd) \<Rightarrow> ScanDirection \<Rightarrow> 'x ValuesScanState \<Rightarrow> 'd list option \<times> 'x ValuesScanState" where
  "ValuesNext ev direction node =
     (let idx = values_index direction node;
          exprlist = (if (if ScanDirectionIsForward direction then idx < array_len node else idx \<ge> 0)
                      then exprlists node ! nat idx else [])
      in (if exprlist \<noteq> [] then Some (map ev exprlist) else None, node\<lparr>curr_idx := idx\<rparr>))"

definition ExecValuesMarkPos :: "'x ValuesScanState \<Rightarrow> 'x ValuesScanState" where
  "ExecValuesMarkPos node = node\<lparr>marked_idx := curr_idx node\<rparr>"

definition ExecValuesRestrPos :: "'x ValuesScanState \<Rightarrow> 'x ValuesScanState" where
  "ExecValuesRestrPos node = node\<lparr>curr_idx := marked_idx node\<rparr>"

definition ExecReScanValuesScan :: "'x ValuesScanState \<Rightarrow> 'x ValuesScanState" where
  "ExecReScanValuesScan node = node\<lparr>curr_idx := - 1\<rparr>"

definition ExecInitValuesScan :: "'x list list \<Rightarrow> 'x ValuesScanState" where
  "ExecInitValuesScan values_lists = \<lparr>exprlists = values_lists, curr_idx = - 1, marked_idx = - 1\<rparr>"

section \<open>LIMIT\<close>

datatype LimitStateCond = LIMIT_INITIAL | LIMIT_RESCAN | LIMIT_EMPTY | LIMIT_INWINDOW | LIMIT_SUBPLANEOF
  | LIMIT_WINDOWEND | LIMIT_WINDOWSTART

text \<open>
  The value of an OFFSET or LIMIT expression: none given (\<open>None\<close>), null (\<open>Some None\<close>), or an \<open>int8\<close>.
  Row counts stay far below \<open>2 ^ 63\<close>, so \<open>position\<close> is an \<open>int\<close>.
\<close>

type_synonym limit_expr = "int option option"

record ('t, 's) LimitState =
  limitOffset :: limit_expr
  limitCount :: limit_expr
  lstate :: LimitStateCond
  offset :: int
  count :: int
  noCount :: bool
  position :: int
  subSlot :: "'t option"
  subplan :: 's

text \<open>The limits; what the code then tells its child is \<open>recompute_limits_and_notify\<close> below, which the rows do not depend on.\<close>

definition recompute_limits :: "('t, 's) LimitState \<Rightarrow> pg_error + ('t, 's) LimitState" where
  "recompute_limits node =
     (case (case limitOffset node of Some (Some val) \<Rightarrow> if val < 0 then Inl NegativeOffset else Inr val | _ \<Rightarrow> Inr 0) of
        Inl err \<Rightarrow> Inl err
      | Inr off \<Rightarrow>
          (case (case limitCount node of
                   Some (Some val) \<Rightarrow> if val < 0 then Inl NegativeLimit else Inr (val, False)
                 | _ \<Rightarrow> Inr (0, True)) of
             Inl err \<Rightarrow> Inl err
           | Inr (cnt, nocnt) \<Rightarrow>
               Inr (node\<lparr>offset := off, count := cnt, noCount := nocnt, position := 0, subSlot := None,
                         lstate := LIMIT_RESCAN\<rparr>)))"

text \<open>A subplan is run by a function from direction and state to a slot and a new state.\<close>

type_synonym ('t, 's) fetch = "ScanDirection \<Rightarrow> 's \<Rightarrow> pg_error + ('t option \<times> 's)"

text \<open>The loop that fetches rows until \<open>position > offset\<close>.\<close>

function skip_offset :: "('t, 's) fetch \<Rightarrow> ScanDirection \<Rightarrow> ('t, 's) LimitState \<Rightarrow> pg_error + ('t option \<times> ('t, 's) LimitState)" where
  "skip_offset proc d node =
     (case proc d (subplan node) of
        Inl err \<Rightarrow> Inl err
      | Inr (None, s) \<Rightarrow> Inr (None, node\<lparr>subplan := s, lstate := LIMIT_EMPTY\<rparr>)
      | Inr (Some slot, s) \<Rightarrow>
          (let node' = node\<lparr>subplan := s, subSlot := Some slot, position := position node + 1\<rparr>
           in if position node + 1 > offset node then Inr (Some slot, node'\<lparr>lstate := LIMIT_INWINDOW\<rparr>)
              else skip_offset proc d node'))"
  by pat_completeness auto
termination by (relation "measure (\<lambda>(proc, d, node). nat (offset node - position node))") auto

declare skip_offset.simps [simp del]

definition limit_rescan :: "('t, 's) fetch \<Rightarrow> ScanDirection \<Rightarrow> ('t, 's) LimitState \<Rightarrow> pg_error + ('t option \<times> ('t, 's) LimitState)" where
  "limit_rescan proc d node =
     (if \<not> ScanDirectionIsForward d then Inr (None, node)
      else if count node \<le> 0 \<and> \<not> noCount node then Inr (None, node\<lparr>lstate := LIMIT_EMPTY\<rparr>)
      else skip_offset proc d node)"

definition limit_inwindow :: "('t, 's) fetch \<Rightarrow> ScanDirection \<Rightarrow> ('t, 's) LimitState \<Rightarrow> pg_error + ('t option \<times> ('t, 's) LimitState)" where
  "limit_inwindow proc d node =
     (if ScanDirectionIsForward d
      then (if \<not> noCount node \<and> position node - offset node \<ge> count node
            then Inr (None, node\<lparr>lstate := LIMIT_WINDOWEND\<rparr>)
            else (case proc d (subplan node) of
                    Inl err \<Rightarrow> Inl err
                  | Inr (None, s) \<Rightarrow> Inr (None, node\<lparr>subplan := s, lstate := LIMIT_SUBPLANEOF\<rparr>)
                  | Inr (Some slot, s) \<Rightarrow>
                      Inr (Some slot, node\<lparr>subplan := s, subSlot := Some slot, position := position node + 1\<rparr>)))
      else (if position node \<le> offset node + 1
            then Inr (None, node\<lparr>lstate := LIMIT_WINDOWSTART\<rparr>)
            else (case proc d (subplan node) of
                    Inl err \<Rightarrow> Inl err
                  | Inr (None, s) \<Rightarrow> Inl SubplanFailedBackwards
                  | Inr (Some slot, s) \<Rightarrow>
                      Inr (Some slot, node\<lparr>subplan := s, subSlot := Some slot, position := position node - 1\<rparr>))))"

definition limit_subplaneof :: "('t, 's) fetch \<Rightarrow> ScanDirection \<Rightarrow> ('t, 's) LimitState \<Rightarrow> pg_error + ('t option \<times> ('t, 's) LimitState)" where
  "limit_subplaneof proc d node =
     (if ScanDirectionIsForward d then Inr (None, node)
      else (case proc d (subplan node) of
              Inl err \<Rightarrow> Inl err
            | Inr (None, s) \<Rightarrow> Inl SubplanFailedBackwards
            | Inr (Some slot, s) \<Rightarrow>
                Inr (Some slot, node\<lparr>subplan := s, subSlot := Some slot, lstate := LIMIT_INWINDOW\<rparr>)))"

fun ExecLimit :: "('t, 's) fetch \<Rightarrow> ScanDirection \<Rightarrow> ('t, 's) LimitState \<Rightarrow> pg_error + ('t option \<times> ('t, 's) LimitState)" where
  "ExecLimit proc d node =
     (case lstate node of
        LIMIT_INITIAL \<Rightarrow> (case recompute_limits node of Inl err \<Rightarrow> Inl err | Inr node' \<Rightarrow> limit_rescan proc d node')
      | LIMIT_RESCAN \<Rightarrow> limit_rescan proc d node
      | LIMIT_EMPTY \<Rightarrow> Inr (None, node)
      | LIMIT_INWINDOW \<Rightarrow> limit_inwindow proc d node
      | LIMIT_SUBPLANEOF \<Rightarrow> limit_subplaneof proc d node
      | LIMIT_WINDOWEND \<Rightarrow>
          if ScanDirectionIsForward d then Inr (None, node)
          else Inr (subSlot node, node\<lparr>lstate := LIMIT_INWINDOW\<rparr>)
      | LIMIT_WINDOWSTART \<Rightarrow>
          if \<not> ScanDirectionIsForward d then Inr (None, node)
          else Inr (subSlot node, node\<lparr>lstate := LIMIT_INWINDOW\<rparr>))"

definition ExecInitLimit :: "limit_expr \<Rightarrow> limit_expr \<Rightarrow> 's \<Rightarrow> ('t, 's) LimitState" where
  "ExecInitLimit off cnt sub =
     \<lparr>limitOffset = off, limitCount = cnt, lstate = LIMIT_INITIAL, offset = 0, count = 0, noCount = False,
      position = 0, subSlot = None, subplan = sub\<rparr>"

text \<open>\<open>chgParam\<close> says whether the subplan has pending parameter changes and will rescan itself.\<close>

definition ExecReScanLimit ::
  "('s \<Rightarrow> bool) \<Rightarrow> ('s \<Rightarrow> 's) \<Rightarrow> ('t, 's) LimitState \<Rightarrow> pg_error + ('t, 's) LimitState" where
  "ExecReScanLimit chgParam rescan node =
     (case recompute_limits node of
        Inl err \<Rightarrow> Inl err
      | Inr node' \<Rightarrow> Inr (if chgParam (subplan node') then node' else node'\<lparr>subplan := rescan (subplan node')\<rparr>))"

section \<open>Telling a Sort about the bound\<close>

text \<open>The nodes under a LIMIT as far as the bound is concerned; a Result has a child and may return sets.\<close>

datatype child_node =
    SortState bool "64 word"
  | MergeAppendState "child_node list"
  | ResultState "child_node option" bool
  | OtherState

fun pass_down_bound :: "bool \<Rightarrow> 64 word \<Rightarrow> 64 word \<Rightarrow> child_node \<Rightarrow> child_node" where
  "pass_down_bound nocnt cnt off (SortState bounded bnd) =
     (let tuples_needed = cnt + off
      in if nocnt \<or> sint tuples_needed < 0 then SortState False bnd else SortState True tuples_needed)"
| "pass_down_bound nocnt cnt off (MergeAppendState ps) = MergeAppendState (map (pass_down_bound nocnt cnt off) ps)"
| "pass_down_bound nocnt cnt off (ResultState (Some c) rset) =
     (if \<not> rset then ResultState (Some (pass_down_bound nocnt cnt off c)) rset else ResultState (Some c) rset)"
| "pass_down_bound nocnt cnt off (ResultState None rset) = ResultState None rset"
| "pass_down_bound nocnt cnt off OtherState = OtherState"

text \<open>The whole of \<open>recompute_limits\<close>: the new limits are passed on at its end, to the child \<open>outer\<close>.\<close>

definition recompute_limits_and_notify ::
  "('t, 's) LimitState \<Rightarrow> child_node \<Rightarrow> pg_error + ('t, 's) LimitState \<times> child_node" where
  "recompute_limits_and_notify node outer =
     map_sum id (\<lambda>node. (node, pass_down_bound (noCount node) (word_of_int (count node)) (word_of_int (offset node)) outer))
       (recompute_limits node)"

section \<open>Cursors\<close>

text \<open>
  A cursor over rows stands before the first row (\<open>-1\<close>), on a row, or after the last.  Any direction but
  forward moves it back, as in the code.  \<open>rep s xs i\<close>: the state \<open>s\<close> is a cursor at \<open>i\<close> over \<open>xs\<close>.
\<close>

definition move :: "ScanDirection \<Rightarrow> 't list \<Rightarrow> int \<Rightarrow> int" where
  "move d xs i = (if ScanDirectionIsForward d then min (i + 1) (int (length xs)) else max (i - 1) (- 1))"

definition row_at :: "'t list \<Rightarrow> int \<Rightarrow> 't option" where
  "row_at xs i = (if 0 \<le> i \<and> i < int (length xs) then Some (xs ! nat i) else None)"

fun fetches :: "('t, 's) fetch \<Rightarrow> ScanDirection list \<Rightarrow> 's \<Rightarrow> pg_error + 't option list" where
  "fetches proc [] s = Inr []"
| "fetches proc (d # ds) s =
     (case proc d s of Inl err \<Rightarrow> Inl err
      | Inr (r, s') \<Rightarrow> (case fetches proc ds s' of Inl err \<Rightarrow> Inl err | Inr rs \<Rightarrow> Inr (r # rs)))"

fun cursor_rows :: "'t list \<Rightarrow> ScanDirection list \<Rightarrow> int \<Rightarrow> 't option list" where
  "cursor_rows xs [] i = []"
| "cursor_rows xs (d # ds) i = row_at xs (move d xs i) # cursor_rows xs ds (move d xs i)"

locale cursor =
  fixes proc :: "('t, 's) fetch" and rep :: "'s \<Rightarrow> 't list \<Rightarrow> int \<Rightarrow> bool"
  assumes rep_range: "rep s xs i \<Longrightarrow> - 1 \<le> i \<and> i \<le> int (length xs)"
    and rep_fetch: "rep s xs i \<Longrightarrow> \<exists>s'. proc d s = Inr (row_at xs (move d xs i), s') \<and> rep s' xs (move d xs i)"
begin

lemma fetches_rows: "rep s xs i \<Longrightarrow> fetches proc ds s = Inr (cursor_rows xs ds i)"
proof (induction ds arbitrary: s i)
  case (Cons d ds)
  obtain s' where "proc d s = Inr (row_at xs (move d xs i), s')" "rep s' xs (move d xs i)"
    using rep_fetch [OF Cons.prems] by blast
  then show ?case using Cons.IH by simp
qed simp

lemma fetch_forward:
  "rep s xs i \<Longrightarrow> i + 1 < int (length xs) \<Longrightarrow>
   \<exists>s'. proc ForwardScanDirection s = Inr (Some (xs ! nat (i + 1)), s') \<and> rep s' xs (i + 1)"
  using rep_fetch [of s xs i ForwardScanDirection] rep_range [of s xs i]
  by (simp add: move_def row_at_def ScanDirectionIsForward_def)

lemma fetch_end:
  "rep s xs i \<Longrightarrow> int (length xs) \<le> i + 1 \<Longrightarrow>
   \<exists>s'. proc ForwardScanDirection s = Inr (None, s') \<and> rep s' xs (int (length xs))"
  using rep_fetch [of s xs i ForwardScanDirection]
  by (simp add: move_def row_at_def ScanDirectionIsForward_def min_absorb2)

lemma fetch_back:
  "rep s xs i \<Longrightarrow> 0 < i \<Longrightarrow> \<not> ScanDirectionIsForward d \<Longrightarrow>
   \<exists>s'. proc d s = Inr (Some (xs ! nat (i - 1)), s') \<and> rep s' xs (i - 1)"
  using rep_fetch [of s xs i d] rep_range [of s xs i] by (simp add: move_def row_at_def)

end

section \<open>A values scan is a cursor\<close>

definition values_rep :: "('x \<Rightarrow> 'd) \<Rightarrow> 'x ValuesScanState \<Rightarrow> 'd list list \<Rightarrow> int \<Rightarrow> bool" where
  "values_rep ev node xs i \<longleftrightarrow>
     curr_idx node = i \<and> - 1 \<le> i \<and> i \<le> int (length xs) \<and> xs = map (map ev) (exprlists node) \<and> [] \<notin> set xs"

text \<open>The subplan interface has errors; a values scan has none.\<close>

definition values_fetch :: "('x \<Rightarrow> 'd) \<Rightarrow> ('d list, 'x ValuesScanState) fetch" where
  "values_fetch ev d node = Inr (ValuesNext ev d node)"

lemma values_next:
  assumes "values_rep ev node xs i"
  shows "ValuesNext ev d node = (row_at xs (move d xs i), node\<lparr>curr_idx := move d xs i\<rparr>)"
proof -
  have len: "array_len node = int (length xs)" and i: "curr_idx node = i" "- 1 \<le> i" "i \<le> int (length xs)"
    using assms by (auto simp: values_rep_def array_len_def)
  have idx: "values_index d node = move d xs i"
    using i len by (auto simp: values_index_def move_def)
  have r: "row_at xs k = Some (map ev (exprlists node ! nat k)) \<and> exprlists node ! nat k \<noteq> []"
    if "0 \<le> k" "k < int (length xs)" for k
  proof -
    have k: "nat k < length (exprlists node)" using that assms by (simp add: values_rep_def nat_less_iff)
    then have "xs ! nat k = map ev (exprlists node ! nat k)" using assms by (simp add: values_rep_def)
    moreover have "xs ! nat k \<in> set xs" using that by (simp add: nat_less_iff)
    then have "xs ! nat k \<noteq> []" using assms by (auto simp: values_rep_def)
    ultimately show ?thesis using that by (auto simp: row_at_def)
  qed
  show ?thesis
  proof (cases "0 \<le> move d xs i \<and> move d xs i < int (length xs)")
    case True
    then show ?thesis using r [of "move d xs i"] unfolding ValuesNext_def Let_def idx len by simp
  next
    case False
    then have "\<not> (if ScanDirectionIsForward d then move d xs i < int (length xs) else move d xs i \<ge> 0)"
      using i by (auto simp: move_def split: if_splits)
    then show ?thesis using False unfolding ValuesNext_def Let_def idx len by (auto simp: row_at_def)
  qed
qed

lemma move_range: "- 1 \<le> i \<Longrightarrow> i \<le> int (length xs) \<Longrightarrow> - 1 \<le> move d xs i \<and> move d xs i \<le> int (length xs)"
  by (auto simp: move_def)

interpretation values_cursor: cursor "values_fetch ev" "values_rep ev" for ev
proof (unfold_locales, goal_cases)
  case (2 s xs i d)
  then show ?case
    using values_next [OF 2, of d] move_range [of i xs d]
    by (intro exI [of _ "s\<lparr>curr_idx := move d xs i\<rparr>"]) (auto simp: values_fetch_def values_rep_def)
qed (auto simp: values_rep_def)

section \<open>LIMIT as a cursor over its window\<close>

definition window :: "int \<Rightarrow> int \<Rightarrow> bool \<Rightarrow> 't list \<Rightarrow> 't list" where
  "window off cnt nocnt ys = (if nocnt then drop (nat off) ys else take (nat cnt) (drop (nat off) ys))"

text \<open>The offset and count the expressions stand for, if they are not negative.\<close>

definition bounds_of :: "limit_expr \<Rightarrow> limit_expr \<Rightarrow> int \<Rightarrow> int \<Rightarrow> bool \<Rightarrow> bool" where
  "bounds_of lo lc off cnt nocnt \<longleftrightarrow>
     off = (case lo of Some (Some v) \<Rightarrow> v | _ \<Rightarrow> 0) \<and> cnt = (case lc of Some (Some v) \<Rightarrow> v | _ \<Rightarrow> 0) \<and>
     nocnt = (case lc of Some (Some v) \<Rightarrow> False | _ \<Rightarrow> True) \<and> 0 \<le> off \<and> 0 \<le> cnt"

definition running :: "('t, 's) LimitState \<Rightarrow> 't list \<Rightarrow> 't list \<Rightarrow> int \<Rightarrow> int \<Rightarrow> bool" where
  "running node ys xs i j \<longleftrightarrow>
     xs = window (offset node) (count node) (noCount node) ys \<and> 0 \<le> offset node \<and> 0 \<le> count node \<and>
     (case lstate node of
        LIMIT_INWINDOW \<Rightarrow> 0 \<le> i \<and> i < int (length xs) \<and> j = offset node + i \<and> position node = j + 1 \<and> subSlot node = Some (xs ! nat i)
      | LIMIT_SUBPLANEOF \<Rightarrow> i = int (length xs) \<and> xs \<noteq> [] \<and> j = int (length ys) \<and> position node = j \<and>
          j = offset node + int (length xs)
      | LIMIT_WINDOWEND \<Rightarrow> i = int (length xs) \<and> xs \<noteq> [] \<and> j = offset node + i - 1 \<and> position node = j + 1 \<and>
          subSlot node = Some (last xs)
      | LIMIT_WINDOWSTART \<Rightarrow> i = - 1 \<and> xs \<noteq> [] \<and> j = offset node \<and> position node = j + 1 \<and> subSlot node = Some (hd xs)
      | LIMIT_RESCAN \<Rightarrow> i = - 1 \<and> j = - 1 \<and> position node = 0
      | _ \<Rightarrow> False)"

definition limit_rep :: "('s \<Rightarrow> 't list \<Rightarrow> int \<Rightarrow> bool) \<Rightarrow> ('t, 's) LimitState \<Rightarrow> 't list \<Rightarrow> int \<Rightarrow> bool" where
  "limit_rep rep node xs i \<longleftrightarrow>
     (case lstate node of
        LIMIT_EMPTY \<Rightarrow> xs = [] \<and> (i = - 1 \<or> i = 0)
      | LIMIT_INITIAL \<Rightarrow> i = - 1 \<and> (\<exists>ys off cnt nocnt. rep (subplan node) ys (- 1) \<and>
          bounds_of (limitOffset node) (limitCount node) off cnt nocnt \<and> xs = window off cnt nocnt ys)
      | _ \<Rightarrow> \<exists>ys j. rep (subplan node) ys j \<and> running node ys xs i j)"

lemma window_nth:
  assumes "0 \<le> off" "0 \<le> i" "i < int (length (window off cnt nocnt ys))"
  shows "off + i < int (length ys)" "window off cnt nocnt ys ! nat i = ys ! nat (off + i)"
proof -
  have "nat i < length ys - nat off" and c: "\<not> nocnt \<Longrightarrow> nat i < nat cnt"
    using assms by (auto simp: window_def split: if_splits)
  then show "off + i < int (length ys)" "window off cnt nocnt ys ! nat i = ys ! nat (off + i)"
    using assms(1,2) by (auto simp: window_def nat_add_distrib)
qed

lemma window_length: "0 \<le> off \<Longrightarrow>
   int (length (window off cnt nocnt ys)) =
     (let rest = max 0 (int (length ys) - off) in if nocnt then rest else min (max 0 cnt) rest)"
  by (auto simp: window_def Let_def min_def max_def)

text \<open>Each state of the machine; \<open>moved\<close> is what a cursor has to answer.\<close>

abbreviation moved :: "('s \<Rightarrow> 't list \<Rightarrow> int \<Rightarrow> bool) \<Rightarrow> pg_error + ('t option \<times> ('t, 's) LimitState) \<Rightarrow> 't list \<Rightarrow> int \<Rightarrow> bool" where
  "moved rep res xs i \<equiv> \<exists>node'. res = Inr (row_at xs i, node') \<and> limit_rep rep node' xs i"

lemma row_in: "0 \<le> i \<Longrightarrow> i < int (length xs) \<Longrightarrow> row_at xs i = Some (xs ! nat i)"
  and row_out: "i < 0 \<or> int (length xs) \<le> i \<Longrightarrow> row_at xs i = None"
  by (auto simp: row_at_def)

lemma recompute_valid:
  "bounds_of (limitOffset node) (limitCount node) off cnt nocnt \<Longrightarrow>
   recompute_limits node = Inr (node\<lparr>offset := off, count := cnt, noCount := nocnt, position := 0, subSlot := None,
     lstate := LIMIT_RESCAN\<rparr>)"
  by (auto simp: recompute_limits_def bounds_of_def split: option.splits)

context cursor begin

lemma skip_offset_moves:
  "rep (subplan node) ys (position node - 1) \<Longrightarrow> 0 \<le> position node \<Longrightarrow> position node \<le> offset node \<Longrightarrow>
   0 < count node \<or> noCount node \<Longrightarrow> 0 \<le> count node \<Longrightarrow>
   moved rep (skip_offset proc ForwardScanDirection node) (window (offset node) (count node) (noCount node) ys) 0"
proof (induction "nat (offset node - position node)" arbitrary: node)
  case (0 node)
  then have eq: "position node = offset node" by simp
  let ?w = "window (offset node) (count node) (noCount node) ys"
  show ?case
  proof (cases "offset node < int (length ys)")
    case True
    obtain s' where s': "proc ForwardScanDirection (subplan node) = Inr (Some (ys ! nat (offset node)), s')"
      "rep s' ys (offset node)" using fetch_forward [OF 0(2)] True eq by auto
    have len: "0 < int (length ?w)" using True 0(3,5) eq by (auto simp: window_length Let_def)
    have nth: "?w ! nat 0 = ys ! nat (offset node)" using window_nth(2) [of "offset node" 0] 0(3) eq len by simp
    show ?thesis using s' len nth 0(3,6) eq
      by (subst skip_offset.simps) (auto simp: row_in limit_rep_def running_def intro!: exI [of _ ys] exI [of _ "offset node"])
  next
    case False
    obtain s' where s': "proc ForwardScanDirection (subplan node) = Inr (None, s')"
      using fetch_end [OF 0(2)] False eq by auto
    have "?w = []" using False 0(3) eq by (auto simp: window_def)
    then show ?thesis using s' by (subst skip_offset.simps) (simp add: row_at_def limit_rep_def)
  qed
next
  case (Suc n node)
  let ?w = "window (offset node) (count node) (noCount node) ys"
  have lt: "position node < offset node" using Suc(2) by simp
  show ?case
  proof (cases "position node < int (length ys)")
    case True
    obtain s' where s': "proc ForwardScanDirection (subplan node) = Inr (Some (ys ! nat (position node)), s')"
      "rep s' ys (position node)" using fetch_forward [OF Suc(3)] True by auto
    let ?n = "node\<lparr>subplan := s', subSlot := Some (ys ! nat (position node)), position := position node + 1\<rparr>"
    have "moved rep (skip_offset proc ForwardScanDirection ?n) (window (offset ?n) (count ?n) (noCount ?n) ys) 0"
      using s'(2) lt Suc(2,4,6,7) by (intro Suc(1)) auto
    then show ?thesis using s'(1) lt by (subst skip_offset.simps) simp
  next
    case False
    obtain s' where s': "proc ForwardScanDirection (subplan node) = Inr (None, s')"
      using fetch_end [OF Suc(3)] False by auto
    have "?w = []" using False lt Suc(4) by (auto simp: window_def)
    then show ?thesis using s' by (subst skip_offset.simps) (simp add: row_at_def limit_rep_def)
  qed
qed


lemma rescan_moves:
  assumes "rep (subplan node) ys (- 1)" "position node = 0" "0 \<le> offset node" "0 \<le> count node" "lstate node = LIMIT_RESCAN"
  shows "moved rep (limit_rescan proc d node) (window (offset node) (count node) (noCount node) ys)
           (move d (window (offset node) (count node) (noCount node) ys) (- 1))"
proof -
  let ?w = "window (offset node) (count node) (noCount node) ys"
  consider "\<not> ScanDirectionIsForward d" | "d = ForwardScanDirection" "count node \<le> 0 \<and> \<not> noCount node"
    | "d = ForwardScanDirection" "0 < count node \<or> noCount node"
    by (cases "ScanDirectionIsForward d"; cases "0 < count node \<or> noCount node") (auto simp: ScanDirectionIsForward_def)
  then show ?thesis
  proof cases
    case 1
    then show ?thesis using assms by (auto simp: limit_rescan_def move_def row_at_def limit_rep_def running_def)
  next
    case 2
    then have "?w = []" using assms(4) by (simp add: window_def)
    then show ?thesis using 2
      by (simp add: limit_rescan_def move_def ScanDirectionIsForward_def row_at_def limit_rep_def)
  next
    case 3
    have "moved rep (skip_offset proc ForwardScanDirection node) ?w 0"
      using assms 3 by (intro skip_offset_moves) simp_all
    moreover have "move d ?w (- 1) = 0" using 3 by (simp add: move_def ScanDirectionIsForward_def)
    moreover have "limit_rescan proc d node = skip_offset proc ForwardScanDirection node"
      using 3 by (auto simp: limit_rescan_def ScanDirectionIsForward_def)
    ultimately show ?thesis by simp
  qed
qed

lemma inwindow_moves:
  assumes rep: "rep (subplan node) ys j" and run: "running node ys xs i j" and st: "lstate node = LIMIT_INWINDOW"
  shows "moved rep (limit_inwindow proc d node) xs (move d xs i)"
proof -
  have xs: "window (offset node) (count node) (noCount node) ys = xs" and o: "0 \<le> offset node" and c: "0 \<le> count node" and
    i: "0 \<le> i" "i < int (length xs)" "j = offset node + i" "position node = j + 1" "subSlot node = Some (xs ! nat i)"
    using run st by (auto simp: running_def)
  have len: "int (length xs) = (let rest = max 0 (int (length ys) - offset node) in if noCount node then rest else min (max 0 (count node)) rest)"
    using window_length [OF o, of "count node" "noCount node" ys] unfolding xs .
  note nth = window_nth(2) [OF o, of _ "count node" "noCount node" ys, unfolded xs]
  have ne: "xs \<noteq> []" using i by auto
  have xs': "noCount node \<Longrightarrow> window (offset node) (count node) True ys = xs"
    "\<not> noCount node \<Longrightarrow> window (offset node) (count node) False ys = xs" using xs by simp_all
  note unf = limit_inwindow_def move_def limit_rep_def running_def st xs'
  show ?thesis
  proof (cases "ScanDirectionIsForward d")
    case True
    then have d: "d = ForwardScanDirection" by (simp add: ScanDirectionIsForward_def)
    consider (stop) "\<not> noCount node \<and> position node - offset node \<ge> count node"
      | (eof) "noCount node \<or> position node - offset node < count node" "int (length ys) \<le> j + 1"
      | (more) "noCount node \<or> position node - offset node < count node" "j + 1 < int (length ys)" by linarith
    then show ?thesis
    proof cases
      case stop
      have l: "int (length xs) = i + 1" using stop i len by (auto simp: Let_def split: if_splits)
      then have "length xs - 1 = nat i" using i(1) by linarith
      then have "last xs = xs ! nat i" using ne by (simp add: last_conv_nth)
      then show ?thesis using stop True i l ne o c rep
        by (auto simp: unf xs row_at_def intro!: exI [of _ ys] exI [of _ j])
    next
      case eof
      obtain s' where s': "proc d (subplan node) = Inr (None, s')" "rep s' ys (int (length ys))"
        using fetch_end [OF rep eof(2)] d by blast
      have l: "int (length xs) = i + 1" "int (length ys) = offset node + (i + 1)"
        using eof i len by (auto simp: Let_def split: if_splits)
      then show ?thesis using eof(1) True i ne o c s'
        by (auto simp: unf xs row_at_def intro!: exI [of _ ys])
    next
      case more
      obtain s' where s': "proc d (subplan node) = Inr (Some (ys ! nat (j + 1)), s')" "rep s' ys (j + 1)"
        using fetch_forward [OF rep more(2)] d by blast
      have l: "i + 1 < int (length xs)" using more i len by (auto simp: Let_def)
      have "xs ! nat (i + 1) = ys ! nat (j + 1)" using nth [of "i + 1"] l i by (simp add: add.assoc)
      then show ?thesis using more(1) True i l o c s'
        by (auto simp: unf xs row_in add.assoc intro!: exI [of _ ys])
    qed
  next
    case False
    show ?thesis
    proof (cases "i = 0")
      case True
      have "hd xs = xs ! nat i" using True ne by (simp add: hd_conv_nth)
      then show ?thesis using True False i ne o c rep
        by (auto simp: unf xs row_at_def intro!: exI [of _ ys])
    next
      case pos: False
      obtain s' where s': "proc d (subplan node) = Inr (Some (ys ! nat (j - 1)), s')" "rep s' ys (j - 1)"
        using fetch_back [OF rep _ False] pos i o by auto
      have "xs ! nat (i - 1) = ys ! nat (j - 1)" "rep s' ys (offset node + (i - 1))"
        using nth [of "i - 1"] s'(2) pos i by (simp_all add: add_diff_eq)
      then show ?thesis using False pos i o c s'(1)
        by (auto simp: unf xs row_in intro!: exI [of _ ys])
    qed
  qed
qed

lemma subplaneof_moves:
  assumes rep: "rep (subplan node) ys j" and run: "running node ys xs i j" and st: "lstate node = LIMIT_SUBPLANEOF"
  shows "moved rep (limit_subplaneof proc d node) xs (move d xs i)"
proof -
  have xs: "window (offset node) (count node) (noCount node) ys = xs" and o: "0 \<le> offset node" and c: "0 \<le> count node" and
    i: "i = int (length xs)" "xs \<noteq> []" "int (length ys) = j" "position node = j" "j = offset node + i"
    using run st by (auto simp: running_def)
  have pos: "0 < i" using i by simp
  show ?thesis
  proof (cases "ScanDirectionIsForward d")
    case True
    then show ?thesis using i o c rep st
      by (auto simp: limit_subplaneof_def move_def row_at_def limit_rep_def running_def xs intro!: exI [of _ ys])
  next
    case False
    obtain s' where s': "proc d (subplan node) = Inr (Some (ys ! nat (j - 1)), s')" "rep s' ys (j - 1)"
      using fetch_back [OF rep _ False] pos i(5) o by auto
    have "xs ! nat (i - 1) = ys ! nat (j - 1)" "rep s' ys (offset node + (i - 1))"
      using window_nth(2) [OF o, of "i - 1" "count node" "noCount node" ys, unfolded xs] s'(2) pos i(1,5) by (simp_all add: add_diff_eq)
    then show ?thesis using False pos i(1,4,5) o c s'(1)
      by (auto simp: limit_subplaneof_def move_def row_in limit_rep_def running_def xs intro!: exI [of _ ys])
  qed
qed

lemma limit_moves:
  assumes "limit_rep rep node xs i"
  shows "moved rep (ExecLimit proc d node) xs (move d xs i)"
proof (cases "lstate node")
  case LIMIT_INITIAL
  then obtain ys off cnt nocnt where s: "rep (subplan node) ys (- 1)" "i = - 1" "xs = window off cnt nocnt ys"
    "bounds_of (limitOffset node) (limitCount node) off cnt nocnt" using assms by (auto simp: limit_rep_def)
  let ?n = "node\<lparr>offset := off, count := cnt, noCount := nocnt, position := 0, subSlot := None, lstate := LIMIT_RESCAN\<rparr>"
  have "0 \<le> off \<and> 0 \<le> cnt" using s(4) by (auto simp: bounds_of_def)
  then have "moved rep (limit_rescan proc d ?n) xs (move d xs i)"
    using rescan_moves [of ?n ys d] s by simp
  then show ?thesis using LIMIT_INITIAL recompute_valid [OF s(4)] by simp
next
  case LIMIT_RESCAN
  then obtain ys where s: "rep (subplan node) ys (- 1)" "i = - 1" "xs = window (offset node) (count node) (noCount node) ys"
    "0 \<le> offset node" "position node = 0" "0 \<le> count node" using assms by (auto simp: limit_rep_def running_def)
  then show ?thesis using rescan_moves [of node ys d] LIMIT_RESCAN by simp
next
  case LIMIT_EMPTY
  then show ?thesis using assms by (auto simp: limit_rep_def move_def row_at_def)
next
  case LIMIT_INWINDOW
  then obtain ys j where "rep (subplan node) ys j" "running node ys xs i j" using assms by (auto simp: limit_rep_def)
  then show ?thesis using inwindow_moves LIMIT_INWINDOW by simp
next
  case LIMIT_SUBPLANEOF
  then obtain ys j where "rep (subplan node) ys j" "running node ys xs i j" using assms by (auto simp: limit_rep_def)
  then show ?thesis using subplaneof_moves LIMIT_SUBPLANEOF by simp
next
  case LIMIT_WINDOWEND
  then obtain ys j where s: "rep (subplan node) ys j" "window (offset node) (count node) (noCount node) ys = xs"
    "0 \<le> offset node" "0 \<le> count node" "xs \<noteq> []" "i = int (length xs)" "subSlot node = Some (last xs)"
    "position node = j + 1" "j = offset node + i - 1"
    using assms by (auto simp: limit_rep_def running_def)
  have e: "j = offset node + (i - 1)" "xs ! nat (i - 1) = last xs" "0 \<le> i - 1"
    using s(5,6,9) by (auto simp: last_conv_nth nat_diff_distrib Suc_le_eq)
  show ?thesis
  proof (cases "ScanDirectionIsForward d")
    case True
    then show ?thesis using s LIMIT_WINDOWEND assms by (auto simp: move_def row_at_def)
  next
    case False
    have "limit_rep rep (node\<lparr>lstate := LIMIT_INWINDOW\<rparr>) xs (i - 1)"
      unfolding limit_rep_def using s(1-4,6-8) e
      by (auto simp: running_def intro!: exI [of _ ys] exI [of _ j])
    then show ?thesis using False LIMIT_WINDOWEND e s(6,7) by (simp add: move_def row_in)
  qed
next
  case LIMIT_WINDOWSTART
  then obtain ys j where s: "rep (subplan node) ys j" "running node ys xs i j" using assms by (auto simp: limit_rep_def)
  then have "xs \<noteq> []" "xs ! 0 = hd xs" using LIMIT_WINDOWSTART by (auto simp: running_def hd_conv_nth)
  then show ?thesis using s LIMIT_WINDOWSTART
    by (cases "ScanDirectionIsForward d")
      (auto simp: move_def row_at_def limit_rep_def running_def intro!: exI [of _ ys])
qed

lemma limit_range: "limit_rep rep node xs i \<Longrightarrow> - 1 \<le> i \<and> i \<le> int (length xs)"
  by (auto simp: limit_rep_def running_def split: LimitStateCond.splits)

end

text \<open>So a LIMIT node over any cursor is a cursor, in particular over a values scan and over another LIMIT.\<close>

lemma limit_is_cursor: "cursor proc rep \<Longrightarrow> cursor (ExecLimit proc) (limit_rep rep)"
  using cursor.limit_range cursor.limit_moves by unfold_locales blast+

interpretation limit_cursor: cursor "ExecLimit (values_fetch ev)" "limit_rep (values_rep ev)" for ev
  by (rule limit_is_cursor) unfold_locales

lemma init_limit_rep:
  "rep sub ys (- 1) \<Longrightarrow> bounds_of lo lc off cnt nocnt \<Longrightarrow>
   limit_rep rep (ExecInitLimit lo lc sub) (window off cnt nocnt ys) (- 1)"
  by (auto simp: limit_rep_def ExecInitLimit_def)

lemma rescan_limit_rep:
  assumes "rep (rescan (subplan node)) ys (- 1)" "\<not> chgParam (subplan node)"
    and "bounds_of (limitOffset node) (limitCount node) off cnt nocnt"
  shows "\<exists>node'. ExecReScanLimit chgParam rescan node = Inr node' \<and> limit_rep rep node' (window off cnt nocnt ys) (- 1)"
  using assms recompute_valid [OF assms(3)]
  by (auto simp: ExecReScanLimit_def limit_rep_def running_def bounds_of_def)

lemma sint_sum_nonneg:
  fixes a b :: "64 word"
  assumes "0 \<le> sint a" "0 \<le> sint b"
  shows "sint (a + b) = (if sint a + sint b < 2 ^ 63 then sint a + sint b else sint a + sint b - 2 ^ 64)"
proof -
  let ?m = "18446744073709551616 :: int" and ?h = "9223372036854775808 :: int"
  have p: "(2 :: int) ^ 63 = ?h" "(2 :: int) ^ 64 = ?m" by simp_all
  have b: "sint a < ?h" "sint b < ?h" using sint_less [of a] sint_less [of b] by simp_all
  have "a + b = word_of_int (sint a + sint b)" by simp
  then have "sint (a + b) = signed_take_bit 63 (sint a + sint b)" by (simp only: signed_of_int) simp
  also have "\<dots> = (sint a + sint b + ?h) mod ?m - ?h" by (simp add: signed_take_bit_eq_take_bit_shift take_bit_eq_mod)
  also have "\<dots> = (if sint a + sint b < ?h then sint a + sint b else sint a + sint b - ?m)"
  proof (cases "sint a + sint b < ?h")
    case True
    then have "(sint a + sint b + ?h) mod ?m = sint a + sint b + ?h" using assms by (intro mod_pos_pos_trivial) linarith+
    then show ?thesis using True by simp
  next
    case False
    have "(sint a + sint b + ?h) mod ?m = (sint a + sint b + ?h - ?m) mod ?m" by (rule minus_mod_self2 [symmetric])
    also have "\<dots> = sint a + sint b + ?h - ?m" using False b by (intro mod_pos_pos_trivial) linarith+
    finally show ?thesis using False by simp
  qed
  finally show ?thesis unfolding p .
qed

section \<open>Properties\<close>

text \<open>C7: whatever cursor its subplan is, and in whatever order it is asked for the next and the previous row,
  a LIMIT node is a cursor over the rows that OFFSET and LIMIT select; it never fails, in particular the
  subplan always runs backwards when it is asked to.\<close>

theorem limit_window:
  assumes "cursor proc rep" "rep sub ys (- 1)" "bounds_of lo lc off cnt nocnt"
  shows "fetches (ExecLimit proc) ds (ExecInitLimit lo lc sub) = Inr (cursor_rows (window off cnt nocnt ys) ds (- 1))"
  using init_limit_rep [of rep sub ys lo lc off cnt nocnt] assms(2,3)
  by (intro cursor.fetches_rows [OF limit_is_cursor [OF assms(1)]]) simp

theorem limit_window_witness:
  "fetches (ExecLimit (values_fetch (\<lambda>x. x)))
     [ForwardScanDirection, ForwardScanDirection, BackwardScanDirection, ForwardScanDirection, ForwardScanDirection, BackwardScanDirection]
     (ExecInitLimit (Some (Some 1)) (Some (Some 2)) (ExecInitValuesScan [[1], [2], [3], [4 :: int]]))
   = Inr [Some [2], Some [3], Some [2], Some [3], None, Some [3]]"
proof -
  have "bounds_of (Some (Some 1)) (Some (Some 2)) 1 2 False" by (simp add: bounds_of_def)
  moreover have "values_rep (\<lambda>x. x) (ExecInitValuesScan [[1], [2], [3], [4 :: int]]) [[1], [2], [3], [4]] (- 1)"
    by (simp add: values_rep_def ExecInitValuesScan_def)
  moreover have "cursor (values_fetch (\<lambda>x. x)) (values_rep (\<lambda>x. x :: int))" by unfold_locales
  ultimately have "fetches (ExecLimit (values_fetch (\<lambda>x. x))) ds
      (ExecInitLimit (Some (Some 1)) (Some (Some 2)) (ExecInitValuesScan [[1], [2], [3], [4 :: int]]))
      = Inr (cursor_rows (window 1 2 False [[1], [2], [3], [4]]) ds (- 1))" for ds
    by (intro limit_window)
  then show ?thesis by (simp only:) (simp add: window_def move_def row_at_def ScanDirectionIsForward_def)
qed

text \<open>After a rescan, from any state of the machine, the node starts over with the rows of the rescanned
  subplan and the limits its expressions have now.\<close>

lemma limit_rescan_restarts:
  assumes "cursor proc rep" "rep (rescan (subplan node)) ys (- 1)" "\<not> chgParam (subplan node)"
    and "bounds_of (limitOffset node) (limitCount node) off cnt nocnt"
  shows "\<exists>node'. ExecReScanLimit chgParam rescan node = Inr node' \<and>
    fetches (ExecLimit proc) ds node' = Inr (cursor_rows (window off cnt nocnt ys) ds (- 1))"
proof -
  obtain node' where "ExecReScanLimit chgParam rescan node = Inr node'" "limit_rep rep node' (window off cnt nocnt ys) (- 1)"
    using rescan_limit_rep [of rep rescan node ys chgParam off cnt nocnt] assms(2-4) by blast
  then show ?thesis using cursor.fetches_rows [OF limit_is_cursor [OF assms(1)]] by blast
qed

lemma limit_rescan_restarts_witness:
  "\<exists>node'. ExecReScanLimit (\<lambda>_. False) ExecReScanValuesScan
      \<lparr>limitOffset = None, limitCount = Some None, lstate = LIMIT_EMPTY, offset = 5, count = 3, noCount = False, position = 2,
       subSlot = None, subplan = \<lparr>exprlists = [[7 :: int]], curr_idx = 1, marked_idx = 0\<rparr>\<rparr> = Inr node' \<and>
    fetches (ExecLimit (values_fetch (\<lambda>x. x))) [ForwardScanDirection, ForwardScanDirection] node' = Inr [Some [7], None]"
proof -
  have "cursor (values_fetch (\<lambda>x. x)) (values_rep (\<lambda>x. x :: int))" by unfold_locales
  from limit_rescan_restarts [OF this, of ExecReScanValuesScan
      "\<lparr>limitOffset = None, limitCount = Some None, lstate = LIMIT_EMPTY, offset = 5, count = 3, noCount = False, position = 2,
       subSlot = None, subplan = \<lparr>exprlists = [[7 :: int]], curr_idx = 1, marked_idx = 0\<rparr>\<rparr>" "[[7]]" "\<lambda>_. False" 0 0 True
      "[ForwardScanDirection, ForwardScanDirection]"]
  show ?thesis
    by (simp only: values_rep_def ExecReScanValuesScan_def bounds_of_def) (simp add: window_def move_def row_at_def ScanDirectionIsForward_def)
qed

text \<open>A negative OFFSET or LIMIT is an error, of the OFFSET first, on the first fetch and on a rescan.\<close>

lemma limit_negative:
  "ExecReScanLimit chg rescan (ExecInitLimit lo lc sub) =
     (if \<exists>v. v < 0 \<and> lo = Some (Some v) then Inl NegativeOffset
      else if \<exists>v. v < 0 \<and> lc = Some (Some v) then Inl NegativeLimit
      else ExecReScanLimit chg rescan (ExecInitLimit lo lc sub)) \<and>
   ExecLimit proc d (ExecInitLimit lo lc sub) =
     (if \<exists>v. v < 0 \<and> lo = Some (Some v) then Inl NegativeOffset
      else if \<exists>v. v < 0 \<and> lc = Some (Some v) then Inl NegativeLimit
      else ExecLimit proc d (ExecInitLimit lo lc sub))"
  by (auto simp: ExecReScanLimit_def ExecInitLimit_def recompute_limits_def split: option.splits if_splits)

text \<open>A Sort under a LIMIT is bounded by OFFSET + LIMIT rows, and unbounded when there is no LIMIT or the
  sum does not fit an \<open>int8\<close>.\<close>

lemma pass_down_bound_exact:
  assumes "0 \<le> sint cnt" "0 \<le> sint off"
  shows "pass_down_bound nocnt cnt off (SortState bounded bnd) =
    (if nocnt \<or> 2 ^ 63 \<le> sint cnt + sint off then SortState False bnd else SortState True (cnt + off)) \<and>
    (sint cnt + sint off < 2 ^ 63 \<longrightarrow> sint (cnt + off) = sint cnt + sint off)"
proof -
  have "sint cnt < 2 ^ 63" "sint off < 2 ^ 63" using sint_less [of cnt] sint_less [of off] by simp_all
  then have "sint (cnt + off) < 0 \<longleftrightarrow> 2 ^ 63 \<le> sint cnt + sint off" unfolding sint_sum_nonneg [OF assms] using assms by auto
  then show ?thesis using sint_sum_nonneg [OF assms] by (simp add: Let_def)
qed

lemma pass_down_bound_exact_witness:
  "pass_down_bound False 5 3 (SortState False 0) = SortState True 8 \<and>
   pass_down_bound False 0x7fffffffffffffff 1 (SortState True 7) = SortState False 7"
  using pass_down_bound_exact [of 5 3 False False 0] pass_down_bound_exact [of "0x7fffffffffffffff" 1 False True 7] by simp

text \<open>So a Sort that is bounded after the limits are computed is bounded by the end of the window; a negative limit leaves it alone.\<close>

lemma recompute_limits_bounds_sort:
  assumes "recompute_limits_and_notify node (SortState bounded bnd) = Inr (node', SortState True b)"
    and "count node' < 2 ^ 63" "offset node' < 2 ^ 63"
  shows "\<not> noCount node' \<and> sint b = offset node' + count node'"
proof -
  obtain node'' where r: "recompute_limits node = Inr node''"
    using assms(1) by (cases "recompute_limits node") (auto simp: recompute_limits_and_notify_def)
  then have n: "node'' = node'" and p: "pass_down_bound (noCount node') (word_of_int (count node')) (word_of_int (offset node'))
      (SortState bounded bnd) = SortState True b"
    using assms(1) by (auto simp: recompute_limits_and_notify_def)
  have "0 \<le> count node' \<and> 0 \<le> offset node'"
    using r n by (auto simp: recompute_limits_def split: option.splits if_splits)
  then have s: "sint (word_of_int (count node') :: 64 word) = count node'" "sint (word_of_int (offset node') :: 64 word) = offset node'"
    using assms(2,3) by (simp_all add: sint_sbintrunc' signed_take_bit_int_eq_self)
  then show ?thesis using pass_down_bound_exact [of "word_of_int (count node')" "word_of_int (offset node')" "noCount node'" bounded bnd]
      \<open>0 \<le> count node' \<and> 0 \<le> offset node'\<close> p by (auto split: if_splits)
qed

end
