(* ===== verification/NestLoop.thy ===== *)
theory NestLoop
  imports NodeLimit
begin

text \<open>
  The nested-loop join (executor/nodeNestloop.c), without the similarity join that hides in it (theory
  SimJoin): for each outer tuple the inner plan is rescanned, with parameters taken from the outer tuple,
  and the pairs that pass the join qualification are projected, one result per call.  A projection may
  return a set; then the following calls deliver the rest of it.
\<close>

datatype JoinType = JOIN_INNER | JOIN_LEFT | JOIN_FULL | JOIN_RIGHT | JOIN_SEMI | JOIN_ANTI
  | JOIN_UNIQUE_OUTER | JOIN_UNIQUE_INNER

datatype ExprDoneCond = ExprSingleResult | ExprMultipleResult | ExprEndResult

text \<open>
  The value of a target list for a pair of tuples: one result, or the results of a function returning a
  set.  \<open>ExecProject\<close> gives the next of them, the state of the projection, and whether there was one.
\<close>

datatype 'r projection = SingleValue 'r | SetValue "'r list"

fun ExecProject :: "'r projection \<Rightarrow> 'r option \<times> ExprDoneCond \<times> 'r projection" where
  "ExecProject (SingleValue r) = (Some r, ExprSingleResult, SingleValue r)"
| "ExecProject (SetValue []) = (None, ExprEndResult, SetValue [])"
| "ExecProject (SetValue (r # rs)) = (Some r, ExprMultipleResult, SetValue rs)"

text \<open>
  The plan: join type, join qualification, other qualification (\<open>None\<close> is the empty list), target list and the
  outer values passed down as parameters.  An inner tuple of \<open>None\<close> is the tuple of nulls.
\<close>

record ('o, 'i, 'p, 'r) NestLoopPlan =
  jointype :: JoinType
  joinqual :: "'o \<Rightarrow> 'i option \<Rightarrow> bool"
  otherqual :: "('o \<Rightarrow> 'i option \<Rightarrow> bool) option"
  targetlist :: "'o \<Rightarrow> 'i option \<Rightarrow> 'r projection"
  nestParams :: "'o \<Rightarrow> 'p"

text \<open>
  How a subplan is run: one tuple, or \<open>None\<close> at the end, with the next state; a rescan with parameters.
  The call may not return, hence the option.
\<close>

type_synonym ('t, 's) exec_proc = "'s \<Rightarrow> (pg_error + ('t option \<times> 's)) option"

record ('o, 'os, 'i, 'is, 'r) NestLoopState =
  nl_NeedNewOuter :: bool
  nl_MatchedOuter :: bool
  ps_TupFromTlist :: bool
  ps_ProjInfo :: "'r projection"
  ecxt_outertuple :: "'o option"
  outerPlanState :: 'os
  innerPlanState :: 'is

definition ExecQual :: "('o \<Rightarrow> 'i option \<Rightarrow> bool) option \<Rightarrow> 'o \<Rightarrow> 'i option \<Rightarrow> bool" where
  "ExecQual q ot it = (case q of None \<Rightarrow> True | Some f \<Rightarrow> f ot it)"

text \<open>What an iteration of the main loop ends with: a result of the call, or another iteration.\<close>

datatype 'a iteration = Return 'a | Loop

text \<open>Project a joined pair that passed: return a result, or go on when the set is empty.\<close>

definition nl_project ::
  "('o, 'i, 'p, 'r) NestLoopPlan \<Rightarrow> 'o \<Rightarrow> 'i option \<Rightarrow> ('o, 'os, 'i, 'is, 'r) NestLoopState \<Rightarrow>
   'r option iteration \<times> ('o, 'os, 'i, 'is, 'r) NestLoopState" where
  "nl_project nl ot it node =
     (if ExecQual (otherqual nl) ot it
      then (case ExecProject (targetlist nl ot it) of
              (result, isDone, proj) \<Rightarrow>
                if isDone \<noteq> ExprEndResult
                then (Return result, node\<lparr>ps_TupFromTlist := (isDone = ExprMultipleResult), ps_ProjInfo := proj\<rparr>)
                else (Loop, node\<lparr>ps_ProjInfo := proj\<rparr>))
      else (Loop, node))"

text \<open>A new outer tuple: \<open>None\<close> when there is none.\<close>

definition nl_new_outer ::
  "('o, 'os) exec_proc \<Rightarrow> ('p \<Rightarrow> 'is \<Rightarrow> 'is) \<Rightarrow> ('o, 'i, 'p, 'r) NestLoopPlan \<Rightarrow> ('o, 'os, 'i, 'is, 'r) NestLoopState \<Rightarrow>
   (pg_error + 'o option \<times> ('o, 'os, 'i, 'is, 'r) NestLoopState) option" where
  "nl_new_outer oproc irescan nl node =
     (if nl_NeedNewOuter node
      then (case oproc (outerPlanState node) of
              None \<Rightarrow> None
            | Some (Inl err) \<Rightarrow> Some (Inl err)
            | Some (Inr (None, os)) \<Rightarrow> Some (Inr (None, node\<lparr>outerPlanState := os\<rparr>))
            | Some (Inr (Some ot, os)) \<Rightarrow>
                Some (Inr (Some ot, node\<lparr>outerPlanState := os, ecxt_outertuple := Some ot, nl_NeedNewOuter := False,
                  nl_MatchedOuter := False, innerPlanState := irescan (nestParams nl ot) (innerPlanState node)\<rparr>)))
      else Some (Inr (ecxt_outertuple node, node)))"

text \<open>The inner plan is exhausted: an outer join emits an unmatched tuple with nulls.\<close>

definition nl_inner_end ::
  "('o, 'i, 'p, 'r) NestLoopPlan \<Rightarrow> 'o \<Rightarrow> ('o, 'os, 'i, 'is, 'r) NestLoopState \<Rightarrow>
   'r option iteration \<times> ('o, 'os, 'i, 'is, 'r) NestLoopState" where
  "nl_inner_end nl ot node =
     (let node = node\<lparr>nl_NeedNewOuter := True\<rparr>
      in if \<not> nl_MatchedOuter node \<and> (jointype nl = JOIN_LEFT \<or> jointype nl = JOIN_ANTI)
         then nl_project nl ot None node else (Loop, node))"

text \<open>A pair of tuples.\<close>

definition nl_pair ::
  "('o, 'i, 'p, 'r) NestLoopPlan \<Rightarrow> 'o \<Rightarrow> 'i \<Rightarrow> ('o, 'os, 'i, 'is, 'r) NestLoopState \<Rightarrow>
   'r option iteration \<times> ('o, 'os, 'i, 'is, 'r) NestLoopState" where
  "nl_pair nl ot it node =
     (if joinqual nl ot (Some it)
      then (let node = node\<lparr>nl_MatchedOuter := True\<rparr>
            in if jointype nl = JOIN_ANTI then (Loop, node\<lparr>nl_NeedNewOuter := True\<rparr>)
               else nl_project nl ot (Some it) (if jointype nl = JOIN_SEMI then node\<lparr>nl_NeedNewOuter := True\<rparr> else node))
      else (Loop, node))"

definition nl_next_inner ::
  "('i, 'is) exec_proc \<Rightarrow> ('o, 'i, 'p, 'r) NestLoopPlan \<Rightarrow> 'o \<Rightarrow> ('o, 'os, 'i, 'is, 'r) NestLoopState \<Rightarrow>
   (pg_error + ('r option iteration \<times> ('o, 'os, 'i, 'is, 'r) NestLoopState)) option" where
  "nl_next_inner iproc nl ot node =
     (case iproc (innerPlanState node) of
        None \<Rightarrow> None
      | Some (Inl err) \<Rightarrow> Some (Inl err)
      | Some (Inr (None, is)) \<Rightarrow> Some (Inr (nl_inner_end nl ot (node\<lparr>innerPlanState := is\<rparr>)))
      | Some (Inr (Some it, is)) \<Rightarrow> Some (Inr (nl_pair nl ot it (node\<lparr>innerPlanState := is\<rparr>))))"

definition nl_iteration ::
  "('o, 'os) exec_proc \<Rightarrow> ('i, 'is) exec_proc \<Rightarrow> ('p \<Rightarrow> 'is \<Rightarrow> 'is) \<Rightarrow> ('o, 'i, 'p, 'r) NestLoopPlan \<Rightarrow>
   ('o, 'os, 'i, 'is, 'r) NestLoopState \<Rightarrow> (pg_error + ('r option iteration \<times> ('o, 'os, 'i, 'is, 'r) NestLoopState)) option" where
  "nl_iteration oproc iproc irescan nl node =
     (case nl_new_outer oproc irescan nl node of
        None \<Rightarrow> None
      | Some (Inl err) \<Rightarrow> Some (Inl err)
      | Some (Inr (None, node)) \<Rightarrow> Some (Inr (Return None, node))
      | Some (Inr (Some ot, node)) \<Rightarrow> nl_next_inner iproc nl ot node)"

partial_function (option) nl_loop ::
  "('o, 'os) exec_proc \<Rightarrow> ('i, 'is) exec_proc \<Rightarrow> ('p \<Rightarrow> 'is \<Rightarrow> 'is) \<Rightarrow> ('o, 'i, 'p, 'r) NestLoopPlan \<Rightarrow>
   ('o, 'os, 'i, 'is, 'r) NestLoopState \<Rightarrow> (pg_error + ('r option \<times> ('o, 'os, 'i, 'is, 'r) NestLoopState)) option" where
  "nl_loop oproc iproc irescan nl node =
     (case nl_iteration oproc iproc irescan nl node of
        None \<Rightarrow> None
      | Some (Inl err) \<Rightarrow> Some (Inl err)
      | Some (Inr (Return r, node')) \<Rightarrow> Some (Inr (r, node'))
      | Some (Inr (Loop, node')) \<Rightarrow> nl_loop oproc iproc irescan nl node')"

text \<open>A call first delivers what is left of a projected set.\<close>

definition ExecNestLoop ::
  "('o, 'os) exec_proc \<Rightarrow> ('i, 'is) exec_proc \<Rightarrow> ('p \<Rightarrow> 'is \<Rightarrow> 'is) \<Rightarrow> ('o, 'i, 'p, 'r) NestLoopPlan \<Rightarrow>
   ('r, ('o, 'os, 'i, 'is, 'r) NestLoopState) exec_proc" where
  "ExecNestLoop oproc iproc irescan nl node =
     (if ps_TupFromTlist node
      then (case ExecProject (ps_ProjInfo node) of
              (result, isDone, proj) \<Rightarrow>
                if isDone = ExprMultipleResult then Some (Inr (result, node\<lparr>ps_ProjInfo := proj\<rparr>))
                else nl_loop oproc iproc irescan nl (node\<lparr>ps_TupFromTlist := False, ps_ProjInfo := proj\<rparr>))
      else nl_loop oproc iproc irescan nl node)"

definition ExecReScanNestLoop ::
  "('os \<Rightarrow> bool) \<Rightarrow> ('os \<Rightarrow> 'os) \<Rightarrow> ('o, 'os, 'i, 'is, 'r) NestLoopState \<Rightarrow> ('o, 'os, 'i, 'is, 'r) NestLoopState" where
  "ExecReScanNestLoop chgParam orescan node =
     node\<lparr>outerPlanState := (if chgParam (outerPlanState node) then outerPlanState node else orescan (outerPlanState node)),
          ps_TupFromTlist := False, nl_NeedNewOuter := True, nl_MatchedOuter := False\<rparr>"

text \<open>Initialisation refuses the join types a nested loop cannot do.\<close>

definition ExecInitNestLoop ::
  "('o, 'i, 'p, 'r) NestLoopPlan \<Rightarrow> 'os \<Rightarrow> 'is \<Rightarrow> pg_error + ('o, 'os, 'i, 'is, 'r) NestLoopState" where
  "ExecInitNestLoop nl os is =
     (if jointype nl \<in> {JOIN_INNER, JOIN_SEMI, JOIN_LEFT, JOIN_ANTI}
      then Inr \<lparr>nl_NeedNewOuter = True, nl_MatchedOuter = False, ps_TupFromTlist = False, ps_ProjInfo = SetValue [],
                ecxt_outertuple = None, outerPlanState = os, innerPlanState = is\<rparr>
      else Inl UnrecognizedJoinType)"

section \<open>Running a plan to its end\<close>

partial_function (option) exec_all :: "('t, 's) exec_proc \<Rightarrow> 's \<Rightarrow> (pg_error + 't list) option" where
  "exec_all proc s =
     (case proc s of
        None \<Rightarrow> None
      | Some (Inl err) \<Rightarrow> Some (Inl err)
      | Some (Inr (None, s')) \<Rightarrow> Some (Inr [])
      | Some (Inr (Some t, s')) \<Rightarrow>
          Option.bind (exec_all proc s') (\<lambda>r. Some (map_sum id (Cons t) r)))"

declare nl_loop.simps [simp del] exec_all.simps [simp del]

text \<open>
  The contract of a forward scan: \<open>rest s ts\<close> says that the state still delivers the tuples \<open>ts\<close> and then the
  end, and a rescan starts over with the tuples of its parameters.
\<close>

locale exec_node =
  fixes proc :: "('t, 's) exec_proc" and rest :: "'s \<Rightarrow> 't list \<Rightarrow> bool"
  assumes rest_end: "rest s [] \<Longrightarrow> \<exists>s'. proc s = Some (Inr (None, s')) \<and> rest s' []"
    and rest_next: "rest s (t # ts) \<Longrightarrow> \<exists>s'. proc s = Some (Inr (Some t, s')) \<and> rest s' ts"
begin

lemma exec_all_rest: "rest s ts \<Longrightarrow> exec_all proc s = Some (Inr ts)"
proof (induction ts arbitrary: s)
  case Nil
  then show ?case using rest_end [OF Nil] by (auto simp: exec_all.simps)
next
  case (Cons t ts)
  obtain s' where "proc s = Some (Inr (Some t, s'))" "rest s' ts" using rest_next [OF Cons.prems] by blast
  then show ?case using Cons.IH by (subst exec_all.simps) simp
qed

end

locale param_node = exec_node proc rest
  for proc :: "('t, 's) exec_proc" and rest :: "'s \<Rightarrow> 't list \<Rightarrow> bool" +
  fixes rescan :: "'p \<Rightarrow> 's \<Rightarrow> 's" and scan :: "'p \<Rightarrow> 't list" and usable :: "'s \<Rightarrow> bool"
  assumes rescan_rest: "usable s \<Longrightarrow> rest (rescan p s) (scan p)"
    and rest_usable: "rest s ts \<Longrightarrow> usable s"

end
