(* ===== verification/NestLoopProps.thy ===== *)
theory NestLoopProps
  imports NestLoop
begin

text \<open>
  The nested-loop join ends and computes the join: the locale \<open>nest_loop\<close> proves it for any two nodes that meet the
  contract \<open>exec_node\<close>, shows that the join meets the contract again (so joins of joins are covered), and is
  interpreted for joins of values scans.
\<close>

section \<open>What a join means\<close>

fun results :: "'r projection \<Rightarrow> 'r list" where
  "results (SingleValue r) = [r]"
| "results (SetValue rs) = rs"

definition emit :: "('o, 'i, 'p, 'r) NestLoopPlan \<Rightarrow> 'o \<Rightarrow> 'i option \<Rightarrow> 'r list" where
  "emit nl ot it = (if ExecQual (otherqual nl) ot it then results (targetlist nl ot it) else [])"

text \<open>The results an outer tuple still has when the inner tuples \<open>is\<close> are left; \<open>m\<close>: one has matched already.\<close>

definition outer_rest :: "('o, 'i, 'p, 'r) NestLoopPlan \<Rightarrow> 'o \<Rightarrow> bool \<Rightarrow> 'i list \<Rightarrow> 'r list" where
  "outer_rest nl ot m is =
     (let ms = filter (\<lambda>it. joinqual nl ot (Some it)) is in
      case jointype nl of
        JOIN_SEMI \<Rightarrow> (case ms of [] \<Rightarrow> [] | it # _ \<Rightarrow> emit nl ot (Some it))
      | JOIN_ANTI \<Rightarrow> if ms = [] \<and> \<not> m then emit nl ot None else []
      | JOIN_LEFT \<Rightarrow> if ms = [] \<and> \<not> m then emit nl ot None else concat (map (\<lambda>it. emit nl ot (Some it)) ms)
      | _ \<Rightarrow> concat (map (\<lambda>it. emit nl ot (Some it)) ms))"

definition nested_loop :: "('o, 'i, 'p, 'r) NestLoopPlan \<Rightarrow> ('p \<Rightarrow> 'i list) \<Rightarrow> 'o list \<Rightarrow> 'r list" where
  "nested_loop nl scan os = concat (map (\<lambda>ot. outer_rest nl ot False (scan (nestParams nl ot))) os)"

locale nest_loop = outer: exec_node oproc orest + inner: param_node iproc irest irescan scan usable
  for oproc :: "('o, 'os) exec_proc" and orest :: "'os \<Rightarrow> 'o list \<Rightarrow> bool"
    and iproc :: "('i, 'is) exec_proc" and irest :: "'is \<Rightarrow> 'i list \<Rightarrow> bool"
    and irescan :: "'p \<Rightarrow> 'is \<Rightarrow> 'is" and scan :: "'p \<Rightarrow> 'i list" and usable :: "'is \<Rightarrow> bool" +
  fixes nl :: "('o, 'i, 'p, 'r) NestLoopPlan"
begin

definition nl_main :: "('o, 'os, 'i, 'is, 'r) NestLoopState \<Rightarrow> 'o list \<Rightarrow> 'i list \<Rightarrow> 'r list \<Rightarrow> bool" where
  "nl_main node os is rs \<longleftrightarrow>
     orest (outerPlanState node) os \<and>
     (if nl_NeedNewOuter node then usable (innerPlanState node) \<and> rs = nested_loop nl scan os
      else irest (innerPlanState node) is \<and>
        (\<exists>ot. ecxt_outertuple node = Some ot \<and>
           (jointype nl = JOIN_SEMI \<or> jointype nl = JOIN_ANTI \<longrightarrow> \<not> nl_MatchedOuter node) \<and>
           rs = outer_rest nl ot (nl_MatchedOuter node) is @ nested_loop nl scan os))"

definition nl_rest :: "('o, 'os, 'i, 'is, 'r) NestLoopState \<Rightarrow> 'r list \<Rightarrow> bool" where
  "nl_rest node rs \<longleftrightarrow>
     (\<exists>os is main. nl_main node os is main \<and>
        (if ps_TupFromTlist node then \<exists>vs. ps_ProjInfo node = SetValue vs \<and> rs = vs @ main else rs = main))"

definition answers :: "(pg_error + ('r option \<times> ('o, 'os, 'i, 'is, 'r) NestLoopState)) option \<Rightarrow> 'r list \<Rightarrow> bool" where
  "answers x rs \<longleftrightarrow>
     (case rs of [] \<Rightarrow> \<exists>node'. x = Some (Inr (None, node')) \<and> nl_rest node' []
      | r # rs' \<Rightarrow> \<exists>node'. x = Some (Inr (Some r, node')) \<and> nl_rest node' rs')"

text \<open>An iteration either answers or goes on with the same results ahead and less to do.\<close>

definition rank :: "('o, 'os, 'i, 'is, 'r) NestLoopState \<Rightarrow> 'i list \<Rightarrow> nat" where
  "rank node is = (if nl_NeedNewOuter node then 0 else Suc (length is))"

fun progress :: "'r option iteration \<times> ('o, 'os, 'i, 'is, 'r) NestLoopState \<Rightarrow> 'o list \<Rightarrow> nat \<Rightarrow> 'r list \<Rightarrow> bool" where
  "progress (Return r, node') os k rs \<longleftrightarrow> answers (Some (Inr (r, node'))) rs"
| "progress (Loop, node') os k rs \<longleftrightarrow> \<not> ps_TupFromTlist node' \<and> (\<exists>is'. nl_main node' os is' rs \<and> rank node' is' < k)"

lemma project_progress:
  assumes "nl_main node os is main" "\<not> ps_TupFromTlist node" "rank node is < k"
  shows "progress (nl_project nl ot it node) os k (emit nl ot it @ main)"
proof -
  have main: "nl_main (node\<lparr>ps_TupFromTlist := b, ps_ProjInfo := pr\<rparr>) os is main"
    "nl_main (node\<lparr>ps_ProjInfo := pr\<rparr>) os is main" for b pr
    using assms(1) unfolding nl_main_def by (auto split: if_splits)
  have rk: "rank (node\<lparr>ps_ProjInfo := pr\<rparr>) is = rank node is" for pr by (simp add: rank_def)
  show ?thesis
  proof (cases "ExecQual (otherqual nl) ot it")
    case True
    show ?thesis
    proof (cases "targetlist nl ot it")
      case (SingleValue r)
      then show ?thesis using True main
        by (auto simp: nl_project_def emit_def answers_def nl_rest_def)
    next
      case (SetValue rs)
      then show ?thesis using True main assms rk
        by (cases rs) (auto simp: nl_project_def emit_def answers_def nl_rest_def intro!: exI [of _ "is"])
    qed
  qed (use assms in \<open>auto simp: nl_project_def emit_def\<close>)
qed

lemma outer_rest_Nil:
  "outer_rest nl ot m [] = (if \<not> m \<and> (jointype nl = JOIN_LEFT \<or> jointype nl = JOIN_ANTI) then emit nl ot None else [])"
  by (cases "jointype nl") (simp_all add: outer_rest_def)

lemma inner_end_progress:
  assumes "orest (outerPlanState node) os" "usable (innerPlanState node)" "\<not> ps_TupFromTlist node"
  shows "progress (nl_inner_end nl ot node) os (Suc 0) (outer_rest nl ot (nl_MatchedOuter node) [] @ nested_loop nl scan os)"
proof -
  have m: "nl_main (node\<lparr>nl_NeedNewOuter := True\<rparr>) os [] (nested_loop nl scan os)"
    using assms by (simp add: nl_main_def)
  then have "progress (Loop, node\<lparr>nl_NeedNewOuter := True\<rparr>) os (Suc 0) (nested_loop nl scan os)"
    using assms(3) by (auto simp: rank_def)
  then show ?thesis
    using project_progress [OF m, of "Suc 0" ot None] assms(3)
    by (simp add: nl_inner_end_def outer_rest_Nil rank_def)
qed

lemma outer_rest_Cons:
  "outer_rest nl ot m (it # is) =
     (if joinqual nl ot (Some it)
      then (case jointype nl of
              JOIN_SEMI \<Rightarrow> emit nl ot (Some it)
            | JOIN_ANTI \<Rightarrow> []
            | _ \<Rightarrow> emit nl ot (Some it) @ outer_rest nl ot True is)
      else outer_rest nl ot m is)"
  by (cases "jointype nl") (simp_all add: outer_rest_def)

lemma pair_progress:
  assumes "orest (outerPlanState node) os" "irest (innerPlanState node) is" "\<not> ps_TupFromTlist node"
    "\<not> nl_NeedNewOuter node" "ecxt_outertuple node = Some ot"
    "jointype nl = JOIN_SEMI \<or> jointype nl = JOIN_ANTI \<longrightarrow> \<not> nl_MatchedOuter node"
  shows "progress (nl_pair nl ot it node) os (Suc (Suc (length is)))
    (outer_rest nl ot (nl_MatchedOuter node) (it # is) @ nested_loop nl scan os)"
proof (cases "joinqual nl ot (Some it)")
  case False
  have "nl_main node os is (outer_rest nl ot (nl_MatchedOuter node) is @ nested_loop nl scan os)"
    using assms by (simp add: nl_main_def)
  then show ?thesis using False assms(3,4) by (auto simp: nl_pair_def outer_rest_Cons rank_def)
next
  case True
  note us = inner.rest_usable [OF assms(2)]
  consider "jointype nl = JOIN_ANTI" | "jointype nl = JOIN_SEMI" | "jointype nl \<noteq> JOIN_ANTI" "jointype nl \<noteq> JOIN_SEMI" by blast
  then show ?thesis
  proof cases
    case 1
    have "nl_main (node\<lparr>nl_MatchedOuter := True, nl_NeedNewOuter := True\<rparr>) os is (nested_loop nl scan os)"
      using assms(1) us by (simp add: nl_main_def)
    then show ?thesis using True 1 assms(3) by (auto simp: nl_pair_def outer_rest_Cons rank_def)
  next
    case 2
    have "nl_main (node\<lparr>nl_MatchedOuter := True, nl_NeedNewOuter := True\<rparr>) os is (nested_loop nl scan os)"
      using assms(1) us by (simp add: nl_main_def)
    from project_progress [OF this, of "Suc (Suc (length is))" ot "Some it"] show ?thesis
      using True 2 assms(3) by (simp add: nl_pair_def outer_rest_Cons rank_def)
  next
    case 3
    then have "nl_main (node\<lparr>nl_MatchedOuter := True\<rparr>) os is (outer_rest nl ot True is @ nested_loop nl scan os)"
      using assms(1,2,4,5) by (simp add: nl_main_def)
    from project_progress [OF this, of "Suc (Suc (length is))" ot "Some it"] show ?thesis
      using True 3 assms(3,4) by (cases "jointype nl") (simp_all add: nl_pair_def outer_rest_Cons rank_def)
  qed
qed

lemma next_inner_progress:
  assumes "nl_main node os is rs" "\<not> nl_NeedNewOuter node" "ecxt_outertuple node = Some ot" "\<not> ps_TupFromTlist node"
  shows "\<exists>x. nl_next_inner iproc nl ot node = Some (Inr x) \<and> progress x os (rank node is) rs"
proof -
  have m: "orest (outerPlanState node) os" "irest (innerPlanState node) is"
    "jointype nl = JOIN_SEMI \<or> jointype nl = JOIN_ANTI \<longrightarrow> \<not> nl_MatchedOuter node"
    "rs = outer_rest nl ot (nl_MatchedOuter node) is @ nested_loop nl scan os"
    using assms by (auto simp: nl_main_def)
  show ?thesis
  proof (cases "is")
    case Nil
    then obtain s' where s': "iproc (innerPlanState node) = Some (Inr (None, s'))" "irest s' []"
      using inner.rest_end m(2) by blast
    have "progress (nl_inner_end nl ot (node\<lparr>innerPlanState := s'\<rparr>)) os (Suc 0) rs"
      using inner_end_progress [of "node\<lparr>innerPlanState := s'\<rparr>" os ot] m(1,4) Nil inner.rest_usable [OF s'(2)] assms(4) by simp
    then show ?thesis using s'(1) Nil assms(2) by (simp add: nl_next_inner_def rank_def)
  next
    case (Cons it is')
    then obtain s' where s': "iproc (innerPlanState node) = Some (Inr (Some it, s'))" "irest s' is'"
      using inner.rest_next m(2) by blast
    have "progress (nl_pair nl ot it (node\<lparr>innerPlanState := s'\<rparr>)) os (Suc (Suc (length is'))) rs"
      using pair_progress [of "node\<lparr>innerPlanState := s'\<rparr>" os is' ot it] m(1,3,4) Cons s'(2) assms by simp
    then show ?thesis using s'(1) Cons assms(2) by (simp add: nl_next_inner_def rank_def)
  qed
qed

lemma loop_answers:
  "nl_main node os is rs \<Longrightarrow> \<not> ps_TupFromTlist node \<Longrightarrow> answers (nl_loop oproc iproc irescan nl node) rs"
proof (induction "(length os, rank node is)" arbitrary: node os "is" rule: wf_induct [OF wf_lex_prod [OF wf_less_than wf_less_than], consumes 0])
  case 1
  have IH: "answers (nl_loop oproc iproc irescan nl node') rs"
    if "nl_main node' os' is' rs" "\<not> ps_TupFromTlist node'"
      "length os' < length os \<or> length os' = length os \<and> rank node' is' < rank node is" for node' os' is'
    using 1(1) [rule_format, of "(length os', rank node' is')" os' node' is'] that by (auto simp: lex_prod_def)
  have step: "answers (nl_loop oproc iproc irescan nl node) rs"
    if x: "nl_iteration oproc iproc irescan nl node = Some (Inr x)" "progress x os' k rs"
      and less: "length os' < length os \<or> length os' = length os \<and> k \<le> rank node is" for x os' k
  proof -
    obtain r node' where x': "x = (r, node')" by (cases x)
    show ?thesis
    proof (cases r)
      case Return
      then show ?thesis using x x' by (subst nl_loop.simps) simp
    next
      case Loop
      then obtain is' where "nl_main node' os' is' rs" "\<not> ps_TupFromTlist node'" "rank node' is' < k" using x x' by auto
      then have "answers (nl_loop oproc iproc irescan nl node') rs" using less by (intro IH) auto
      then show ?thesis using x x' Loop by (subst nl_loop.simps) simp
    qed
  qed
  show ?case
  proof (cases "nl_NeedNewOuter node")
    case False
    then obtain ot where ot: "ecxt_outertuple node = Some ot" using 1(2) by (auto simp: nl_main_def)
    obtain x where "nl_next_inner iproc nl ot node = Some (Inr x)" "progress x os (rank node is) rs"
      using next_inner_progress [OF 1(2) False ot 1(3)] by blast
    then show ?thesis using False ot by (intro step [of x os "rank node is"]) (simp_all add: nl_iteration_def nl_new_outer_def)
  next
    case True
    then have m: "orest (outerPlanState node) os" "usable (innerPlanState node)" "rs = nested_loop nl scan os"
      using 1(2) by (auto simp: nl_main_def)
    show ?thesis
    proof (cases os)
      case Nil
      then obtain s' where s': "oproc (outerPlanState node) = Some (Inr (None, s'))" "orest s' []"
        using outer.rest_end m(1) by blast
      have "nl_rest (node\<lparr>outerPlanState := s'\<rparr>) []"
        using s'(2) True m(2) 1(3) by (auto simp: nl_rest_def nl_main_def nested_loop_def)
      then have "progress (Return None, node\<lparr>outerPlanState := s'\<rparr>) os 0 rs" using m(3) Nil by (simp add: answers_def nested_loop_def)
      then show ?thesis using s'(1) True by (intro step [of "(Return None, node\<lparr>outerPlanState := s'\<rparr>)" os 0]) (simp_all add: nl_iteration_def nl_new_outer_def)
    next
      case (Cons ot os')
      then obtain s' where s': "oproc (outerPlanState node) = Some (Inr (Some ot, s'))" "orest s' os'"
        using outer.rest_next m(1) by blast
      let ?n = "node\<lparr>outerPlanState := s', ecxt_outertuple := Some ot, nl_NeedNewOuter := False,
        nl_MatchedOuter := False, innerPlanState := irescan (nestParams nl ot) (innerPlanState node)\<rparr>"
      have "nl_main ?n os' (scan (nestParams nl ot)) rs"
        using s'(2) inner.rescan_rest [OF m(2)] m(3) Cons by (simp add: nl_main_def nested_loop_def)
      then obtain x where "nl_next_inner iproc nl ot ?n = Some (Inr x)" "progress x os' (rank ?n (scan (nestParams nl ot))) rs"
        using next_inner_progress [of ?n os' "scan (nestParams nl ot)" rs ot] 1(3) by auto
      then show ?thesis using s'(1) True Cons
        by (intro step [of x os' "rank ?n (scan (nestParams nl ot))"]) (simp_all add: nl_iteration_def nl_new_outer_def)
    qed
  qed
qed

lemma exec_answers: "nl_rest node rs \<Longrightarrow> answers (ExecNestLoop oproc iproc irescan nl node) rs"
proof -
  assume "nl_rest node rs"
  then obtain os "is" main where m: "nl_main node os is main"
    and rs: "if ps_TupFromTlist node then \<exists>vs. ps_ProjInfo node = SetValue vs \<and> rs = vs @ main else rs = main"
    by (auto simp: nl_rest_def)
  have m': "nl_main (node\<lparr>ps_TupFromTlist := b, ps_ProjInfo := pr\<rparr>) os is main"
    "nl_main (node\<lparr>ps_ProjInfo := pr\<rparr>) os is main" for b pr
    using m unfolding nl_main_def by (auto split: if_splits)
  show ?thesis
  proof (cases "ps_TupFromTlist node")
    case False
    then show ?thesis using loop_answers [OF m] rs by (simp add: ExecNestLoop_def)
  next
    case True
    then obtain vs where vs: "ps_ProjInfo node = SetValue vs" "rs = vs @ main" using rs by auto
    show ?thesis
    proof (cases vs)
      case Nil
      then show ?thesis using True vs loop_answers [OF m'(1) [of "SetValue []" False]] by (simp add: ExecNestLoop_def)
    next
      case (Cons v vs')
      then show ?thesis using True vs m'(2) [of "SetValue vs'"]
        by (auto simp: ExecNestLoop_def answers_def nl_rest_def)
    qed
  qed
qed

text \<open>A nested loop over two nodes that meet the contract meets it.\<close>

sublocale joined: exec_node "ExecNestLoop oproc iproc irescan nl" nl_rest
  using exec_answers by unfold_locales (force simp: answers_def)+

lemma joins: "nl_rest node rs \<Longrightarrow> exec_all (ExecNestLoop oproc iproc irescan nl) node = Some (Inr rs)"
  by (rule joined.exec_all_rest)

lemma init_rest:
  "orest os_state os \<Longrightarrow> usable is_state \<Longrightarrow> ExecInitNestLoop nl os_state is_state = Inr node \<Longrightarrow>
   nl_rest node (nested_loop nl scan os)"
  by (auto simp: ExecInitNestLoop_def nl_rest_def nl_main_def split: if_splits)

lemma rescan_nl_rest:
  "orest (orescan (outerPlanState node)) os \<Longrightarrow> \<not> chgParam (outerPlanState node) \<Longrightarrow> usable (innerPlanState node) \<Longrightarrow>
   nl_rest (ExecReScanNestLoop chgParam orescan node) (nested_loop nl scan os)"
  by (auto simp: ExecReScanNestLoop_def nl_rest_def nl_main_def)

end

section \<open>Plans\<close>

text \<open>A cursor run forward is a node; a values scan can be rescanned, whatever the parameters.\<close>

definition forward :: "('t, 's) fetch \<Rightarrow> ('t, 's) exec_proc" where
  "forward proc s = Some (proc ForwardScanDirection s)"

definition cursor_rest :: "('s \<Rightarrow> 't list \<Rightarrow> int \<Rightarrow> bool) \<Rightarrow> 's \<Rightarrow> 't list \<Rightarrow> bool" where
  "cursor_rest rep s ts \<longleftrightarrow> (\<exists>xs i. rep s xs i \<and> ts = drop (nat (i + 1)) xs)"

lemma drop_next: "drop n xs = t # ts \<Longrightarrow> n < length xs \<and> xs ! n = t \<and> drop (Suc n) xs = ts"
  by (metis Cons_nth_drop_Suc drop_eq_Nil linorder_not_le list.distinct(1) list.inject)

lemma cursor_exec_node: "cursor proc rep \<Longrightarrow> exec_node (forward proc) (cursor_rest rep)"
proof (unfold_locales, goal_cases)
  case (1 s)
  then obtain xs i where r: "rep s xs i" "length xs \<le> nat (i + 1)" by (auto simp: cursor_rest_def)
  then have s: "rep s xs i" "int (length xs) \<le> i + 1" using cursor.rep_range [OF 1(1) r(1)] by linarith+
  then obtain s' where s': "proc ForwardScanDirection s = Inr (None, s')" "rep s' xs (int (length xs))"
    using cursor.fetch_end [OF 1(1)] by blast
  then have "cursor_rest rep s' []" by (auto simp: cursor_rest_def intro!: exI [of _ xs] exI [of _ "int (length xs)"])
  then show ?case using s' by (auto simp: forward_def)
next
  case (2 s t ts)
  then obtain xs i where s: "rep s xs i" "drop (nat (i + 1)) xs = t # ts" by (auto simp: cursor_rest_def)
  have i: "- 1 \<le> i" using cursor.rep_range [OF 2(1) s(1)] by simp
  note d = drop_next [OF s(2)]
  have "i + 1 < int (length xs)" using d i by linarith
  then obtain s' where s': "proc ForwardScanDirection s = Inr (Some (xs ! nat (i + 1)), s')" "rep s' xs (i + 1)"
    using cursor.fetch_forward [OF 2(1) s(1)] by blast
  have "nat (i + 1 + 1) = Suc (nat (i + 1))" using i by simp
  then have "cursor_rest rep s' ts" unfolding cursor_rest_def using s'(2) d
    by (intro exI [of _ xs] exI [of _ "i + 1"]) simp
  then show ?case using s' d by (auto simp: forward_def)
qed

definition values_rest :: "('x \<Rightarrow> 'd) \<Rightarrow> 'x list list \<Rightarrow> 'x ValuesScanState \<Rightarrow> 'd list list \<Rightarrow> bool" where
  "values_rest ev rows s ts \<longleftrightarrow> exprlists s = rows \<and> [] \<notin> set rows \<and> cursor_rest (values_rep ev) s ts"

definition values_usable :: "'x list list \<Rightarrow> 'x ValuesScanState \<Rightarrow> bool" where
  "values_usable rows s \<longleftrightarrow> exprlists s = rows \<and> [] \<notin> set rows"

lemma values_forward_exprlists:
  "forward (values_fetch ev) s = Some (Inr (r, s')) \<Longrightarrow> exprlists s' = exprlists s"
  by (auto simp: forward_def values_fetch_def ValuesNext_def Let_def)

interpretation values_node: exec_node "forward (values_fetch ev)" "cursor_rest (values_rep ev)" for ev
  by (rule cursor_exec_node) unfold_locales

interpretation values_param: param_node "forward (values_fetch ev)" "values_rest ev rows" "\<lambda>p. ExecReScanValuesScan"
  "\<lambda>p. map (map ev) rows" "values_usable rows" for ev rows
proof (unfold_locales, goal_cases)
  case (1 s)
  then obtain s' where "forward (values_fetch ev) s = Some (Inr (None, s'))" "cursor_rest (values_rep ev) s' []"
    using values_node.rest_end by (auto simp: values_rest_def)
  then show ?case using 1 values_forward_exprlists by (auto simp: values_rest_def)
next
  case (2 s t ts)
  then obtain s' where "forward (values_fetch ev) s = Some (Inr (Some t, s'))" "cursor_rest (values_rep ev) s' ts"
    using values_node.rest_next [of ev s t ts] by (auto simp: values_rest_def)
  then show ?case using 2 values_forward_exprlists by (auto simp: values_rest_def)
next
  case (3 s p)
  then show ?case
    by (force simp: values_rest_def values_usable_def cursor_rest_def values_rep_def ExecReScanValuesScan_def
        intro!: exI [of _ "map (map ev) rows"] exI [of _ "- 1"])
next
  case (4 s ts) then show ?case by (simp add: values_rest_def values_usable_def)
qed

interpretation values_join: nest_loop "forward (values_fetch ev)" "values_rest ev rows" "forward (values_fetch ev')"
  "values_rest ev' rows'" "\<lambda>p. ExecReScanValuesScan" "\<lambda>p. map (map ev') rows'" "values_usable rows'" nl
  for ev rows ev' rows' nl
  by unfold_locales

lemma nest_loop_plan: "exec_node oproc orest \<Longrightarrow> param_node iproc irest irescan scan usable \<Longrightarrow>
    nest_loop oproc orest iproc irest irescan scan usable"
  by (simp add: nest_loop_def)

section \<open>Properties\<close>

text \<open>C5: a nested-loop join ends and delivers exactly what its join type means: for each outer tuple in turn,
  with the inner rows of its parameters in order, the projections of all matches that pass (inner), those or the
  tuple with nulls (left), of the first match (semi), or of the tuple with nulls when there is no match (anti).\<close>

theorem nested_loop_join:
  assumes "exec_node oproc orest" "param_node iproc irest irescan scan usable"
    and "orest outer_state os" "usable inner_state" "ExecInitNestLoop nl outer_state inner_state = Inr node"
  shows "exec_all (ExecNestLoop oproc iproc irescan nl) node = Some (Inr (nested_loop nl scan os))"
proof -
  note np = nest_loop_plan [OF assms(1,2)]
  show ?thesis by (rule nest_loop.joins [OF np nest_loop.init_rest [OF np assms(3-5)]])
qed

theorem nested_loop_join_witness:
  "exec_all (ExecNestLoop (forward (values_fetch (\<lambda>x. x))) (forward (values_fetch (\<lambda>x. x))) (\<lambda>p. ExecReScanValuesScan)
      \<lparr>jointype = JOIN_LEFT, joinqual = (\<lambda>ot it. case it of None \<Rightarrow> False | Some r \<Rightarrow> hd ot = hd r), otherqual = None,
       targetlist = (\<lambda>ot it. SingleValue (ot, it)), nestParams = (\<lambda>ot. ())\<rparr>)
     \<lparr>nl_NeedNewOuter = True, nl_MatchedOuter = False, ps_TupFromTlist = False, ps_ProjInfo = SetValue [],
      ecxt_outertuple = None, outerPlanState = ExecInitValuesScan [[1], [2 :: int]],
      innerPlanState = ExecInitValuesScan [[2, 5], [2, 6 :: int]]\<rparr>
   = Some (Inr [([1], None), ([2], Some [2, 5]), ([2], Some [2, 6])])"
proof -
  let ?nl = "\<lparr>jointype = JOIN_LEFT, joinqual = (\<lambda>ot it. case it of None \<Rightarrow> False | Some r \<Rightarrow> hd ot = hd r), otherqual = None,
       targetlist = (\<lambda>ot it. SingleValue (ot :: int list, it :: int list option)), nestParams = (\<lambda>ot. ())\<rparr>"
  have o: "exec_node (forward (values_fetch (\<lambda>x. x))) (cursor_rest (values_rep (\<lambda>x. x :: int)))" by unfold_locales
  have i: "param_node (forward (values_fetch (\<lambda>x. x))) (values_rest (\<lambda>x. x) [[2, 5], [2, 6 :: int]]) (\<lambda>p :: unit. ExecReScanValuesScan)
      (\<lambda>p. map (map (\<lambda>x. x)) [[2, 5], [2, 6]]) (values_usable [[2, 5], [2, 6]])" by unfold_locales
  have "exec_all (ExecNestLoop (forward (values_fetch (\<lambda>x. x))) (forward (values_fetch (\<lambda>x. x))) (\<lambda>p. ExecReScanValuesScan) ?nl)
     \<lparr>nl_NeedNewOuter = True, nl_MatchedOuter = False, ps_TupFromTlist = False, ps_ProjInfo = SetValue [],
      ecxt_outertuple = None, outerPlanState = ExecInitValuesScan [[1], [2]],
      innerPlanState = ExecInitValuesScan [[2, 5], [2, 6]]\<rparr>
    = Some (Inr (nested_loop ?nl (\<lambda>p. map (map (\<lambda>x. x)) [[2, 5], [2, 6]]) [[1], [2]]))"
  proof (rule nested_loop_join [OF o i])
    show "cursor_rest (values_rep (\<lambda>x. x)) (ExecInitValuesScan [[1], [2]]) [[1], [2 :: int]]"
      unfolding cursor_rest_def
      by (intro exI [of _ "[[1], [2]]"] exI [of _ "- 1"]) (simp add: values_rep_def ExecInitValuesScan_def)
    show "values_usable [[2, 5], [2, 6]] (ExecInitValuesScan [[2, 5], [2, 6 :: int]])"
      by (simp add: values_usable_def ExecInitValuesScan_def)
  qed (simp add: ExecInitNestLoop_def)
  then show ?thesis by (simp add: nested_loop_def outer_rest_def emit_def ExecQual_def)
qed

text \<open>A rescan at any moment makes the join start over: it ends again, with the results for the rescanned
  outer rows, also in the middle of a projected set.\<close>

lemma nested_loop_rescan:
  assumes "exec_node oproc orest" "param_node iproc irest irescan scan usable"
    and "orest (orescan (outerPlanState node)) os" "\<not> chgParam (outerPlanState node)" "usable (innerPlanState node)"
  shows "exec_all (ExecNestLoop oproc iproc irescan nl) (ExecReScanNestLoop chgParam orescan node)
    = Some (Inr (nested_loop nl scan os))"
proof -
  note np = nest_loop_plan [OF assms(1,2)]
  have "nest_loop.nl_rest orest irest scan usable nl (ExecReScanNestLoop chgParam orescan node) (nested_loop nl scan os)"
    using assms(3-5) by (intro nest_loop.rescan_nl_rest [OF np])
  then show ?thesis by (rule nest_loop.joins [OF np])
qed

lemma nested_loop_rescan_witness:
  "exec_all (ExecNestLoop (forward (values_fetch (\<lambda>x. x))) (forward (values_fetch (\<lambda>x. x))) (\<lambda>p. ExecReScanValuesScan)
      \<lparr>jointype = JOIN_ANTI, joinqual = (\<lambda>ot it. case it of None \<Rightarrow> False | Some r \<Rightarrow> hd ot = hd r), otherqual = None,
       targetlist = (\<lambda>ot it. SingleValue ot), nestParams = (\<lambda>ot. ())\<rparr>)
     (ExecReScanNestLoop (\<lambda>_. False) ExecReScanValuesScan
     \<lparr>nl_NeedNewOuter = False, nl_MatchedOuter = True, ps_TupFromTlist = True, ps_ProjInfo = SetValue [[7]],
      ecxt_outertuple = Some [9], outerPlanState = \<lparr>exprlists = [[1], [2 :: int]], curr_idx = 1, marked_idx = 0\<rparr>,
      innerPlanState = \<lparr>exprlists = [[2 :: int]], curr_idx = 0, marked_idx = 0\<rparr>\<rparr>)
   = Some (Inr [[1]])"
proof -
  let ?nl = "\<lparr>jointype = JOIN_ANTI, joinqual = (\<lambda>ot it. case it of None \<Rightarrow> False | Some r \<Rightarrow> hd ot = hd r), otherqual = None,
       targetlist = (\<lambda>ot it. SingleValue (ot :: int list)), nestParams = (\<lambda>ot. ())\<rparr> :: (int list, int list, unit, int list) NestLoopPlan"
  let ?node = "\<lparr>nl_NeedNewOuter = False, nl_MatchedOuter = True, ps_TupFromTlist = True, ps_ProjInfo = SetValue [[7]],
      ecxt_outertuple = Some [9], outerPlanState = \<lparr>exprlists = [[1], [2 :: int]], curr_idx = 1, marked_idx = 0\<rparr>,
      innerPlanState = \<lparr>exprlists = [[2 :: int]], curr_idx = 0, marked_idx = 0\<rparr>\<rparr>"
  have o: "exec_node (forward (values_fetch (\<lambda>x. x))) (cursor_rest (values_rep (\<lambda>x. x :: int)))" by unfold_locales
  have i: "param_node (forward (values_fetch (\<lambda>x. x))) (values_rest (\<lambda>x. x) [[2 :: int]]) (\<lambda>p :: unit. ExecReScanValuesScan)
      (\<lambda>p. map (map (\<lambda>x. x)) [[2]]) (values_usable [[2]])" by unfold_locales
  have "exec_all (ExecNestLoop (forward (values_fetch (\<lambda>x. x))) (forward (values_fetch (\<lambda>x. x))) (\<lambda>p. ExecReScanValuesScan) ?nl)
     (ExecReScanNestLoop (\<lambda>_. False) ExecReScanValuesScan ?node)
    = Some (Inr (nested_loop ?nl (\<lambda>p. map (map (\<lambda>x. x)) [[2]]) [[1], [2]]))"
  proof (rule nested_loop_rescan [OF o i])
    show "cursor_rest (values_rep (\<lambda>x. x)) (ExecReScanValuesScan (outerPlanState ?node)) [[1], [2 :: int]]"
      unfolding cursor_rest_def
      by (intro exI [of _ "[[1], [2]]"] exI [of _ "- 1"]) (simp add: values_rep_def ExecReScanValuesScan_def)
    show "values_usable [[2]] (innerPlanState ?node)" by (simp add: values_usable_def)
  qed simp
  then show ?thesis by (simp add: nested_loop_def outer_rest_def emit_def ExecQual_def)
qed

end
