(* ===== verification/HashFunc.thy ===== *)
theory HashFunc
  imports Prelude
begin

text \<open>
  The hash functions of access/hash/hashfunc.c: Bob Jenkins' hash of a byte array, with the code paths for aligned
  and unaligned data on machines of either byte order, and the functions of the data types on top of it.  Not
  modelled: \<open>hashfloat4\<close> and \<open>hashfloat8\<close>, which hash the representation of a floating-point number.
\<close>

unbundle bit_operations_syntax

section \<open>Mixing\<close>

type_synonym uint32 = "32 word"
type_synonym abc = "uint32 \<times> uint32 \<times> uint32"

definition rot :: "uint32 \<Rightarrow> nat \<Rightarrow> uint32" where
  "rot x k = push_bit k x OR drop_bit (32 - k) x"

text \<open>
  A line \<open>x -= z; x ^= rot(z, k); z += y\<close> of \<open>mix\<close>.  The six lines have the three variables in the roles
  \<open>(x, y, z)\<close>, which move on by one from line to line.
\<close>

definition mix_line :: "nat \<Rightarrow> abc \<Rightarrow> abc" where
  "mix_line k xyz = (case xyz of (x, y, z) \<Rightarrow>
     (let x = x - z; x = x XOR rot z k; z = z + y in (x, y, z)))"

fun next_role :: "abc \<Rightarrow> abc" where
  "next_role (x, y, z) = (y, z, x)"

definition mix :: "abc \<Rightarrow> abc" where
  "mix abc =
     (let l1 = mix_line 4 abc;
          l2 = mix_line 6 (next_role l1);
          l3 = mix_line 8 (next_role l2);
          l4 = mix_line 16 (next_role l3);
          l5 = mix_line 19 (next_role l4);
          l6 = mix_line 4 (next_role l5)
      in next_role l6)"

text \<open>A line \<open>x ^= y; x -= rot(y, k)\<close> of \<open>final\<close>.\<close>

definition final_line :: "uint32 \<Rightarrow> uint32 \<Rightarrow> nat \<Rightarrow> uint32" where
  "final_line x y k = (let x = x XOR y in x - rot y k)"

definition final :: "abc \<Rightarrow> abc" where
  "final abc = (case abc of (a, b, c) \<Rightarrow>
     (let c = final_line c b 14;
          a = final_line a c 11;
          b = final_line b a 25;
          c = final_line c b 16;
          a = final_line a c 4;
          b = final_line b a 14;
          c = final_line c b 24
      in (a, b, c)))"

section \<open>Hashing bytes\<close>

text \<open>The byte at an index as a \<open>uint32\<close>, shifted; and a word in the byte order of the machine.\<close>

definition k_shl :: "bytes \<Rightarrow> nat \<Rightarrow> nat \<Rightarrow> uint32" where
  "k_shl k i s = push_bit s (ucast (k ! i))"

definition fetch32 :: "bool \<Rightarrow> bytes \<Rightarrow> nat \<Rightarrow> uint32" where
  "fetch32 big k i =
     (if big then word_of_nat (((unat (k ! i) * 256 + unat (k ! (i + 1))) * 256 + unat (k ! (i + 2))) * 256 + unat (k ! (i + 3)))
      else word_of_nat (((unat (k ! (i + 3)) * 256 + unat (k ! (i + 2))) * 256 + unat (k ! (i + 1))) * 256 + unat (k ! i)))"

text \<open>Twelve bytes at a time; \<open>len\<close> bytes are left.\<close>

fun hash_blocks_aligned :: "bool \<Rightarrow> abc \<Rightarrow> bytes \<Rightarrow> abc \<times> bytes" where
  "hash_blocks_aligned big (a, b, c) k =
     (if length k \<ge> 12
      then hash_blocks_aligned big (mix (a + fetch32 big k 0, b + fetch32 big k 4, c + fetch32 big k 8)) (drop 12 k)
      else ((a, b, c), k))"

definition bytes32 :: "bool \<Rightarrow> bytes \<Rightarrow> nat \<Rightarrow> uint32" where
  "bytes32 big k i =
     (if big then k_shl k (i + 3) 0 + k_shl k (i + 2) 8 + k_shl k (i + 1) 16 + k_shl k i 24
      else k_shl k i 0 + k_shl k (i + 1) 8 + k_shl k (i + 2) 16 + k_shl k (i + 3) 24)"

fun hash_blocks_unaligned :: "bool \<Rightarrow> abc \<Rightarrow> bytes \<Rightarrow> abc \<times> bytes" where
  "hash_blocks_unaligned big (a, b, c) k =
     (if length k \<ge> 12
      then hash_blocks_unaligned big (mix (a + bytes32 big k 0, b + bytes32 big k 4, c + bytes32 big k 8)) (drop 12 k)
      else ((a, b, c), k))"

declare hash_blocks_aligned.simps [simp del] hash_blocks_unaligned.simps [simp del]

text \<open>
  The \<open>switch\<close> on what is left falls through, so a case adds its byte if the length is at least its label.
  A byte goes to its place in the word; the lowest byte of \<open>c\<close> stays free.
\<close>

definition add_case :: "bytes \<Rightarrow> nat \<Rightarrow> nat \<Rightarrow> nat \<Rightarrow> uint32 \<Rightarrow> uint32" where
  "add_case k label i s v = (if length k \<ge> label then v + k_shl k i s else v)"

definition tail_c :: "bool \<Rightarrow> bytes \<Rightarrow> uint32 \<Rightarrow> uint32" where
  "tail_c big k c =
     (if big then add_case k 9 8 24 (add_case k 10 9 16 (add_case k 11 10 8 c))
      else add_case k 9 8 8 (add_case k 10 9 16 (add_case k 11 10 24 c)))"

text \<open>The aligned path fetches whole words where it can.\<close>

definition tail_aligned :: "bool \<Rightarrow> abc \<Rightarrow> bytes \<Rightarrow> abc" where
  "tail_aligned big abc k = (case abc of (a, b, c) \<Rightarrow>
     if length k \<ge> 8 then (a + fetch32 big k 0, b + fetch32 big k 4, tail_c big k c)
     else if length k \<ge> 4
     then (a + fetch32 big k 0,
           (if big then add_case k 5 4 24 (add_case k 6 5 16 (add_case k 7 6 8 b))
            else add_case k 5 4 0 (add_case k 6 5 8 (add_case k 7 6 16 b))), c)
     else ((if big then add_case k 1 0 24 (add_case k 2 1 16 (add_case k 3 2 8 a))
            else add_case k 1 0 0 (add_case k 2 1 8 (add_case k 3 2 16 a))), b, c))"

definition tail_unaligned :: "bool \<Rightarrow> abc \<Rightarrow> bytes \<Rightarrow> abc" where
  "tail_unaligned big abc k = (case abc of (a, b, c) \<Rightarrow>
     ((if big then add_case k 1 0 24 (add_case k 2 1 16 (add_case k 3 2 8 (add_case k 4 3 0 a)))
       else add_case k 1 0 0 (add_case k 2 1 8 (add_case k 3 2 16 (add_case k 4 3 24 a)))),
      (if big then add_case k 5 4 24 (add_case k 6 5 16 (add_case k 7 6 8 (add_case k 8 7 0 b)))
       else add_case k 5 4 0 (add_case k 6 5 8 (add_case k 7 6 16 (add_case k 8 7 24 b)))),
      tail_c big k c))"

definition hash_init :: "nat \<Rightarrow> uint32" where
  "hash_init keylen = 0x9e3779b9 + word_of_nat keylen + 3923095"

definition hash_any :: "bool \<Rightarrow> bool \<Rightarrow> bytes \<Rightarrow> uint32" where
  "hash_any big aligned k =
     (let abc = (hash_init (length k), hash_init (length k), hash_init (length k));
          abc = (if aligned
                 then (case hash_blocks_aligned big abc k of (abc, rest) \<Rightarrow> tail_aligned big abc rest)
                 else (case hash_blocks_unaligned big abc k of (abc, rest) \<Rightarrow> tail_unaligned big abc rest))
      in snd (snd (final abc)))"

definition hash_uint32 :: "uint32 \<Rightarrow> uint32" where
  "hash_uint32 k = snd (snd (final (hash_init 4 + k, hash_init 4, hash_init 4)))"

section \<open>The hash functions of the data types\<close>

definition hashchar :: "8 word \<Rightarrow> uint32" where "hashchar x = hash_uint32 (scast x)"
definition hashint2 :: "16 word \<Rightarrow> uint32" where "hashint2 x = hash_uint32 (scast x)"
definition hashint4 :: "32 word \<Rightarrow> uint32" where "hashint4 x = hash_uint32 x"
definition hashoid :: "32 word \<Rightarrow> uint32" where "hashoid x = hash_uint32 x"
definition hashenum :: "32 word \<Rightarrow> uint32" where "hashenum x = hash_uint32 x"

definition hashint8 :: "64 word \<Rightarrow> uint32" where
  "hashint8 val =
     (let lohalf = ucast val :: uint32; hihalf = ucast (drop_bit 32 val) :: uint32;
          lohalf = lohalf XOR (if sint val \<ge> 0 then hihalf else NOT hihalf)
      in hash_uint32 lohalf)"

text \<open>A name is a C string in a buffer: its hash ends at the first zero byte.\<close>

definition hashname :: "bool \<Rightarrow> bool \<Rightarrow> bytes \<Rightarrow> uint32" where
  "hashname big aligned key = hash_any big aligned (takeWhile (\<lambda>b. b \<noteq> 0) key)"

definition hashtext :: "bool \<Rightarrow> bool \<Rightarrow> bytes \<Rightarrow> uint32" where "hashtext big aligned key = hash_any big aligned key"
definition hashvarlena :: "bool \<Rightarrow> bool \<Rightarrow> bytes \<Rightarrow> uint32" where "hashvarlena big aligned key = hash_any big aligned key"

text \<open>A \<open>uint32\<close> in memory.\<close>

definition bytes_of32 :: "bool \<Rightarrow> uint32 \<Rightarrow> bytes" where
  "bytes_of32 big w =
     (let bs = [ucast w, ucast (drop_bit 8 w), ucast (drop_bit 16 w), ucast (drop_bit 24 w)] in if big then rev bs else bs)"

section \<open>Reversing the mix\<close>

definition unmix_line :: "nat \<Rightarrow> abc \<Rightarrow> abc" where
  "unmix_line k xyz = (case xyz of (x, y, z) \<Rightarrow>
     (let z = z - y; x = x XOR rot z k; x = x + z in (x, y, z)))"

fun prev_role :: "abc \<Rightarrow> abc" where
  "prev_role (y, z, x) = (x, y, z)"

definition unmix :: "abc \<Rightarrow> abc" where
  "unmix abc =
     (let l6 = unmix_line 4 (prev_role abc);
          l5 = unmix_line 19 (prev_role l6);
          l4 = unmix_line 16 (prev_role l5);
          l3 = unmix_line 8 (prev_role l4);
          l2 = unmix_line 6 (prev_role l3)
      in unmix_line 4 (prev_role l2))"

lemma xor_cancel: "(x XOR y) XOR y = (x :: uint32)"
  by (simp add: xor.assoc)

lemma unmix_mix_line: "unmix_line k (mix_line k xyz) = xyz"
  by (cases xyz) (simp add: mix_line_def unmix_line_def Let_def xor_cancel)

lemma mix_unmix_line: "mix_line k (unmix_line k xyz) = xyz"
  by (cases xyz) (simp add: mix_line_def unmix_line_def Let_def xor_cancel)

lemma roles [simp]: "prev_role (next_role xyz) = xyz" "next_role (prev_role xyz) = xyz"
  by (cases xyz; simp)+

lemma unmix_mix: "unmix (mix abc) = abc"
  by (simp add: unmix_def mix_def Let_def unmix_mix_line)

lemma mix_unmix: "mix (unmix abc) = abc"
  by (simp add: unmix_def mix_def Let_def mix_unmix_line)

section \<open>The two paths agree\<close>

lemma k_shl_nat: "k_shl k i s = word_of_nat (unat (k ! i) * 2 ^ s)"
  by (simp add: k_shl_def push_bit_eq_mult)

lemma fetch_bytes: "fetch32 big k i = bytes32 big k i"
  unfolding fetch32_def bytes32_def k_shl_nat
  by (simp add: algebra_simps)

lemma blocks_agree: "hash_blocks_unaligned big abc k = hash_blocks_aligned big abc k"
proof (induction big abc k rule: hash_blocks_aligned.induct)
  case (1 big a b c k)
  then show ?case
    by (subst hash_blocks_unaligned.simps, subst hash_blocks_aligned.simps) (simp add: fetch_bytes)
qed

lemma blocks_short: "length (snd (hash_blocks_aligned big abc k)) < 12"
proof (induction big abc k rule: hash_blocks_aligned.induct)
  case (1 big a b c k)
  then show ?case by (subst hash_blocks_aligned.simps) simp
qed

lemma tails_agree: "tail_unaligned big abc k = tail_aligned big abc k"
proof -
  obtain a b c where abc: "abc = (a, b, c)" by (cases abc)
  consider "length k \<ge> 8" | "length k \<ge> 4" "length k < 8" | "length k < 4" by linarith
  then show ?thesis
    by cases (auto simp: abc tail_unaligned_def tail_aligned_def add_case_def fetch_bytes bytes32_def tail_c_def
      algebra_simps numeral_2_eq_2)
qed

lemma paths_agree: "hash_any big aligned k = hash_any big False k"
  by (cases aligned) (simp_all add: hash_any_def Let_def blocks_agree tails_agree case_prod_unfold)

lemma byte_at: "unat (ucast (drop_bit s (w :: uint32)) :: byte) = unat w div 2 ^ s mod 256"
proof -
  have "unat (ucast (drop_bit s w) :: byte) = unat (drop_bit s w) mod 256"
    by (simp add: unsigned_ucast_eq take_bit_eq_mod)
  moreover have "unat (drop_bit s w) = unat w div 2 ^ s" unfolding unat_drop_bit_eq by (simp add: drop_bit_eq_div)
  ultimately show ?thesis by simp
qed
   
lemma four_bytes:
  "((((n :: nat) div 2 ^ 24 mod 256) * 256 + n div 2 ^ 16 mod 256) * 256 + n div 2 ^ 8 mod 256) * 256 + n div 2 ^ 0 mod 256 = n"
  if "n < 2 ^ 32"
proof -
  have step: "y div 256 * 256 + y mod 256 = (y :: nat)" for y by simp
  have top: "n div 16777216 mod 256 = n div 16777216" using that by simp
  have d: "n div 16777216 = n div 65536 div 256" "n div 65536 = n div 256 div 256"
    by (simp_all flip: div_mult2_eq)
  have "(((n div 16777216) * 256 + n div 65536 mod 256) * 256 + n div 256 mod 256) * 256 + n mod 256 = n"
    unfolding d step ..
  then show ?thesis using top by simp
qed

lemma fetch_bytes_of32: "fetch32 big (bytes_of32 big w) 0 = w"
proof -
  have n: "unat w < 2 ^ 32" using unsigned_less [of w] by simp
  have b: "unat (ucast w :: byte) = unat w div 2 ^ 0 mod 256" using byte_at [of 0 w] by simp
  have "fetch32 big (bytes_of32 big w) 0 = word_of_nat (((unat w div 2 ^ 24 mod 256 * 256 + unat w div 2 ^ 16 mod 256) * 256
      + unat w div 2 ^ 8 mod 256) * 256 + unat w div 2 ^ 0 mod 256)"
    by (cases big) (simp_all only: fetch32_def bytes_of32_def Let_def if_True if_False rev.simps append.simps nth_Cons_0 nth_Cons_Suc
        add_0 One_nat_def numeral_2_eq_2 numeral_3_eq_3 byte_at b plus_nat.add_0)
  then show ?thesis unfolding four_bytes [OF n] by simp
qed

lemma hash_uint32_any: "hash_uint32 w = hash_any big True (bytes_of32 big w)"
proof -
  have len: "length (bytes_of32 b w) = 4" for b by (simp add: bytes_of32_def Let_def)
  show ?thesis
    by (simp add: hash_any_def hash_uint32_def len hash_blocks_aligned.simps tail_aligned_def add_case_def fetch_bytes_of32
        Let_def)
qed

section \<open>Integers of different widths\<close>

lemma high_half: "sint (val :: 64 word) = sint (x :: uint32) \<Longrightarrow>
  ucast val = x \<and> (ucast (drop_bit 32 val) :: uint32) = (if sint val \<ge> 0 then 0 else NOT 0)"
proof -
  assume v: "sint val = sint x"
  then have val: "val = scast x" by (simp add: scast_eq flip: v)
  have low: "ucast val = x"
  proof (rule bit_word_eqI)
    fix n assume "n < LENGTH(32)"
    then show "bit (ucast val :: uint32) n = bit x n" by (simp add: val bit_ucast_iff bit_signed_iff)
  qed
  have "(ucast (drop_bit 32 val) :: uint32) = (if sint val \<ge> 0 then 0 else NOT 0)"
  proof (rule bit_word_eqI)
    fix n assume n: "n < LENGTH(32)"
    have "bit (ucast (drop_bit 32 val) :: uint32) n = bit x 31"
      using n by (simp add: val bit_ucast_iff bit_signed_iff bit_drop_bit_eq min_def)
    moreover have "bit x 31 \<longleftrightarrow> sint val < 0" unfolding v using bit_last_iff [of x] by simp
    ultimately show "bit (ucast (drop_bit 32 val) :: uint32) n = bit (if sint val \<ge> 0 then 0 else NOT 0 :: uint32) n"
      using n by (simp add: bit_not_iff)
  qed
  then show ?thesis using low by simp
qed

section \<open>Properties\<close>

text \<open>\<open>mix\<close> is reversible, as its comment says: \<open>unmix\<close> undoes it, before and after.\<close>

lemma mix_reversible: "unmix (mix abc) = abc \<and> mix (unmix abc) = abc \<and> bij mix"
  using unmix_mix mix_unmix by (metis bij_betw_byWitness bijI' top_greatest)

text \<open>C33: the paths for aligned and unaligned data compute the same hash, for every length and either byte order,
  and \<open>hash_uint32\<close> the hash of the four bytes of its argument in memory.\<close>

theorem hash_paths_agree:
  "hash_any big True k = hash_any big False k \<and> hash_uint32 w = hash_any big aligned (bytes_of32 big w)"
  using paths_agree [of big True k] hash_uint32_any [of w big] paths_agree [of big aligned "bytes_of32 big w"]
    paths_agree [of big True "bytes_of32 big w"] by simp

text \<open>Equal integers of different types have equal hashes, so cross-type hash joins find their matches.\<close>

lemma integer_hashes_agree:
  assumes "sint (val :: 64 word) = sint (x :: uint32)"
  shows "hashint8 val = hashint4 x \<and> (sint x = sint (y :: 16 word) \<longrightarrow> hashint4 x = hashint2 y)"
proof -
  have "hashint8 val = hashint4 x" using high_half [OF assms] by (simp add: hashint8_def hashint4_def Let_def)
  moreover have "hashint4 x = hashint2 y" if "sint x = sint y"
  proof -
    have "x = scast y" using that by (simp add: scast_eq flip: that)
    then show ?thesis by (simp add: hashint4_def hashint2_def)
  qed
  ultimately show ?thesis by simp
qed

lemma integer_hashes_agree_witness: "hashint8 (- 5) = hashint4 (- 5) \<and> hashint4 (- 5) = hashint2 (- 5)"
  using integer_hashes_agree [of "- 5" "- 5" "- 5"] by simp

end
