(* ===== verification/SimJoin.thy ===== *)
theory SimJoin
  imports SimIndex NestLoopProps HashFunc
begin

text \<open>
  The similarity join that a nested loop turns into (executor/nodeSimjoin.c, and the block of
  executor/nodeNestloop.c that looks for a similarity operator among the join clauses): the search for the operator
  and the join columns, the construction of the inverted index from the inner plan, and the errors it ends with.
\<close>

section \<open>Join clauses\<close>

text \<open>
  Expressions as the planner leaves them in a join qualification.  \<open>OpExpr\<close>, \<open>DistinctExpr\<close> and \<open>NullIfExpr\<close> are
  the same structure; in a \<open>FuncExpr\<close> the function stands where they have the operator.
\<close>

datatype Expr =
    Var (varno: nat) (varattno: int) (varlevelsup: nat)
  | Const
  | Param
  | FuncExpr nat "Expr list"
  | OpExpr nat "Expr list"
  | DistinctExpr nat "Expr list"
  | NullIfExpr nat "Expr list"
  | ScalarArrayOpExpr nat "Expr list"
  | BoolExpr "Expr list"
  | RelabelType Expr
  | CoalesceExpr "Expr list"
  | NullTest Expr

definition INNER :: nat where "INNER = 65000"
definition OUTER :: nat where "OUTER = 65001"

text \<open>The tag of the state node \<open>ExecInitExpr\<close> makes for an expression; the state points to the expression.\<close>

datatype NodeTag = T_ExprState | T_FuncExprState | T_ScalarArrayOpExprState | T_BoolExprState | T_GenericExprState
  | T_CoalesceExprState | T_NullTestState

record ExprState =
  expr_type :: NodeTag
  expr :: Expr

fun state_tag :: "Expr \<Rightarrow> NodeTag" where
  "state_tag (Var _ _ _) = T_ExprState"
| "state_tag Const = T_ExprState"
| "state_tag Param = T_ExprState"
| "state_tag (FuncExpr _ _) = T_FuncExprState"
| "state_tag (OpExpr _ _) = T_FuncExprState"
| "state_tag (DistinctExpr _ _) = T_FuncExprState"
| "state_tag (NullIfExpr _ _) = T_FuncExprState"
| "state_tag (ScalarArrayOpExpr _ _) = T_ScalarArrayOpExprState"
| "state_tag (BoolExpr _) = T_BoolExprState"
| "state_tag (RelabelType _) = T_GenericExprState"
| "state_tag (CoalesceExpr _) = T_CoalesceExprState"
| "state_tag (NullTest _) = T_NullTestState"

definition ExecInitExpr :: "Expr \<Rightarrow> ExprState" where
  "ExecInitExpr e = \<lparr>expr_type = state_tag e, expr = e\<rparr>"

text \<open>\<open>pull_var_clause\<close>: the variables of an expression, appended to a list.\<close>

fun pull_var_clause_walker :: "Expr \<Rightarrow> Expr list \<Rightarrow> pg_error + Expr list" and
    pull_var_clause_walkers :: "Expr list \<Rightarrow> Expr list \<Rightarrow> pg_error + Expr list" where
  "pull_var_clause_walker (Var n a l) varlist = (if l \<noteq> 0 then Inl UpperLevelVar else Inr (varlist @ [Var n a l]))"
| "pull_var_clause_walker Const varlist = Inr varlist"
| "pull_var_clause_walker Param varlist = Inr varlist"
| "pull_var_clause_walker (FuncExpr f args) varlist = pull_var_clause_walkers args varlist"
| "pull_var_clause_walker (OpExpr f args) varlist = pull_var_clause_walkers args varlist"
| "pull_var_clause_walker (DistinctExpr f args) varlist = pull_var_clause_walkers args varlist"
| "pull_var_clause_walker (NullIfExpr f args) varlist = pull_var_clause_walkers args varlist"
| "pull_var_clause_walker (ScalarArrayOpExpr f args) varlist = pull_var_clause_walkers args varlist"
| "pull_var_clause_walker (BoolExpr args) varlist = pull_var_clause_walkers args varlist"
| "pull_var_clause_walker (RelabelType e) varlist = pull_var_clause_walker e varlist"
| "pull_var_clause_walker (CoalesceExpr args) varlist = pull_var_clause_walkers args varlist"
| "pull_var_clause_walker (NullTest e) varlist = pull_var_clause_walker e varlist"
| "pull_var_clause_walkers [] varlist = Inr varlist"
| "pull_var_clause_walkers (e # es) varlist =
     (case pull_var_clause_walker e varlist of Inl err \<Rightarrow> Inl err | Inr varlist \<Rightarrow> pull_var_clause_walkers es varlist)"

definition pull_var_clause :: "Expr \<Rightarrow> pg_error + Expr list" where
  "pull_var_clause e = pull_var_clause_walker e []"

section \<open>The search for a similarity operator\<close>

text \<open>
  The local variables of the block: whether to use the similarity join and the attribute numbers, which are not
  initialised (\<open>None\<close>).
\<close>

record cs186_vars =
  useSimilarityJoin :: bool
  inner_attno :: "int option"
  outer_attno :: "int option"

text \<open>\<open>op->opno\<close> of whatever a function state holds.\<close>

fun opno :: "Expr \<Rightarrow> nat" where
  "opno (FuncExpr f _) = f"
| "opno (OpExpr f _) = f"
| "opno (DistinctExpr f _) = f"
| "opno (NullIfExpr f _) = f"
| "opno _ = 0"

fun cs186_var :: "Expr \<Rightarrow> cs186_vars \<Rightarrow> cs186_vars" where
  "cs186_var (Var n a l) v =
     (let v = (if n = OUTER then v\<lparr>outer_attno := Some a\<rparr> else v)
      in if n = INNER then v\<lparr>inner_attno := Some a\<rparr> else v)"
| "cs186_var _ v = v"

text \<open>
  One clause.  Only of a function state the expression is taken; any other state is passed to \<open>pull_var_clause\<close>
  itself, which does not know state nodes.  \<open>op_in_opfamily\<close> is the catalog lookup in the family \<open>gin_trgm_ops\<close>.
\<close>

definition cs186_clause :: "(nat \<Rightarrow> bool) \<Rightarrow> ExprState \<Rightarrow> cs186_vars \<Rightarrow> pg_error + cs186_vars" where
  "cs186_clause op_in_opfamily clause v =
     (if expr_type clause = T_FuncExprState
      then let v = (if op_in_opfamily (opno (expr clause)) then v\<lparr>useSimilarityJoin := True\<rparr> else v)
           in (case pull_var_clause (expr clause) of Inl err \<Rightarrow> Inl err | Inr vars \<Rightarrow> Inr (fold cs186_var vars v))
      else Inl UnrecognizedNodeType)"

fun cs186_clauses :: "(nat \<Rightarrow> bool) \<Rightarrow> ExprState list \<Rightarrow> cs186_vars \<Rightarrow> pg_error + cs186_vars" where
  "cs186_clauses op_in_opfamily [] v = Inr v"
| "cs186_clauses op_in_opfamily (c # cs) v =
     (case cs186_clause op_in_opfamily c v of Inl err \<Rightarrow> Inl err | Inr v \<Rightarrow> cs186_clauses op_in_opfamily cs v)"

section \<open>Building the index from the inner plan\<close>

text \<open>
  What the construction depends on: whether messages of level \<open>LOG\<close> are output (they are by default), the byte order,
  the encoding, the addresses \<open>ExecCopySlotMinimalTuple\<close> allocates, and the memory after the trigrams of a text.
\<close>

record sim_env =
  log_output :: bool
  big_endian :: bool
  database_encoding :: pg_encoding
  fresh_tuple :: "nat \<Rightarrow> address"
  beyond :: "bytes \<Rightarrow> nat \<Rightarrow> byte"

text \<open>A tuple by attribute number; a column that is null is the datum 0.  A text has no zero byte.\<close>

type_synonym sim_tuple = "int \<Rightarrow> bytes option"

definition GetSimJoinColumn :: "int option \<Rightarrow> sim_tuple \<Rightarrow> pg_error + bytes" where
  "GetSimJoinColumn attno slot =
     (case attno of
        None \<Rightarrow> Inl UninitializedRead
      | Some a \<Rightarrow> (case slot a of None \<Rightarrow> Inl NullPointer | Some t \<Rightarrow> Inr t))"

text \<open>The memory at \<open>GETARR\<close>: the bytes of the trigrams, then whatever follows.\<close>

definition arr_byte :: "trgm list \<Rightarrow> (nat \<Rightarrow> byte) \<Rightarrow> nat \<Rightarrow> byte" where
  "arr_byte ts junk i =
     (if i < 3 * length ts
      then (case ts ! (i div 3) of (a, b, c) \<Rightarrow> if i mod 3 = 0 then a else if i mod 3 = 1 then b else c)
      else junk (i - 3 * length ts))"

definition trgm_at :: "(nat \<Rightarrow> byte) \<Rightarrow> nat \<Rightarrow> trgm" where
  "trgm_at mem i = (mem (3 * i), mem (3 * i + 1), mem (3 * i + 2))"

text \<open>\<open>VARSIZE\<close> of the four bytes at a place in memory, and \<open>ARRNELEM\<close>, whose arithmetic is that of a 64-bit \<open>size_t\<close>.\<close>

definition VARSIZE_4B :: "bool \<Rightarrow> (nat \<Rightarrow> byte) \<Rightarrow> uint32" where
  "VARSIZE_4B big mem =
     (let va_header = fetch32 big [mem 0, mem 1, mem 2, mem 3] 0
      in (if big then va_header AND 0x3FFFFFFF else drop_bit 2 va_header AND 0x3FFFFFFF))"

definition TRGMHDRSIZE :: "64 word" where "TRGMHDRSIZE = 5"

definition ARRNELEM :: "bool \<Rightarrow> (nat \<Rightarrow> byte) \<Rightarrow> 64 word" where
  "ARRNELEM big mem = (ucast (VARSIZE_4B big mem) - TRGMHDRSIZE) div 3"

text \<open>
  The loop over the trigrams of a tuple, \<open>n\<close> iterations from \<open>i\<close> on.  Its first message formats a number with
  \<open>%s\<close>, which is undefined.
\<close>

fun sim_store :: "sim_env \<Rightarrow> (nat \<Rightarrow> byte) \<Rightarrow> nat \<Rightarrow> nat \<Rightarrow> SimInvertedIndex \<Rightarrow> pg_error + SimInvertedIndex" where
  "sim_store env trgmArray i 0 index = Inr index"
| "sim_store env trgmArray i (Suc n) index =
     (if log_output env then Inl BadFormatArgument
      else case ExecStoreSimIndexEntry index (trgm_at trgmArray i) (fresh_tuple env (numEntries index)) 0 of
             Inl err \<Rightarrow> Inl err
           | Inr index \<Rightarrow> sim_store env trgmArray (i + 1) n index)"

text \<open>One inner tuple: \<open>trgmArray\<close> points to the second trigram when its size is read.\<close>

definition sim_tuple_trgms :: "sim_env \<Rightarrow> int option \<Rightarrow> sim_tuple \<Rightarrow> SimInvertedIndex \<Rightarrow> pg_error + SimInvertedIndex" where
  "sim_tuple_trgms env attno slot index =
     (case GetSimJoinColumn attno slot of
        Inl err \<Rightarrow> Inl err
      | Inr joinColString \<Rightarrow>
          (let trgms = generate_trgm (database_encoding env) joinColString;
               mem = arr_byte trgms (beyond env joinColString);
               trgmArray = (\<lambda>i. mem (3 + i));
               n = sint (ucast (ARRNELEM (big_endian env) trgmArray) :: 32 word)
           in sim_store env trgmArray 0 (nat n) index))"

partial_function (option) sim_build ::
  "(sim_tuple, 'is) exec_proc \<Rightarrow> sim_env \<Rightarrow> int option \<Rightarrow> 'is \<Rightarrow> SimInvertedIndex \<Rightarrow> (pg_error + SimInvertedIndex) option" where
  "sim_build iproc env attno is index =
     (case iproc is of
        None \<Rightarrow> None
      | Some (Inl err) \<Rightarrow> Some (Inl err)
      | Some (Inr (None, is)) \<Rightarrow> Some (Inr index)
      | Some (Inr (Some slot, is)) \<Rightarrow>
          (case sim_tuple_trgms env attno slot index of
             Inl err \<Rightarrow> Some (Inl err)
           | Inr index \<Rightarrow> sim_build iproc env attno is index))"

record SimJoinState =
  sj_inner_attno :: "int option"
  sj_outer_attno :: "int option"
  sj_invertedIndex :: SimInvertedIndex

definition ExecInitSimJoin ::
  "(sim_tuple, 'is) exec_proc \<Rightarrow> sim_env \<Rightarrow> SimJoinState \<Rightarrow> 'is \<Rightarrow> (pg_error + SimJoinState) option" where
  "ExecInitSimJoin iproc env node is =
     (let node = node\<lparr>sj_invertedIndex := CreateSimInvertedIndex\<rparr>
      in Option.bind (sim_build iproc env (sj_inner_attno node) is (sj_invertedIndex node)) (\<lambda>r. Some
        (case r of
           Inl err \<Rightarrow> Inl err
         | Inr index \<Rightarrow> (let node = node\<lparr>sj_invertedIndex := ExecFinalizeSimInvertedIndex index\<rparr>
                        in Inl SimJoinNotImplemented))))"

definition ExecSimJoin :: "SimJoinState \<Rightarrow> pg_error + 'r option \<times> SimJoinState" where
  "ExecSimJoin node = Inl SimJoinNotImplemented"

section \<open>The nested loop that looks for a similarity join\<close>

text \<open>The whole initialisation; the second part of the result is \<open>hacky_simJoinState\<close>.\<close>

definition InitNestLoop ::
  "(nat \<Rightarrow> bool) \<Rightarrow> (sim_tuple, 'is) exec_proc \<Rightarrow> sim_env \<Rightarrow> Expr list \<Rightarrow> ('o, sim_tuple, 'p, 'r) NestLoopPlan \<Rightarrow> 'os \<Rightarrow> 'is \<Rightarrow>
   (pg_error + ('o, 'os, sim_tuple, 'is, 'r) NestLoopState \<times> SimJoinState option) option" where
  "InitNestLoop op_in_opfamily iproc env quals nl os is =
     (case ExecInitNestLoop nl os is of
        Inl err \<Rightarrow> Some (Inl err)
      | Inr nlstate \<Rightarrow>
          (case cs186_clauses op_in_opfamily (map ExecInitExpr quals)
                  \<lparr>useSimilarityJoin = False, inner_attno = None, outer_attno = None\<rparr> of
             Inl err \<Rightarrow> Some (Inl err)
           | Inr v \<Rightarrow>
               if useSimilarityJoin v
               then Option.bind
                      (ExecInitSimJoin iproc env
                        \<lparr>sj_inner_attno = inner_attno v, sj_outer_attno = outer_attno v,
                         sj_invertedIndex = CreateSimInvertedIndex\<rparr> is)
                      (\<lambda>r. Some (map_sum id (\<lambda>sj. (nlstate, Some sj)) r))
               else Some (Inr (nlstate, None))))"

text \<open>A call: the similarity join if there is one, else the nested loop.\<close>

definition ExecNestLoop186 ::
  "('o, 'os) exec_proc \<Rightarrow> (sim_tuple, 'is) exec_proc \<Rightarrow> ('p \<Rightarrow> 'is \<Rightarrow> 'is) \<Rightarrow> ('o, sim_tuple, 'p, 'r) NestLoopPlan \<Rightarrow>
   SimJoinState option \<Rightarrow> ('o, 'os, sim_tuple, 'is, 'r) NestLoopState \<Rightarrow>
   (pg_error + 'r option \<times> ('o, 'os, sim_tuple, 'is, 'r) NestLoopState) option" where
  "ExecNestLoop186 oproc iproc irescan nl hacky_simJoinState node =
     (case hacky_simJoinState of
        Some sj \<Rightarrow> Some (map_sum id (\<lambda>(r, sj). (r, node)) (ExecSimJoin sj))
      | None \<Rightarrow> ExecNestLoop oproc iproc irescan nl node)"

section \<open>What the search finds\<close>

fun vars_of :: "Expr \<Rightarrow> Expr list" where
  "vars_of (Var n a l) = [Var n a l]"
| "vars_of Const = []"
| "vars_of Param = []"
| "vars_of (FuncExpr f args) = concat (map vars_of args)"
| "vars_of (OpExpr f args) = concat (map vars_of args)"
| "vars_of (DistinctExpr f args) = concat (map vars_of args)"
| "vars_of (NullIfExpr f args) = concat (map vars_of args)"
| "vars_of (ScalarArrayOpExpr f args) = concat (map vars_of args)"
| "vars_of (BoolExpr args) = concat (map vars_of args)"
| "vars_of (RelabelType e) = vars_of e"
| "vars_of (CoalesceExpr args) = concat (map vars_of args)"
| "vars_of (NullTest e) = vars_of e"

definition local_vars :: "Expr \<Rightarrow> bool" where
  "local_vars e \<longleftrightarrow> list_all (\<lambda>v. varlevelsup v = 0) (vars_of e)"

lemma pull_vars:
  "list_all (\<lambda>v. varlevelsup v = 0) (vars_of e) \<Longrightarrow> pull_var_clause_walker e vs = Inr (vs @ vars_of e)"
  "list_all (\<lambda>v. varlevelsup v = 0) (concat (map vars_of es)) \<Longrightarrow>
   pull_var_clause_walkers es vs = Inr (vs @ concat (map vars_of es))"
  by (induction e vs and es vs rule: pull_var_clause_walker_pull_var_clause_walkers.induct) auto

lemma vars_of_Var: "v \<in> set (vars_of e) \<Longrightarrow> \<exists>n a l. v = Var n a l"
  by (induction e) auto

text \<open>The attribute number of the last variable of a relation.\<close>

definition last_of :: "nat \<Rightarrow> Expr list \<Rightarrow> int option \<Rightarrow> int option" where
  "last_of n vs d =
     (let ws = filter (\<lambda>v. varno v = n) vs in if ws = [] then d else Some (varattno (last ws)))"

lemma last_of_Nil [simp]: "last_of n [] d = d"
  by (simp add: last_of_def)

lemma last_of_Cons [simp]: "last_of n (Var m a l # vs) d = last_of n vs (if m = n then Some a else d)"
  by (auto simp: last_of_def Let_def)

lemma last_of_append: "last_of n (vs @ ws) d = last_of n ws (last_of n vs d)"
  by (auto simp: last_of_def Let_def)

lemma INNER_OUTER: "INNER \<noteq> OUTER" "OUTER \<noteq> INNER"
  by (simp_all add: INNER_def OUTER_def)

lemma fold_cs186_var:
  "\<forall>v \<in> set vs. \<exists>n a l. v = Var n a l \<Longrightarrow>
   fold cs186_var vs v =
     v\<lparr>inner_attno := last_of INNER vs (inner_attno v), outer_attno := last_of OUTER vs (outer_attno v)\<rparr>"
proof (induction vs arbitrary: v)
  case (Cons w vs)
  then obtain n a l where "w = Var n a l" by auto
  then show ?case using Cons INNER_OUTER by (cases v) (auto simp: Let_def)
qed simp

lemma scan_clauses:
  assumes "list_all local_vars qs"
  shows "cs186_clauses fam (map ExecInitExpr qs) v =
     (if \<exists>q \<in> set qs. state_tag q \<noteq> T_FuncExprState then Inl UnrecognizedNodeType
      else Inr \<lparr>useSimilarityJoin = useSimilarityJoin v \<or> (\<exists>q \<in> set qs. fam (opno q)),
                inner_attno = last_of INNER (concat (map vars_of qs)) (inner_attno v),
                outer_attno = last_of OUTER (concat (map vars_of qs)) (outer_attno v)\<rparr>)"
  using assms
proof (induction qs arbitrary: v)
  case (Cons q qs)
  have f: "fold cs186_var (vars_of q) v =
      v\<lparr>inner_attno := last_of INNER (vars_of q) (inner_attno v), outer_attno := last_of OUTER (vars_of q) (outer_attno v)\<rparr>" for v
    by (rule fold_cs186_var) (use vars_of_Var in blast)
  have "pull_var_clause q = Inr (vars_of q)"
    using Cons.prems pull_vars(1) [of q "[]"] by (simp add: pull_var_clause_def local_vars_def)
  then show ?case using Cons by (auto simp: cs186_clause_def ExecInitExpr_def Let_def f last_of_append)
qed simp

section \<open>What the construction does\<close>

lemma sim_store_overflows:
  "\<not> log_output env \<Longrightarrow> numEntries index \<le> max_entries \<Longrightarrow> max_entries < numEntries index + n \<Longrightarrow>
   sim_store env mem i n index = Inl IndexOutOfBounds"
proof (induction n arbitrary: i index)
  case (Suc n)
  let ?index = "index\<lparr>entries := entries index @
    [\<lparr>entry_trgm = trgm_at mem i, wMinTuple = \<lparr>numTrgms = 0, minTuple = fresh_tuple env (numEntries index)\<rparr>\<rparr>]\<rparr>"
  show ?case
  proof (cases "numEntries index < max_entries")
    case True
    then show ?thesis using Suc.IH [of ?index] Suc.prems by (simp add: ExecStoreSimIndexEntry_def)
  qed (use Suc.prems in \<open>simp add: ExecStoreSimIndexEntry_def\<close>)
qed simp

lemma four_bytes_bound:
  "a < 256 \<Longrightarrow> b < 256 \<Longrightarrow> c < 256 \<Longrightarrow> d < 256 \<Longrightarrow> ((d * 256 + c) * 256 + b) * 256 + a < (2 :: nat) ^ 32"
  by simp

lemma VARSIZE_little:
  fixes mem :: "nat \<Rightarrow> byte"
  defines "N \<equiv> ((unat (mem 3) * 256 + unat (mem 2)) * 256 + unat (mem 1)) * 256 + unat (mem 0)"
  shows "unat (VARSIZE_4B False mem) = N div 4"
proof -
  have b: "unat (mem k) < 256" for k using unsigned_less [of "mem k"] by simp
  have N: "N < 2 ^ 32" unfolding N_def by (rule four_bytes_bound) (rule b)+
  then have u: "unat (word_of_nat N :: uint32) = N" by (simp add: unsigned_of_nat take_bit_nat_eq_self)
  have "fetch32 False [mem 0, mem 1, mem 2, mem 3] 0 = word_of_nat N"
    by (simp add: fetch32_def N_def)
  then have "VARSIZE_4B False mem = take_bit 30 (drop_bit 2 (word_of_nat N))"
    using take_bit_eq_mask [of 30 "drop_bit 2 (word_of_nat N :: uint32)"] by (simp add: VARSIZE_4B_def mask_eq_exp_minus_1)
  then have "unat (VARSIZE_4B False mem) = take_bit 30 (drop_bit 2 N)"
    by (simp only: unsigned_take_bit_eq unat_drop_bit_eq u)
  also have "\<dots> = N div 4" using N by (simp add: drop_bit_eq_div take_bit_eq_mod)
  finally show ?thesis .
qed

text \<open>The garbage the size is read from is large as soon as the first byte of the third trigram is not zero.\<close>

lemma garbage_size:
  assumes "mem 3 \<noteq> (0 :: byte)"
  shows "max_entries < nat (sint (ucast (ARRNELEM False mem) :: 32 word))"
proof -
  let ?N = "((unat (mem 3) * 256 + unat (mem 2)) * 256 + unat (mem 1)) * 256 + unat (mem 0)"
  let ?V = "VARSIZE_4B False mem"
  have b: "unat (mem k) < 256" for k using unsigned_less [of "mem k"] by simp
  have "0 < unat (mem 3)" using assms by (simp add: unat_gt_0)
  then have lo: "4194304 \<le> unat ?V" unfolding VARSIZE_little by simp
  have hi: "unat ?V < 1073741824" unfolding VARSIZE_little
    using four_bytes_bound [OF b [of 0] b [of 1] b [of 2] b [of 3]] by (simp add: div_less_iff_less_mult)
  have u: "unat (ucast ?V :: 64 word) = unat ?V" using hi by (simp add: unsigned_ucast_eq take_bit_nat_eq_self)
  have "unat (ucast ?V - TRGMHDRSIZE) = unat ?V - 5"
    using lo by (subst unat_sub) (simp_all add: u TRGMHDRSIZE_def word_le_nat_alt)
  then have n: "unat (ARRNELEM False mem) = (unat ?V - 5) div 3"
    unfolding ARRNELEM_def unat_div by simp
  then have "unat (ARRNELEM False mem) < 2 ^ 31" using hi by simp
  then have "unat (ucast (ARRNELEM False mem) :: 32 word) = (unat ?V - 5) div 3"
    using n by (simp add: unsigned_ucast_eq take_bit_nat_eq_self)
  then have "uint (ucast (ARRNELEM False mem) :: 32 word) = int ((unat ?V - 5) div 3)" by (simp add: uint_nat)
  moreover have "int ((unat ?V - 5) div 3) < 2 ^ 31" using hi by simp
  ultimately have "sint (ucast (ARRNELEM False mem) :: 32 word) = int ((unat ?V - 5) div 3)"
    unfolding sint_uint by (simp add: signed_take_bit_int_eq_self)
  moreover have "50000 < (unat ?V - 5) div 3" using lo by simp
  ultimately show ?thesis by (simp add: max_entries_def)
qed

lemma sim_tuple_fails:
  assumes "slot a = Some t" and "3 \<le> length (generate_trgm (database_encoding env) t)"
    and "fst (generate_trgm (database_encoding env) t ! 2) \<noteq> 0" and "\<not> big_endian env"
  shows "sim_tuple_trgms env (Some a) slot CreateSimInvertedIndex =
    Inl (if log_output env then BadFormatArgument else IndexOutOfBounds)"
proof -
  let ?ts = "generate_trgm (database_encoding env) t"
  let ?mem = "\<lambda>i. arr_byte ?ts (beyond env t) (3 + i)"
  let ?n = "nat (sint (ucast (ARRNELEM False ?mem) :: 32 word))"
  have "?mem 3 = fst (?ts ! 2)" using assms(2) by (simp add: arr_byte_def split: prod.split)
  then have n: "max_entries < ?n" using garbage_size [of ?mem] assms(3) by simp
  then obtain m where m: "?n = Suc m" by (metis gr0_implies_Suc less_zeroE not_gr_zero)
  have "sim_store env ?mem 0 ?n CreateSimInvertedIndex = Inl (if log_output env then BadFormatArgument else IndexOutOfBounds)"
  proof (cases "log_output env")
    case False
    then show ?thesis using sim_store_overflows [of env CreateSimInvertedIndex ?n] n by (simp add: CreateSimInvertedIndex_def)
  qed (simp add: m)
  then show ?thesis using assms(1,4) by (simp add: sim_tuple_trgms_def GetSimJoinColumn_def Let_def)
qed

section \<open>Properties\<close>

text \<open>C34: what the initialisation of a nested loop does, for every list of join clauses.  A clause that is no function
  or operator call, such as an \<open>OR\<close>, an \<open>IS NULL\<close> or an \<open>IN\<close> list, makes it fail, with or without a
  similarity operator; a similarity operator makes it build the index and then fail in any case; otherwise the node
  is that of the plain join.  The join columns are those of the last variables in the whole list, whichever clause
  has the similarity operator.\<close>

theorem nested_loop_initialisation:
  assumes "list_all local_vars quals"
  shows "InitNestLoop fam iproc env quals nl os is =
    (if jointype nl \<notin> {JOIN_INNER, JOIN_SEMI, JOIN_LEFT, JOIN_ANTI} then Some (Inl UnrecognizedJoinType)
     else if \<exists>q \<in> set quals. state_tag q \<noteq> T_FuncExprState then Some (Inl UnrecognizedNodeType)
     else if \<exists>q \<in> set quals. fam (opno q)
     then map_option (\<lambda>r. Inl (case r of Inl err \<Rightarrow> err | Inr index \<Rightarrow> SimJoinNotImplemented))
            (sim_build iproc env (last_of INNER (concat (map vars_of quals)) None) is CreateSimInvertedIndex)
     else map_option (map_sum id (\<lambda>node. (node, None))) (Some (ExecInitNestLoop nl os is)))"
  by (auto simp: InitNestLoop_def ExecInitNestLoop_def scan_clauses [OF assms] ExecInitSimJoin_def map_option_case
      bind_eq_None_conv split: option.split sum.split)

theorem nested_loop_initialisation_witness:
  "InitNestLoop (\<lambda>n. n = 100) (\<lambda>s. Some (Inr (None, s))) undefined
     [OpExpr 96 [Var OUTER 1 0, Var INNER 1 0], BoolExpr [OpExpr 96 [Var OUTER 2 0, Var INNER 2 0], NullTest (Var OUTER 2 0)]]
     \<lparr>jointype = JOIN_INNER, joinqual = (\<lambda>x y. True), otherqual = None, targetlist = (\<lambda>x y. SingleValue ()), nestParams = (\<lambda>x. ())\<rparr>
     () () = Some (Inl UnrecognizedNodeType)"
  by (subst nested_loop_initialisation) (simp_all add: local_vars_def)

text \<open>C37: a similarity join over such tables cannot run.  Let all clauses be function or operator calls on the columns
  of the two sides, one of them by the similarity operator, and let them name an inner column; let the machine be
  little-endian; and let the first tuple of the inner plan have a text in that column (not null) with at least three
  trigrams, the third of which does not start with a zero byte.  Then the size of the trigram array is read from the
  trigrams themselves, and the initialisation of the node either hands a number to a string format, when the message
  is formatted, or writes past the end of the index.\<close>

theorem similarity_join_corrupts:
  assumes "list_all local_vars quals" and "\<forall>q \<in> set quals. state_tag q = T_FuncExprState" and "\<exists>q \<in> set quals. fam (opno q)"
    and "jointype nl \<in> {JOIN_INNER, JOIN_SEMI, JOIN_LEFT, JOIN_ANTI}"
    and "last_of INNER (concat (map vars_of quals)) None = Some a"
    and "iproc is = Some (Inr (Some slot, is'))" and "slot a = Some t"
    and "3 \<le> length (generate_trgm (database_encoding env) t)"
    and "fst (generate_trgm (database_encoding env) t ! 2) \<noteq> 0" and "\<not> big_endian env"
  shows "InitNestLoop fam iproc env quals nl os is =
    Some (Inl (if log_output env then BadFormatArgument else IndexOutOfBounds))"
proof -
  have "sim_build iproc env (Some a) is CreateSimInvertedIndex = Some (Inl (if log_output env then BadFormatArgument else IndexOutOfBounds))"
    using sim_tuple_fails [of slot a t env] assms(6-10) by (simp add: sim_build.simps)
  then show ?thesis
    using assms(2-5) by (auto simp: InitNestLoop_def ExecInitNestLoop_def scan_clauses [OF assms(1)] ExecInitSimJoin_def)
qed

theorem similarity_join_corrupts_witness:
  "InitNestLoop (\<lambda>n. n = 100) (\<lambda>s. Some (Inr (Some (\<lambda>a. Some [0x61, 0x62]), s)))
     \<lparr>log_output = False, big_endian = False, database_encoding = PG_SQL_ASCII, fresh_tuple = (\<lambda>_. 0), beyond = (\<lambda>_ _. 0)\<rparr>
     [OpExpr 100 [Var OUTER 1 0, Var INNER 1 0]]
     \<lparr>jointype = JOIN_INNER, joinqual = (\<lambda>x y. True), otherqual = None, targetlist = (\<lambda>x y. SingleValue ()), nestParams = (\<lambda>x. ())\<rparr>
     () () = Some (Inl IndexOutOfBounds)"
proof -
  have "generate_trgm PG_SQL_ASCII [0x61, 0x62] = [(0x20, 0x20, 0x61), (0x20, 0x61, 0x62), (0x61, 0x62, 0x20)]" by code_simp
  moreover from this have "fst (generate_trgm PG_SQL_ASCII [0x61, 0x62] ! 2) = 0x61" by simp
  ultimately show ?thesis
    by (subst similarity_join_corrupts [where a = 1 and t = "[0x61, 0x62]" and is' = "()"])
      (simp_all add: local_vars_def INNER_OUTER)
qed

text \<open>The join columns need not be those of the similarity operator.\<close>

lemma wrong_join_columns:
  "cs186_clauses (\<lambda>n. n = 100)
     (map ExecInitExpr [OpExpr 100 [Var OUTER 1 0, Var INNER 2 0], OpExpr 97 [Var OUTER 3 0, Var INNER 4 0]])
     \<lparr>useSimilarityJoin = False, inner_attno = None, outer_attno = None\<rparr> =
   Inr \<lparr>useSimilarityJoin = True, inner_attno = Some 4, outer_attno = Some 3\<rparr>"
  by (subst scan_clauses) (simp_all add: local_vars_def INNER_OUTER)

end
