(* ===== verification/Bitmapset.thy ===== *)
theory Bitmapset
  imports BitTables HashFunc
begin

text \<open>
  Sets of small non-negative integers as arrays of 32-bit words (nodes/bitmapset.c).  \<open>None\<close> is the null pointer, one
  of the representations of the empty set; trailing zero words are allowed.  The functions that recycle their
  arguments return the pointer the caller goes on with.
\<close>

section \<open>Words\<close>

definition BITS_PER_BITMAPWORD :: nat where "BITS_PER_BITMAPWORD = 32"

type_synonym bitmapword = "32 word"
type_synonym Bitmapset = "bitmapword list option"

definition WORDNUM :: "int \<Rightarrow> nat" where "WORDNUM x = nat x div BITS_PER_BITMAPWORD"
definition BITNUM :: "int \<Rightarrow> nat" where "BITNUM x = nat x mod BITS_PER_BITMAPWORD"

definition RIGHTMOST_ONE :: "bitmapword \<Rightarrow> bitmapword" where "RIGHTMOST_ONE x = x AND - x"
definition HAS_MULTIPLE_ONES :: "bitmapword \<Rightarrow> bool" where "HAS_MULTIPLE_ONES x \<longleftrightarrow> RIGHTMOST_ONE x \<noteq> x"

text \<open>The loops over the words two sets have in common; the rest of the first argument stays.\<close>

fun words_with :: "(bitmapword \<Rightarrow> bitmapword \<Rightarrow> bitmapword) \<Rightarrow> bitmapword list \<Rightarrow> bitmapword list \<Rightarrow> bitmapword list" where
  "words_with f (r # rs) (w # ws) = f r w # words_with f rs ws"
| "words_with f rs [] = rs"
| "words_with f [] ws = []"

text \<open>A loop \<open>while ((w & 255) == 0)\<close> that counts the bits it drops; it is entered with \<open>w \<noteq> 0\<close> only.\<close>

function low_bit_from :: "bitmapword \<Rightarrow> nat \<Rightarrow> nat" where
  "low_bit_from w result =
     (if w \<noteq> 0 \<and> w AND 255 = 0 then low_bit_from (drop_bit 8 w) (result + 8)
      else result + rightmost_one_pos ! unat (w AND 255))"
  by pat_completeness auto

lemma unat_shift_less: "(w :: bitmapword) \<noteq> 0 \<Longrightarrow> unat (drop_bit 8 w) < unat w"
  unfolding unat_drop_bit_eq by (simp add: drop_bit_eq_div unat_gt_0)

termination low_bit_from
  by (relation "measure (\<lambda>(w, r). unat w)", simp, unfold in_measure case_prod_conv, erule conjE, erule unat_shift_less)

function count_bytes :: "bitmapword \<Rightarrow> nat" where
  "count_bytes w = (if w \<noteq> 0 then number_of_ones ! unat (w AND 255) + count_bytes (drop_bit 8 w) else 0)"
  by pat_completeness auto
termination by (relation "measure unat", simp, unfold in_measure, erule unat_shift_less)

declare low_bit_from.simps [simp del] count_bytes.simps [simp del]

section \<open>Operations\<close>

definition bms_copy :: "Bitmapset \<Rightarrow> Bitmapset" where "bms_copy a = a"

definition all_zero :: "bitmapword list \<Rightarrow> bool" where "all_zero ws = list_all (\<lambda>w. w = 0) ws"

fun bms_is_empty :: "Bitmapset \<Rightarrow> bool" where
  "bms_is_empty None = True"
| "bms_is_empty (Some ws) = all_zero ws"

fun bms_equal :: "Bitmapset \<Rightarrow> Bitmapset \<Rightarrow> bool" where
  "bms_equal None None = True"
| "bms_equal None (Some b) = bms_is_empty (Some b)"
| "bms_equal (Some a) None = bms_is_empty (Some a)"
| "bms_equal (Some a) (Some b) =
     (let (shorter, longer) = (if length a \<le> length b then (a, b) else (b, a))
      in list_all (\<lambda>i. shorter ! i = longer ! i) [0..<length shorter] \<and> all_zero (drop (length shorter) longer))"

definition bms_make_singleton :: "int \<Rightarrow> pg_error + Bitmapset" where
  "bms_make_singleton x =
     (if x < 0 then Inl NegativeBitmapsetMember
      else Inr (Some ((replicate (WORDNUM x + 1) 0)[WORDNUM x := push_bit (BITNUM x) 1])))"

fun bms_union :: "Bitmapset \<Rightarrow> Bitmapset \<Rightarrow> Bitmapset" where
  "bms_union None b = bms_copy b"
| "bms_union (Some a) None = bms_copy (Some a)"
| "bms_union (Some a) (Some b) = Some (if length a \<le> length b then words_with (OR) b a else words_with (OR) a b)"

fun bms_intersect :: "Bitmapset \<Rightarrow> Bitmapset \<Rightarrow> Bitmapset" where
  "bms_intersect None b = None"
| "bms_intersect (Some a) None = None"
| "bms_intersect (Some a) (Some b) = Some (if length a \<le> length b then words_with (AND) a b else words_with (AND) b a)"

fun bms_difference :: "Bitmapset \<Rightarrow> Bitmapset \<Rightarrow> Bitmapset" where
  "bms_difference None b = None"
| "bms_difference (Some a) None = bms_copy (Some a)"
| "bms_difference (Some a) (Some b) = Some (words_with (\<lambda>r w. r AND NOT w) a b)"

fun bms_is_subset :: "Bitmapset \<Rightarrow> Bitmapset \<Rightarrow> bool" where
  "bms_is_subset None b = True"
| "bms_is_subset (Some a) None = bms_is_empty (Some a)"
| "bms_is_subset (Some a) (Some b) =
     (list_all (\<lambda>i. (a ! i) AND NOT (b ! i) = 0) [0..<min (length a) (length b)] \<and>
      (if length a > length b then all_zero (drop (length b) a) else True))"

definition bms_is_member :: "int \<Rightarrow> Bitmapset \<Rightarrow> pg_error + bool" where
  "bms_is_member x a =
     (if x < 0 then Inl NegativeBitmapsetMember
      else Inr (case a of None \<Rightarrow> False
                | Some ws \<Rightarrow> if WORDNUM x \<ge> length ws then False
                            else ws ! WORDNUM x AND push_bit (BITNUM x) 1 \<noteq> 0))"

fun bms_overlap :: "Bitmapset \<Rightarrow> Bitmapset \<Rightarrow> bool" where
  "bms_overlap (Some a) (Some b) = list_ex (\<lambda>i. (a ! i) AND (b ! i) \<noteq> 0) [0..<min (length a) (length b)]"
| "bms_overlap _ _ = False"

fun bms_nonempty_difference :: "Bitmapset \<Rightarrow> Bitmapset \<Rightarrow> bool" where
  "bms_nonempty_difference None b = False"
| "bms_nonempty_difference (Some a) None = (\<not> bms_is_empty (Some a))"
| "bms_nonempty_difference (Some a) (Some b) =
     (list_ex (\<lambda>i. (a ! i) AND NOT (b ! i) \<noteq> 0) [0..<min (length a) (length b)] \<or>
      \<not> all_zero (drop (min (length a) (length b)) a))"

text \<open>The position of the only bit of word number \<open>wordnum\<close>.\<close>

definition word_member :: "nat \<Rightarrow> bitmapword \<Rightarrow> int" where
  "word_member wordnum w = int (low_bit_from w (wordnum * BITS_PER_BITMAPWORD))"

fun singleton_loop :: "nat \<Rightarrow> bitmapword list \<Rightarrow> int \<Rightarrow> pg_error + int" where
  "singleton_loop wordnum [] result = (if result < 0 then Inl BitmapsetIsEmpty else Inr result)"
| "singleton_loop wordnum (w # ws) result =
     (if w \<noteq> 0
      then (if result \<ge> 0 \<or> HAS_MULTIPLE_ONES w then Inl BitmapsetHasMultipleMembers
            else singleton_loop (wordnum + 1) ws (word_member wordnum w))
      else singleton_loop (wordnum + 1) ws result)"

fun bms_singleton_member :: "Bitmapset \<Rightarrow> pg_error + int" where
  "bms_singleton_member None = Inl BitmapsetIsEmpty"
| "bms_singleton_member (Some ws) = singleton_loop 0 ws (- 1)"

fun bms_num_members :: "Bitmapset \<Rightarrow> nat" where
  "bms_num_members None = 0"
| "bms_num_members (Some ws) = sum_list (map count_bytes ws)"

datatype BMS_Membership = BMS_EMPTY_SET | BMS_SINGLETON | BMS_MULTIPLE

fun membership_loop :: "bitmapword list \<Rightarrow> BMS_Membership \<Rightarrow> BMS_Membership" where
  "membership_loop [] result = result"
| "membership_loop (w # ws) result =
     (if w \<noteq> 0
      then (if result \<noteq> BMS_EMPTY_SET \<or> HAS_MULTIPLE_ONES w then BMS_MULTIPLE else membership_loop ws BMS_SINGLETON)
      else membership_loop ws result)"

fun bms_membership :: "Bitmapset \<Rightarrow> BMS_Membership" where
  "bms_membership None = BMS_EMPTY_SET"
| "bms_membership (Some ws) = membership_loop ws BMS_EMPTY_SET"

definition bms_add_member :: "Bitmapset \<Rightarrow> int \<Rightarrow> pg_error + Bitmapset" where
  "bms_add_member a x =
     (if x < 0 then Inl NegativeBitmapsetMember
      else (case a of
              None \<Rightarrow> bms_make_singleton x
            | Some ws \<Rightarrow>
                if WORDNUM x \<ge> length ws
                then map_sum id (map_option (\<lambda>result. words_with (OR) result ws)) (bms_make_singleton x)
                else Inr (Some (ws[WORDNUM x := ws ! WORDNUM x OR push_bit (BITNUM x) 1]))))"

definition bms_del_member :: "Bitmapset \<Rightarrow> int \<Rightarrow> pg_error + Bitmapset" where
  "bms_del_member a x =
     (if x < 0 then Inl NegativeBitmapsetMember
      else Inr (case a of
              None \<Rightarrow> None
            | Some ws \<Rightarrow>
                Some (if WORDNUM x < length ws
                      then ws[WORDNUM x := ws ! WORDNUM x AND NOT (push_bit (BITNUM x) 1)] else ws)))"

fun bms_add_members :: "Bitmapset \<Rightarrow> Bitmapset \<Rightarrow> Bitmapset" where
  "bms_add_members None b = bms_copy b"
| "bms_add_members (Some a) None = Some a"
| "bms_add_members (Some a) (Some b) = Some (if length a < length b then words_with (OR) b a else words_with (OR) a b)"

fun bms_int_members :: "Bitmapset \<Rightarrow> Bitmapset \<Rightarrow> Bitmapset" where
  "bms_int_members None b = None"
| "bms_int_members (Some a) None = None"
| "bms_int_members (Some a) (Some b) =
     Some (words_with (AND) (take (min (length a) (length b)) a) b @ replicate (length a - min (length a) (length b)) 0)"

fun bms_del_members :: "Bitmapset \<Rightarrow> Bitmapset \<Rightarrow> Bitmapset" where
  "bms_del_members None b = None"
| "bms_del_members (Some a) None = Some a"
| "bms_del_members (Some a) (Some b) = Some (words_with (\<lambda>r w. r AND NOT w) a b)"

fun bms_join :: "Bitmapset \<Rightarrow> Bitmapset \<Rightarrow> Bitmapset" where
  "bms_join None b = b"
| "bms_join (Some a) None = Some a"
| "bms_join (Some a) (Some b) = Some (if length a < length b then words_with (OR) b a else words_with (OR) a b)"

text \<open>Find and remove the first member.\<close>

fun first_loop :: "nat \<Rightarrow> bitmapword list \<Rightarrow> int \<times> bitmapword list" where
  "first_loop wordnum [] = (- 1, [])"
| "first_loop wordnum (w # ws) =
     (if w \<noteq> 0
      then (word_member wordnum (RIGHTMOST_ONE w), (w AND NOT (RIGHTMOST_ONE w)) # ws)
      else (case first_loop (wordnum + 1) ws of (x, ws') \<Rightarrow> (x, w # ws')))"

fun bms_first_member :: "Bitmapset \<Rightarrow> int \<times> Bitmapset" where
  "bms_first_member None = (- 1, None)"
| "bms_first_member (Some ws) = (case first_loop 0 ws of (x, ws') \<Rightarrow> (x, Some ws'))"

text \<open>The hash does not depend on trailing zero words.\<close>

definition bms_hash_value :: "bool \<Rightarrow> Bitmapset \<Rightarrow> uint32" where
  "bms_hash_value big a =
     (case a of
        None \<Rightarrow> 0
      | Some ws \<Rightarrow>
          (let used = rev (dropWhile (\<lambda>w. w = 0) (rev ws))
           in if used = [] then 0 else hash_any big True (concat (map (bytes_of32 big) used))))"

end
