(* ===== verification/BitmapsetProps.thy ===== *)
theory BitmapsetProps
  imports Bitmapset
begin

text \<open>
  The bitmapset functions compute with sets: \<open>bms_set\<close> is the set a bitmapset stands for, and every operation is
  refined by the operation on sets of its name.
\<close>

section \<open>The set of a bitmapset\<close>

definition wd :: "bitmapword list \<Rightarrow> nat \<Rightarrow> bitmapword" where
  "wd ws i = (if i < length ws then ws ! i else 0)"

definition members :: "(nat \<Rightarrow> bitmapword) \<Rightarrow> nat set" where
  "members f = {n. bit (f (n div 32)) (n mod 32)}"

fun bms_set :: "Bitmapset \<Rightarrow> nat set" where
  "bms_set None = {}"
| "bms_set (Some ws) = members (wd ws)"

lemma members_zero [simp]: "members (\<lambda>_. 0) = {}"
  by (simp add: members_def)

lemma members_or: "members (\<lambda>i. f i OR g i) = members f \<union> members g"
  by (auto simp: members_def bit_or_iff)

lemma members_and: "members (\<lambda>i. f i AND g i) = members f \<inter> members g"
  by (auto simp: members_def bit_and_iff)

lemma members_andnot: "members (\<lambda>i. f i AND NOT (g i)) = members f - members g"
  by (auto simp: members_def bit_and_iff bit_not_iff)

lemma members_at: "k < 32 \<Longrightarrow> 32 * i + k \<in> members f \<longleftrightarrow> bit (f i) k"
  by (simp add: members_def)

lemma members_word: "members f \<subseteq> members g \<Longrightarrow> k < 32 \<Longrightarrow> bit (f i) k \<Longrightarrow> bit (g i) k"
  using members_at [of k i f] members_at [of k i g] by auto

lemma members_eq_iff: "members f = members g \<longleftrightarrow> (\<forall>i. f i = g i)"
proof
  assume m: "members f = members g"
  show "\<forall>i. f i = g i"
  proof
    fix i show "f i = g i"
      by (rule bit_word_eqI) (use members_word [of f g _ i] members_word [of g f _ i] m in auto)
  qed
qed (simp add: members_def)

lemma members_empty_iff: "members f = {} \<longleftrightarrow> (\<forall>i. f i = 0)"
  using members_eq_iff [of f "\<lambda>_. 0"] by simp

lemma members_subset_iff: "members f \<subseteq> members g \<longleftrightarrow> (\<forall>i. f i AND NOT (g i) = 0)"
  using members_empty_iff [of "\<lambda>i. f i AND NOT (g i)"] by (auto simp: members_andnot)

lemma finite_members: "finite (members (wd ws))"
proof (rule finite_subset)
  show "members (wd ws) \<subseteq> {..<32 * length ws}"
  proof
    fix n assume "n \<in> members (wd ws)"
    then have "n div 32 < length ws" by (auto simp: members_def wd_def split: if_splits)
    then show "n \<in> {..<32 * length ws}" by simp
  qed
qed simp

lemma all_zero_wd: "all_zero ws \<longleftrightarrow> (\<forall>i. wd ws i = 0)"
  by (auto simp: all_zero_def wd_def list_all_length)

lemma all_zero_drop: "all_zero (drop n ws) \<longleftrightarrow> (\<forall>i. n \<le> i \<longrightarrow> wd ws i = 0)"
proof
  assume a: "all_zero (drop n ws)"
  show "\<forall>i. n \<le> i \<longrightarrow> wd ws i = 0"
  proof (intro allI impI)
    fix i assume "n \<le> i"
    moreover have "wd (drop n ws) (i - n) = 0" using a by (simp add: all_zero_wd)
    ultimately show "wd ws i = 0" by (auto simp: wd_def split: if_splits)
  qed
next
  assume a: "\<forall>i. n \<le> i \<longrightarrow> wd ws i = 0"
  have "drop n ws ! i = 0" if "i < length ws - n" for i
    using a [rule_format, of "n + i"] that by (simp add: wd_def less_diff_conv add.commute)
  then show "all_zero (drop n ws)" by (simp add: all_zero_def list_all_length)
qed

lemma words_with_length [simp]: "length (words_with f rs ws) = length rs"
  by (induction f rs ws rule: words_with.induct) simp_all

lemma words_with_nth:
  "i < length rs \<Longrightarrow> words_with f rs ws ! i = (if i < length ws then f (rs ! i) (ws ! i) else rs ! i)"
proof (induction f rs ws arbitrary: i rule: words_with.induct)
  case (1 f r rs w ws)
  then show ?case by (cases i) auto
qed auto

lemma or_wd: "length ws \<le> length rs \<Longrightarrow> wd (words_with (OR) rs ws) = (\<lambda>i. wd rs i OR wd ws i)"
  by (auto simp: words_with_nth wd_def)

lemma and_wd: "length rs \<le> length ws \<Longrightarrow> wd (words_with (AND) rs ws) = (\<lambda>i. wd rs i AND wd ws i)"
  by (auto simp: words_with_nth wd_def)

lemma andnot_wd: "wd (words_with (\<lambda>r w. r AND NOT w) rs ws) = (\<lambda>i. wd rs i AND NOT (wd ws i))"
  by (auto simp: words_with_nth wd_def)

lemma int_members_wd:
  "wd (words_with (AND) (take (min (length a) (length b)) a) b @ replicate (length a - min (length a) (length b)) 0) i = wd a i AND wd b i"
proof -
  let ?w = "words_with (AND) (take (min (length a) (length b)) a) b"
  have "wd (?w @ replicate k 0) i = wd ?w i" for k by (auto simp: wd_def nth_append)
  moreover have "wd ?w i = wd (take (min (length a) (length b)) a) i AND wd b i" by (simp add: and_wd)
  moreover have "wd (take (min (length a) (length b)) a) i AND wd b i = wd a i AND wd b i" by (auto simp: wd_def)
  ultimately show ?thesis by simp
qed

section \<open>One member\<close>

lemma wordnum_bitnum: "0 \<le> x \<Longrightarrow> WORDNUM x = nat x div 32 \<and> BITNUM x = nat x mod 32"
  by (simp add: WORDNUM_def BITNUM_def BITS_PER_BITMAPWORD_def)

lemma bit_one: "bit (push_bit k 1 :: bitmapword) n \<longleftrightarrow> n = k \<and> k < 32"
  using bit_exp_iff [of k n, where ?'a = bitmapword] by (auto dest: bit_imp_le_length)

lemma div_mod_32: "n = m \<longleftrightarrow> n div 32 = m div 32 \<and> n mod 32 = m mod (32 :: nat)"
  by (metis div_mult_mod_eq)

lemma update_members:
  assumes "i < length ws"
  shows "members (wd (ws[i := v])) = members ((wd ws)(i := v))"
proof -
  have "wd (ws[i := v]) = (wd ws)(i := v)" using assms by (auto simp: wd_def)
  then show ?thesis by simp
qed

lemma singleton_members: "members (wd ((replicate (n div 32 + 1) 0)[n div 32 := push_bit (n mod 32) 1])) = {n}"
proof -
  have z: "wd (replicate k 0) = (\<lambda>_. 0)" for k by (auto simp: wd_def)
  have "members ((\<lambda>_. 0)(n div 32 := push_bit (n mod 32) 1)) = {n}"
    by (auto simp: members_def bit_one div_mod_32 [of _ n] simp del: push_bit_of_1 split: if_splits)
  then show ?thesis by (subst update_members) (simp_all only: z length_replicate add_gr_0 less_add_one)
qed

lemma bit_test: "(w :: bitmapword) AND push_bit k 1 \<noteq> 0 \<longleftrightarrow> bit w k" if "k < 32"
proof -
  have "(w AND push_bit k 1 = 0) \<longleftrightarrow> (\<forall>n. \<not> bit (w AND push_bit k 1) n)"
    by (auto intro!: bit_word_eqI)
  then show ?thesis using that by (auto simp: bit_and_iff bit_one simp del: push_bit_of_1)
qed

section \<open>The rightmost bit\<close>

lemma lowest_exists: "(w :: bitmapword) \<noteq> 0 \<Longrightarrow> \<exists>k < 32. lowest w k"
proof -
  assume "w \<noteq> 0"
  then have "\<exists>n. bit w n" by (auto intro!: bit_word_eqI)
  then have "lowest w (LEAST n. bit w n)" by (auto simp: lowest_def intro: LeastI_ex dest: not_less_Least)
  moreover from this have "(LEAST n. bit w n) < 32" by (auto simp: lowest_def dest: bit_imp_le_length)
  ultimately show ?thesis by blast
qed

lemma lowest_unique: "lowest w j \<Longrightarrow> lowest w k \<Longrightarrow> j = k"
  unfolding lowest_def by (metis linorder_neqE_nat)

lemma lowest_nonzero: "lowest (w :: bitmapword) k \<Longrightarrow> w \<noteq> 0 \<and> k < 32"
  by (auto simp: lowest_def dest: bit_imp_le_length)

text \<open>\<open>x & -x\<close> is the rightmost bit of \<open>x\<close>.\<close>

lemma minus_bit: "lowest (w :: bitmapword) k \<Longrightarrow> bit (w - 1) n \<longleftrightarrow> (if n < k then n < 32 else n \<noteq> k \<and> bit w n)"
proof -
  assume l: "lowest w k"
  then have k: "k < 32" using lowest_nonzero by blast
  let ?v = "w AND NOT (push_bit k 1)"
  have "w = ?v + push_bit k 1"
  proof -
    have "?v AND push_bit k 1 = 0" by (rule bit_word_eqI) (simp add: bit_and_iff bit_not_iff del: push_bit_of_1)
    moreover have "?v OR push_bit k 1 = w"
      by (rule bit_word_eqI) (use l k in \<open>auto simp: lowest_def bit_and_iff bit_not_iff bit_or_iff bit_one simp del: push_bit_of_1\<close>)
    ultimately show ?thesis using disjunctive_add_eq_or [of ?v "push_bit k 1"] by simp
  qed
  then have "w - 1 = ?v + mask k" by (simp add: mask_eq_exp_minus_1)
  moreover have "?v AND mask k = 0"
    by (rule bit_word_eqI) (use l in \<open>auto simp: lowest_def bit_and_iff bit_mask_iff\<close>)
  ultimately have "w - 1 = ?v OR mask k" using disjunctive_add_eq_or [of ?v "mask k"] by simp
  then show ?thesis using l k
    by (auto simp: lowest_def bit_or_iff bit_and_iff bit_not_iff bit_one bit_mask_iff simp del: push_bit_of_1 dest: bit_imp_le_length)
qed

lemma rightmost_one: "lowest w k \<Longrightarrow> RIGHTMOST_ONE w = push_bit k 1"
proof (rule bit_word_eqI)
  fix n assume l: "lowest w k" and n: "n < LENGTH(32)"
  have "bit (- w) n \<longleftrightarrow> \<not> bit (w - 1) n" using n by (simp add: bit_minus_iff)
  then show "bit (RIGHTMOST_ONE w) n = bit (push_bit k 1 :: bitmapword) n"
    using l n lowest_nonzero [OF l] unfolding RIGHTMOST_ONE_def bit_and_iff minus_bit [OF l] bit_one
    by (auto simp: lowest_def)
qed

lemma rightmost_one_lowest: "lowest w k \<Longrightarrow> lowest (RIGHTMOST_ONE w) k"
  using lowest_nonzero [of w k] by (simp add: rightmost_one lowest_def bit_one del: push_bit_of_1)

lemma multiple_ones: "w \<noteq> 0 \<Longrightarrow> HAS_MULTIPLE_ONES w \<longleftrightarrow> card {n. bit w n} \<noteq> 1"
proof -
  assume "w \<noteq> 0"
  then obtain k where l: "lowest w k" using lowest_exists by blast
  have "card {n. bit w n} = 1 \<longleftrightarrow> {n. bit w n} = {k}"
  proof
    assume "card {n. bit w n} = 1"
    then obtain x where x: "{n. bit w n} = {x}" by (rule card_1_singletonE)
    moreover have "k \<in> {n. bit w n}" using l by (simp add: lowest_def)
    ultimately have "k = x" by blast
    then show "{n. bit w n} = {k}" using x by simp
  qed simp
  also have "\<dots> \<longleftrightarrow> w = push_bit k 1"
  proof
    assume "{n. bit w n} = {k}"
    then have b: "bit w n \<longleftrightarrow> n = k" for n by blast
    show "w = push_bit k 1" by (rule bit_word_eqI) (use b lowest_nonzero [OF l] in \<open>simp add: bit_one del: push_bit_of_1\<close>)
  next
    assume "w = push_bit k 1"
    then show "{n. bit w n} = {k}" using lowest_nonzero [OF l] by (auto simp: bit_one simp del: push_bit_of_1)
  qed
  finally show ?thesis using rightmost_one [OF l] by (auto simp: HAS_MULTIPLE_ONES_def)
qed

section \<open>Bytes of a word\<close>

lemma low_byte: "unat ((w :: bitmapword) AND 255) = unat (ucast w :: byte)"
proof -
  have "w AND 255 = take_bit 8 w" using take_bit_eq_mask [of 8 w] by (simp add: mask_eq_exp_minus_1)
  then show ?thesis by (simp add: unsigned_ucast_eq unsigned_take_bit_eq)
qed

lemma low_byte_zero: "(w :: bitmapword) AND 255 = 0 \<longleftrightarrow> (ucast w :: byte) = 0"
  using low_byte [of w] by (metis unat_eq_0)

lemma low_byte_bit: "bit (ucast w :: byte) n \<longleftrightarrow> n < 8 \<and> bit (w :: bitmapword) n"
  by (auto simp: bit_ucast_iff dest: bit_imp_le_length)

lemma low_byte_clear: "(w :: bitmapword) AND 255 = 0 \<Longrightarrow> n < 8 \<Longrightarrow> \<not> bit w n"
  using low_byte_zero [of w] low_byte_bit [of w n] by simp

lemma high_bits: "bit (drop_bit 8 w) n = bit (w :: bitmapword) (8 + n)"
  by (simp only: bit_drop_bit_eq comp_apply)

lemma drop_nonzero: "(w :: bitmapword) \<noteq> 0 \<Longrightarrow> w AND 255 = 0 \<Longrightarrow> drop_bit 8 w \<noteq> 0"
proof
  assume "w \<noteq> 0" "w AND 255 = 0" "drop_bit 8 w = 0"
  then have "\<not> bit w (8 + n)" for n using high_bits [of w n] by simp
  moreover have "\<not> bit w n" if "n < 8" for n using that low_byte_clear [OF \<open>w AND 255 = 0\<close>] by blast
  ultimately have "\<not> bit w n" for n using le_Suc_ex [of 8 n] by (cases "n < 8") auto
  then have "w = 0" by (intro bit_word_eqI) simp
  then show False using \<open>w \<noteq> 0\<close> by contradiction
qed

lemma lowest_shift: "w AND 255 = 0 \<Longrightarrow> lowest (drop_bit 8 w) k \<Longrightarrow> lowest (w :: bitmapword) (8 + k)"
  unfolding lowest_def high_bits
proof (intro conjI allI impI)
  fix j assume a: "w AND 255 = 0" "bit w (8 + k) \<and> (\<forall>j<k. \<not> bit w (8 + j))" "j < 8 + k"
  show "\<not> bit w j"
  proof (cases "j < 8")
    case False
    then obtain m where "j = 8 + m" using le_Suc_ex not_less by metis
    then show ?thesis using a by simp
  qed (rule low_byte_clear [OF a(1)])
qed simp

lemma low_bit_lowest: "w \<noteq> 0 \<Longrightarrow> \<exists>k. low_bit_from w r = r + k \<and> lowest w k"
proof (induction w r rule: low_bit_from.induct)
  case (1 w r)
  show ?case
  proof (cases "w AND 255 = 0")
    case True
    obtain k where k: "low_bit_from (drop_bit 8 w) (r + 8) = r + 8 + k" "lowest (drop_bit 8 w) k"
      using 1(1) [OF conjI [OF 1(2) True] drop_nonzero [OF 1(2) True]] by blast
    have "low_bit_from w r = r + (8 + k)"
      by (subst low_bit_from.simps) (simp only: True 1(2) k(1) simp_thms if_True not_False_eq_True add.assoc)
    then show ?thesis using lowest_shift [OF True k(2)] by blast
  next
    case False
    then have "lowest (ucast w :: byte) (rightmost_one_pos ! unat (ucast w :: byte))"
      using rightmost_one_pos_lowest low_byte_zero by blast
    then have "lowest w (rightmost_one_pos ! unat (w AND 255))"
      unfolding low_byte lowest_def low_byte_bit by auto
    moreover have "low_bit_from w r = r + rightmost_one_pos ! unat (w AND 255)"
      by (subst low_bit_from.simps) (simp only: False simp_thms if_False)
    ultimately show ?thesis by blast
  qed
qed

lemma word_member_lowest: "w \<noteq> 0 \<Longrightarrow> \<exists>k < 32. word_member i w = int (32 * i + k) \<and> lowest w k"
  using low_bit_lowest [of w "i * BITS_PER_BITMAPWORD"] lowest_nonzero
  by (fastforce simp: word_member_def BITS_PER_BITMAPWORD_def)

lemma count_bytes_card: "count_bytes w = card {n. bit w n}"
proof (induction w rule: count_bytes.induct)
  case (1 w)
  show ?case
  proof (cases "w = 0")
    case False
    let ?L = "{n. n < 8 \<and> bit (ucast w :: byte) n}" and ?H = "(\<lambda>n. 8 + n) ` {n. bit (drop_bit 8 w) n}"
    have fin: "finite {n. bit (v :: bitmapword) n}" for v
      by (rule finite_subset [of _ "{..<32}"]) (auto dest: bit_imp_le_length)
    have "{n. bit w n} = ?L \<union> ?H"
    proof (intro set_eqI)
      fix n
      show "n \<in> {n. bit w n} \<longleftrightarrow> n \<in> ?L \<union> ?H"
      proof (cases "n < 8")
        case False
        then obtain m where "n = 8 + m" using le_Suc_ex not_less by metis
        then show ?thesis using False by (auto simp only: bit_drop_bit_eq comp_apply low_byte_bit mem_Collect_eq Un_iff image_iff)
      qed (auto simp: low_byte_bit)
    qed
    moreover have "?L \<inter> ?H = {}" by auto
    moreover have "card ?H = card {n. bit (drop_bit 8 w) n}" by (rule card_image) (simp add: inj_on_def)
    ultimately have "card {n. bit w n} = card ?L + card {n. bit (drop_bit 8 w) n}"
      using card_Un_disjoint [of ?L ?H] finite_imageI [OF fin] by simp
    moreover have "number_of_ones ! unat (w AND 255) = card ?L"
      unfolding low_byte number_of_ones_popcount popcount8_def ..
    ultimately show ?thesis using 1 False by (subst count_bytes.simps) (simp only: if_True not_False_eq_True)
  qed (simp add: count_bytes.simps)
qed

section \<open>The words of a set, one after the other\<close>

lemma wd_Nil [simp]: "wd [] = (\<lambda>_. 0)"
  by (rule ext) (simp add: wd_def)

lemma wd_Cons: "wd (w # ws) i = (case i of 0 \<Rightarrow> w | Suc j \<Rightarrow> wd ws j)"
  by (simp add: wd_def split: nat.split)

definition from_word :: "nat \<Rightarrow> bitmapword list \<Rightarrow> nat set" where
  "from_word i ws = {n. 32 * i \<le> n \<and> bit (wd ws (n div 32 - i)) (n mod 32)}"

lemma from_word_0: "from_word 0 ws = members (wd ws)"
  by (simp add: from_word_def members_def)

lemma from_word_Nil [simp]: "from_word i [] = {}"
  by (simp add: from_word_def)

lemma at_word: "r < 32 \<Longrightarrow> 32 * q + r \<in> (\<lambda>k. 32 * i + k) ` {k. bit (w :: bitmapword) k} \<longleftrightarrow> q = i \<and> bit w r"
proof
  assume r: "r < 32" and "32 * q + r \<in> (\<lambda>k. 32 * i + k) ` {k. bit w k}"
  then obtain k where k: "32 * q + r = 32 * i + k" "bit w k" by blast
  then have "k < 32" by (auto dest: bit_imp_le_length)
  then have "q = i \<and> r = k" using k(1) r by presburger
  then show "q = i \<and> bit w r" using k(2) by simp
qed blast

lemma from_word_at: "r < 32 \<Longrightarrow> 32 * q + r \<in> from_word i ws \<longleftrightarrow> i \<le> q \<and> bit (wd ws (q - i)) r"
proof -
  assume r: "r < 32"
  have "32 * i \<le> 32 * q + r \<longleftrightarrow> i \<le> q" using r by presburger
  then show ?thesis using r by (simp add: from_word_def)
qed

lemma from_word_Cons: "from_word i (w # ws) = (\<lambda>k. 32 * i + k) ` {k. bit w k} \<union> from_word (i + 1) ws"
proof (intro set_eqI)
  fix n :: nat
  obtain q r where n: "n = 32 * q + r" and r: "r < 32" by (metis mod_less_divisor mult_div_mod_eq zero_less_numeral)
  have "i \<le> q \<and> bit (wd (w # ws) (q - i)) r \<longleftrightarrow> q = i \<and> bit w r \<or> i + 1 \<le> q \<and> bit (wd ws (q - (i + 1))) r"
  proof -
    consider "q < i" | "q = i" | m where "q = i + Suc m" by (metis less_imp_Suc_add linorder_neqE_nat add_Suc_right)
    then show ?thesis by cases (auto simp: wd_Cons)
  qed
  then show "n \<in> from_word i (w # ws) \<longleftrightarrow> n \<in> (\<lambda>k. 32 * i + k) ` {k. bit w k} \<union> from_word (i + 1) ws"
    unfolding n Un_iff at_word [OF r] from_word_at [OF r] .
qed

lemma from_word_ge: "n \<in> from_word i ws \<Longrightarrow> 32 * i \<le> n"
  by (simp add: from_word_def)

lemma finite_bits [simp]: "finite {k. bit (w :: bitmapword) k}"
  by (rule finite_subset [of _ "{..<32}"]) (auto dest: bit_imp_le_length)

lemma finite_from_word [simp]: "finite (from_word i ws)"
  by (induction ws arbitrary: i) (simp_all add: from_word_Cons)

lemma from_word_zero [simp]: "from_word i (0 # ws) = from_word (i + 1) ws"
  by (simp add: from_word_Cons)

lemma from_word_disjoint: "(\<lambda>k. 32 * i + k) ` {k. bit (w :: bitmapword) k} \<inter> from_word (i + 1) ws = {}"
  using bit_imp_le_length [of w] by (fastforce dest: from_word_ge)

lemma from_word_card: "card (from_word i ws) = sum_list (map count_bytes ws)"
proof (induction ws arbitrary: i)
  case (Cons w ws)
  have "card ((\<lambda>k. 32 * i + k) ` {k. bit w k}) = card {k. bit w k}" by (rule card_image) (simp add: inj_on_def)
  then show ?case
    using card_Un_disjoint [OF _ _ from_word_disjoint [of i w ws]] Cons.IH [of "i + 1"]
    by (simp add: from_word_Cons count_bytes_card)
qed simp

section \<open>The loops over the words\<close>

lemma low_word: "lowest w k \<Longrightarrow> word_member i w = int (32 * i + k)"
  using word_member_lowest [of w i] lowest_nonzero [of w k] lowest_unique [of w _ k] by blast

lemma from_word_first:
  assumes "lowest w k"
  shows "from_word i (w # ws) \<noteq> {} \<and> Min (from_word i (w # ws)) = 32 * i + k"
proof -
  have k: "32 * i + k \<in> from_word i (w # ws)" using assms by (simp add: from_word_Cons lowest_def)
  have "32 * i + k \<le> n" if n: "n \<in> from_word i (w # ws)" for n
    using n [unfolded from_word_Cons Un_iff]
  proof
    assume "n \<in> (\<lambda>k. 32 * i + k) ` {k. bit w k}"
    then obtain j where "n = 32 * i + j" "bit w j" by blast
    then show ?thesis using assms unfolding lowest_def by (cases "j < k") auto
  next
    assume "n \<in> from_word (i + 1) ws"
    then show ?thesis using from_word_ge [of n "i + 1" ws] lowest_nonzero [OF assms] by simp
  qed
  then have "Min (from_word i (w # ws)) = 32 * i + k" using k by (intro Min_eqI) simp_all
  then show ?thesis using k by blast
qed

lemma inj_word: "inj (\<lambda>k. 32 * i + k :: nat)"
  by (simp add: inj_on_def)

lemma first_loop_spec:
  "fst (first_loop i ws) = (if from_word i ws = {} then - 1 else int (Min (from_word i ws))) \<and>
   from_word i (snd (first_loop i ws)) = from_word i ws - {Min (from_word i ws)}"
proof (induction i ws rule: first_loop.induct)
  case (2 i w ws)
  show ?case
  proof (cases "w = 0")
    case True
    obtain x ws' where f: "first_loop (i + 1) ws = (x, ws')" by (cases "first_loop (i + 1) ws")
    have "\<not> w \<noteq> 0" using True by simp
    from 2(1) [OF this] show ?thesis
      by (simp only: first_loop.simps f True simp_thms if_False prod.case fst_conv snd_conv from_word_zero)
  next
    case False
    then obtain k where k: "lowest w k" "k < 32" using lowest_exists by blast
    have "bit (w AND NOT (RIGHTMOST_ONE w)) n \<longleftrightarrow> bit w n \<and> n \<noteq> k" for n
      using k(2) bit_imp_le_length [of w n] unfolding rightmost_one [OF k(1)] bit_and_iff bit_not_iff bit_one by auto
    then have "{n. bit (w AND NOT (RIGHTMOST_ONE w)) n} = {n. bit w n} - {k}" by blast
    moreover have "32 * i + k \<notin> from_word (i + 1) ws" using k(2) by (auto dest: from_word_ge)
    ultimately have "from_word i ((w AND NOT (RIGHTMOST_ONE w)) # ws) = from_word i (w # ws) - {32 * i + k}"
      unfolding from_word_Cons using image_set_diff [OF inj_word, of i "{n. bit w n}" "{k}"]
      by (simp only: image_insert image_empty Un_Diff Diff_empty Diff_insert0 simp_thms)
    then show ?thesis
      using False from_word_first [OF k(1), of i ws] low_word [OF rightmost_one_lowest [OF k(1)], of i] by simp
  qed
qed simp

lemma membership_multiple: "w \<noteq> 0 \<Longrightarrow> \<not> HAS_MULTIPLE_ONES w \<longleftrightarrow> count_bytes w = 1"
  by (simp add: multiple_ones count_bytes_card)

lemma count_bytes_pos: "count_bytes w = 0 \<longleftrightarrow> w = 0"
  using count_bytes_card [of w] lowest_exists [of w] by (auto simp: lowest_def)

lemma membership_loop_spec:
  "membership_loop ws r =
     (let n = sum_list (map count_bytes ws) + (if r = BMS_EMPTY_SET then 0 else if r = BMS_SINGLETON then 1 else 2)
      in if n = 0 then BMS_EMPTY_SET else if n = 1 then BMS_SINGLETON else BMS_MULTIPLE)"
proof (induction ws r rule: membership_loop.induct)
  case (1 r)
  then show ?case by (cases r) simp_all
next
  case (2 w ws r)
  define n where "n = sum_list (map count_bytes ws)"
  show ?case
    using 2 [folded n_def] membership_multiple [of w] count_bytes_pos [of w] unfolding list.map sum_list.Cons n_def [symmetric]
    by (cases r) (auto simp: Let_def)
qed

lemma singleton_loop_spec:
  "singleton_loop i ws r =
     (let S = from_word i ws; n = card S + (if r < 0 then 0 else 1)
      in if n = 0 then Inl BitmapsetIsEmpty else if n > 1 then Inl BitmapsetHasMultipleMembers
         else Inr (if r < 0 then int (Min S) else r))"
proof (induction i ws r rule: singleton_loop.induct)
  case (2 i w ws r)
  show ?case
  proof (cases "w = 0")
    case False
    then obtain k where k: "lowest w k" using lowest_exists by blast
    have c: "card (from_word i (w # ws)) = count_bytes w + card (from_word (i + 1) ws)" by (simp add: from_word_card)
    have p: "count_bytes w \<noteq> 0" using False by (simp add: count_bytes_pos)
    show ?thesis
    proof (cases "r \<ge> 0 \<or> HAS_MULTIPLE_ONES w")
      case True
      then have "1 < card (from_word i (w # ws)) + (if r < 0 then 0 else 1)"
        using p c membership_multiple [OF False] by auto
      then obtain n where "card (from_word i (w # ws)) + (if r < 0 then 0 else 1) = n" "1 < n" by blast
      then show ?thesis using True False by (simp only: Let_def singleton_loop.simps if_True not_False_eq_True) simp
    next
      case m: False
      then have "count_bytes w = 1" using membership_multiple [OF False] by blast
      moreover have "\<not> word_member i w < 0" by (simp add: word_member_def)
      moreover have "word_member i w = int (Min (from_word i (w # ws)))"
        using low_word [OF k] from_word_first [OF k] by simp
      ultimately show ?thesis using 2(1) [OF False m] m False c by (simp add: Let_def)
    qed
  qed (use 2 in simp)
qed simp

section \<open>The interface\<close>

text \<open>What a client relies on: sets, up to \<open>set_of\<close>, under the operations of set algebra and their tests.\<close>

locale set_algebra =
  fixes set_of :: "'s \<Rightarrow> 'e set"
    and union :: "'s \<Rightarrow> 's \<Rightarrow> 's"
    and intersect :: "'s \<Rightarrow> 's \<Rightarrow> 's"
    and difference :: "'s \<Rightarrow> 's \<Rightarrow> 's"
    and equal :: "'s \<Rightarrow> 's \<Rightarrow> bool"
    and subset :: "'s \<Rightarrow> 's \<Rightarrow> bool"
    and overlap :: "'s \<Rightarrow> 's \<Rightarrow> bool"
    and is_empty :: "'s \<Rightarrow> bool"
  assumes set_union [simp]: "set_of (union a b) = set_of a \<union> set_of b"
    and set_intersect [simp]: "set_of (intersect a b) = set_of a \<inter> set_of b"
    and set_difference [simp]: "set_of (difference a b) = set_of a - set_of b"
    and equal_iff [simp]: "equal a b \<longleftrightarrow> set_of a = set_of b"
    and subset_iff [simp]: "subset a b \<longleftrightarrow> set_of a \<subseteq> set_of b"
    and overlap_iff [simp]: "overlap a b \<longleftrightarrow> set_of a \<inter> set_of b \<noteq> {}"
    and is_empty_iff [simp]: "is_empty a \<longleftrightarrow> set_of a = {}"
begin

lemma tests_agree:
  "overlap a b \<longleftrightarrow> \<not> is_empty (intersect a b)" "subset a b \<longleftrightarrow> is_empty (difference a b)"
  "subset a b \<longleftrightarrow> equal (union a b) b" "equal a b \<longleftrightarrow> subset a b \<and> subset b a"
  by auto

text \<open>The relations above a join: a set stays a subset of a union that grows.\<close>

lemma subset_fold_union: "subset a (fold union bs (union c a))"
proof -
  have "set_of d \<subseteq> set_of (fold union bs d)" for d
  proof (induction bs arbitrary: d)
    case (Cons b bs)
    from Cons.IH [of "union b d"] show ?case by simp
  qed simp
  from this [of "union c a"] show ?thesis by simp
qed

lemma set_fold_union: "set_of (fold union bs a) = set_of a \<union> \<Union> (set_of ` set bs)"
  by (induction bs arbitrary: a) auto

lemma order_irrelevant: "mset as = mset bs \<Longrightarrow> equal (fold union as c) (fold union bs c)"
  using mset_eq_setD [of as bs] by (simp add: set_fold_union)

end

section \<open>The operations are those of sets\<close>

lemmas wd_ops = or_wd and_wd andnot_wd

lemma bms_set_union: "bms_set (bms_union a b) = bms_set a \<union> bms_set b"
  by (induction a b rule: bms_union.induct) (auto simp: bms_copy_def wd_ops members_or)

lemma bms_set_intersect: "bms_set (bms_intersect a b) = bms_set a \<inter> bms_set b"
  by (induction a b rule: bms_intersect.induct) (auto simp: wd_ops members_and)

lemma bms_set_difference: "bms_set (bms_difference a b) = bms_set a - bms_set b"
  by (induction a b rule: bms_difference.induct) (auto simp: bms_copy_def wd_ops members_andnot)

lemma all_split: "(\<forall>i. P i) \<longleftrightarrow> (\<forall>i < n. P i) \<and> (\<forall>i. n \<le> i \<longrightarrow> P i)" for n :: nat
  by (metis not_less)

lemma wd_out: "length ws \<le> i \<Longrightarrow> wd ws i = 0"
  by (simp add: wd_def)

lemma bms_equal_iff: "bms_equal a b \<longleftrightarrow> bms_set a = bms_set b"
proof (induction a b rule: bms_equal.induct)
  case (4 a b)
  have *: "list_all (\<lambda>i. u ! i = v ! i) [0..<length u] \<and> all_zero (drop (length u) v) \<longleftrightarrow> (\<forall>i. wd u i = wd v i)"
    if "length u \<le> length v" for u v
  proof -
    have "(\<forall>i < length u. wd u i = wd v i) \<longleftrightarrow> list_all (\<lambda>i. u ! i = v ! i) [0..<length u]"
      using that by (simp add: list_all_iff wd_def Ball_def)
    moreover have "(\<forall>i. length u \<le> i \<longrightarrow> wd u i = wd v i) \<longleftrightarrow> all_zero (drop (length u) v)"
      unfolding all_zero_drop by (intro all_cong1 imp_cong refl) (simp add: wd_out eq_commute [of 0])
    ultimately show ?thesis using all_split [of "\<lambda>i. wd u i = wd v i" "length u"] by simp
  qed
  show ?case using * [of a b] * [of b a] by (auto simp: members_eq_iff Let_def)
qed (simp_all add: members_empty_iff all_zero_wd eq_commute [of "{}"])

lemma bms_is_empty_iff: "bms_is_empty a \<longleftrightarrow> bms_set a = {}"
  by (cases a) (simp_all add: members_empty_iff all_zero_wd)

lemma words_test:
  "list_all (\<lambda>i. P (a ! i) (b ! i)) [0..<min (length a) (length b)] \<longleftrightarrow> (\<forall>i < min (length a) (length b). P (wd a i) (wd b i))"
  by (auto simp: list_all_iff wd_def)

lemma bms_is_subset_iff: "bms_is_subset a b \<longleftrightarrow> bms_set a \<subseteq> bms_set b"
proof (induction a b rule: bms_is_subset.induct)
  case (3 a b)
  let ?n = "min (length a) (length b)"
  have "(\<forall>i. ?n \<le> i \<longrightarrow> wd a i AND NOT (wd b i) = 0) \<longleftrightarrow> (\<forall>i. length b \<le> i \<longrightarrow> wd a i = 0)"
  proof
    assume z: "\<forall>i. ?n \<le> i \<longrightarrow> wd a i AND NOT (wd b i) = 0"
    show "\<forall>i. length b \<le> i \<longrightarrow> wd a i = 0"
    proof (intro allI impI)
      fix i assume "length b \<le> i"
      then show "wd a i = 0" using z [rule_format, of i] by (simp add: wd_out [of b])
    qed
  next
    assume z: "\<forall>i. length b \<le> i \<longrightarrow> wd a i = 0"
    show "\<forall>i. ?n \<le> i \<longrightarrow> wd a i AND NOT (wd b i) = 0"
    proof (intro allI impI)
      fix i assume "?n \<le> i"
      then have "wd a i = 0" using z wd_out [of a i] by (cases "length a \<le> i") auto
      then show "wd a i AND NOT (wd b i) = 0" by simp
    qed
  qed
  then have "(\<forall>i. wd a i AND NOT (wd b i) = 0) \<longleftrightarrow>
        (\<forall>i < ?n. wd a i AND NOT (wd b i) = 0) \<and> (\<forall>i. length b \<le> i \<longrightarrow> wd a i = 0)"
    by (subst all_split [of _ ?n]) simp
  moreover have "\<not> length a > length b \<Longrightarrow> \<forall>i. length b \<le> i \<longrightarrow> wd a i = 0" by (simp add: wd_out)
  ultimately show ?case
    unfolding bms_is_subset.simps bms_set.simps members_subset_iff words_test [where P = "\<lambda>x y. x AND NOT y = 0"] all_zero_drop
    by presburger
qed (auto simp: members_empty_iff all_zero_wd)

lemma bms_nonempty_difference_iff: "bms_nonempty_difference a b \<longleftrightarrow> \<not> bms_is_subset a b"
proof (induction a b rule: bms_nonempty_difference.induct)
  case (3 a b)
  have "drop (min (length a) (length b)) a = (if length a > length b then drop (length b) a else [])" by simp
  then show ?case by (auto simp: list_all_iff list_ex_iff all_zero_def min_def)
qed auto

lemma bms_overlap_iff: "bms_overlap a b \<longleftrightarrow> bms_set a \<inter> bms_set b \<noteq> {}"
proof (induction a b rule: bms_overlap.induct)
  case (1 a b)
  let ?n = "min (length a) (length b)"
  have "bms_overlap (Some a) (Some b) \<longleftrightarrow> (\<exists>i < ?n. wd a i AND wd b i \<noteq> 0)"
    by (simp add: list_ex_iff wd_def Bex_def conj_assoc cong: conj_cong)
  also have "\<dots> \<longleftrightarrow> (\<exists>i. wd a i AND wd b i \<noteq> 0)"
  proof -
    have "i < ?n" if "wd a i AND wd b i \<noteq> 0" for i
      using that wd_out [of a i] wd_out [of b i] by (cases "length a \<le> i"; cases "length b \<le> i") auto
    then show ?thesis by blast
  qed
  finally show ?case by (simp add: members_empty_iff flip: members_and)
qed auto

interpretation bms: set_algebra bms_set bms_union bms_intersect bms_difference bms_equal bms_is_subset bms_overlap bms_is_empty
  by unfold_locales (rule bms_set_union bms_set_intersect bms_set_difference bms_equal_iff bms_is_subset_iff bms_overlap_iff
    bms_is_empty_iff)+

section \<open>Members\<close>

lemma bms_make_singleton_set:
  assumes "0 \<le> x"
  obtains ws where "bms_make_singleton x = Inr (Some ws)" "length ws = WORDNUM x + 1" "members (wd ws) = {nat x}"
proof
  let ?ws = "(replicate (WORDNUM x + 1) 0)[WORDNUM x := push_bit (BITNUM x) 1]"
  show "bms_make_singleton x = Inr (Some ?ws)"
    unfolding bms_make_singleton_def using assms by (simp only: linorder_not_less [symmetric] if_False)
  show "length ?ws = WORDNUM x + 1" by (simp only: length_list_update length_replicate)
  show "members (wd ?ws) = {nat x}" using wordnum_bitnum [OF assms] singleton_members [of "nat x"] by (simp only:)
qed

lemma update_wd: "i < length ws \<Longrightarrow> wd (ws[i := v]) = (wd ws)(i := v)"
  by (auto simp: wd_def)

lemma set_bit_members:
  "members ((wd ws)(n div 32 := wd ws (n div 32) OR push_bit (n mod 32) 1)) = insert n (members (wd ws))"
  by (auto simp: members_def bit_or_iff bit_one div_mod_32 [of _ n] simp del: push_bit_of_1)

lemma clear_bit_members:
  "members ((wd ws)(n div 32 := wd ws (n div 32) AND NOT (push_bit (n mod 32) 1))) = members (wd ws) - {n}"
proof (intro set_eqI)
  fix m :: nat
  have "m mod 32 < 32" by simp
  then show "m \<in> members ((wd ws)(n div 32 := wd ws (n div 32) AND NOT (push_bit (n mod 32) 1))) \<longleftrightarrow> m \<in> members (wd ws) - {n}"
    by (simp add: members_def bit_and_iff bit_not_iff bit_one div_mod_32 [of m n] del: push_bit_of_1)
qed

lemma bms_is_member_set: "bms_is_member x a = (if x < 0 then Inl NegativeBitmapsetMember else Inr (nat x \<in> bms_set a))"
proof (cases a)
  case (Some ws)
  have "nat x \<in> members (wd ws) \<longleftrightarrow> WORDNUM x < length ws \<and> ws ! WORDNUM x AND push_bit (BITNUM x) 1 \<noteq> 0" if "0 \<le> x"
    using bit_test [of "nat x mod 32" "ws ! (nat x div 32)"] that
    by (auto simp: members_def wd_def WORDNUM_def BITNUM_def BITS_PER_BITMAPWORD_def simp del: push_bit_of_1)
  then show ?thesis using Some by (auto simp: bms_is_member_def simp del: push_bit_of_1)
qed (simp add: bms_is_member_def)

lemma bms_add_member_set:
  "map_sum id bms_set (bms_add_member a x) = (if x < 0 then Inl NegativeBitmapsetMember else Inr (insert (nat x) (bms_set a)))"
proof (cases "x < 0")
  case False
  then obtain rs where rs: "bms_make_singleton x = Inr (Some rs)" "length rs = WORDNUM x + 1" "members (wd rs) = {nat x}"
    using bms_make_singleton_set [of x] by (metis linorder_not_less)
  show ?thesis
  proof (cases a)
    case None
    then show ?thesis using rs False by (simp add: bms_add_member_def)
  next
    case (Some ws)
    show ?thesis
    proof (cases "WORDNUM x \<ge> length ws")
      case True
      then have "wd (words_with (OR) rs ws) = (\<lambda>i. wd rs i OR wd ws i)" using rs(2) by (intro or_wd) simp
      then have "members (wd (words_with (OR) rs ws)) = insert (nat x) (members (wd ws))"
        using rs(3) by (simp add: members_or)
      then show ?thesis using True False rs(1) Some by (simp add: bms_add_member_def)
    next
      case f: False
      then have "wd ws (WORDNUM x) = ws ! WORDNUM x" by (simp add: wd_def)
      then have "members (wd (ws[WORDNUM x := ws ! WORDNUM x OR push_bit (BITNUM x) 1])) = insert (nat x) (members (wd ws))"
        using f set_bit_members [of ws "nat x"] wordnum_bitnum [of x] False by (simp add: update_wd del: push_bit_of_1)
      then show ?thesis using f False Some by (simp add: bms_add_member_def del: push_bit_of_1)
    qed
  qed
qed (simp add: bms_add_member_def)

lemma bms_del_member_set:
  "map_sum id bms_set (bms_del_member a x) = (if x < 0 then Inl NegativeBitmapsetMember else Inr (bms_set a - {nat x}))"
proof (cases "x < 0")
  case False
  show ?thesis
  proof (cases a)
    case (Some ws)
    show ?thesis
    proof (cases "WORDNUM x < length ws")
      case True
      then have "wd ws (WORDNUM x) = ws ! WORDNUM x" by (simp add: wd_def)
      then have "members (wd (ws[WORDNUM x := ws ! WORDNUM x AND NOT (push_bit (BITNUM x) 1)])) = members (wd ws) - {nat x}"
        using True clear_bit_members [of ws "nat x"] wordnum_bitnum [of x] False by (simp add: update_wd del: push_bit_of_1)
      then show ?thesis using True False Some by (simp add: bms_del_member_def del: push_bit_of_1)
    next
      case f: False
      then have "nat x \<notin> members (wd ws)"
        using wordnum_bitnum [of x] False by (simp add: members_def wd_out)
      then show ?thesis using f False Some by (simp add: bms_del_member_def del: push_bit_of_1)
    qed
  qed (simp add: bms_del_member_def)
qed (simp add: bms_del_member_def)

lemma bms_num_members_card: "bms_num_members a = card (bms_set a)"
  using from_word_card [of 0] by (cases a) (simp_all add: from_word_0)

lemma bms_first_member_set:
  "fst (bms_first_member a) = (if bms_set a = {} then - 1 else int (Min (bms_set a))) \<and>
   bms_set (snd (bms_first_member a)) = bms_set a - {Min (bms_set a)}"
proof (cases a)
  case (Some ws)
  obtain x ws' where "first_loop 0 ws = (x, ws')" by (cases "first_loop 0 ws")
  then show ?thesis using first_loop_spec [of 0 ws] Some by (simp add: from_word_0)
qed simp

lemma finite_bms_set [simp]: "finite (bms_set a)"
  using finite_members by (cases a) simp_all

text \<open>The loop \<open>while ((x = bms_first_member(a)) >= 0)\<close> of the callers: the members it sees, in order.\<close>

partial_function (option) bms_members :: "Bitmapset \<Rightarrow> int list option" where
  "bms_members a =
     (let (x, a') = bms_first_member a
      in if x \<ge> 0 then Option.bind (bms_members a') (\<lambda>xs. Some (x # xs)) else Some [])"

lemma bms_members_sorted: "bms_members a = Some (map int (sorted_list_of_set (bms_set a)))"
proof (induction "card (bms_set a)" arbitrary: a)
  case 0
  then have e: "bms_set a = {}" by simp
  then have "fst (bms_first_member a) = - 1" using bms_first_member_set [of a] by simp
  then show ?case using e by (subst bms_members.simps) (simp add: split_beta)
next
  case (Suc n)
  then have ne: "bms_set a \<noteq> {}" by auto
  then have f: "fst (bms_first_member a) = int (Min (bms_set a))"
    "bms_set (snd (bms_first_member a)) = bms_set a - {Min (bms_set a)}"
    using bms_first_member_set [of a] by simp_all
  then have "n = card (bms_set (snd (bms_first_member a)))" using Suc.hyps(2) ne by simp
  from Suc.hyps(1) [OF this]
  show ?case using f ne by (subst bms_members.simps) (simp add: split_beta sorted_list_of_set_nonempty)
qed

section \<open>The hash\<close>

lemma same_words: "wd a = wd b \<Longrightarrow> length a \<le> length b \<Longrightarrow> b = a @ replicate (length b - length a) 0"
proof (rule nth_equalityI)
  fix i assume w: "wd a = wd b" "i < length b"
  have "b ! i = wd a i" using w by (simp add: wd_def)
  then show "b ! i = (a @ replicate (length b - length a) 0) ! i"
    using w(2) by (simp add: nth_append wd_def)
qed simp

lemma hash_padding: "bms_hash_value big (Some (ws @ replicate k 0)) = bms_hash_value big (Some ws)"
proof -
  have "dropWhile (\<lambda>w. w = 0) (replicate k 0 @ xs) = dropWhile (\<lambda>w. w = 0) xs" for xs :: "bitmapword list"
    by (induction k) simp_all
  then have "dropWhile (\<lambda>w. w = 0) (rev (ws @ replicate k 0)) = dropWhile (\<lambda>w. w = 0) (rev ws)" by simp
  then show ?thesis by (simp only: bms_hash_value_def option.case)
qed

lemma hash_empty: "all_zero ws \<Longrightarrow> bms_hash_value big (Some ws) = 0"
proof -
  assume "all_zero ws"
  then have "dropWhile (\<lambda>w. w = 0) (rev ws) = []" by (simp add: all_zero_def list_all_iff)
  then show ?thesis by (simp add: bms_hash_value_def)
qed

lemma bms_hash_none: "bms_hash_value big None = 0"
  by (simp add: bms_hash_value_def)

lemma bms_equal_hash: "bms_equal a b \<Longrightarrow> bms_hash_value big a = bms_hash_value big b"
proof (induction a b rule: bms_equal.induct)
  case (4 a b)
  then have w: "wd a = wd b" by (auto simp: bms_equal_iff members_eq_iff)
  show ?case
    using same_words [OF w] same_words [OF w [symmetric]] hash_padding [of big a "length b - length a"]
      hash_padding [of big b "length a - length b"]
    by (cases "length a \<le> length b") simp_all
qed (simp_all add: hash_empty bms_hash_none del: bms.is_empty_iff bms.equal_iff)

section \<open>Properties\<close>

text \<open>C29: every operation that computes a set computes the set its name says, whatever the lengths of the arrays and
  however null pointers and trailing zero words represent the arguments; the ones that recycle an argument agree with
  the ones that copy.\<close>

theorem bms_operations:
  "bms_set (bms_copy a) = bms_set a \<and>
   bms_set (bms_union a b) = bms_set a \<union> bms_set b \<and>
   bms_set (bms_add_members a b) = bms_set a \<union> bms_set b \<and>
   bms_set (bms_join a b) = bms_set a \<union> bms_set b \<and>
   bms_set (bms_intersect a b) = bms_set a \<inter> bms_set b \<and>
   bms_set (bms_int_members a b) = bms_set a \<inter> bms_set b \<and>
   bms_set (bms_difference a b) = bms_set a - bms_set b \<and>
   bms_set (bms_del_members a b) = bms_set a - bms_set b"
proof -
  have "bms_set (bms_add_members a b) = bms_set a \<union> bms_set b" "bms_set (bms_join a b) = bms_set a \<union> bms_set b"
    by (cases a; cases b; auto simp: bms_copy_def wd_ops members_or)+
  moreover have "bms_set (bms_int_members a b) = bms_set a \<inter> bms_set b"
    by (cases a; cases b) (simp_all add: int_members_wd [abs_def] members_and)
  moreover have "bms_set (bms_del_members a b) = bms_set a - bms_set b"
    by (cases a; cases b) (simp_all add: andnot_wd members_andnot)
  ultimately show ?thesis
    by (simp add: bms_copy_def bms_set_union bms_set_intersect bms_set_difference)
qed

text \<open>Every test and count of bitmapsets decides what its name says of the sets they stand for.\<close>

lemma bms_tests:
  "(bms_equal a b \<longleftrightarrow> bms_set a = bms_set b) \<and>
   (bms_is_subset a b \<longleftrightarrow> bms_set a \<subseteq> bms_set b) \<and>
   (bms_overlap a b \<longleftrightarrow> bms_set a \<inter> bms_set b \<noteq> {}) \<and>
   (bms_nonempty_difference a b \<longleftrightarrow> bms_set a - bms_set b \<noteq> {}) \<and>
   (bms_is_empty a \<longleftrightarrow> bms_set a = {}) \<and>
   bms_num_members a = card (bms_set a) \<and>
   bms_membership a =
     (if bms_set a = {} then BMS_EMPTY_SET else if card (bms_set a) = 1 then BMS_SINGLETON else BMS_MULTIPLE)"
proof -
  have "bms_membership a =
     (if card (bms_set a) = 0 then BMS_EMPTY_SET else if card (bms_set a) = 1 then BMS_SINGLETON else BMS_MULTIPLE)"
    by (cases a) (simp_all add: membership_loop_spec from_word_0 Let_def flip: from_word_card [of 0] del: card_eq_0_iff)
  then show ?thesis
    by (simp add: bms_nonempty_difference_iff bms_num_members_card)
qed

text \<open>C31: the operations on single members: a negative member is an error of each; else the bitmapset is enlarged as
  needed, and exactly the member asked for is set, cleared or tested.  The only member of a set is found, and the error
  of a set that is empty or has several is the right one of the two.\<close>

theorem bms_single_members:
  "map_sum id bms_set (bms_make_singleton x) = (if x < 0 then Inl NegativeBitmapsetMember else Inr {nat x}) \<and>
   map_sum id bms_set (bms_add_member a x) =
     (if x < 0 then Inl NegativeBitmapsetMember else Inr (insert (nat x) (bms_set a))) \<and>
   map_sum id bms_set (bms_del_member a x) =
     (if x < 0 then Inl NegativeBitmapsetMember else Inr (bms_set a - {nat x})) \<and>
   bms_is_member x a = (if x < 0 then Inl NegativeBitmapsetMember else Inr (nat x \<in> bms_set a)) \<and>
   bms_singleton_member a =
     (if bms_set a = {} then Inl BitmapsetIsEmpty
      else if card (bms_set a) > 1 then Inl BitmapsetHasMultipleMembers else Inr (int (Min (bms_set a))))"
proof -
  have "map_sum id bms_set (bms_make_singleton x) = (if x < 0 then Inl NegativeBitmapsetMember else Inr {nat x})"
  proof (cases "x < 0")
    case False
    then obtain ws where "bms_make_singleton x = Inr (Some ws)" "members (wd ws) = {nat x}"
      using bms_make_singleton_set [of x] by (metis linorder_not_less)
    then show ?thesis using False by simp
  qed (simp add: bms_make_singleton_def)
  moreover have "bms_singleton_member a =
     (if card (bms_set a) = 0 then Inl BitmapsetIsEmpty
      else if card (bms_set a) > 1 then Inl BitmapsetHasMultipleMembers else Inr (int (Min (bms_set a))))"
    by (cases a) (simp_all add: singleton_loop_spec from_word_0 Let_def del: card_eq_0_iff)
  ultimately show ?thesis
    using bms_add_member_set bms_del_member_set bms_is_member_set by simp
qed

text \<open>C30: the loop that takes the first member until there is none ends for every bitmapset and sees every member
  exactly once, in increasing order.\<close>

theorem bms_iteration: "bms_members a = Some (map int (sorted_list_of_set (bms_set a)))"
  by (rule bms_members_sorted)

text \<open>C32: bitmapsets that are equal have equal hashes, although they may have different lengths; for the join and
  set-operation hash tables keyed by them.\<close>

theorem bms_hash_respects_equal: "bms_equal a b \<Longrightarrow> bms_hash_value big a = bms_hash_value big b"
  by (rule bms_equal_hash)

theorem bms_hash_respects_equal_witness:
  "bms_hash_value False (Some [5, 0]) = bms_hash_value False (Some [5, 0, 0])"
  by (rule bms_hash_respects_equal) code_simp

end
