(* ===== verification/BufStrategy.thy ===== *)
theory BufStrategy
  imports Prelude
begin

text \<open>
  The replacement strategy of the shared buffer pool (storage/buffer/freelist.c), its initialisation (buf_init.c) and
  the pins of storage/buffer/bufmgr.c: the list of free buffers, the clock sweep over usage counts, the rings of
  bulk operations.  A buffer is known by its index; a read outside an array is the error \<open>IndexOutOfBounds\<close>.
\<close>

section \<open>Descriptors and control block\<close>

text \<open>Of the flags of a buffer those the pins look at.\<close>

record BufferDesc =
  refcount :: nat
  usage_count :: nat
  freeNext :: int
  BM_VALID :: bool
  BM_PIN_COUNT_WAITER :: bool

definition FREENEXT_END_OF_LIST :: int where "FREENEXT_END_OF_LIST = - 1"
definition FREENEXT_NOT_IN_LIST :: int where "FREENEXT_NOT_IN_LIST = - 2"
definition BM_MAX_USAGE_COUNT :: nat where "BM_MAX_USAGE_COUNT = 5"

record BufferStrategyControl =
  nextVictimBuffer :: nat
  firstFreeBuffer :: int
  lastFreeBuffer :: int
  completePasses :: "32 word"
  numBufferAllocs :: "32 word"

record buf_pool =
  BufferDescriptors :: "BufferDesc list"
  StrategyControl :: BufferStrategyControl

abbreviation NBuffers :: "buf_pool \<Rightarrow> nat" where
  "NBuffers p \<equiv> length (BufferDescriptors p)"

definition set_desc :: "nat \<Rightarrow> (BufferDesc \<Rightarrow> BufferDesc) \<Rightarrow> buf_pool \<Rightarrow> buf_pool" where
  "set_desc b f p = p\<lparr>BufferDescriptors := (BufferDescriptors p)[b := f (BufferDescriptors p ! b)]\<rparr>"

definition set_control :: "(BufferStrategyControl \<Rightarrow> BufferStrategyControl) \<Rightarrow> buf_pool \<Rightarrow> buf_pool" where
  "set_control f p = p\<lparr>StrategyControl := f (StrategyControl p)\<rparr>"

text \<open>At first all buffers are linked into the free list.\<close>

definition StrategyInitialize :: "nat \<Rightarrow> BufferStrategyControl" where
  "StrategyInitialize n =
     \<lparr>nextVictimBuffer = 0, firstFreeBuffer = 0, lastFreeBuffer = int n - 1, completePasses = 0, numBufferAllocs = 0\<rparr>"

definition InitBufferPool :: "nat \<Rightarrow> buf_pool" where
  "InitBufferPool n =
     \<lparr>BufferDescriptors =
        (let descs = map (\<lambda>i. \<lparr>refcount = 0, usage_count = 0, freeNext = int i + 1, BM_VALID = False,
                               BM_PIN_COUNT_WAITER = False\<rparr>) [0..<n]
         in descs[n - 1 := (descs ! (n - 1))\<lparr>freeNext := FREENEXT_END_OF_LIST\<rparr>]),
      StrategyControl = StrategyInitialize n\<rparr>"

section \<open>The free list\<close>

text \<open>One iteration of a search: a victim, another iteration, the end of the search or an error.\<close>

datatype 'a search = Victim nat | Continue 'a | Exhausted | Failure pg_error

text \<open>Take the head off the list; it is discarded if it cannot be used.\<close>

definition pop_iteration :: "buf_pool \<Rightarrow> unit search \<times> buf_pool" where
  "pop_iteration p =
     (let first = firstFreeBuffer (StrategyControl p)
      in if first \<ge> 0
         then if nat first < NBuffers p
              then let b = nat first;
                       buf = BufferDescriptors p ! b;
                       p = set_control (\<lambda>ctl. ctl\<lparr>firstFreeBuffer := freeNext buf\<rparr>) p;
                       p = set_desc b (\<lambda>buf. buf\<lparr>freeNext := FREENEXT_NOT_IN_LIST\<rparr>) p
                   in (if refcount buf = 0 \<and> usage_count buf = 0 then Victim b else Continue (), p)
              else (Failure IndexOutOfBounds, p)
         else (Exhausted, p))"

definition in_list :: "buf_pool \<Rightarrow> nat" where
  "in_list p = sum_list (map (\<lambda>buf. if freeNext buf = FREENEXT_NOT_IN_LIST then 0 else 1) (BufferDescriptors p))"

lemma sum_list_change: "i < length xs \<Longrightarrow> sum_list (xs[i := v]) + xs ! i = sum_list xs + (v :: nat)"
  using elem_le_sum_list [of i xs] by (simp add: sum_list_update)

lemma pop_decreases:
  assumes "pop_iteration p = (Continue (), p')"
  shows "in_list p' < in_list p \<or> in_list p' = in_list p \<and> firstFreeBuffer (StrategyControl p') < 0 \<and> 0 \<le> firstFreeBuffer (StrategyControl p)"
proof -
  let ?first = "firstFreeBuffer (StrategyControl p)"
  let ?f = "\<lambda>buf. if freeNext buf = FREENEXT_NOT_IN_LIST then 0 else 1 :: nat"
  have r: "0 \<le> ?first" "nat ?first < NBuffers p"
    using assms by (auto simp: pop_iteration_def Let_def split: if_splits)
  have p': "p' = set_desc (nat ?first) (\<lambda>buf. buf\<lparr>freeNext := FREENEXT_NOT_IN_LIST\<rparr>)
      (set_control (\<lambda>ctl. ctl\<lparr>firstFreeBuffer := freeNext (BufferDescriptors p ! nat ?first)\<rparr>) p)"
    using assms r by (auto simp: pop_iteration_def Let_def split: if_splits)
  have "in_list p' + ?f (BufferDescriptors p ! nat ?first) = in_list p"
    using sum_list_change [of "nat ?first" "map ?f (BufferDescriptors p)" 0] r
    by (simp add: p' in_list_def set_desc_def set_control_def map_update)
  then show ?thesis using r
    by (cases "freeNext (BufferDescriptors p ! nat ?first) = FREENEXT_NOT_IN_LIST")
      (simp_all add: p' set_desc_def set_control_def FREENEXT_NOT_IN_LIST_def)
qed

lemma pop_measure:
  "pop_iteration p = (Continue u, p') \<Longrightarrow>
   (p', p) \<in> measures [in_list, \<lambda>p. if firstFreeBuffer (StrategyControl p) < 0 then 0 else 1]"
  using pop_decreases [of p p'] by (cases u) auto

function pop_free :: "buf_pool \<Rightarrow> (pg_error + nat option) \<times> buf_pool" where
  "pop_free p =
     (case pop_iteration p of
        (Victim b, p') \<Rightarrow> (Inr (Some b), p')
      | (Continue u, p') \<Rightarrow> pop_free p'
      | (Exhausted, p') \<Rightarrow> (Inr None, p')
      | (Failure err, p') \<Rightarrow> (Inl err, p'))"
  by pat_completeness auto
termination
  by (relation "measures [in_list, \<lambda>p. if firstFreeBuffer (StrategyControl p) < 0 then 0 else 1]", simp)
    (rule pop_measure, fastforce)

section \<open>The clock sweep\<close>

definition advance_hand :: "buf_pool \<Rightarrow> buf_pool" where
  "advance_hand p =
     set_control (\<lambda>ctl. if nextVictimBuffer ctl + 1 \<ge> NBuffers p
        then ctl\<lparr>nextVictimBuffer := 0, completePasses := completePasses ctl + 1\<rparr>
        else ctl\<lparr>nextVictimBuffer := nextVictimBuffer ctl + 1\<rparr>) p"

text \<open>One iteration; \<open>trycounter\<close> is what is left of it before the search fails.\<close>

definition sweep_iteration :: "nat \<Rightarrow> buf_pool \<Rightarrow> nat search \<times> buf_pool" where
  "sweep_iteration trycounter p =
     (let b = nextVictimBuffer (StrategyControl p)
      in if b < NBuffers p
         then let buf = BufferDescriptors p ! b; p = advance_hand p
              in (if refcount buf = 0
                  then if usage_count buf > 0
                       then (Continue (NBuffers p), set_desc b (\<lambda>buf. buf\<lparr>usage_count := usage_count buf - 1\<rparr>) p)
                       else (Victim b, p)
                  else if trycounter - 1 = 0 then (Failure NoUnpinnedBuffers, p)
                  else (Continue (trycounter - 1), p))
         else (Failure IndexOutOfBounds, p))"

definition usage_sum :: "buf_pool \<Rightarrow> nat" where
  "usage_sum p = sum_list (map usage_count (BufferDescriptors p))"

lemma sweep_decreases:
  assumes "sweep_iteration t p = (Continue t', p')"
  shows "usage_sum p' < usage_sum p \<or> usage_sum p' = usage_sum p \<and> t' < t"
proof -
  let ?b = "nextVictimBuffer (StrategyControl p)"
  have b: "?b < NBuffers p" using assms by (auto simp: sweep_iteration_def Let_def split: if_splits)
  show ?thesis
  proof (cases "refcount (BufferDescriptors p ! ?b) = 0")
    case True
    then have "0 < usage_count (BufferDescriptors p ! ?b)"
      and p': "p' = set_desc ?b (\<lambda>buf. buf\<lparr>usage_count := usage_count buf - 1\<rparr>) (advance_hand p)"
      using assms b by (auto simp: sweep_iteration_def Let_def split: if_splits)
    then show ?thesis
      using sum_list_change [of ?b "map usage_count (BufferDescriptors p)" "usage_count (BufferDescriptors p ! ?b) - 1"] b
      by (simp add: p' usage_sum_def set_desc_def set_control_def advance_hand_def map_update) linarith
  next
    case False
    then show ?thesis using assms b
      by (auto simp: sweep_iteration_def Let_def usage_sum_def advance_hand_def set_control_def split: if_splits)
  qed
qed

function clock_sweep :: "nat \<Rightarrow> buf_pool \<Rightarrow> (pg_error + nat) \<times> buf_pool" where
  "clock_sweep trycounter p =
     (case sweep_iteration trycounter p of
        (Victim b, p') \<Rightarrow> (Inr b, p')
      | (Continue t, p') \<Rightarrow> clock_sweep t p'
      | (Exhausted, p') \<Rightarrow> (Inl IndexOutOfBounds, p')
      | (Failure err, p') \<Rightarrow> (Inl err, p'))"
  by pat_completeness auto
termination
  by (relation "measures [\<lambda>(t, p). usage_sum p, \<lambda>(t, p). t]") (simp, use sweep_decreases in fastforce)

declare pop_free.simps [simp del] clock_sweep.simps [simp del]

section \<open>Rings of buffers\<close>

datatype BufferAccessStrategyType = BAS_NORMAL | BAS_BULKREAD | BAS_BULKWRITE | BAS_VACUUM

text \<open>\<open>buffers\<close> holds buffer numbers, which are one more than the index; 0 is \<open>InvalidBuffer\<close>.\<close>

record BufferAccessStrategy =
  btype :: BufferAccessStrategyType
  ring_size :: nat
  current :: nat
  current_was_in_ring :: bool
  buffers :: "nat list"

definition BLCKSZ :: nat where "BLCKSZ = 8192"
definition InvalidBuffer :: nat where "InvalidBuffer = 0"

definition make_ring :: "nat \<Rightarrow> BufferAccessStrategyType \<Rightarrow> nat \<Rightarrow> BufferAccessStrategy" where
  "make_ring nbuffers bt elems =
     (let n = min (nbuffers div 8) elems
      in \<lparr>btype = bt, ring_size = n, current = 0, current_was_in_ring = False, buffers = replicate n InvalidBuffer\<rparr>)"

fun GetAccessStrategy :: "nat \<Rightarrow> BufferAccessStrategyType \<Rightarrow> BufferAccessStrategy option" where
  "GetAccessStrategy nbuffers BAS_NORMAL = None"
| "GetAccessStrategy nbuffers BAS_BULKREAD = Some (make_ring nbuffers BAS_BULKREAD (256 * 1024 div BLCKSZ))"
| "GetAccessStrategy nbuffers BAS_BULKWRITE = Some (make_ring nbuffers BAS_BULKWRITE (16 * 1024 * 1024 div BLCKSZ))"
| "GetAccessStrategy nbuffers BAS_VACUUM = Some (make_ring nbuffers BAS_VACUUM (256 * 1024 div BLCKSZ))"

definition GetBufferFromRing :: "buf_pool \<Rightarrow> BufferAccessStrategy \<Rightarrow> (pg_error + nat option) \<times> BufferAccessStrategy" where
  "GetBufferFromRing p strategy =
     (let strategy = strategy\<lparr>current := (if current strategy + 1 \<ge> ring_size strategy then 0 else current strategy + 1)\<rparr>
      in if current strategy < length (buffers strategy)
         then let bufnum = buffers strategy ! current strategy
              in if bufnum = InvalidBuffer then (Inr None, strategy\<lparr>current_was_in_ring := False\<rparr>)
                 else if bufnum - 1 < NBuffers p
                 then let buf = BufferDescriptors p ! (bufnum - 1)
                      in if refcount buf = 0 \<and> usage_count buf \<le> 1
                         then (Inr (Some (bufnum - 1)), strategy\<lparr>current_was_in_ring := True\<rparr>)
                         else (Inr None, strategy\<lparr>current_was_in_ring := False\<rparr>)
                 else (Inl IndexOutOfBounds, strategy)
         else (Inl IndexOutOfBounds, strategy))"

definition AddBufferToRing :: "nat \<Rightarrow> BufferAccessStrategy \<Rightarrow> BufferAccessStrategy" where
  "AddBufferToRing b strategy = strategy\<lparr>buffers := (buffers strategy)[current strategy := b + 1]\<rparr>"

definition StrategyRejectBuffer :: "BufferAccessStrategy \<Rightarrow> nat \<Rightarrow> bool \<times> BufferAccessStrategy" where
  "StrategyRejectBuffer strategy b =
     (if btype strategy \<noteq> BAS_BULKREAD then (False, strategy)
      else if \<not> current_was_in_ring strategy \<or> buffers strategy ! current strategy \<noteq> b + 1 then (False, strategy)
      else (True, strategy\<lparr>buffers := (buffers strategy)[current strategy := InvalidBuffer]\<rparr>))"

section \<open>Choosing and freeing a buffer\<close>

text \<open>The shared part: with the lock of the free list, count, try the list, then the sweep.\<close>

definition get_shared :: "buf_pool \<Rightarrow> (pg_error + nat) \<times> buf_pool" where
  "get_shared p =
     (let p = set_control (\<lambda>ctl. ctl\<lparr>numBufferAllocs := numBufferAllocs ctl + 1\<rparr>) p
      in case pop_free p of
           (Inl err, p) \<Rightarrow> (Inl err, p)
         | (Inr (Some b), p) \<Rightarrow> (Inr b, p)
         | (Inr None, p) \<Rightarrow> clock_sweep (NBuffers p) p)"

text \<open>The victim, whether the lock is held, and the strategy.\<close>

definition StrategyGetBuffer ::
  "BufferAccessStrategy option \<Rightarrow> buf_pool \<Rightarrow> (pg_error + nat \<times> bool \<times> BufferAccessStrategy option) \<times> buf_pool" where
  "StrategyGetBuffer strategy p =
     (case strategy of
        None \<Rightarrow> (case get_shared p of (r, p) \<Rightarrow> (map_sum id (\<lambda>b. (b, True, None)) r, p))
      | Some s \<Rightarrow>
          (case GetBufferFromRing p s of
             (Inl err, s) \<Rightarrow> (Inl err, p)
           | (Inr (Some b), s) \<Rightarrow> (Inr (b, False, Some s), p)
           | (Inr None, s) \<Rightarrow>
               (case get_shared p of (r, p) \<Rightarrow> (map_sum id (\<lambda>b. (b, True, Some (AddBufferToRing b s))) r, p))))"

definition StrategyFreeBuffer :: "nat \<Rightarrow> buf_pool \<Rightarrow> buf_pool" where
  "StrategyFreeBuffer b p =
     (if freeNext (BufferDescriptors p ! b) = FREENEXT_NOT_IN_LIST
      then let first = firstFreeBuffer (StrategyControl p);
               p = set_desc b (\<lambda>buf. buf\<lparr>freeNext := first\<rparr>) p;
               p = (if first < 0 then set_control (\<lambda>ctl. ctl\<lparr>lastFreeBuffer := int b\<rparr>) p else p)
           in set_control (\<lambda>ctl. ctl\<lparr>firstFreeBuffer := int b\<rparr>) p
      else p)"

text \<open>The hand, the passes, and the allocations if they are asked for, which resets them.\<close>

definition StrategySyncStart :: "bool \<Rightarrow> buf_pool \<Rightarrow> (nat \<times> 32 word \<times> 32 word option) \<times> buf_pool" where
  "StrategySyncStart want_allocs p =
     (let ctl = StrategyControl p
      in if want_allocs
         then ((nextVictimBuffer ctl, completePasses ctl, Some (numBufferAllocs ctl)),
               set_control (\<lambda>ctl. ctl\<lparr>numBufferAllocs := 0\<rparr>) p)
         else ((nextVictimBuffer ctl, completePasses ctl, None), p))"

section \<open>Pins\<close>

text \<open>\<open>prc\<close> is the \<open>PrivateRefCount\<close> of the backend; \<open>strategy\<close> whether a strategy is used.\<close>

definition PinBuffer :: "bool \<Rightarrow> nat \<Rightarrow> (nat \<Rightarrow> nat) \<times> buf_pool \<Rightarrow> bool \<times> (nat \<Rightarrow> nat) \<times> buf_pool" where
  "PinBuffer strategy b = (\<lambda>(prc, p).
     if prc b = 0
     then (BM_VALID (BufferDescriptors p ! b), prc(b := prc b + 1),
           set_desc b (\<lambda>buf. buf\<lparr>refcount := refcount buf + 1,
             usage_count := (if \<not> strategy then (if usage_count buf < BM_MAX_USAGE_COUNT then usage_count buf + 1 else usage_count buf)
                             else if usage_count buf = 0 then 1 else usage_count buf)\<rparr>) p)
     else (True, prc(b := prc b + 1), p))"

definition PinBuffer_Locked :: "nat \<Rightarrow> (nat \<Rightarrow> nat) \<times> buf_pool \<Rightarrow> (nat \<Rightarrow> nat) \<times> buf_pool" where
  "PinBuffer_Locked b = (\<lambda>(prc, p).
     (prc(b := prc b + 1), if prc b = 0 then set_desc b (\<lambda>buf. buf\<lparr>refcount := refcount buf + 1\<rparr>) p else p))"

text \<open>The waiter for the last pin is signalled when one is left.\<close>

definition UnpinBuffer :: "nat \<Rightarrow> (nat \<Rightarrow> nat) \<times> buf_pool \<Rightarrow> bool \<times> (nat \<Rightarrow> nat) \<times> buf_pool" where
  "UnpinBuffer b = (\<lambda>(prc, p).
     let prc = prc(b := prc b - 1)
     in if prc b = 0
        then let p = set_desc b (\<lambda>buf. buf\<lparr>refcount := refcount buf - 1\<rparr>) p; buf = BufferDescriptors p ! b
             in if BM_PIN_COUNT_WAITER buf \<and> refcount buf = 1
                then (True, prc, set_desc b (\<lambda>buf. buf\<lparr>BM_PIN_COUNT_WAITER := False\<rparr>) p)
                else (False, prc, p)
        else (False, prc, p))"

end
