(* ===== verification/BufStrategyProps.thy ===== *)
theory BufStrategyProps
  imports BufStrategy
begin

text \<open>
  The clock sweep takes the unpinned buffer whose usage count, and then distance from the hand, is least, and fails
  only if every buffer is pinned; the free list stays a list whatever the backends do between its steps, and a victim of the list, the
  sweep or a ring belongs to the backend that found it.
\<close>

section \<open>The clock\<close>

definition pinned :: "buf_pool \<Rightarrow> nat \<Rightarrow> bool" where
  "pinned p b \<longleftrightarrow> refcount (BufferDescriptors p ! b) \<noteq> 0"

abbreviation usage :: "buf_pool \<Rightarrow> nat \<Rightarrow> nat" where
  "usage p b \<equiv> usage_count (BufferDescriptors p ! b)"

abbreviation hand :: "buf_pool \<Rightarrow> nat" where
  "hand p \<equiv> nextVictimBuffer (StrategyControl p)"

text \<open>How far a buffer is ahead of the hand, and when the hand would take it.\<close>

definition distance :: "buf_pool \<Rightarrow> nat \<Rightarrow> nat" where
  "distance p b = (if hand p \<le> b then b - hand p else b + NBuffers p - hand p)"

definition sweep_time :: "buf_pool \<Rightarrow> nat \<Rightarrow> nat" where
  "sweep_time p b = usage p b * NBuffers p + distance p b"

lemma NBuffers_advance [simp]: "BufferDescriptors (advance_hand p) = BufferDescriptors p"
  by (simp add: advance_hand_def set_control_def)

lemma hand_advance: "hand p < NBuffers p \<Longrightarrow> hand (advance_hand p) = (if hand p + 1 = NBuffers p then 0 else hand p + 1)"
  by (simp add: advance_hand_def set_control_def)

lemma hand_advance_less: "hand p < NBuffers p \<Longrightarrow> hand (advance_hand p) < NBuffers p"
  by (cases "BufferDescriptors p") (auto simp: hand_advance)

lemma distance_advance:
  "hand p < NBuffers p \<Longrightarrow> b < NBuffers p \<Longrightarrow>
   distance (advance_hand p) b = (if b = hand p then NBuffers p - 1 else distance p b - 1) \<and>
   (b \<noteq> hand p \<longrightarrow> 0 < distance p b)"
  by (auto simp: distance_def hand_advance)

lemma distance_hand [simp]: "distance p (hand p) = 0"
  by (simp add: distance_def)

lemma set_desc_simps [simp]:
  "NBuffers (set_desc b f p) = NBuffers p" "StrategyControl (set_desc b f p) = StrategyControl p"
  "b < NBuffers p \<Longrightarrow> BufferDescriptors (set_desc b f p) ! b' = (if b' = b then f (BufferDescriptors p ! b) else BufferDescriptors p ! b')"
  by (auto simp: set_desc_def nth_list_update)

lemma distance_set_desc [simp]: "distance (set_desc b f p) = distance p"
  by (rule ext) (simp add: distance_def)

text \<open>One iteration brings every unpinned buffer one step closer, or takes the one under the hand.\<close>

lemma sweep_pinned:
  assumes "hand p < NBuffers p" and "pinned p (hand p)"
  shows "sweep_iteration t p =
    (if t - 1 = 0 then Failure NoUnpinnedBuffers else Continue (t - 1), advance_hand p)"
  using assms by (simp add: sweep_iteration_def pinned_def)

lemma sweep_used:
  assumes "hand p < NBuffers p" and "\<not> pinned p (hand p)" and "0 < usage p (hand p)"
  shows "sweep_iteration t p =
    (Continue (NBuffers p), set_desc (hand p) (\<lambda>buf. buf\<lparr>usage_count := usage_count buf - 1\<rparr>) (advance_hand p))"
  using assms by (simp add: sweep_iteration_def pinned_def)

lemma sweep_victim:
  assumes "hand p < NBuffers p" and "\<not> pinned p (hand p)" and "usage p (hand p) = 0"
  shows "sweep_iteration t p = (Victim (hand p), advance_hand p)"
  using assms by (simp add: sweep_iteration_def pinned_def)

lemma time_pinned:
  assumes "hand p < NBuffers p" "pinned p (hand p)" "b < NBuffers p" "\<not> pinned p b"
  shows "sweep_time p b = Suc (sweep_time (advance_hand p) b)"
  using assms distance_advance [of p b] by (auto simp: sweep_time_def)

lemma time_used:
  assumes "hand p < NBuffers p" "0 < usage p (hand p)" "b < NBuffers p"
  shows "sweep_time p b =
    Suc (sweep_time (set_desc (hand p) (\<lambda>buf. buf\<lparr>usage_count := usage_count buf - 1\<rparr>) (advance_hand p)) b)"
proof -
  obtain u where "usage p (hand p) = Suc u" using assms(2) gr0_implies_Suc by blast
  then show ?thesis using assms distance_advance [of p b] by (auto simp: sweep_time_def)
qed

text \<open>One iteration that goes on: the pins and the free list are untouched.\<close>

definition swept :: "buf_pool \<Rightarrow> buf_pool \<Rightarrow> bool" where
  "swept p q \<longleftrightarrow>
     NBuffers q = NBuffers p \<and> hand q < NBuffers p \<and> firstFreeBuffer (StrategyControl q) = firstFreeBuffer (StrategyControl p) \<and>
     (\<forall>b < NBuffers p. refcount (BufferDescriptors q ! b) = refcount (BufferDescriptors p ! b) \<and>
        freeNext (BufferDescriptors q ! b) = freeNext (BufferDescriptors p ! b) \<and>
        (if pinned p b then usage q b = usage p b else sweep_time p b = Suc (sweep_time q b)))"

text \<open>A sweep with victim \<open>b\<close>: no unpinned buffer would have been taken before; the others are that much nearer.\<close>

definition sweep_takes :: "buf_pool \<Rightarrow> nat \<Rightarrow> buf_pool \<Rightarrow> bool" where
  "sweep_takes p b p' \<longleftrightarrow>
     b < NBuffers p \<and> \<not> pinned p b \<and> usage p' b = 0 \<and>
     NBuffers p' = NBuffers p \<and> hand p' < NBuffers p \<and> firstFreeBuffer (StrategyControl p') = firstFreeBuffer (StrategyControl p) \<and>
     (\<forall>c < NBuffers p. refcount (BufferDescriptors p' ! c) = refcount (BufferDescriptors p ! c) \<and>
        freeNext (BufferDescriptors p' ! c) = freeNext (BufferDescriptors p ! c) \<and>
        (if pinned p c then usage p' c = usage p c
         else sweep_time p b \<le> sweep_time p c \<and>
              (c \<noteq> b \<longrightarrow> sweep_time p c = sweep_time p' c + sweep_time p b + 1)))"

lemma pinned_swept: "swept p q \<Longrightarrow> c < NBuffers p \<Longrightarrow> pinned q c = pinned p c"
  by (simp add: swept_def pinned_def)

lemma sweep_takes_step:
  assumes s: "swept p q" and t: "sweep_takes q b p'"
  shows "sweep_takes p b p'"
proof -
  have n: "NBuffers q = NBuffers p" using s by (simp add: swept_def)
  have b: "b < NBuffers p" "\<not> pinned q b" using t n by (simp_all add: sweep_takes_def)
  then have u: "\<not> pinned p b" using pinned_swept [OF s] by simp
  then have tb: "sweep_time p b = Suc (sweep_time q b)" using s b by (simp add: swept_def)
  have all: "refcount (BufferDescriptors p' ! c) = refcount (BufferDescriptors p ! c) \<and>
        freeNext (BufferDescriptors p' ! c) = freeNext (BufferDescriptors p ! c) \<and>
        (if pinned p c then usage p' c = usage p c
         else sweep_time p b \<le> sweep_time p c \<and>
              (c \<noteq> b \<longrightarrow> sweep_time p c = sweep_time p' c + sweep_time p b + 1))" if c: "c < NBuffers p" for c
  proof -
    have s': "refcount (BufferDescriptors q ! c) = refcount (BufferDescriptors p ! c)"
      "freeNext (BufferDescriptors q ! c) = freeNext (BufferDescriptors p ! c)"
      "if pinned p c then usage q c = usage p c else sweep_time p c = Suc (sweep_time q c)"
      using s c unfolding swept_def by blast+
    have t': "refcount (BufferDescriptors p' ! c) = refcount (BufferDescriptors q ! c)"
      "freeNext (BufferDescriptors p' ! c) = freeNext (BufferDescriptors q ! c)"
      "if pinned q c then usage p' c = usage q c
       else sweep_time q b \<le> sweep_time q c \<and> (c \<noteq> b \<longrightarrow> sweep_time q c = sweep_time p' c + sweep_time q b + 1)"
      using t c unfolding sweep_takes_def n by blast+
    show ?thesis using s' t' tb pinned_swept [OF s c] by (cases "pinned p c") auto
  qed
  have "usage p' b = 0 \<and> NBuffers p' = NBuffers p \<and> hand p' < NBuffers p \<and>
      firstFreeBuffer (StrategyControl p') = firstFreeBuffer (StrategyControl p)"
    using t s n by (simp add: sweep_takes_def swept_def)
  then show ?thesis unfolding sweep_takes_def using b(1) u all by blast
qed

lemma swept_pinned:
  assumes "hand p < NBuffers p" "pinned p (hand p)"
  shows "swept p (advance_hand p)"
proof -
  have "hand (advance_hand p) < NBuffers p" by (rule hand_advance_less [OF assms(1)])
  moreover have "firstFreeBuffer (StrategyControl (advance_hand p)) = firstFreeBuffer (StrategyControl p)"
    by (simp add: advance_hand_def set_control_def)
  ultimately show ?thesis using time_pinned [OF assms] by (simp add: swept_def)
qed

lemma swept_used:
  assumes "hand p < NBuffers p" "\<not> pinned p (hand p)" "0 < usage p (hand p)"
  shows "swept p (set_desc (hand p) (\<lambda>buf. buf\<lparr>usage_count := usage_count buf - 1\<rparr>) (advance_hand p))"
proof -
  have "hand (advance_hand p) < NBuffers p" by (rule hand_advance_less [OF assms(1)])
  moreover have "firstFreeBuffer (StrategyControl (advance_hand p)) = firstFreeBuffer (StrategyControl p)"
    by (simp add: advance_hand_def set_control_def)
  moreover have "pinned p b \<Longrightarrow> b \<noteq> hand p" for b using assms(2) by blast
  ultimately show ?thesis using time_used [OF assms(1,3)] assms(1) by (simp add: swept_def)
qed

lemma sweep_takes_hand:
  assumes "hand p < NBuffers p" "\<not> pinned p (hand p)" "usage p (hand p) = 0"
  shows "sweep_takes p (hand p) (advance_hand p)"
proof -
  have t: "sweep_time p (hand p) = 0" using assms(3) by (simp add: sweep_time_def)
  have "sweep_time p c = Suc (sweep_time (advance_hand p) c)" if "c < NBuffers p" "c \<noteq> hand p" for c
    using that distance_advance [OF assms(1) that(1)] by (simp add: sweep_time_def)
  moreover have "hand (advance_hand p) < NBuffers p" by (rule hand_advance_less [OF assms(1)])
  moreover have "firstFreeBuffer (StrategyControl (advance_hand p)) = firstFreeBuffer (StrategyControl p)"
    by (simp add: advance_hand_def set_control_def)
  ultimately show ?thesis using assms t by (simp add: sweep_takes_def)
qed

text \<open>The counter suffices: an unpinned buffer is always less than \<open>trycounter\<close> ahead of the hand.\<close>

lemma clock_sweep_result:
  assumes "hand p < NBuffers p" and "1 \<le> t" and "\<forall>b < NBuffers p. \<not> pinned p b \<longrightarrow> distance p b < t"
  shows "case clock_sweep t p of
      (Inr b, p') \<Rightarrow> sweep_takes p b p'
    | (Inl err, p') \<Rightarrow> err = NoUnpinnedBuffers \<and> (\<forall>b < NBuffers p. pinned p b)"
  using assms
proof (induction t p rule: clock_sweep.induct)
  case (1 t p)
  let ?h = "hand p"
  show ?case
  proof (cases "pinned p ?h")
    case True
    note it = sweep_pinned [OF 1(2) True, of t]
    have near: "\<not> pinned p b \<Longrightarrow> b < NBuffers p \<Longrightarrow> distance (advance_hand p) b < t - 1" for b
      using 1(4) distance_advance [OF 1(2), of b] True by (metis One_nat_def Suc_pred diff_Suc_less less_diff_conv less_imp_diff_less linorder_not_less add.commute plus_1_eq_Suc not_less_eq)
    show ?thesis
    proof (cases "t - 1 = 0")
      case True
      then have "pinned p b" if "b < NBuffers p" for b using near [OF _ that] True by fastforce
      then show ?thesis using it True by (subst clock_sweep.simps) simp
    next
      case False
      have s: "swept p (advance_hand p)" by (rule swept_pinned [OF 1(2) True])
      have "case clock_sweep (t - 1) (advance_hand p) of
          (Inr b, p') \<Rightarrow> sweep_takes (advance_hand p) b p'
        | (Inl err, p') \<Rightarrow> err = NoUnpinnedBuffers \<and> (\<forall>b < NBuffers (advance_hand p). pinned (advance_hand p) b)"
      proof (rule 1(1))
        show "(Continue (t - 1), advance_hand p) = sweep_iteration t p" using it False by simp
        show "hand (advance_hand p) < NBuffers (advance_hand p)" using s by (simp add: swept_def)
        show "\<forall>b<NBuffers (advance_hand p). \<not> pinned (advance_hand p) b \<longrightarrow> distance (advance_hand p) b < t - 1"
          using near by (simp add: pinned_def)
      qed (use False in simp_all)
      then show ?thesis using it False sweep_takes_step [OF s] by (subst clock_sweep.simps) (auto simp: pinned_def split: prod.splits sum.splits)
    qed
  next
    case u: False
    show ?thesis
    proof (cases "usage p ?h = 0")
      case True
      then show ?thesis using sweep_victim [OF 1(2) u True, of t] sweep_takes_hand [OF 1(2) u True]
        by (subst clock_sweep.simps) simp
    next
      case False
      then have pos: "0 < usage p ?h" by simp
      let ?q = "set_desc ?h (\<lambda>buf. buf\<lparr>usage_count := usage_count buf - 1\<rparr>) (advance_hand p)"
      note it = sweep_used [OF 1(2) u pos, of t]
      have s: "swept p ?q" by (rule swept_used [OF 1(2) u pos])
      have n: "NBuffers ?q = NBuffers p" by simp
      have "case clock_sweep (NBuffers p) ?q of
          (Inr b, p') \<Rightarrow> sweep_takes ?q b p'
        | (Inl err, p') \<Rightarrow> err = NoUnpinnedBuffers \<and> (\<forall>b < NBuffers ?q. pinned ?q b)"
      proof (rule 1(1))
        show "(Continue (NBuffers p), ?q) = sweep_iteration t p" using it by simp
        show "hand ?q < NBuffers ?q" using s n by (simp add: swept_def)
        then show "\<forall>b<NBuffers ?q. \<not> pinned ?q b \<longrightarrow> distance ?q b < NBuffers p" unfolding n by (auto simp: distance_def)
        show "1 \<le> NBuffers p" using 1(2) by simp
      qed (use False in simp_all)
      moreover have "\<not> pinned ?q ?h" using u 1(2) by (simp add: pinned_def)
      ultimately show ?thesis using it 1(2) sweep_takes_step [OF s] by (subst clock_sweep.simps) (auto split: prod.splits sum.splits)
    qed
  qed
qed

section \<open>The free list as a list\<close>

fun chain :: "BufferDesc list \<Rightarrow> int \<Rightarrow> nat list \<Rightarrow> bool" where
  "chain descs f [] \<longleftrightarrow> f = FREENEXT_END_OF_LIST"
| "chain descs f (b # bs) \<longleftrightarrow> f = int b \<and> b < length descs \<and> chain descs (freeNext (descs ! b)) bs"

definition free_list :: "buf_pool \<Rightarrow> nat list \<Rightarrow> bool" where
  "free_list p bs \<longleftrightarrow>
     chain (BufferDescriptors p) (firstFreeBuffer (StrategyControl p)) bs \<and> distinct bs \<and>
     (\<forall>b < NBuffers p. b \<in> set bs \<longleftrightarrow> freeNext (BufferDescriptors p ! b) \<noteq> FREENEXT_NOT_IN_LIST) \<and>
     (bs \<noteq> [] \<longrightarrow> lastFreeBuffer (StrategyControl p) = int (last bs))"

lemma chain_cong:
  "length descs' = length descs \<Longrightarrow> (\<And>b. b \<in> set bs \<Longrightarrow> freeNext (descs' ! b) = freeNext (descs ! b)) \<Longrightarrow>
   chain descs' f bs = chain descs f bs"
  by (induction bs arbitrary: f) auto

lemma free_list_bounds: "free_list p bs \<Longrightarrow> b \<in> set bs \<Longrightarrow> b < NBuffers p"
proof -
  have "chain descs f bs \<Longrightarrow> b \<in> set bs \<Longrightarrow> b < length descs" for descs f
    by (induction bs arbitrary: f) auto
  then show "free_list p bs \<Longrightarrow> b \<in> set bs \<Longrightarrow> b < NBuffers p" by (auto simp: free_list_def)
qed

definition usable :: "buf_pool \<Rightarrow> nat \<Rightarrow> bool" where
  "usable p b \<longleftrightarrow> \<not> pinned p b \<and> usage p b = 0"

definition same_use :: "buf_pool \<Rightarrow> buf_pool \<Rightarrow> bool" where
  "same_use p q \<longleftrightarrow> NBuffers q = NBuffers p \<and> hand q = hand p \<and>
     (\<forall>b < NBuffers p. refcount (BufferDescriptors q ! b) = refcount (BufferDescriptors p ! b) \<and> usage q b = usage p b)"

lemma same_use_trans: "same_use p q \<Longrightarrow> same_use q r \<Longrightarrow> same_use p r"
  by (simp add: same_use_def)

lemma set_control_simps [simp]:
  "BufferDescriptors (set_control f p) = BufferDescriptors p" "StrategyControl (set_control f p) = f (StrategyControl p)"
  by (simp_all add: set_control_def)

lemma pop_iteration_Nil: "free_list p [] \<Longrightarrow> pop_iteration p = (Exhausted, p)"
  by (simp add: pop_iteration_def free_list_def FREENEXT_END_OF_LIST_def)

lemma pop_iteration_Cons:
  assumes "free_list p (b # bs)"
  shows "\<exists>q. pop_iteration p = (if usable p b then Victim b else Continue (), q) \<and> free_list q bs \<and> same_use p q"
proof -
  let ?q = "set_desc b (\<lambda>buf. buf\<lparr>freeNext := FREENEXT_NOT_IN_LIST\<rparr>)
      (set_control (\<lambda>ctl. ctl\<lparr>firstFreeBuffer := freeNext (BufferDescriptors p ! b)\<rparr>) p)"
  have b: "b < NBuffers p" using free_list_bounds [OF assms, of b] by simp
  have f: "firstFreeBuffer (StrategyControl p) = int b" using assms by (simp add: free_list_def)
  have it: "pop_iteration p = (if usable p b then Victim b else Continue (), ?q)"
    using f b by (simp add: pop_iteration_def usable_def pinned_def Let_def)
  have "b \<notin> set bs" using assms by (simp add: free_list_def)
  then have "chain (BufferDescriptors ?q) f bs = chain (BufferDescriptors p) f bs" for f
    using b by (intro chain_cong) auto
  then have "free_list ?q bs" using assms b by (auto simp: free_list_def)
  moreover have "same_use p ?q" using b by (simp add: same_use_def)
  ultimately show ?thesis using it by blast
qed

lemma pop_free_result:
  "free_list p bs \<Longrightarrow>
   \<exists>q. pop_free p = (Inr (find (usable p) bs), q) \<and> free_list q (tl (dropWhile (\<lambda>b. \<not> usable p b) bs)) \<and> same_use p q"
proof (induction bs arbitrary: p)
  case Nil
  then show ?case by (simp add: pop_free.simps pop_iteration_Nil same_use_def)
next
  case (Cons b bs)
  obtain q where q: "pop_iteration p = (if usable p b then Victim b else Continue (), q)" "free_list q bs" "same_use p q"
    using pop_iteration_Cons [OF Cons.prems] by blast
  show ?case
  proof (cases "usable p b")
    case True
    then show ?thesis using q by (simp add: pop_free.simps)
  next
    case False
    have u: "usable q c = usable p c" if "c \<in> set bs" for c
      using q(3) free_list_bounds [OF Cons.prems, of c] that by (simp add: usable_def pinned_def same_use_def)
    then have "find (usable q) bs = find (usable p) bs"
      "dropWhile (\<lambda>b. \<not> usable q b) bs = dropWhile (\<lambda>b. \<not> usable p b) bs"
      by (auto intro: find_cong dropWhile_cong)
    then show ?thesis using Cons.IH [OF q(2)] q(1) False same_use_trans [OF q(3)] by (auto simp: pop_free.simps [of p])
  qed
qed

lemma StrategyFreeBuffer_result:
  assumes "free_list p bs" and b: "b < NBuffers p"
  shows "free_list (StrategyFreeBuffer b p) (if b \<in> set bs then bs else b # bs) \<and> same_use p (StrategyFreeBuffer b p)"
proof (cases "b \<in> set bs")
  case True
  then have "freeNext (BufferDescriptors p ! b) \<noteq> FREENEXT_NOT_IN_LIST" using assms by (simp add: free_list_def)
  then show ?thesis using True assms by (simp add: StrategyFreeBuffer_def same_use_def)
next
  case False
  let ?p = "StrategyFreeBuffer b p" and ?first = "firstFreeBuffer (StrategyControl p)"
  have "freeNext (BufferDescriptors p ! b) = FREENEXT_NOT_IN_LIST" using False assms by (simp add: free_list_def)
  then have d: "BufferDescriptors ?p = BufferDescriptors (set_desc b (\<lambda>buf. buf\<lparr>freeNext := ?first\<rparr>) p)"
    and c: "StrategyControl ?p = (StrategyControl p)\<lparr>firstFreeBuffer := int b,
        lastFreeBuffer := (if ?first < 0 then int b else lastFreeBuffer (StrategyControl p))\<rparr>"
    by (simp_all add: StrategyFreeBuffer_def Let_def)
  have ch: "chain (BufferDescriptors p) ?first bs" using assms(1) by (simp add: free_list_def)
  have "chain (BufferDescriptors ?p) f bs = chain (BufferDescriptors p) f bs" for f
    unfolding d by (rule chain_cong) (use False b in auto)
  moreover have "?first \<noteq> FREENEXT_NOT_IN_LIST" "?first < 0 \<longleftrightarrow> bs = []"
    using ch by (cases bs; simp add: FREENEXT_NOT_IN_LIST_def FREENEXT_END_OF_LIST_def)+
  ultimately have "free_list ?p (b # bs)" using assms(1) ch False b by (auto simp: free_list_def c d)
  moreover have "same_use p ?p" using b by (auto simp: same_use_def c d)
  ultimately show ?thesis using False by simp
qed

section \<open>Choosing a buffer\<close>

definition pool_ok :: "buf_pool \<Rightarrow> bool" where
  "pool_ok p \<longleftrightarrow> hand p < NBuffers p \<and> (\<exists>bs. free_list p bs)"

definition same_pins :: "buf_pool \<Rightarrow> buf_pool \<Rightarrow> bool" where
  "same_pins p q \<longleftrightarrow> NBuffers q = NBuffers p \<and>
     (\<forall>b < NBuffers p. refcount (BufferDescriptors q ! b) = refcount (BufferDescriptors p ! b))"

lemma pool_okI: "hand p < NBuffers p \<Longrightarrow> free_list p bs \<Longrightarrow> pool_ok p"
  unfolding pool_ok_def by blast

lemma swept_free_list: "sweep_takes p b q \<Longrightarrow> free_list p [] \<Longrightarrow> free_list q []"
  by (simp add: sweep_takes_def free_list_def)

lemma times_same: "same_use p q \<Longrightarrow> b < NBuffers p \<Longrightarrow> sweep_time q b = sweep_time p b \<and> pinned q b = pinned p b"
  by (simp add: same_use_def sweep_time_def distance_def pinned_def)

text \<open>The buffer the code takes: the first usable one of the free list, else the one of least time.\<close>

definition chosen :: "buf_pool \<Rightarrow> nat list \<Rightarrow> nat \<Rightarrow> bool" where
  "chosen p bs b \<longleftrightarrow>
     (case find (usable p) bs of
        Some c \<Rightarrow> b = c
      | None \<Rightarrow> b < NBuffers p \<and> \<not> pinned p b \<and> (\<forall>c < NBuffers p. \<not> pinned p c \<longrightarrow> sweep_time p b \<le> sweep_time p c))"

lemma find_usable: "find (usable p) bs = Some c \<Longrightarrow> usable p c \<and> c \<in> set bs"
  by (rule find_SomeD)

lemma chosen_unpinned: "free_list p bs \<Longrightarrow> chosen p bs b \<Longrightarrow> b < NBuffers p \<and> \<not> pinned p b"
  using find_usable [of p bs] free_list_bounds [of p bs b] by (auto simp: chosen_def usable_def split: option.splits)

lemma unusable_Nil: "\<forall>x. x \<in> set bs \<longrightarrow> \<not> P x \<Longrightarrow> dropWhile (\<lambda>b. \<not> P b) bs = []"
  by (simp add: dropWhile_eq_Nil_conv)

lemma sweep_takesD:
  assumes "sweep_takes p b q"
  shows "b < NBuffers p" "\<not> pinned p b" "usage q b = 0" "same_pins p q" "hand q < NBuffers q" "NBuffers q = NBuffers p"
    and "c < NBuffers p \<Longrightarrow> \<not> pinned p c \<Longrightarrow> sweep_time p b \<le> sweep_time p c"
  using assms by (simp_all add: sweep_takes_def same_pins_def)

lemma chosen_time:
  assumes "find (usable p) bs = None" "same_use p q" "sweep_takes q b r"
  shows "chosen p bs b"
proof -
  have n: "NBuffers q = NBuffers p" using assms(2) by (simp add: same_use_def)
  note b = sweep_takesD(1,2) [OF assms(3), unfolded n]
  have "sweep_time p b \<le> sweep_time p c" if "c < NBuffers p" "\<not> pinned p c" for c
    using sweep_takesD(7) [OF assms(3), of c] times_same [OF assms(2)] that b(1) n by simp
  then show ?thesis using assms(1) b times_same [OF assms(2) b(1)] by (simp add: chosen_def)
qed

lemma same_pins_trans: "same_use p q \<Longrightarrow> same_pins q r \<Longrightarrow> same_pins p r"
  by (simp add: same_use_def same_pins_def)

lemma get_shared_result:
  assumes fl: "free_list p bs" and h: "hand p < NBuffers p"
  shows "case get_shared p of
      (Inr b, q) \<Rightarrow> chosen p bs b \<and> usage q b = 0 \<and> same_pins p q \<and> pool_ok q
    | (Inl err, q) \<Rightarrow> err = NoUnpinnedBuffers \<and> (\<forall>b < NBuffers p. pinned p b)"
proof -
  let ?p = "set_control (\<lambda>ctl. ctl\<lparr>numBufferAllocs := numBufferAllocs ctl + 1\<rparr>) p"
  have "free_list ?p bs" using fl by (simp add: free_list_def)
  from pop_free_result [OF this] obtain q where q': "pop_free ?p = (Inr (find (usable ?p) bs), q)"
    "free_list q (tl (dropWhile (\<lambda>b. \<not> usable ?p b) bs))" "same_use ?p q" by blast
  have "usable ?p = usable p" by (simp add: fun_eq_iff usable_def pinned_def)
  moreover have "same_use p q" by (rule same_use_trans [OF _ q'(3)]) (simp add: same_use_def)
  ultimately have q: "pop_free ?p = (Inr (find (usable p) bs), q)"
    "free_list q (tl (dropWhile (\<lambda>b. \<not> usable p b) bs))" "same_use p q" using q' by simp_all
  show ?thesis
  proof (cases "find (usable p) bs")
    case (Some b)
    then have "usable p b" "b \<in> set bs" using find_usable by blast+
    moreover from this have "usage q b = 0" using free_list_bounds [OF fl] q(3) by (simp add: same_use_def usable_def)
    moreover have "same_pins p q" using q(3) by (simp add: same_use_def same_pins_def)
    moreover have "pool_ok q" by (rule pool_okI [OF _ q(2)]) (use q(3) h in \<open>simp add: same_use_def\<close>)
    ultimately show ?thesis using q(1) Some by (simp add: get_shared_def chosen_def)
  next
    case None
    then have nil: "free_list q []" using q(2) by (simp add: find_None_iff unusable_Nil)
    have n: "NBuffers q = NBuffers p" "hand q < NBuffers q" using q(3) h by (simp_all add: same_use_def)
    have near: "\<forall>b < NBuffers q. \<not> pinned q b \<longrightarrow> distance q b < NBuffers q" using n(2) by (auto simp: distance_def)
    have "1 \<le> NBuffers q" using n(2) by simp
    note r = clock_sweep_result [OF n(2) this near]
    have g: "get_shared p = clock_sweep (NBuffers q) q" using q(1) None by (simp add: get_shared_def)
    show ?thesis
    proof (cases "clock_sweep (NBuffers q) q")
      case (Pair res q')
      show ?thesis
      proof (cases res)
        case (Inl err)
        then have "err = NoUnpinnedBuffers \<and> (\<forall>b < NBuffers p. pinned q b)" using r Pair n(1) by simp
        then have "err = NoUnpinnedBuffers \<and> (\<forall>b < NBuffers p. pinned p b)" using times_same [OF q(3)] by blast
        then show ?thesis using Inl Pair g by simp
      next
        case (Inr b)
        then have t: "sweep_takes q b q'" using r Pair by simp
        have "chosen p bs b" by (rule chosen_time [OF None q(3) t])
        moreover have "usage q' b = 0" by (rule sweep_takesD(3) [OF t])
        moreover have "same_pins p q'" by (rule same_pins_trans [OF q(3) sweep_takesD(4) [OF t]])
        moreover have "pool_ok q'" by (rule pool_okI [OF sweep_takesD(5) [OF t] swept_free_list [OF t nil]])
        ultimately show ?thesis using Pair g Inr by simp
      qed
    qed
  qed
qed

text \<open>A ring of a pool of \<open>n\<close> buffers.\<close>

definition ring_ok :: "nat \<Rightarrow> BufferAccessStrategy \<Rightarrow> bool" where
  "ring_ok n s \<longleftrightarrow> 0 < ring_size s \<and> length (buffers s) = ring_size s \<and> (\<forall>k \<in> set (buffers s). k \<le> n)"

lemma GetBufferFromRing_result:
  assumes "ring_ok (NBuffers p) s"
  shows "case GetBufferFromRing p s of
      (Inr (Some b), s') \<Rightarrow> b < NBuffers p \<and> \<not> pinned p b \<and> usage p b \<le> 1 \<and> current_was_in_ring s' \<and>
        buffers s' ! current s' = b + 1 \<and> ring_ok (NBuffers p) s' \<and> current s' < ring_size s'
    | (Inr None, s') \<Rightarrow> \<not> current_was_in_ring s' \<and> ring_ok (NBuffers p) s' \<and> current s' < ring_size s'
    | (Inl err, s') \<Rightarrow> False"
proof -
  let ?c = "if current s + 1 \<ge> ring_size s then 0 else current s + 1"
  have c: "?c < length (buffers s)" using assms by (auto simp: ring_ok_def)
  then have "buffers s ! ?c \<le> NBuffers p" using assms nth_mem [OF c] by (auto simp: ring_ok_def simp del: nth_mem)
  then have "buffers s ! ?c \<noteq> InvalidBuffer \<Longrightarrow> buffers s ! ?c - 1 < NBuffers p \<and> buffers s ! ?c = buffers s ! ?c - 1 + 1"
    by (auto simp: InvalidBuffer_def)
  then show ?thesis using c assms
    unfolding GetBufferFromRing_def Let_def by (auto simp: ring_ok_def pinned_def split: if_splits)
qed

text \<open>The rings the code makes are such rings, for pools of at least the minimum of 16 buffers.\<close>

lemma GetAccessStrategy_ring_ok: "16 \<le> n \<Longrightarrow> GetAccessStrategy n bt = Some s \<Longrightarrow> ring_ok n s"
  by (cases bt) (auto simp: make_ring_def ring_ok_def InvalidBuffer_def BLCKSZ_def Let_def)

lemma StrategyRejectBuffer_ring_ok: "ring_ok n s \<Longrightarrow> ring_ok n (snd (StrategyRejectBuffer s b))"
  using set_update_subset_insert [of "buffers s" "current s" InvalidBuffer]
  by (auto simp: StrategyRejectBuffer_def ring_ok_def InvalidBuffer_def)

lemma InitBufferPool_free_list: "0 < n \<Longrightarrow> free_list (InitBufferPool n) [0..<n]"
proof -
  assume n: "0 < n"
  let ?d = "BufferDescriptors (InitBufferPool n)"
  have f: "freeNext (?d ! i) = (if i = n - 1 then - 1 else int i + 1)" if "i < n" for i
    using that by (auto simp: InitBufferPool_def Let_def nth_list_update FREENEXT_END_OF_LIST_def)
  have l: "length ?d = n" by (simp add: InitBufferPool_def Let_def)
  have "chain ?d (int i) [i..<n]" if "i < n" for i
    using that
  proof (induction "n - i" arbitrary: i)
    case (Suc k)
    have "chain ?d (freeNext (?d ! i)) [Suc i..<n]"
    proof (cases "i = n - 1")
      case True
      then show ?thesis using f [OF Suc.prems] Suc.prems by (simp add: FREENEXT_END_OF_LIST_def)
    next
      case False
      then have "freeNext (?d ! i) = int (Suc i)" using f [OF Suc.prems] by simp
      moreover have "k = n - Suc i" "Suc i < n" using Suc False by auto
      ultimately show ?thesis using Suc.hyps(1) by metis
    qed
    then show ?case using Suc.prems l by (simp add: upt_conv_Cons)
  qed simp
  from this [OF n] show ?thesis using n f l
    by (auto simp: free_list_def InitBufferPool_def StrategyInitialize_def FREENEXT_NOT_IN_LIST_def Let_def)
qed

lemma distance_less: "hand p < NBuffers p \<Longrightarrow> b < NBuffers p \<Longrightarrow> distance p b < NBuffers p"
  by (auto simp: distance_def)

lemma sweep_time_inj:
  assumes "hand p < NBuffers p" "b < NBuffers p" "c < NBuffers p" "sweep_time p b = sweep_time p c"
  shows "b = c"
proof -
  have "distance p x = sweep_time p x mod NBuffers p" if "x < NBuffers p" for x
    using distance_less [OF assms(1) that] by (simp add: sweep_time_def)
  then have "distance p b = distance p c" using assms by metis
  then show ?thesis using assms(1-3) by (auto simp: distance_def split: if_splits)
qed

lemma least_time:
  assumes "hand p < NBuffers p" "b < NBuffers p" "\<not> pinned p b"
    and "\<forall>c < NBuffers p. \<not> pinned p c \<longrightarrow> sweep_time p b \<le> sweep_time p c"
  shows "arg_min_on (sweep_time p) {c. c < NBuffers p \<and> \<not> pinned p c} = b"
proof -
  let ?S = "{c. c < NBuffers p \<and> \<not> pinned p c}"
  have fin: "finite ?S" by (rule finite_subset [of _ "{..<NBuffers p}"]) auto
  have ne: "?S \<noteq> {}" using assms(2,3) by blast
  have a: "arg_min_on (sweep_time p) ?S \<in> ?S" by (rule arg_min_if_finite(1) [OF fin ne])
  have "sweep_time p (arg_min_on (sweep_time p) ?S) \<le> sweep_time p b"
    by (rule arg_min_least [OF fin ne]) (use assms(2,3) in simp)
  then have "sweep_time p (arg_min_on (sweep_time p) ?S) = sweep_time p b"
    using assms(4) a by (simp add: order_class.order_eq_iff)
  then show ?thesis using sweep_time_inj [OF assms(1)] a assms(2) by blast
qed

section \<open>Backends that pin and unpin while one searches\<close>

text \<open>
  The search for a victim holds the lock of the free list but the spinlock of one buffer at a time, so that other
  backends pin and unpin buffers between its iterations; a victim from a ring is taken without that lock, by any
  number of backends and also while another one searches.  \<open>prc i\<close> is the \<open>PrivateRefCount\<close> of backend \<open>i\<close>.
  A ring is private to its backend, so the steps allow every well-formed one.
\<close>

datatype phase = Popping | Sweeping nat

record system =
  pool :: buf_pool
  prc :: "nat \<Rightarrow> nat \<Rightarrow> nat"
  searcher :: "(nat \<times> phase) option"

definition pin_by :: "nat \<Rightarrow> bool \<Rightarrow> nat \<Rightarrow> system \<Rightarrow> system" where
  "pin_by i strategy b st =
     (case PinBuffer strategy b (prc st i, pool st) of (r, c, p) \<Rightarrow> st\<lparr>prc := (prc st)(i := c), pool := p\<rparr>)"

definition unpin_by :: "nat \<Rightarrow> nat \<Rightarrow> system \<Rightarrow> system" where
  "unpin_by i b st =
     (case UnpinBuffer b (prc st i, pool st) of (r, c, p) \<Rightarrow> st\<lparr>prc := (prc st)(i := c), pool := p\<rparr>)"

text \<open>The backend pins its victim before it gives up the spinlock of the buffer, and then the lock of the free list.\<close>

definition pin_locked :: "nat \<Rightarrow> nat \<Rightarrow> buf_pool \<Rightarrow> system \<Rightarrow> system" where
  "pin_locked i b p st =
     (case PinBuffer_Locked b (prc st i, p) of (c, p) \<Rightarrow> st\<lparr>prc := (prc st)(i := c), pool := p\<rparr>)"

definition take_victim :: "nat \<Rightarrow> nat \<Rightarrow> buf_pool \<Rightarrow> system \<Rightarrow> system" where
  "take_victim i b p st = (pin_locked i b p st)\<lparr>searcher := None\<rparr>"

text \<open>A search ends with a victim: from the free list, the sweep, or the ring of the backend.\<close>

inductive takes :: "nat \<Rightarrow> system \<Rightarrow> nat \<Rightarrow> nat \<Rightarrow> system \<Rightarrow> bool" for M where
  takes_popped: "searcher st = Some (i, Popping) \<Longrightarrow> pop_iteration (pool st) = (Victim b, p) \<Longrightarrow>
    takes M st i b (take_victim i b p st)"
| takes_swept: "searcher st = Some (i, Sweeping t) \<Longrightarrow> sweep_iteration t (pool st) = (Victim b, p) \<Longrightarrow>
    takes M st i b (take_victim i b p st)"
| takes_ring: "i < M \<Longrightarrow> ring_ok (NBuffers (pool st)) s \<Longrightarrow> GetBufferFromRing (pool st) s = (Inr (Some b), s') \<Longrightarrow>
    takes M st i b (pin_locked i b (pool st) st)"

text \<open>
  The other writes to a descriptor: \<open>BufferAlloc\<close> gives a buffer that only it pins to another page;
  \<open>InvalidateBuffer\<close> clears one that nobody pins before it goes to the free list; the end of an input or a
  read of a page that is there already sets or clears \<open>BM_VALID\<close>; a backend that waits to be the last to pin
  a buffer sets the mark that \<open>UnpinBuffer\<close>, or the cleanup after an error, takes back.
\<close>

definition recycle :: "nat \<Rightarrow> buf_pool \<Rightarrow> buf_pool" where
  "recycle b = set_desc b (\<lambda>buf. buf\<lparr>BM_VALID := False, usage_count := 1\<rparr>)"

definition invalidate :: "nat \<Rightarrow> buf_pool \<Rightarrow> buf_pool" where
  "invalidate b = set_desc b (\<lambda>buf. buf\<lparr>BM_VALID := False, BM_PIN_COUNT_WAITER := False, usage_count := 0\<rparr>)"

inductive step :: "nat \<Rightarrow> system \<Rightarrow> system \<Rightarrow> bool" for M where
  step_pin: "i < M \<Longrightarrow> b < NBuffers (pool st) \<Longrightarrow> step M st (pin_by i strategy b st)"
| step_unpin: "i < M \<Longrightarrow> b < NBuffers (pool st) \<Longrightarrow> 0 < prc st i b \<Longrightarrow> step M st (unpin_by i b st)"
| step_free: "searcher st = None \<Longrightarrow> b < NBuffers (pool st) \<Longrightarrow> step M st (st\<lparr>pool := StrategyFreeBuffer b (pool st)\<rparr>)"
| step_sync: "searcher st = None \<Longrightarrow> step M st (st\<lparr>pool := snd (StrategySyncStart w (pool st))\<rparr>)"
| step_search: "i < M \<Longrightarrow> searcher st = None \<Longrightarrow>
    step M st (st\<lparr>pool := set_control (\<lambda>ctl. ctl\<lparr>numBufferAllocs := numBufferAllocs ctl + 1\<rparr>) (pool st),
      searcher := Some (i, Popping)\<rparr>)"
| step_pop: "searcher st = Some (i, Popping) \<Longrightarrow> pop_iteration (pool st) = (Continue u, p) \<Longrightarrow> step M st (st\<lparr>pool := p\<rparr>)"
| step_empty: "searcher st = Some (i, Popping) \<Longrightarrow> pop_iteration (pool st) = (Exhausted, p) \<Longrightarrow>
    step M st (st\<lparr>pool := p, searcher := Some (i, Sweeping (NBuffers p))\<rparr>)"
| step_sweep: "searcher st = Some (i, Sweeping t) \<Longrightarrow> sweep_iteration t (pool st) = (Continue t', p) \<Longrightarrow>
    step M st (st\<lparr>pool := p, searcher := Some (i, Sweeping t')\<rparr>)"
| step_take: "takes M st i b st' \<Longrightarrow> step M st st'"
| step_fail: "searcher st = Some (i, Sweeping t) \<Longrightarrow> sweep_iteration t (pool st) = (Failure err, p) \<Longrightarrow>
    step M st (st\<lparr>pool := p, searcher := None\<rparr>)"
| step_recycle: "i < M \<Longrightarrow> b < NBuffers (pool st) \<Longrightarrow> 0 < prc st i b \<Longrightarrow> refcount (BufferDescriptors (pool st) ! b) = 1 \<Longrightarrow>
    step M st (st\<lparr>pool := recycle b (pool st)\<rparr>)"
| step_invalidate: "b < NBuffers (pool st) \<Longrightarrow> refcount (BufferDescriptors (pool st) ! b) = 0 \<Longrightarrow>
    step M st (st\<lparr>pool := invalidate b (pool st)\<rparr>)"
| step_valid: "b < NBuffers (pool st) \<Longrightarrow> step M st (st\<lparr>pool := set_desc b (\<lambda>buf. buf\<lparr>BM_VALID := v\<rparr>) (pool st)\<rparr>)"
| step_waiter: "b < NBuffers (pool st) \<Longrightarrow> step M st (st\<lparr>pool := set_desc b (\<lambda>buf. buf\<lparr>BM_PIN_COUNT_WAITER := w\<rparr>) (pool st)\<rparr>)"

inductive reachable :: "nat \<Rightarrow> nat \<Rightarrow> system \<Rightarrow> bool" for M n where
  reachable_init: "reachable M n \<lparr>pool = InitBufferPool n, prc = (\<lambda>i b. 0), searcher = None\<rparr>"
| reachable_step: "reachable M n st \<Longrightarrow> step M st st' \<Longrightarrow> reachable M n st'"

text \<open>The invariant: the pool is well formed, the shared count of a buffer is the number of backends that pin it, usage
  counts stay small, and the counter of a sweep is in its range.\<close>

definition pinners :: "nat \<Rightarrow> system \<Rightarrow> nat \<Rightarrow> nat set" where
  "pinners M st b = {i. i < M \<and> 0 < prc st i b}"

definition consistent :: "nat \<Rightarrow> nat \<Rightarrow> system \<Rightarrow> bool" where
  "consistent M n st \<longleftrightarrow>
     NBuffers (pool st) = n \<and> pool_ok (pool st) \<and>
     (\<forall>b < n. refcount (BufferDescriptors (pool st) ! b) = card (pinners M st b) \<and>
        usage (pool st) b \<le> BM_MAX_USAGE_COUNT) \<and>
     (case searcher st of None \<Rightarrow> True | Some (i, Popping) \<Rightarrow> i < M | Some (i, Sweeping t) \<Rightarrow> i < M \<and> 1 \<le> t \<and> t \<le> n)"

lemma free_list_cong:
  assumes "free_list p bs" "NBuffers q = NBuffers p" "firstFreeBuffer (StrategyControl q) = firstFreeBuffer (StrategyControl p)"
    and "lastFreeBuffer (StrategyControl q) = lastFreeBuffer (StrategyControl p)"
    and "\<And>b. b < NBuffers p \<Longrightarrow> freeNext (BufferDescriptors q ! b) = freeNext (BufferDescriptors p ! b)"
  shows "free_list q bs"
proof -
  have "chain (BufferDescriptors q) f bs = chain (BufferDescriptors p) f bs" for f
    by (rule chain_cong) (use assms free_list_bounds [OF assms(1)] in auto)
  then show ?thesis using assms by (simp add: free_list_def)
qed

lemma free_list_set_desc:
  "free_list p bs \<Longrightarrow> b < NBuffers p \<Longrightarrow> (\<And>d. freeNext (f d) = freeNext d) \<Longrightarrow> free_list (set_desc b f p) bs"
  by (rule free_list_cong [of p]) simp_all

lemma free_list_advance: "free_list p bs \<Longrightarrow> free_list (advance_hand p) bs"
  by (rule free_list_cong [of p]) (simp_all add: advance_hand_def)

lemma pool_ok_set_desc: "pool_ok p \<Longrightarrow> b < NBuffers p \<Longrightarrow> (\<And>d. freeNext (f d) = freeNext d) \<Longrightarrow> pool_ok (set_desc b f p)"
  using free_list_set_desc [of p _ b f] by (auto simp: pool_ok_def)

lemma pool_ok_advance: "pool_ok p \<Longrightarrow> pool_ok (advance_hand p)"
  using free_list_advance [of p] hand_advance_less [of p] by (auto simp: pool_ok_def)

text \<open>Usage does not grow and pins do not change in an iteration.\<close>

definition quiet :: "buf_pool \<Rightarrow> buf_pool \<Rightarrow> bool" where
  "quiet p q \<longleftrightarrow> same_pins p q \<and> (\<forall>b < NBuffers p. usage q b \<le> usage p b)"

lemma sweep_keeps:
  assumes "sweep_iteration t p = (r, q)" and "pool_ok p"
  shows "quiet p q \<and> pool_ok q \<and>
    (case r of Victim b \<Rightarrow> b < NBuffers p \<and> \<not> pinned p b | Continue t' \<Rightarrow> t' \<le> max t (NBuffers p) \<and> (1 \<le> t \<longrightarrow> 1 \<le> t')
     | Exhausted \<Rightarrow> False | Failure err \<Rightarrow> True)"
proof -
  have h: "hand p < NBuffers p" using assms(2) by (simp add: pool_ok_def)
  show ?thesis
  proof (cases "pinned p (hand p)")
    case True
    then show ?thesis using sweep_pinned [OF h True, of t] assms pool_ok_advance [OF assms(2)] h
      by (auto simp: quiet_def same_pins_def)
  next
    case u: False
    show ?thesis
    proof (cases "usage p (hand p) = 0")
      case True
      then show ?thesis using sweep_victim [OF h u True, of t] assms pool_ok_advance [OF assms(2)] h u
        by (auto simp: quiet_def same_pins_def)
    next
      case False
      then show ?thesis
        using sweep_used [OF h u, of t] assms pool_ok_set_desc [OF pool_ok_advance [OF assms(2)], of "hand p"] h
        by (auto simp: quiet_def same_pins_def)
    qed
  qed
qed

lemma pop_keeps:
  assumes "pop_iteration p = (r, q)" and "pool_ok p"
  shows "quiet p q \<and> pool_ok q \<and>
    (case r of Victim b \<Rightarrow> b < NBuffers p \<and> \<not> pinned p b | Continue _ \<Rightarrow> True | Exhausted \<Rightarrow> True | Failure err \<Rightarrow> False)"
proof -
  obtain bs where bs: "free_list p bs" and h: "hand p < NBuffers p" using assms(2) by (auto simp: pool_ok_def)
  show ?thesis
  proof (cases bs)
    case Nil
    then show ?thesis using pop_iteration_Nil bs assms by (auto simp: quiet_def same_pins_def)
  next
    case (Cons b bs')
    then obtain q' where q': "pop_iteration p = (if usable p b then Victim b else Continue (), q')" "free_list q' bs'" "same_use p q'"
      using pop_iteration_Cons bs by blast
    have "quiet p q'" using q'(3) by (simp add: quiet_def same_pins_def same_use_def)
    moreover have "pool_ok q'" by (rule pool_okI [OF _ q'(2)]) (use q'(3) h in \<open>simp add: same_use_def\<close>)
    moreover have "b < NBuffers p" using free_list_bounds [OF bs] Cons by simp
    ultimately show ?thesis using q'(1) assms(1) by (auto simp: usable_def)
  qed
qed

text \<open>Counting the backends that pin a buffer.\<close>

definition counted :: "nat \<Rightarrow> (nat \<Rightarrow> nat \<Rightarrow> nat) \<Rightarrow> buf_pool \<Rightarrow> bool" where
  "counted M c p \<longleftrightarrow>
     (\<forall>b < NBuffers p. refcount (BufferDescriptors p ! b) = card {i. i < M \<and> 0 < c i b} \<and> usage p b \<le> BM_MAX_USAGE_COUNT)"

lemma consistent_iff:
  "consistent M n st \<longleftrightarrow> NBuffers (pool st) = n \<and> pool_ok (pool st) \<and> counted M (prc st) (pool st) \<and>
     (case searcher st of None \<Rightarrow> True | Some (i, Popping) \<Rightarrow> i < M | Some (i, Sweeping t) \<Rightarrow> i < M \<and> 1 \<le> t \<and> t \<le> n)"
  by (auto simp: consistent_def counted_def pinners_def)

lemma counted_quiet: "quiet p q \<Longrightarrow> counted M c p \<Longrightarrow> counted M c q"
  unfolding quiet_def same_pins_def counted_def by (metis le_trans)

lemma pinners_add: "i < M \<Longrightarrow> c i b = 0 \<Longrightarrow> {j. j < M \<and> 0 < (c(i := (c i)(b := Suc 0))) j b} = insert i {j. j < M \<and> 0 < c j b}"
  by auto

lemma pinners_same: "0 < c i b \<Longrightarrow> 0 < v \<Longrightarrow> {j. j < M \<and> 0 < (c(i := (c i)(b := v))) j x} = {j. j < M \<and> 0 < c j x}"
  by auto

lemma pinners_other: "x \<noteq> b \<Longrightarrow> {j. j < M \<and> (0 :: nat) < (c(i := (c i)(b := v))) j x} = {j. j < M \<and> 0 < c j x}"
  by auto

lemma pinners_del: "i < M \<Longrightarrow> {j. j < M \<and> (0 :: nat) < (c(i := (c i)(b := 0))) j b} = {j. j < M \<and> 0 < c j b} - {i}"
  by auto

lemma counted_pin:
  assumes "counted M c p" "i < M" "b < NBuffers p"
    and f: "c i b = 0 \<Longrightarrow> q = set_desc b f p \<and> (\<forall>d. refcount (f d) = refcount d + 1 \<and>
      (usage_count d \<le> BM_MAX_USAGE_COUNT \<longrightarrow> usage_count (f d) \<le> BM_MAX_USAGE_COUNT))"
    and "0 < c i b \<Longrightarrow> q = p"
  shows "counted M (c(i := (c i)(b := c i b + 1))) q"
proof (cases "c i b = 0")
  case True
  then show ?thesis using f assms(1-3) pinners_add [of i M c b] pinners_other [of _ b M c i "Suc 0"]
    by (simp add: counted_def)
next
  case False
  then show ?thesis using assms(1,5) pinners_same [of c i b "c i b + 1" M] by (simp add: counted_def)
qed

lemma counted_unpin:
  assumes "counted M c p" "i < M" "b < NBuffers p" "0 < c i b"
    and f: "c i b = 1 \<Longrightarrow> \<exists>f. q = set_desc b f p \<and> (\<forall>d. refcount (f d) = refcount d - 1 \<and> usage_count (f d) = usage_count d)"
    and "1 < c i b \<Longrightarrow> q = p"
  shows "counted M (c(i := (c i)(b := c i b - 1))) q"
proof (cases "c i b = 1")
  case True
  have "card ({j. j < M \<and> 0 < c j b} - {i}) = card {j. j < M \<and> 0 < c j b} - 1"
    using assms(2,4) by (simp add: card_Diff_singleton)
  moreover obtain g where "q = set_desc b g p" "\<And>d. refcount (g d) = refcount d - 1 \<and> usage_count (g d) = usage_count d"
    using f [OF True] by blast
  ultimately show ?thesis using True assms(1-3) pinners_del [of i M c b] pinners_other [of _ b M c i 0]
    by (simp add: counted_def)
next
  case False
  then show ?thesis using assms(1,4,6) pinners_same [of c i b "c i b - 1" M] by (simp add: counted_def)
qed

text \<open>What each operation does to pool and counts.\<close>

definition phase_ok :: "nat \<Rightarrow> nat \<Rightarrow> (nat \<times> phase) option \<Rightarrow> bool" where
  "phase_ok M n s \<longleftrightarrow>
     (case s of None \<Rightarrow> True | Some (i, Popping) \<Rightarrow> i < M | Some (i, Sweeping t) \<Rightarrow> i < M \<and> 1 \<le> t \<and> t \<le> n)"

lemma consistentI:
  "NBuffers (pool st) = n \<Longrightarrow> pool_ok (pool st) \<Longrightarrow> counted M (prc st) (pool st) \<Longrightarrow> phase_ok M n (searcher st) \<Longrightarrow> consistent M n st"
  by (simp add: consistent_iff phase_ok_def)

lemma consistentD:
  "consistent M n st \<Longrightarrow> NBuffers (pool st) = n \<and> pool_ok (pool st) \<and> counted M (prc st) (pool st) \<and> phase_ok M n (searcher st)"
  by (simp add: consistent_iff phase_ok_def)

lemma pin_by_consistent:
  assumes "consistent M n st" "i < M" "b < n"
  shows "consistent M n (pin_by i strategy b st)"
proof -
  note c = consistentD [OF assms(1)]
  let ?f = "\<lambda>buf. buf\<lparr>refcount := refcount buf + 1,
      usage_count := (if \<not> strategy then (if usage_count buf < BM_MAX_USAGE_COUNT then usage_count buf + 1 else usage_count buf)
                      else if usage_count buf = 0 then 1 else usage_count buf)\<rparr>"
  let ?q = "if prc st i b = 0 then set_desc b ?f (pool st) else pool st"
  have st: "pin_by i strategy b st = st\<lparr>prc := (prc st)(i := (prc st i)(b := prc st i b + 1)), pool := ?q\<rparr>"
    by (simp add: pin_by_def PinBuffer_def)
  have "counted M ((prc st)(i := (prc st i)(b := prc st i b + 1))) ?q"
    by (rule counted_pin [of M "prc st" "pool st" i b ?q ?f]) (use c assms in \<open>auto simp: BM_MAX_USAGE_COUNT_def\<close>)
  moreover have "pool_ok ?q" using c assms pool_ok_set_desc [of "pool st" b ?f] by simp
  ultimately show ?thesis using c by (intro consistentI) (simp_all add: st)
qed

lemma pin_locked_consistent:
  assumes "consistent M n st" "i < M" "b < n" and p: "quiet (pool st) p" "pool_ok p"
  shows "consistent M n (pin_locked i b p st)"
proof -
  note c = consistentD [OF assms(1)]
  let ?f = "\<lambda>buf. buf\<lparr>refcount := refcount buf + 1\<rparr>"
  let ?q = "if prc st i b = 0 then set_desc b ?f p else p"
  have n: "NBuffers p = n" using p(1) c by (simp add: quiet_def same_pins_def)
  have st: "pin_locked i b p st = st\<lparr>prc := (prc st)(i := (prc st i)(b := prc st i b + 1)), pool := ?q\<rparr>"
    by (simp add: pin_locked_def PinBuffer_Locked_def)
  have "counted M (prc st) p" using counted_quiet [OF p(1)] c by blast
  then have "counted M ((prc st)(i := (prc st i)(b := prc st i b + 1))) ?q"
    by (rule counted_pin [of M "prc st" p i b ?q ?f]) (use n assms in auto)
  moreover have "pool_ok ?q" using n assms pool_ok_set_desc [of p b ?f] by simp
  ultimately show ?thesis using n c by (intro consistentI) (simp_all add: st)
qed

lemma consistent_idle: "consistent M n st \<Longrightarrow> consistent M n (st\<lparr>searcher := None\<rparr>)"
  by (simp add: consistent_def pinners_def)

text \<open>A victim is not pinned, and to take it keeps the invariant.\<close>

lemma takes_result:
  assumes "takes M st i b st'" and "consistent M n st"
  shows "i < M \<and> b < n \<and> \<not> pinned (pool st) b \<and> prc st' = (prc st)(i := (prc st i)(b := prc st i b + 1)) \<and> consistent M n st'"
proof -
  note d = consistentD [OF assms(2)]
  have pl: "prc (pin_locked i b p st) = (prc st)(i := (prc st i)(b := prc st i b + 1))" for p
    by (simp add: pin_locked_def PinBuffer_Locked_def)
  have tv: "consistent M n (take_victim i b p st)" if "i < M" "b < n" "quiet (pool st) p" "pool_ok p" for p
    using consistent_idle [OF pin_locked_consistent [OF assms(2) that]] by (simp add: take_victim_def)
  show ?thesis using assms(1)
  proof cases
    case (takes_popped p)
    then show ?thesis using pop_keeps [OF takes_popped(3)] d tv [of p] pl by (simp add: take_victim_def phase_ok_def)
  next
    case (takes_swept t p)
    then show ?thesis using sweep_keeps [OF takes_swept(3)] d tv [of p] pl by (simp add: take_victim_def phase_ok_def)
  next
    case (takes_ring s s')
    have r: "b < n" "\<not> pinned (pool st) b" using GetBufferFromRing_result [of "pool st" s] takes_ring d by simp_all
    have "quiet (pool st) (pool st)" by (simp add: quiet_def same_pins_def)
    then show ?thesis using r takes_ring pl d pin_locked_consistent [OF assms(2), of i b "pool st"] by simp
  qed
qed

lemma unpin_by_consistent:
  assumes "consistent M n st" "i < M" "b < n" "0 < prc st i b"
  shows "consistent M n (unpin_by i b st)"
proof -
  note c = consistentD [OF assms(1)]
  let ?w = "BM_PIN_COUNT_WAITER (BufferDescriptors (pool st) ! b) \<and> refcount (BufferDescriptors (pool st) ! b) - 1 = 1"
  let ?f = "\<lambda>buf. if ?w then buf\<lparr>refcount := refcount buf - 1, BM_PIN_COUNT_WAITER := False\<rparr> else buf\<lparr>refcount := refcount buf - 1\<rparr>"
  let ?q = "if prc st i b = 1 then set_desc b ?f (pool st) else pool st"
  have b: "b < NBuffers (pool st)" using c assms(3) by simp
  have tw: "set_desc b g (set_desc b f (pool st)) = set_desc b (\<lambda>d. g (f d)) (pool st)" for f g
    using b by (simp add: set_desc_def)
  have st: "unpin_by i b st = st\<lparr>prc := (prc st)(i := (prc st i)(b := prc st i b - 1)), pool := ?q\<rparr>"
  proof -
    have "prc st i b - 1 = 0 \<longleftrightarrow> prc st i b = 1" using assms(4) by auto
    then show ?thesis using b unfolding unpin_by_def UnpinBuffer_def Let_def
      by (cases "prc st i b = 1"; cases "BM_PIN_COUNT_WAITER (BufferDescriptors (pool st) ! b)";
          cases "refcount (BufferDescriptors (pool st) ! b) - 1 = 1") (simp_all add: tw)
  qed
  have "counted M ((prc st)(i := (prc st i)(b := prc st i b - 1))) ?q"
    by (rule counted_unpin [of M "prc st" "pool st"]) (use c assms b in auto)
  moreover have "pool_ok ?q" using c b pool_ok_set_desc [of "pool st" b ?f] by simp
  ultimately show ?thesis using c by (intro consistentI) (simp_all add: st)
qed

lemma same_use_quiet: "same_use p q \<Longrightarrow> quiet p q"
  by (simp add: same_use_def quiet_def same_pins_def)

lemma quiet_consistent:
  "consistent M n st \<Longrightarrow> quiet (pool st) p \<Longrightarrow> pool_ok p \<Longrightarrow> phase_ok M n s \<Longrightarrow> consistent M n (st\<lparr>pool := p, searcher := s\<rparr>)"
  using consistentD [of M n st] counted_quiet [of "pool st" p] by (intro consistentI) (auto simp: quiet_def same_pins_def)

lemma pool_update: "st\<lparr>pool := p\<rparr> = st\<lparr>pool := p, searcher := searcher st\<rparr>"
  by simp

lemma control_quiet:
  "pool_ok p \<Longrightarrow> f (StrategyControl p) = (StrategyControl p)\<lparr>numBufferAllocs := k\<rparr> \<Longrightarrow>
   quiet p (set_control f p) \<and> pool_ok (set_control f p)"
  by (auto simp: quiet_def same_pins_def pool_ok_def free_list_def)

text \<open>A write to a descriptor that keeps its count and link, and the bound of its usage.\<close>

lemma desc_consistent:
  assumes "consistent M n st" "b < NBuffers (pool st)"
    and "\<And>d. refcount (f d) = refcount d \<and> freeNext (f d) = freeNext d \<and>
      (usage_count d \<le> BM_MAX_USAGE_COUNT \<longrightarrow> usage_count (f d) \<le> BM_MAX_USAGE_COUNT)"
  shows "consistent M n (st\<lparr>pool := set_desc b f (pool st)\<rparr>)"
proof -
  note c = consistentD [OF assms(1)]
  have "counted M (prc st) (set_desc b f (pool st))" using c assms(2,3) by (simp add: counted_def)
  then show ?thesis using c pool_ok_set_desc [OF _ assms(2), of f] assms(3) by (intro consistentI) simp_all
qed

lemma step_consistent: "step M st st' \<Longrightarrow> consistent M n st \<Longrightarrow> consistent M n st'"
proof (induction rule: step.induct)
  case (step_pin i b st strategy)
  then show ?case using pin_by_consistent consistentD by metis
next
  case (step_unpin i b st)
  then show ?case using unpin_by_consistent consistentD by metis
next
  case (step_free st b)
  note c = consistentD [OF step_free(3)]
  then obtain bs where "free_list (pool st) bs" by (auto simp: pool_ok_def)
  note r = StrategyFreeBuffer_result [OF this step_free(2)]
  then have "pool_ok (StrategyFreeBuffer b (pool st))" using c by (auto simp: pool_ok_def same_use_def)
  then show ?case using quiet_consistent [OF step_free(3) same_use_quiet] r c by (subst pool_update) blast
next
  case (step_sync st w)
  note c = consistentD [OF step_sync(2)]
  have "quiet (pool st) (snd (StrategySyncStart w (pool st))) \<and> pool_ok (snd (StrategySyncStart w (pool st)))"
    using control_quiet [of "pool st" _ 0] c by (auto simp: StrategySyncStart_def Let_def quiet_def same_pins_def)
  then show ?case using quiet_consistent [OF step_sync(2)] c by (subst pool_update) blast
next
  case (step_search i st)
  note c = consistentD [OF step_search(3)]
  have "phase_ok M n (Some (i, Popping))" using step_search(1) by (simp add: phase_ok_def)
  then have "consistent M n (st\<lparr>pool := set_control (\<lambda>ctl. ctl\<lparr>numBufferAllocs := numBufferAllocs ctl + 1\<rparr>) (pool st),
      searcher := Some (i, Popping)\<rparr>)"
    using control_quiet [of "pool st" "\<lambda>ctl. ctl\<lparr>numBufferAllocs := numBufferAllocs ctl + 1\<rparr>"] c
    by (intro quiet_consistent [OF step_search(3)]) auto
  then show ?case by simp
next
  case (step_pop st i u p)
  note c = consistentD [OF step_pop(3)]
  then show ?case using pop_keeps [OF step_pop(2)] quiet_consistent [OF step_pop(3)] by (subst pool_update) blast
next
  case (step_empty st i p)
  note c = consistentD [OF step_empty(3)]
  then have k: "quiet (pool st) p" "pool_ok p" using pop_keeps [OF step_empty(2)] by simp_all
  then have "NBuffers p = n" "hand p < NBuffers p" using c by (simp_all add: quiet_def same_pins_def pool_ok_def)
  then have "phase_ok M n (Some (i, Sweeping (NBuffers p)))" using c step_empty(1) by (simp add: phase_ok_def)
  then show ?case by (rule quiet_consistent [OF step_empty(3) k])
next
  case (step_sweep st i t t' p)
  note c = consistentD [OF step_sweep(3)]
  then have k: "quiet (pool st) p" "pool_ok p" "t' \<le> max t n" "1 \<le> t \<longrightarrow> 1 \<le> t'" using sweep_keeps [OF step_sweep(2)] by simp_all
  have "i < M \<and> 1 \<le> t \<and> t \<le> n" using c step_sweep(1) by (simp add: phase_ok_def)
  then have "phase_ok M n (Some (i, Sweeping t'))" using k(3,4) by (simp add: phase_ok_def)
  then show ?case by (rule quiet_consistent [OF step_sweep(3) k(1,2)])
next
  case (step_take st i b st')
  then show ?case using takes_result by blast
next
  case (step_fail st i t err p)
  note c = consistentD [OF step_fail(3)]
  have "phase_ok M n None" by (simp add: phase_ok_def)
  then show ?case using sweep_keeps [OF step_fail(2)] c by (intro quiet_consistent [OF step_fail(3)]) auto
next
  case (step_recycle i b st)
  then show ?case using desc_consistent [OF step_recycle(5,2)] by (simp add: recycle_def BM_MAX_USAGE_COUNT_def)
next
  case (step_invalidate b st)
  then show ?case using desc_consistent [OF step_invalidate(3,1)] by (simp add: invalidate_def)
next
  case (step_valid b st v)
  then show ?case using desc_consistent [OF step_valid(2,1)] by simp
next
  case (step_waiter b st w)
  then show ?case using desc_consistent [OF step_waiter(2,1)] by simp
qed

lemma reachable_consistent: "reachable M n st \<Longrightarrow> 0 < n \<Longrightarrow> consistent M n st"
proof (induction rule: reachable.induct)
  case reachable_init
  have l: "NBuffers (InitBufferPool n) = n" by (simp add: InitBufferPool_def Let_def)
  have "refcount (BufferDescriptors (InitBufferPool n) ! b) = 0 \<and> usage (InitBufferPool n) b = 0" if "b < n" for b
    using that by (auto simp: InitBufferPool_def Let_def nth_list_update)
  then have "counted M (\<lambda>i b. 0) (InitBufferPool n)" using l by (simp add: counted_def)
  moreover have "pool_ok (InitBufferPool n)"
    by (rule pool_okI [OF _ InitBufferPool_free_list]) (use reachable_init l in \<open>simp_all add: InitBufferPool_def StrategyInitialize_def\<close>)
  ultimately show ?case using l by (intro consistentI) (simp_all add: phase_ok_def)
qed (use step_consistent in blast)

section \<open>Properties\<close>

text \<open>C17: the replacement strategy always ends with a buffer that is not pinned, if there is one, for every state of the
  free list, the hand, the usage counts and the ring of the strategy; it fails only when every buffer is pinned.  It
  changes no pins and keeps the pool and the ring well formed.\<close>

theorem strategy_finds_buffer:
  assumes "pool_ok p" and "case strategy of None \<Rightarrow> True | Some s \<Rightarrow> ring_ok (NBuffers p) s"
  shows "case StrategyGetBuffer strategy p of
      (Inr (b, lock_held, strategy'), q) \<Rightarrow> b < NBuffers p \<and> refcount (BufferDescriptors p ! b) = 0 \<and> same_pins p q \<and> pool_ok q \<and>
        (case strategy' of None \<Rightarrow> strategy = None | Some s \<Rightarrow> ring_ok (NBuffers q) s \<and> buffers s ! current s = b + 1)
    | (Inl err, q) \<Rightarrow> err = NoUnpinnedBuffers \<and> (\<forall>b < NBuffers p. refcount (BufferDescriptors p ! b) \<noteq> 0)"
proof -
  obtain bs where fl: "free_list p bs" and h: "hand p < NBuffers p" using assms(1) by (auto simp: pool_ok_def)
  obtain r q where g: "get_shared p = (r, q)" by (cases "get_shared p")
  note gr = get_shared_result [OF fl h, unfolded g]
  have ok: "b < NBuffers p \<and> refcount (BufferDescriptors p ! b) = 0 \<and> same_pins p q \<and> pool_ok q" if "r = Inr b" for b
    using gr that chosen_unpinned [OF fl, of b] by (simp add: pinned_def)
  have fail: "err = NoUnpinnedBuffers \<and> (\<forall>b < NBuffers p. refcount (BufferDescriptors p ! b) \<noteq> 0)" if "r = Inl err" for err
    using gr that by (simp add: pinned_def)
  show ?thesis
  proof (cases strategy)
    case None
    then show ?thesis using ok fail g by (cases r) (simp_all add: StrategyGetBuffer_def)
  next
    case (Some s)
    obtain r' s' where ring: "GetBufferFromRing p s = (r', s')" by (cases "GetBufferFromRing p s")
    note rr = GetBufferFromRing_result [of p s, unfolded ring]
    show ?thesis
    proof (cases "r' = Inr None")
      case True
      then have s': "ring_ok (NBuffers p) s'" "current s' < ring_size s'" using rr assms(2) Some by simp_all
      have "ring_ok (NBuffers p) (AddBufferToRing b s') \<and> buffers (AddBufferToRing b s') ! current (AddBufferToRing b s') = b + 1"
        if "b < NBuffers p" for b
        using s' that set_update_subset_insert [of "buffers s'" "current s'" "b + 1"] by (auto simp: AddBufferToRing_def ring_ok_def)
      then show ?thesis using True ok fail g ring Some by (cases r) (auto simp: StrategyGetBuffer_def same_pins_def)
    next
      case False
      then obtain b where "r' = Inr (Some b)" using rr assms(2) Some by (cases r') (auto split: option.splits)
      then show ?thesis using rr ring Some assms by (simp add: StrategyGetBuffer_def pinned_def same_pins_def)
    qed
  qed
qed

theorem strategy_finds_buffer_witness:
  "case StrategyGetBuffer None (InitBufferPool 2) of
      (Inr (b, lock_held, strategy'), q) \<Rightarrow> b < 2 \<and> refcount (BufferDescriptors (InitBufferPool 2) ! b) = 0
    | (Inl err, q) \<Rightarrow> False"
proof -
  have "pool_ok (InitBufferPool 2)"
    by (rule pool_okI [OF _ InitBufferPool_free_list]) (simp_all add: InitBufferPool_def StrategyInitialize_def Let_def)
  moreover have "\<exists>b < NBuffers (InitBufferPool 2). refcount (BufferDescriptors (InitBufferPool 2) ! b) = 0"
    by (rule exI [of _ 0]) (simp add: InitBufferPool_def Let_def)
  moreover have "NBuffers (InitBufferPool 2) = 2" by (simp add: InitBufferPool_def Let_def)
  ultimately show ?thesis using strategy_finds_buffer [of "InitBufferPool 2" None] by (auto split: prod.splits sum.splits)
qed

text \<open>C20: which buffer it is: the first usable one of the free list, and without one the unpinned buffer for which usage
  count times pool size plus distance from the hand is least, that is, of the buffers of the least usage count the
  first the hand comes to.\<close>

theorem clock_sweep_least:
  assumes "free_list p bs" and "hand p < NBuffers p"
  shows "fst (get_shared p) =
    (case find (usable p) bs of
       Some b \<Rightarrow> Inr b
     | None \<Rightarrow> if \<forall>b < NBuffers p. pinned p b then Inl NoUnpinnedBuffers
               else Inr (arg_min_on (sweep_time p) {b. b < NBuffers p \<and> \<not> pinned p b}))"
proof (cases "fst (get_shared p)")
  case (Inl err)
  then have r: "err = NoUnpinnedBuffers" "\<forall>b < NBuffers p. pinned p b"
    using get_shared_result [OF assms] by (auto split: prod.splits)
  have "find (usable p) bs = None"
  proof (cases "find (usable p) bs")
    case (Some c)
    then have "usable p c" "c < NBuffers p" using find_usable free_list_bounds [OF assms(1)] by blast+
    then show ?thesis using r(2) by (simp add: usable_def)
  qed
  then show ?thesis using Inl r by simp
next
  case (Inr b)
  then have c: "chosen p bs b" using get_shared_result [OF assms] by (auto split: prod.splits)
  show ?thesis
  proof (cases "find (usable p) bs")
    case None
    then have "b < NBuffers p" "\<not> pinned p b" "\<forall>c < NBuffers p. \<not> pinned p c \<longrightarrow> sweep_time p b \<le> sweep_time p c"
      using c by (simp_all add: chosen_def)
    then show ?thesis using None Inr least_time [OF assms(2)] by auto
  qed (use c Inr in \<open>simp add: chosen_def\<close>)
qed

definition used_pool :: buf_pool where
  "used_pool =
     \<lparr>BufferDescriptors = map (\<lambda>(r, u). \<lparr>refcount = r, usage_count = u, freeNext = - 2, BM_VALID = True, BM_PIN_COUNT_WAITER = False\<rparr>)
        [(0, 2), (1, 0), (0, 1), (0, 1)],
      StrategyControl = \<lparr>nextVictimBuffer = 3, firstFreeBuffer = - 1, lastFreeBuffer = 0, completePasses = 0, numBufferAllocs = 0\<rparr>\<rparr>"

theorem clock_sweep_least_witness:
  "(case find (usable used_pool) [] of
      Some b \<Rightarrow> Inr b
    | None \<Rightarrow> if \<forall>b < NBuffers used_pool. pinned used_pool b then Inl NoUnpinnedBuffers
              else Inr (arg_min_on (sweep_time used_pool) {b. b < NBuffers used_pool \<and> \<not> pinned used_pool b})) = Inr 3"
proof -
  have "free_list used_pool []" by (simp add: free_list_def used_pool_def FREENEXT_END_OF_LIST_def FREENEXT_NOT_IN_LIST_def less_Suc_eq nth_Cons')
  moreover have "hand used_pool < NBuffers used_pool" by (simp add: used_pool_def)
  moreover have "fst (get_shared used_pool) = Inr 3" by code_simp
  ultimately show ?thesis using clock_sweep_least [of used_pool "[]"] by simp
qed

text \<open>C19: whatever the backends do between the iterations of a search, in every reachable state the free list is well
  formed, the shared count of a buffer is the number of backends that pin it, usage counts are at most five and the
  counter of the sweep is in its range.\<close>

theorem shared_pool_invariant: "reachable M n st \<Longrightarrow> 0 < n \<Longrightarrow> consistent M n st"
  by (rule reachable_consistent)

theorem shared_pool_invariant_witness:
  "consistent 2 3 (pin_by 1 False 2 \<lparr>pool = InitBufferPool 3, prc = (\<lambda>i b. 0), searcher = None\<rparr>)"
proof (rule shared_pool_invariant)
  show "reachable 2 3 (pin_by 1 False 2 \<lparr>pool = InitBufferPool 3, prc = (\<lambda>i b. 0), searcher = None\<rparr>)"
    by (rule reachable_step [OF reachable_init], rule step_pin) (simp_all add: InitBufferPool_def Let_def)
qed simp

text \<open>C28: a victim is nobody else's: whether a search ends with a buffer of the free list, of the sweep or of the
  backend's ring, no backend pins it before and only the searching backend does afterwards; and a backend that pins a
  buffer whose shared count is one, the test before \<open>BufferAlloc\<close> gives it to another page, is the only one that
  pins it.\<close>

theorem victim_exclusive:
  assumes "reachable M n st" and "0 < n"
  shows "(takes M st i b st' \<longrightarrow> b < n \<and> pinners M st b = {} \<and> pinners M st' b = {i} \<and>
            refcount (BufferDescriptors (pool st') ! b) = 1) \<and>
         (i < M \<and> b < n \<and> 0 < prc st i b \<and> refcount (BufferDescriptors (pool st) ! b) = 1 \<longrightarrow> pinners M st b = {i})"
proof (intro conjI impI)
  note c = reachable_consistent [OF assms]
  assume "takes M st i b st'"
  note t = takes_result [OF this c]
  then have "\<not> pinned (pool st) b" "b < n" by simp_all
  then have "card (pinners M st b) = 0" using c unfolding consistent_def pinned_def by metis
  then show e: "pinners M st b = {}" by (simp add: pinners_def)
  then show p: "pinners M st' b = {i}" using t by (auto simp: pinners_def)
  show "b < n" using t by simp
  have "refcount (BufferDescriptors (pool st') ! b) = card (pinners M st' b)" using t by (simp add: consistent_def)
  then show "refcount (BufferDescriptors (pool st') ! b) = 1" using p by simp
next
  assume a: "i < M \<and> b < n \<and> 0 < prc st i b \<and> refcount (BufferDescriptors (pool st) ! b) = 1"
  then have "card (pinners M st b) = 1" using reachable_consistent [OF assms] unfolding consistent_def by metis
  moreover have "i \<in> pinners M st b" using a by (simp add: pinners_def)
  ultimately show "pinners M st b = {i}" by (metis card_1_singletonE singletonD)
qed

theorem victim_exclusive_witness:
  "\<exists>st st'. searcher st = Some (0, Sweeping 1) \<and> takes 1 st 0 0 st' \<and> pinners 1 st' 0 = {0} \<and>
     refcount (BufferDescriptors (pool st') ! 0) = 1"
proof -
  let ?search = "\<lambda>st. st\<lparr>pool := set_control (\<lambda>ctl. ctl\<lparr>numBufferAllocs := numBufferAllocs ctl + 1\<rparr>) (pool st),
      searcher := Some (0, Popping)\<rparr>"
  let ?s0 = "\<lparr>pool = InitBufferPool 1, prc = (\<lambda>i b. 0), searcher = None\<rparr>"
  let ?s1 = "?search ?s0"
  let ?s2 = "take_victim 0 0 (snd (pop_iteration (pool ?s1))) ?s1"
  let ?s3 = "unpin_by 0 0 ?s2"
  let ?s4 = "?search ?s3"
  let ?p5 = "snd (pop_iteration (pool ?s4))"
  let ?s5 = "?s4\<lparr>pool := ?p5, searcher := Some (0, Sweeping (NBuffers ?p5))\<rparr>"
  have "reachable 1 1 ?s1" by (rule reachable_step [OF reachable_init], rule step_search) simp_all
  moreover have "step 1 ?s1 ?s2" by (rule step_take, rule takes_popped) (simp, code_simp)
  moreover have "step 1 ?s2 ?s3" by (rule step_unpin) (simp, code_simp, code_simp)
  moreover have "step 1 ?s3 ?s4" by (rule step_search) (simp, code_simp)
  moreover have "step 1 ?s4 ?s5" by (rule step_empty) (simp, code_simp)
  ultimately have r: "reachable 1 1 ?s5" using reachable_step by blast
  have s: "searcher ?s5 = Some (0, Sweeping 1)" by code_simp
  have v: "sweep_iteration 1 (pool ?s5) = (Victim 0, snd (sweep_iteration 1 (pool ?s5)))" by code_simp
  have "takes 1 ?s5 0 0 (take_victim 0 0 (snd (sweep_iteration 1 (pool ?s5))) ?s5)" by (rule takes_swept [OF s v])
  then show ?thesis using victim_exclusive [OF r zero_less_one] s by blast
qed

end
