(* ===== verification/FsmPage.thy ===== *)
theory FsmPage
  imports Prelude
begin

text \<open>
  A page of the free space map (storage/freespace/fsmpage.c): a binary tree in an array, whose leaves are the slots and
  whose inner nodes hold the maximum of their children; setting a slot, the search for a slot with enough space, the
  truncation and the repair of a page that a crash tore.
\<close>

unbundle bit_operations_syntax

section \<open>The tree\<close>

text \<open>The sizes for pages of 8192 bytes with a header of 24; \<open>fp_nodes\<close> is at offset 4.\<close>

definition NodesPerPage :: nat where "NodesPerPage = 8192 - 24 - 4"
definition NonLeafNodesPerPage :: nat where "NonLeafNodesPerPage = 8192 div 2 - 1"
definition LeafNodesPerPage :: nat where "LeafNodesPerPage = NodesPerPage - NonLeafNodesPerPage"

record FSMPage =
  fp_next_slot :: int
  fp_nodes :: "byte list"

definition leftchild :: "nat \<Rightarrow> nat" where "leftchild x = 2 * x + 1"
definition parentof :: "nat \<Rightarrow> nat" where "parentof x = (x - 1) div 2"

definition rightneighbor :: "nat \<Rightarrow> nat" where
  "rightneighbor x = (let x = x + 1 in if (x + 1) AND x = 0 then parentof x else x)"

section \<open>Operations\<close>

text \<open>The value the children of a node give it; a page may lack the last leaves.\<close>

definition child_max :: "byte list \<Rightarrow> nat \<Rightarrow> byte" where
  "child_max nodes nodeno =
     (let lchild = leftchild nodeno;
          rchild = lchild + 1;
          newvalue = (if lchild < NodesPerPage then nodes ! lchild else 0)
      in if rchild < NodesPerPage then max newvalue (nodes ! rchild) else newvalue)"

definition rebuild_node :: "nat \<Rightarrow> byte list \<times> bool \<Rightarrow> byte list \<times> bool" where
  "rebuild_node nodeno = (\<lambda>(nodes, changed).
     let newvalue = child_max nodes nodeno
     in if nodes ! nodeno \<noteq> newvalue then (nodes[nodeno := newvalue], True) else (nodes, changed))"

definition fsm_rebuild_page :: "FSMPage \<Rightarrow> bool \<times> FSMPage" where
  "fsm_rebuild_page page =
     (case fold rebuild_node (rev [0..<NonLeafNodesPerPage]) (fp_nodes page, False) of
        (nodes, changed) \<Rightarrow> (changed, page\<lparr>fp_nodes := nodes\<rparr>))"

text \<open>The loop of \<open>fsm_set_avail\<close> upwards; the left child of a parent always exists there.\<close>

lemma parentof_less: "0 < x \<Longrightarrow> parentof x < x"
  by (simp add: parentof_def)

function propagate :: "nat \<Rightarrow> byte list \<Rightarrow> byte list" where
  "propagate nodeno nodes =
     (let nodeno = parentof nodeno;
          lchild = leftchild nodeno;
          rchild = lchild + 1;
          newvalue = nodes ! lchild;
          newvalue = (if rchild < NodesPerPage then max newvalue (nodes ! rchild) else newvalue)
      in if nodes ! nodeno = newvalue then nodes
         else let nodes = nodes[nodeno := newvalue]
              in if nodeno > 0 then propagate nodeno nodes else nodes)"
  by pat_completeness auto
termination
  by (relation "measure fst") (auto simp: parentof_def)

definition fsm_set_avail :: "FSMPage \<Rightarrow> nat \<Rightarrow> byte \<Rightarrow> bool \<times> FSMPage" where
  "fsm_set_avail page slot value =
     (let nodeno = NonLeafNodesPerPage + slot;
          oldvalue = fp_nodes page ! nodeno
      in if oldvalue = value \<and> value \<le> fp_nodes page ! 0 then (False, page)
         else let page = page\<lparr>fp_nodes := propagate nodeno ((fp_nodes page)[nodeno := value])\<rparr>;
                  page = (if value > fp_nodes page ! 0 then snd (fsm_rebuild_page page) else page)
              in (True, page))"

definition fsm_get_avail :: "FSMPage \<Rightarrow> nat \<Rightarrow> byte" where
  "fsm_get_avail page slot = fp_nodes page ! (NonLeafNodesPerPage + slot)"

definition fsm_get_max_avail :: "FSMPage \<Rightarrow> byte" where
  "fsm_get_max_avail page = fp_nodes page ! 0"

text \<open>The climb to a node with enough space.\<close>

lemma climb_less: "0 < n \<Longrightarrow> parentof (rightneighbor n) < n"
  by (auto simp: parentof_def rightneighbor_def Let_def)

function climb :: "byte list \<Rightarrow> byte \<Rightarrow> nat \<Rightarrow> nat" where
  "climb nodes minvalue nodeno =
     (if nodeno > 0
      then if nodes ! nodeno \<ge> minvalue then nodeno
           else climb nodes minvalue (parentof (rightneighbor nodeno))
      else nodeno)"
  by pat_completeness auto
termination
  by (relation "measure (\<lambda>(nodes, m, n). n)") (auto simp: climb_less)

text \<open>The descent; it fails on a node whose value no child has.\<close>

function descend :: "byte list \<Rightarrow> byte \<Rightarrow> nat \<Rightarrow> nat option" where
  "descend nodes minvalue nodeno =
     (if nodeno < NonLeafNodesPerPage
      then let childnodeno = leftchild nodeno
           in if childnodeno < NodesPerPage \<and> nodes ! childnodeno \<ge> minvalue then descend nodes minvalue childnodeno
              else let childnodeno = childnodeno + 1
                   in if childnodeno < NodesPerPage \<and> nodes ! childnodeno \<ge> minvalue then descend nodes minvalue childnodeno
                      else None
      else Some nodeno)"
  by pat_completeness auto
termination
  by (relation "measure (\<lambda>(nodes, m, n). NonLeafNodesPerPage - n)") (auto simp: leftchild_def)

declare propagate.simps [simp del] climb.simps [simp del] descend.simps [simp del]

text \<open>Where the search starts: the hint of the page if it is sane.\<close>

definition start_slot :: "FSMPage \<Rightarrow> nat" where
  "start_slot page =
     (if fp_next_slot page < 0 \<or> fp_next_slot page \<ge> int LeafNodesPerPage then 0 else nat (fp_next_slot page))"

text \<open>The search; a page that promises space it does not have is repaired and searched again.\<close>

partial_function (option) fsm_search_avail :: "FSMPage \<Rightarrow> byte \<Rightarrow> bool \<Rightarrow> (int \<times> FSMPage) option" where
  "fsm_search_avail page minvalue advancenext =
     (if fp_nodes page ! 0 < minvalue then Some (- 1, page)
      else case descend (fp_nodes page) minvalue (climb (fp_nodes page) minvalue (NonLeafNodesPerPage + start_slot page)) of
             None \<Rightarrow> fsm_search_avail (snd (fsm_rebuild_page page)) minvalue advancenext
           | Some nodeno \<Rightarrow>
               (let slot = nodeno - NonLeafNodesPerPage
                in Some (int slot, page\<lparr>fp_next_slot := int slot + (if advancenext then 1 else 0)\<rparr>)))"

definition fsm_truncate_avail :: "FSMPage \<Rightarrow> nat \<Rightarrow> bool \<times> FSMPage" where
  "fsm_truncate_avail page nslots =
     (let first = NonLeafNodesPerPage + nslots;
          changed = list_ex (\<lambda>v. v \<noteq> 0) (drop first (fp_nodes page));
          page = page\<lparr>fp_nodes := take first (fp_nodes page) @ replicate (length (fp_nodes page) - first) 0\<rparr>;
          page = (if changed then snd (fsm_rebuild_page page) else page)
      in (changed, page))"

section \<open>Well-formed pages\<close>

definition node_ok :: "byte list \<Rightarrow> nat \<Rightarrow> bool" where
  "node_ok nodes i \<longleftrightarrow> nodes ! i = child_max nodes i"

definition valid :: "byte list \<Rightarrow> bool" where
  "valid nodes \<longleftrightarrow> length nodes = NodesPerPage \<and> (\<forall>i < NonLeafNodesPerPage. node_ok nodes i)"

lemma sizes:
  "NonLeafNodesPerPage = 2 ^ 12 - 1" "NonLeafNodesPerPage < NodesPerPage" "NodesPerPage \<le> 2 * NonLeafNodesPerPage + 1"
  "0 < NonLeafNodesPerPage" "LeafNodesPerPage = NodesPerPage - NonLeafNodesPerPage" "LeafNodesPerPage < 2 ^ 12"
  "0 < LeafNodesPerPage"
  by (simp_all add: NodesPerPage_def NonLeafNodesPerPage_def LeafNodesPerPage_def)

lemma child_max_cong:
  "(\<And>j. i < j \<Longrightarrow> nodes' ! j = nodes ! j) \<Longrightarrow> child_max nodes' i = child_max nodes i"
  by (simp add: child_max_def leftchild_def Let_def)

lemma child_max_update: "j \<noteq> leftchild i \<Longrightarrow> j \<noteq> leftchild i + 1 \<Longrightarrow> child_max (nodes[j := v]) i = child_max nodes i"
  by (simp add: child_max_def Let_def)

lemma rebuild_node_spec:
  assumes "i < length nodes" and "rebuild_node i (nodes, c) = (nodes', c')"
  shows "length nodes' = length nodes \<and> node_ok nodes' i \<and> (\<forall>j. j \<noteq> i \<longrightarrow> nodes' ! j = nodes ! j)"
proof -
  have "child_max (nodes[i := v]) i = child_max nodes i" for v
    by (rule child_max_update) (simp_all add: leftchild_def)
  then show ?thesis using assms by (auto simp: rebuild_node_def Let_def node_ok_def split: if_splits)
qed

lemma rebuild_loop:
  assumes "length nodes = NodesPerPage" and "m \<le> NonLeafNodesPerPage"
    and "\<forall>i < NonLeafNodesPerPage. m \<le> i \<longrightarrow> node_ok nodes i"
    and "fold rebuild_node (rev [0..<m]) (nodes, c) = (nodes', c')"
  shows "valid nodes' \<and> (\<forall>i \<ge> NonLeafNodesPerPage. nodes' ! i = nodes ! i)"
  using assms
proof (induction m arbitrary: nodes c)
  case 0
  then show ?case by (simp add: valid_def)
next
  case (Suc m)
  obtain n1 c1 where n1: "rebuild_node m (nodes, c) = (n1, c1)" by (cases "rebuild_node m (nodes, c)")
  have m: "m < length nodes" using Suc.prems(1,2) sizes(2) by simp
  note s = rebuild_node_spec [OF m n1]
  have ok: "\<forall>i < NonLeafNodesPerPage. m \<le> i \<longrightarrow> node_ok n1 i"
  proof (intro allI impI)
    fix i assume i: "i < NonLeafNodesPerPage" "m \<le> i"
    show "node_ok n1 i"
    proof (cases "i = m")
      case False
      then have "child_max n1 i = child_max nodes i" "n1 ! i = nodes ! i" using s i by (auto intro: child_max_cong)
      then show ?thesis using Suc.prems(3) i False by (simp add: node_ok_def)
    qed (use s in simp)
  qed
  have "fold rebuild_node (rev [0..<m]) (n1, c1) = (nodes', c')" using Suc.prems(4) n1 by simp
  then have "valid nodes' \<and> (\<forall>i \<ge> NonLeafNodesPerPage. nodes' ! i = n1 ! i)"
    by (rule Suc.IH [OF _ _ ok, rotated 2]) (use Suc.prems s in simp_all)
  then show ?case using s Suc.prems(2) by auto
qed

lemma rebuild_valid:
  assumes "length (fp_nodes page) = NodesPerPage"
  shows "valid (fp_nodes (snd (fsm_rebuild_page page))) \<and>
    (\<forall>i \<ge> NonLeafNodesPerPage. fp_nodes (snd (fsm_rebuild_page page)) ! i = fp_nodes page ! i) \<and>
    fp_next_slot (snd (fsm_rebuild_page page)) = fp_next_slot page"
proof -
  obtain nodes c where f: "fold rebuild_node (rev [0..<NonLeafNodesPerPage]) (fp_nodes page, False) = (nodes, c)"
    by (cases "fold rebuild_node (rev [0..<NonLeafNodesPerPage]) (fp_nodes page, False)")
  show ?thesis using rebuild_loop [OF assms order_refl _ f] f by (simp add: fsm_rebuild_page_def)
qed

section \<open>Setting a slot\<close>

text \<open>While a change travels up, only the parent of the node just changed may be wrong.\<close>

definition valid_but :: "nat \<Rightarrow> byte list \<Rightarrow> bool" where
  "valid_but n nodes \<longleftrightarrow> length nodes = NodesPerPage \<and> (\<forall>i < NonLeafNodesPerPage. i \<noteq> n \<longrightarrow> node_ok nodes i)"

lemma child_of: "0 < n \<Longrightarrow> n = leftchild i \<or> n = leftchild i + 1 \<longleftrightarrow> i = parentof n"
  by (auto simp: leftchild_def parentof_def)

lemma propagate_valid:
  assumes "0 < n" "n < NodesPerPage" "valid_but (parentof n) nodes"
  shows "valid (propagate n nodes) \<and> (\<forall>i \<ge> NonLeafNodesPerPage. propagate n nodes ! i = nodes ! i)"
  using assms
proof (induction n nodes rule: propagate.induct)
  case (1 n nodes)
  let ?p = "parentof n"
  have lc: "leftchild ?p < NodesPerPage" using 1(2,3) by (simp add: leftchild_def parentof_def)
  have p: "?p < NonLeafNodesPerPage" using 1(2,3) sizes(3) by (simp add: parentof_def)
  have cm: "child_max nodes ?p = (let newvalue = nodes ! leftchild ?p
      in if leftchild ?p + 1 < NodesPerPage then max newvalue (nodes ! (leftchild ?p + 1)) else newvalue)"
    using lc by (simp add: child_max_def Let_def)
  have unfold: "propagate n nodes = (if nodes ! ?p = child_max nodes ?p then nodes
      else if 0 < ?p then propagate ?p (nodes[?p := child_max nodes ?p]) else nodes[?p := child_max nodes ?p])"
    unfolding cm Let_def by (subst propagate.simps) (simp only: Let_def)
  show ?case
  proof (cases "nodes ! ?p = child_max nodes ?p")
    case True
    then have "propagate n nodes = nodes" using unfold by simp
    moreover have "valid nodes" using 1(4) True by (auto simp: valid_def valid_but_def node_ok_def)
    ultimately show ?thesis by simp
  next
    case False
    let ?n = "nodes[?p := child_max nodes ?p]"
    have len: "length nodes = NodesPerPage" using 1(4) by (simp add: valid_but_def)
    have okp: "node_ok ?n ?p"
      using child_max_update [of ?p ?p nodes] p sizes(2) len by (simp add: node_ok_def leftchild_def)
    have oki: "node_ok ?n i" if "i < NonLeafNodesPerPage" "i \<noteq> ?p" "?p = 0 \<or> i \<noteq> parentof ?p" for i
    proof -
      have "?p \<noteq> leftchild i \<and> ?p \<noteq> leftchild i + 1"
        using that(3) child_of [of ?p i] by (cases "?p = 0") (auto simp: leftchild_def)
      then have "child_max ?n i = child_max nodes i" by (intro child_max_update) simp_all
      moreover have "node_ok nodes i" using 1(4) that by (simp add: valid_but_def)
      ultimately show ?thesis using that(2) by (simp add: node_ok_def)
    qed
    have out: "\<forall>i \<ge> NonLeafNodesPerPage. ?n ! i = nodes ! i" using p by auto
    have step: "propagate n nodes = (if 0 < ?p then propagate ?p ?n else ?n)"
      using False unfold by simp
    show ?thesis
    proof (cases "0 < ?p")
      case True
      have but: "valid_but (parentof ?p) ?n" using oki okp True len by (auto simp: valid_but_def)
      have "valid (propagate ?p ?n) \<and> (\<forall>i \<ge> NonLeafNodesPerPage. propagate ?p ?n ! i = ?n ! i)"
        by (rule 1(1) [OF refl refl refl refl refl _ _ True True, folded cm [unfolded Let_def]])
          (use \<open>nodes ! ?p \<noteq> child_max nodes ?p\<close> p sizes(2) but in simp_all)
      then show ?thesis using step True out by simp
    next
      case False
      have "valid ?n" using oki okp False len by (auto simp: valid_def)
      then show ?thesis using step False out by simp
    qed
  qed
qed

lemma propagate_length [simp]: "length (propagate n nodes) = length nodes"
  by (induction n nodes rule: propagate.induct) (subst propagate.simps, simp add: Let_def)

lemma propagate_leaf: "NonLeafNodesPerPage \<le> i \<Longrightarrow> n < NodesPerPage \<Longrightarrow> propagate n nodes ! i = nodes ! i"
proof (induction n nodes rule: propagate.induct)
  case (1 n nodes)
  have p: "parentof n < NonLeafNodesPerPage" "parentof n < NodesPerPage"
    using 1(3) sizes(2,3,4) by (auto simp: parentof_def)
  then show ?case using 1 by (subst propagate.simps) (simp add: Let_def)
qed

lemma update_leaf_valid_but:
  assumes "valid nodes" "NonLeafNodesPerPage \<le> n" "n < NodesPerPage"
  shows "valid_but (parentof n) (nodes[n := v])"
  unfolding valid_but_def
proof (intro conjI allI impI)
  fix i assume i: "i < NonLeafNodesPerPage" "i \<noteq> parentof n"
  have "0 < n" using assms(2) sizes(4) by simp
  then have "n \<noteq> leftchild i" "n \<noteq> leftchild i + 1" using child_of [of n i] i(2) by auto
  then show "node_ok (nodes[n := v]) i"
    using assms i child_max_update [of n i nodes v] by (simp add: node_ok_def valid_def)
qed (use assms in \<open>simp add: valid_def\<close>)

section \<open>Levels\<close>

text \<open>Node \<open>j\<close> of level \<open>l\<close>; the leaves are level 12.\<close>

definition node :: "nat \<Rightarrow> nat \<Rightarrow> nat" where "node l j = 2 ^ l - 1 + j"

lemma node_leaf: "node 12 x = NonLeafNodesPerPage + x"
  by (simp add: node_def sizes(1))

lemma node_0 [simp]: "node 0 0 = 0"
  by (simp add: node_def)

lemma node_pos: "0 < l \<Longrightarrow> 0 < node l j"
  using power_increasing [of 1 l "2 :: nat"] by (simp add: node_def)

lemma two_pos: "0 < (2 :: nat) ^ l" and two_nonzero: "(2 :: nat) ^ l \<noteq> 0"
  by simp_all

lemma leftchild_node: "leftchild (node l j) = node (Suc l) (2 * j)"
  by (cases "(2 :: nat) ^ l") (simp_all add: leftchild_def node_def)

lemma parentof_node: "parentof (node (Suc l) j) = node l (j div 2)"
proof -
  have "2 * 2 ^ l - 1 + j - 1 = 2 * (2 ^ l - 1) + j" by (cases "(2 :: nat) ^ l") simp_all
  then show ?thesis by (simp add: parentof_def node_def)
qed

lemma node_inner: "l < 12 \<Longrightarrow> j < 2 ^ l \<Longrightarrow> node l j < NonLeafNodesPerPage"
proof -
  assume l: "l < 12" "j < 2 ^ l"
  then have "(2 :: nat) ^ Suc l \<le> 2 ^ 12" by (intro power_increasing) simp_all
  then show ?thesis using l two_pos [of l] by (simp add: node_def sizes(1))
qed

lemma and_power_nonzero: "k < 2 ^ l \<Longrightarrow> (2 ^ l + k + 1) AND (2 ^ l + k) = (0 :: nat) \<longleftrightarrow> k + 1 = 2 ^ l"
proof
  assume k: "k < 2 ^ l" and z: "(2 ^ l + k + 1) AND (2 ^ l + k) = (0 :: nat)"
  show "k + 1 = 2 ^ l"
  proof (rule ccontr)
    assume "k + 1 \<noteq> 2 ^ l"
    then have "k + 1 < 2 ^ l" using k by simp
    then have "(2 ^ l + (k + 1)) div 2 ^ l = 1" "(2 ^ l + k) div 2 ^ l = 1"
      using k by (simp_all only: div_add_self1 [OF two_nonzero] div_less)
    then have "bit (2 ^ l + k + 1) l" "bit (2 ^ l + k) l" by (simp_all add: bit_iff_odd)
    then have "bit ((2 ^ l + k + 1) AND (2 ^ l + k)) l" by (simp only: bit_and_iff)
    then show False using z by simp
  qed
next
  assume k: "k < 2 ^ l" and e: "k + 1 = 2 ^ l"
  then have "2 ^ l + k + 1 = 2 ^ Suc l" "2 ^ l + k = mask (Suc l)" by (simp_all add: mask_eq_exp_minus_1)
  then have "(2 ^ l + k + 1) AND (2 ^ l + k) = take_bit (Suc l) (2 ^ Suc l :: nat)" by (simp only: take_bit_eq_mask)
  then show "(2 ^ l + k + 1) AND (2 ^ l + k) = (0 :: nat)" by (simp only: take_bit_eq_mod mod_self)
qed

lemma rightneighbor_node:
  assumes "j < 2 ^ l"
  shows "rightneighbor (node l j) = (if j + 1 = 2 ^ l then node l 0 else node l (j + 1))"
proof -
  have x: "Suc (node l j) = 2 ^ l + j" by (cases "(2 :: nat) ^ l") (simp_all add: node_def)
  show ?thesis
  proof (cases "j + 1 = 2 ^ l")
    case True
    then have "parentof (2 ^ l + j) = node l 0" by (simp add: parentof_def node_def)
    then show ?thesis using True and_power_nonzero [OF assms] by (simp add: rightneighbor_def Let_def x)
  next
    case False
    then show ?thesis using and_power_nonzero [OF assms] x by (simp add: rightneighbor_def Let_def) (simp add: node_def)
  qed
qed

text \<open>The next node of a climb.\<close>

lemma climb_node:
  assumes "j < 2 ^ Suc l"
  shows "parentof (rightneighbor (node (Suc l) j)) = (if j + 1 = 2 ^ Suc l then node l 0 else node l ((j + 1) div 2))"
  unfolding rightneighbor_node [OF assms] using parentof_node by simp

section \<open>The search\<close>

definition slot_ok :: "byte list \<Rightarrow> byte \<Rightarrow> nat \<Rightarrow> bool" where
  "slot_ok nodes m x \<longleftrightarrow> x < LeafNodesPerPage \<and> nodes ! (NonLeafNodesPerPage + x) \<ge> m"

text \<open>Node \<open>j\<close> of level \<open>l\<close> has a slot with enough space below it.\<close>

definition below :: "nat \<Rightarrow> nat \<Rightarrow> nat \<Rightarrow> bool" where
  "below l j x \<longleftrightarrow> x div 2 ^ (12 - l) = j"

definition has :: "byte list \<Rightarrow> byte \<Rightarrow> nat \<Rightarrow> nat \<Rightarrow> bool" where
  "has nodes m l j \<longleftrightarrow> (\<exists>x. slot_ok nodes m x \<and> below l j x)"

lemma below_12 [simp]: "below 12 j x \<longleftrightarrow> x = j"
  by (auto simp: below_def)

lemma half_iff: "b div 2 = j \<longleftrightarrow> b = 2 * j \<or> b = 2 * j + 1" for b :: nat
  by presburger

lemma below_split: "l < 12 \<Longrightarrow> below l j x \<longleftrightarrow> below (Suc l) (2 * j) x \<or> below (Suc l) (2 * j + 1) x"
proof -
  assume "l < 12"
  then have "(2 :: nat) ^ (12 - l) = 2 ^ (12 - Suc l) * 2" by (metis Suc_diff_Suc power_Suc2)
  then have "x div 2 ^ (12 - l) = x div 2 ^ (12 - Suc l) div 2" by (simp only: div_mult2_eq)
  then show ?thesis unfolding below_def by (simp only: half_iff)
qed

lemma has_split: "l < 12 \<Longrightarrow> has nodes m l j \<longleftrightarrow> has nodes m (Suc l) (2 * j) \<or> has nodes m (Suc l) (2 * j + 1)"
  unfolding has_def using below_split [of l j] by blast

lemma node_missing:
  assumes "l \<le> 12" "j < 2 ^ l" "\<not> node l j < NodesPerPage"
  shows "\<not> has nodes m l j"
proof -
  have "l = 12" using node_inner [of l j] assms sizes(2) by (cases "l = 12") auto
  then show ?thesis using assms sizes(2,5) by (auto simp: has_def slot_ok_def node_leaf)
qed

lemma child_max_ge: "0 < m \<Longrightarrow> child_max nodes i \<ge> m \<longleftrightarrow>
    leftchild i < NodesPerPage \<and> nodes ! leftchild i \<ge> m \<or> leftchild i + 1 < NodesPerPage \<and> nodes ! (leftchild i + 1) \<ge> m"
proof -
  assume m: "0 < m"
  then have z: "\<not> m \<le> 0" by simp
  show ?thesis
  proof (cases "leftchild i + 1 < NodesPerPage")
    case True
    then show ?thesis by (simp add: child_max_def Let_def le_max_iff_disj)
  qed (use z in \<open>simp add: child_max_def Let_def\<close>)
qed

lemma node_right: "node l j + 1 = node l (j + 1)"
  by (simp add: node_def)

lemma node_value:
  "valid nodes \<Longrightarrow> 0 < m \<Longrightarrow> l \<le> 12 \<Longrightarrow> j < 2 ^ l \<Longrightarrow> node l j < NodesPerPage \<Longrightarrow>
   nodes ! node l j \<ge> m \<longleftrightarrow> has nodes m l j"
proof (induction "12 - l" arbitrary: l j)
  case 0
  then have "l = 12" by simp
  then show ?case using 0 sizes(2,5) by (auto simp: has_def slot_ok_def node_leaf)
next
  case (Suc d)
  then have l: "l < 12" by simp
  have c: "d = 12 - Suc l" "Suc l \<le> 12" "2 * j < 2 ^ Suc l" "2 * j + 1 < 2 ^ Suc l" using Suc by simp_all
  have e: "node (Suc l) k < NodesPerPage \<and> nodes ! node (Suc l) k \<ge> m \<longleftrightarrow> has nodes m (Suc l) k" if "k < 2 ^ Suc l" for k
    using Suc.hyps(1) [OF c(1) Suc.prems(1,2) c(2) that] node_missing [OF c(2) that] by blast
  have "nodes ! node l j = child_max nodes (node l j)"
    using Suc.prems(1) node_inner [OF l Suc.prems(4)] by (simp add: valid_def node_ok_def)
  then show ?case
    unfolding has_split [OF l] child_max_ge [OF Suc.prems(2)] leftchild_node node_right e [OF c(3), symmetric] e [OF c(4), symmetric]
    by (simp only: child_max_ge [OF Suc.prems(2)] leftchild_node node_right)
qed

text \<open>The descent finds the first slot below a node.\<close>

lemma descend_first:
  "valid nodes \<Longrightarrow> 0 < m \<Longrightarrow> l \<le> 12 \<Longrightarrow> j < 2 ^ l \<Longrightarrow> has nodes m l j \<Longrightarrow>
   \<exists>x. descend nodes m (node l j) = Some (NonLeafNodesPerPage + x) \<and> slot_ok nodes m x \<and> below l j x \<and>
       (\<forall>y < x. below l j y \<longrightarrow> \<not> slot_ok nodes m y)"
proof (induction "12 - l" arbitrary: l j)
  case 0
  then have "l = 12" by simp
  then show ?case using 0 by (auto simp: has_def descend.simps node_leaf)
next
  case (Suc d)
  then have l: "l < 12" by simp
  have c: "d = 12 - Suc l" "Suc l \<le> 12" "2 * j < 2 ^ Suc l" "2 * j + 1 < 2 ^ Suc l" using Suc by simp_all
  have e: "node (Suc l) k < NodesPerPage \<and> nodes ! node (Suc l) k \<ge> m \<longleftrightarrow> has nodes m (Suc l) k" if "k < 2 ^ Suc l" for k
    using node_value [OF Suc.prems(1,2) c(2) that] node_missing [OF c(2) that] by blast
  have step: "descend nodes m (node l j) =
      (if has nodes m (Suc l) (2 * j) then descend nodes m (node (Suc l) (2 * j))
       else if has nodes m (Suc l) (2 * j + 1) then descend nodes m (node (Suc l) (2 * j + 1)) else None)"
    using node_inner [OF l Suc.prems(4)] unfolding e [OF c(3), symmetric] e [OF c(4), symmetric]
    by (subst descend.simps) (simp only: Let_def leftchild_node node_right if_True)
  show ?case
  proof (cases "has nodes m (Suc l) (2 * j)")
    case True
    then obtain x where x: "descend nodes m (node (Suc l) (2 * j)) = Some (NonLeafNodesPerPage + x)" "slot_ok nodes m x"
      "below (Suc l) (2 * j) x" "\<forall>y < x. below (Suc l) (2 * j) y \<longrightarrow> \<not> slot_ok nodes m y"
      using Suc.hyps(1) [OF c(1) Suc.prems(1,2) c(2,3)] by blast
    have "\<not> below (Suc l) (2 * j + 1) y" if "y < x" for y
      using x(3) that div_le_mono [of y x "2 ^ (12 - Suc l)"] by (simp add: below_def)
    then show ?thesis using x True step below_split [OF l] by auto
  next
    case False
    then have r: "has nodes m (Suc l) (2 * j + 1)" using Suc.prems(5) has_split [OF l] by blast
    then obtain x where x: "descend nodes m (node (Suc l) (2 * j + 1)) = Some (NonLeafNodesPerPage + x)" "slot_ok nodes m x"
      "below (Suc l) (2 * j + 1) x" "\<forall>y < x. below (Suc l) (2 * j + 1) y \<longrightarrow> \<not> slot_ok nodes m y"
      using Suc.hyps(1) [OF c(1) Suc.prems(1,2) c(2,4)] by blast
    have "\<not> slot_ok nodes m y" if "below (Suc l) (2 * j) y" for y using False that by (auto simp: has_def)
    then show ?thesis using x False r step below_split [OF l] by auto
  qed
qed

text \<open>
  The climb keeps to the right of where it started: the slots from the start to the left edge of the current node have
  not enough space, or it has wrapped around and no slot from the start on has.
\<close>

definition passed :: "byte list \<Rightarrow> byte \<Rightarrow> nat \<Rightarrow> nat \<Rightarrow> nat \<Rightarrow> bool" where
  "passed nodes m s l j \<longleftrightarrow>
     s \<le> j * 2 ^ (12 - l) \<and> (\<forall>x. s \<le> x \<and> x < j * 2 ^ (12 - l) \<longrightarrow> \<not> slot_ok nodes m x) \<or>
     j = 0 \<and> (\<forall>x \<ge> s. \<not> slot_ok nodes m x)"

lemma below_iff: "below l j x \<longleftrightarrow> j * 2 ^ (12 - l) \<le> x \<and> x < (j + 1) * 2 ^ (12 - l)"
proof -
  let ?w = "(2 :: nat) ^ (12 - l)"
  have "x div ?w = j \<longleftrightarrow> j \<le> x div ?w \<and> x div ?w < j + 1" by auto
  also have "\<dots> \<longleftrightarrow> j * ?w \<le> x \<and> x < (j + 1) * ?w"
    by (simp only: less_eq_div_iff_mult_less_eq [OF two_pos] div_less_iff_less_mult [OF two_pos])
  finally show ?thesis by (simp only: below_def)
qed

lemma passed_next:
  assumes "passed nodes m s (Suc l) j" "\<not> has nodes m (Suc l) j" "l < 12"
  shows "if j + 1 = 2 ^ Suc l then passed nodes m s l 0 else passed nodes m s l ((j + 1) div 2)"
proof -
  let ?w = "(2 :: nat) ^ (12 - Suc l)"
  have w: "(2 :: nat) ^ (12 - l) = 2 * ?w" using assms(3) by (metis Suc_diff_Suc power_Suc)
  have none: "\<not> slot_ok nodes m x" if "j * ?w \<le> x" "x < (j + 1) * ?w" for x
    using assms(2) that by (auto simp: has_def below_iff)
  have wrapped: "passed nodes m s l 0" if "\<forall>x \<ge> s. \<not> slot_ok nodes m x" using that by (simp add: passed_def)
  show ?thesis
  proof (cases "j = 0 \<and> (\<forall>x \<ge> s. \<not> slot_ok nodes m x)")
    case True
    then show ?thesis using wrapped by simp
  next
    case False
    then have p: "s \<le> j * ?w" "\<not> slot_ok nodes m x" if "s \<le> x" "x < j * ?w" for x using assms(1) that unfolding passed_def by blast+
    have sj: "s \<le> j * ?w" using assms(1) False unfolding passed_def by blast
    have q: "\<not> slot_ok nodes m x" if "s \<le> x" "x < (j + 1) * ?w" for x
      using p(2) [of x] none [of x] that by (cases "x < j * ?w") auto
    show ?thesis
    proof (cases "j + 1 = 2 ^ Suc l")
      case True
      have "(2 :: nat) ^ Suc l * ?w = 2 ^ 12" using assms(3) by (simp flip: power_add power_Suc)
      then have edge: "(j + 1) * ?w = 2 ^ 12" unfolding True .
      have "x < 2 ^ 12" if "slot_ok nodes m x" for x using that sizes(6) less_trans unfolding slot_ok_def by blast
      then have "\<not> slot_ok nodes m x" if "s \<le> x" for x using q [OF that] unfolding edge by blast
      then show ?thesis using True wrapped by simp
    next
      case f: False
      have "(j + 1) div 2 * 2 ^ (12 - l) = (if even j then j * ?w else (j + 1) * ?w)" unfolding w by (auto elim!: evenE oddE)
      then have "passed nodes m s l ((j + 1) div 2)" using sj p(2) q by (auto simp: passed_def)
      then show ?thesis using f by simp
    qed
  qed
qed

lemma climb_passed:
  "valid nodes \<Longrightarrow> 0 < m \<Longrightarrow> nodes ! 0 \<ge> m \<Longrightarrow> l \<le> 12 \<Longrightarrow> j < 2 ^ l \<Longrightarrow> node l j < NodesPerPage \<Longrightarrow> passed nodes m s l j \<Longrightarrow>
   \<exists>l' j'. climb nodes m (node l j) = node l' j' \<and> l' \<le> 12 \<and> j' < 2 ^ l' \<and> has nodes m l' j' \<and> passed nodes m s l' j'"
proof (induction l arbitrary: j)
  case 0
  then have "j = 0" "climb nodes m (node 0 0) = node 0 0" by (simp_all add: climb.simps)
  moreover have "has nodes m 0 0" using node_value [of nodes m 0 0] 0 sizes(2) by simp
  ultimately show ?case using 0 by (intro exI [of _ 0]) simp
next
  case (Suc l)
  show ?case
  proof (cases "nodes ! node (Suc l) j \<ge> m")
    case True
    then have "climb nodes m (node (Suc l) j) = node (Suc l) j" by (simp add: climb.simps)
    moreover have "has nodes m (Suc l) j" using node_value [of nodes m "Suc l" j] Suc.prems True by blast
    ultimately show ?thesis using Suc.prems by blast
  next
    case False
    then have h: "\<not> has nodes m (Suc l) j" using node_value [of nodes m "Suc l" j] Suc.prems by blast
    let ?j = "if j + 1 = 2 ^ Suc l then 0 else (j + 1) div 2"
    have l: "l < 12" "l \<le> 12" using Suc.prems(4) by simp_all
    have j: "?j < 2 ^ l" using Suc.prems(5) by auto
    have c: "climb nodes m (node (Suc l) j) = climb nodes m (node l ?j)"
      using False node_pos [of "Suc l" j] climb_node [OF Suc.prems(5)] by (subst climb.simps) simp
    have "passed nodes m s l ?j"
      using passed_next [OF Suc.prems(7) h l(1)] by (cases "j + 1 = 2 ^ Suc l") (simp_all only: simp_thms if_True if_False)
    moreover have "node l ?j < NodesPerPage" using node_inner [OF l(1) j] sizes(2) by simp
    ultimately show ?thesis using Suc.IH [OF Suc.prems(1-3) l(2) j] c by metis
  qed
qed

section \<open>The first slot to the right\<close>

lemma find_append: "find P (xs @ ys) = (case find P xs of None \<Rightarrow> find P ys | Some x \<Rightarrow> Some x)"
  by (induction xs) simp_all

lemma find_upt: "a \<le> x \<Longrightarrow> x < b \<Longrightarrow> P x \<Longrightarrow> (\<And>y. a \<le> y \<Longrightarrow> y < x \<Longrightarrow> \<not> P y) \<Longrightarrow> find P [a..<b] = Some x"
proof -
  assume a: "a \<le> x" "x < b" "P x" "\<And>y. a \<le> y \<Longrightarrow> y < x \<Longrightarrow> \<not> P y"
  have "[a..<b] = [a..<x] @ x # [Suc x..<b]" using a(1,2) upt_add_eq_append [of a x "b - x"] upt_conv_Cons [of x b] by simp
  moreover have "find P [a..<x] = None" using a(4) by (auto simp: find_None_iff)
  ultimately show ?thesis using a(3) by (simp add: find_append)
qed

definition first_slot :: "byte list \<Rightarrow> byte \<Rightarrow> nat \<Rightarrow> nat option" where
  "first_slot nodes m s = find (\<lambda>x. nodes ! (NonLeafNodesPerPage + x) \<ge> m) ([s..<LeafNodesPerPage] @ [0..<s])"

lemma search_valid:
  assumes "valid nodes" "nodes ! 0 \<ge> m" "s < LeafNodesPerPage"
  shows "\<exists>x. descend nodes m (climb nodes m (NonLeafNodesPerPage + s)) = Some (NonLeafNodesPerPage + x) \<and> first_slot nodes m s = Some x"
proof (cases "m = 0")
  case True
  have "climb nodes m (NonLeafNodesPerPage + s) = NonLeafNodesPerPage + s" using True by (simp add: climb.simps)
  moreover have "descend nodes m (NonLeafNodesPerPage + s) = Some (NonLeafNodesPerPage + s)" by (simp add: descend.simps)
  moreover have "first_slot nodes m s = Some s"
    unfolding first_slot_def find_append using find_upt [of s s LeafNodesPerPage] assms(3) True by simp
  ultimately show ?thesis by (intro exI [of _ s]) simp
next
  case False
  then have m: "0 < m" by (simp add: word_neq_0_conv)
  have p: "passed nodes m s 12 s" by (auto simp: passed_def)
  have s: "s < 2 ^ 12" "node 12 s < NodesPerPage" using assms(3) sizes(2,5,6) by (simp_all add: node_leaf)
  obtain l j where c: "climb nodes m (node 12 s) = node l j" "l \<le> 12" "j < 2 ^ l" "has nodes m l j" "passed nodes m s l j"
    using climb_passed [OF assms(1) m assms(2) order_refl s p] by blast
  obtain x where x: "descend nodes m (node l j) = Some (NonLeafNodesPerPage + x)" "slot_ok nodes m x" "below l j x"
    "\<forall>y < x. below l j y \<longrightarrow> \<not> slot_ok nodes m y"
    using descend_first [OF assms(1) m c(2,3,4)] by blast
  have L: "x < LeafNodesPerPage" "nodes ! (NonLeafNodesPerPage + x) \<ge> m" using x(2) by (simp_all add: slot_ok_def)
  have "first_slot nodes m s = Some x"
  proof (cases "j = 0 \<and> (\<forall>y \<ge> s. \<not> slot_ok nodes m y)")
    case True
    then have "find (\<lambda>x. nodes ! (NonLeafNodesPerPage + x) \<ge> m) [s..<LeafNodesPerPage] = None"
      by (auto simp: find_None_iff slot_ok_def)
    moreover have "x < s" using True x(2) linorder_not_less by blast
    moreover have "\<not> nodes ! (NonLeafNodesPerPage + y) \<ge> m" if "y < x" for y
      using x(3,4) that True L(1) by (auto simp: below_iff slot_ok_def)
    ultimately show ?thesis unfolding first_slot_def find_append using find_upt [of 0 x s] L(2) by simp
  next
    case False
    then have e: "s \<le> j * 2 ^ (12 - l)" "\<forall>y. s \<le> y \<and> y < j * 2 ^ (12 - l) \<longrightarrow> \<not> slot_ok nodes m y" using c(5) unfolding passed_def by blast+
    have "\<not> nodes ! (NonLeafNodesPerPage + y) \<ge> m" if "s \<le> y" "y < x" for y
    proof (cases "y < j * 2 ^ (12 - l)")
      case True
      then show ?thesis using e(2) that L(1) by (auto simp: slot_ok_def)
    next
      case False
      then have "below l j y" using x(3) that(2) by (auto simp: below_iff)
      then show ?thesis using x(4) that L(1) by (auto simp: slot_ok_def)
    qed
    moreover have "s \<le> x" using e(1) x(3) by (simp add: below_iff)
    ultimately show ?thesis unfolding first_slot_def find_append using find_upt [of s x LeafNodesPerPage] L by simp
  qed
  then show ?thesis using x(1) c(1) by (simp add: node_leaf)
qed

lemma root_none:
  assumes "valid nodes" "nodes ! 0 < m"
  shows "first_slot nodes m s = None \<or> LeafNodesPerPage \<le> s"
proof -
  have m: "0 < m" using assms(2) by (metis word_gt_0 word_not_simps(1))
  have "\<not> has nodes m 0 0" using node_value [OF assms(1) m, of 0 0] assms(2) sizes(2) by (simp add: linorder_not_le [symmetric])
  then have "\<not> slot_ok nodes m x" for x using sizes(6) by (auto simp: has_def below_def slot_ok_def)
  then show ?thesis by (auto simp: first_slot_def find_None_iff slot_ok_def)
qed

lemma start_slot_less: "start_slot page < LeafNodesPerPage"
  using sizes(7) by (simp add: start_slot_def nat_less_iff)

lemma climb_result: "climb nodes m n \<le> n \<and> (climb nodes m n = 0 \<or> nodes ! climb nodes m n \<ge> m)"
proof (induction nodes m n rule: climb.induct)
  case (1 nodes m n)
  then show ?case using climb_less [of n] by (subst (1 2 3) climb.simps) (auto intro: le_trans less_imp_le)
qed

lemma descend_result:
  "descend nodes m n = Some k \<Longrightarrow> n < NonLeafNodesPerPage \<or> n < NodesPerPage \<and> nodes ! n \<ge> m \<Longrightarrow>
   NonLeafNodesPerPage \<le> k \<and> k < NodesPerPage \<and> nodes ! k \<ge> m"
proof (induction nodes m n rule: descend.induct)
  case (1 nodes m n)
  show ?case
  proof (cases "n < NonLeafNodesPerPage")
    case True
    then show ?thesis using 1 by (subst (asm) descend.simps) (auto simp: Let_def split: if_splits)
  next
    case False
    then show ?thesis using 1(3,4) by (simp add: descend.simps)
  qed
qed

text \<open>A page that is not torn needs no second round.\<close>

lemma search_page_valid:
  assumes "valid (fp_nodes page)"
  shows "fsm_search_avail page m adv =
    (case first_slot (fp_nodes page) m (start_slot page) of
       None \<Rightarrow> Some (- 1, page)
     | Some x \<Rightarrow> Some (int x, page\<lparr>fp_next_slot := int x + (if adv then 1 else 0)\<rparr>))"
proof (cases "fp_nodes page ! 0 < m")
  case True
  then have "first_slot (fp_nodes page) m (start_slot page) = None"
    using root_none [OF assms True, of "start_slot page"] start_slot_less [of page] by simp
  then show ?thesis using True by (simp add: fsm_search_avail.simps)
next
  case False
  then obtain x where "descend (fp_nodes page) m (climb (fp_nodes page) m (NonLeafNodesPerPage + start_slot page)) = Some (NonLeafNodesPerPage + x)"
    "first_slot (fp_nodes page) m (start_slot page) = Some x"
    using search_valid [OF assms _ start_slot_less, of m page] by (auto simp: linorder_not_less)
  then show ?thesis using False by (subst fsm_search_avail.simps) simp
qed

lemma max_leaf_le_root:
  assumes "valid nodes" "x < LeafNodesPerPage"
  shows "nodes ! (NonLeafNodesPerPage + x) \<le> nodes ! 0"
proof (rule ccontr)
  let ?v = "nodes ! (NonLeafNodesPerPage + x)"
  assume "\<not> ?v \<le> nodes ! 0"
  then have "first_slot nodes ?v 0 = None" using root_none [OF assms(1), of ?v 0] sizes(7) by (simp add: linorder_not_le)
  then show False using assms(2) by (auto simp: first_slot_def find_None_iff)
qed

text \<open>The search ends on every page, also on one that a crash has torn, after at most one repair.\<close>

lemma search_avail_ends:
  assumes "length (fp_nodes page) = NodesPerPage"
  shows "\<exists>r page'. fsm_search_avail page m adv = Some (r, page') \<and>
    (r = - 1 \<or> (\<exists>x < LeafNodesPerPage. r = int x \<and> m \<le> fsm_get_avail page x)) \<and>
    (fp_nodes page' = fp_nodes page \<or> valid (fp_nodes page')) \<and>
    (\<forall>x < LeafNodesPerPage. fsm_get_avail page' x = fsm_get_avail page x)"
proof (cases "fp_nodes page ! 0 < m")
  case True
  then show ?thesis by (subst fsm_search_avail.simps) simp
next
  case False
  let ?c = "climb (fp_nodes page) m (NonLeafNodesPerPage + start_slot page)"
  have c: "?c < NonLeafNodesPerPage \<or> ?c < NodesPerPage \<and> fp_nodes page ! ?c \<ge> m"
    using climb_result [of "fp_nodes page" m "NonLeafNodesPerPage + start_slot page"] start_slot_less [of page] sizes(2,4,5) by auto
  show ?thesis
  proof (cases "descend (fp_nodes page) m ?c")
    case (Some k)
    note r = descend_result [OF Some c]
    have "k - NonLeafNodesPerPage < LeafNodesPerPage" unfolding sizes(5) using r by (simp add: diff_less_mono)
    moreover have "m \<le> fsm_get_avail page (k - NonLeafNodesPerPage)" using r by (simp add: fsm_get_avail_def)
    moreover have "fsm_search_avail page m adv = Some (int (k - NonLeafNodesPerPage),
        page\<lparr>fp_next_slot := int (k - NonLeafNodesPerPage) + (if adv then 1 else 0)\<rparr>)"
      using Some False by (subst fsm_search_avail.simps) (simp add: Let_def)
    ultimately show ?thesis by (auto simp: fsm_get_avail_def)
  next
    case None
    let ?p = "snd (fsm_rebuild_page page)"
    note v = rebuild_valid [OF assms]
    then have leaves: "fsm_get_avail ?p x = fsm_get_avail page x" for x by (simp add: fsm_get_avail_def)
    have s: "fsm_search_avail page m adv = fsm_search_avail ?p m adv"
      using None False by (subst fsm_search_avail.simps) simp
    show ?thesis
    proof (cases "first_slot (fp_nodes ?p) m (start_slot ?p)")
      case None
      then show ?thesis using s search_page_valid [of ?p m adv] v leaves by auto
    next
      case (Some x)
      have "x < LeafNodesPerPage" "m \<le> fsm_get_avail ?p x"
        using find_SomeD [OF Some [unfolded first_slot_def]] start_slot_less [of ?p] by (auto simp: fsm_get_avail_def)
      then show ?thesis using s Some search_page_valid [of ?p m adv] v leaves by (auto simp: fsm_get_avail_def)
    qed
  qed
qed

section \<open>What a change does to the slots\<close>

text \<open>Also on a torn page.\<close>

lemma set_avail_slots:
  assumes "length (fp_nodes page) = NodesPerPage" "slot < LeafNodesPerPage"
  shows "length (fp_nodes (snd (fsm_set_avail page slot v))) = NodesPerPage \<and>
    (\<forall>x < LeafNodesPerPage. fsm_get_avail (snd (fsm_set_avail page slot v)) x = (if x = slot then v else fsm_get_avail page x))"
proof -
  let ?n = "NonLeafNodesPerPage + slot"
  let ?page = "page\<lparr>fp_nodes := propagate ?n ((fp_nodes page)[?n := v])\<rparr>"
  have n: "?n < NodesPerPage" using assms(2) sizes(2,4,5) by simp_all
  have len: "length (fp_nodes ?page) = NodesPerPage" using assms(1) by simp
  have slots: "\<forall>x < LeafNodesPerPage. fsm_get_avail ?page x = (if x = slot then v else fsm_get_avail page x)"
    using propagate_leaf [OF _ n] assms n by (simp add: fsm_get_avail_def)
  note r = rebuild_valid [OF len]
  have "fsm_get_avail (snd (fsm_rebuild_page ?page)) x = fsm_get_avail ?page x" for x
    using r by (simp add: fsm_get_avail_def)
  then show ?thesis
    using slots len r assms by (auto simp: fsm_set_avail_def Let_def valid_def fsm_get_avail_def)
qed

lemma set_avail_valid:
  assumes "valid (fp_nodes page)" "slot < LeafNodesPerPage"
  shows "valid (fp_nodes (snd (fsm_set_avail page slot v))) \<and>
    (\<forall>x < LeafNodesPerPage. fsm_get_avail (snd (fsm_set_avail page slot v)) x = (if x = slot then v else fsm_get_avail page x)) \<and>
    (fst (fsm_set_avail page slot v) \<longleftrightarrow> fsm_get_avail page slot \<noteq> v)"
proof -
  let ?n = "NonLeafNodesPerPage + slot"
  let ?page = "page\<lparr>fp_nodes := propagate ?n ((fp_nodes page)[?n := v])\<rparr>"
  have len: "length (fp_nodes page) = NodesPerPage" using assms(1) by (simp add: valid_def)
  have n: "0 < ?n" "NonLeafNodesPerPage \<le> ?n" "?n < NodesPerPage" using assms(2) sizes(2,4,5) by simp_all
  show ?thesis
  proof (cases "fp_nodes page ! ?n = v")
    case True
    then have "v \<le> fp_nodes page ! 0" using max_leaf_le_root [OF assms] by simp
    then have "fsm_set_avail page slot v = (False, page)" using True by (simp add: fsm_set_avail_def)
    then show ?thesis using True assms(1) by (simp add: fsm_get_avail_def)
  next
    case False
    have p: "valid (propagate ?n ((fp_nodes page)[?n := v]))"
      "\<forall>i \<ge> NonLeafNodesPerPage. propagate ?n ((fp_nodes page)[?n := v]) ! i = (fp_nodes page)[?n := v] ! i"
      using propagate_valid [OF n(1,3) update_leaf_valid_but [OF assms(1) n(2,3), of v]] by blast+
    then have "v \<le> propagate ?n ((fp_nodes page)[?n := v]) ! 0"
      using max_leaf_le_root [OF p(1) assms(2)] n len by simp
    then have "fsm_set_avail page slot v = (True, ?page)" using False by (simp add: fsm_set_avail_def Let_def)
    then show ?thesis using p False n len by (simp add: fsm_get_avail_def)
  qed
qed

lemma truncate_avail_valid:
  assumes "length (fp_nodes page) = NodesPerPage" "slot < LeafNodesPerPage"
  shows "(valid (fp_nodes page) \<longrightarrow> valid (fp_nodes (snd (fsm_truncate_avail page slot)))) \<and>
    (\<forall>x < LeafNodesPerPage. fsm_get_avail (snd (fsm_truncate_avail page slot)) x = (if x < slot then fsm_get_avail page x else 0))"
proof -
  let ?n = "NonLeafNodesPerPage + slot" and ?tr = "snd (fsm_truncate_avail page slot)"
  have n: "?n < NodesPerPage" using assms(2) sizes(2,4,5) by simp
  let ?t = "page\<lparr>fp_nodes := take ?n (fp_nodes page) @ replicate (length (fp_nodes page) - ?n) 0\<rparr>"
  have len: "length (fp_nodes ?t) = NodesPerPage" using assms n by simp
  have leaves: "\<forall>x < LeafNodesPerPage. fsm_get_avail ?t x = (if x < slot then fsm_get_avail page x else 0)"
    using assms n sizes(2,5) by (auto simp: fsm_get_avail_def nth_append)
  have tr: "?tr = (if list_ex (\<lambda>v. v \<noteq> 0) (drop ?n (fp_nodes page)) then snd (fsm_rebuild_page ?t) else ?t)"
    by (simp add: fsm_truncate_avail_def Let_def)
  have "\<forall>x < LeafNodesPerPage. fsm_get_avail ?tr x = (if x < slot then fsm_get_avail page x else 0)"
    unfolding tr using leaves rebuild_valid [OF len] by (simp add: fsm_get_avail_def)
  moreover have "valid (fp_nodes ?tr)" if "valid (fp_nodes page)"
  proof (cases "list_ex (\<lambda>v. v \<noteq> 0) (drop ?n (fp_nodes page))")
    case True
    then show ?thesis unfolding tr using rebuild_valid [OF len] by simp
  next
    case False
    then have "drop ?n (fp_nodes page) = replicate (length (fp_nodes page) - ?n) 0"
      by (intro replicate_eqI) (auto simp: list_ex_iff)
    then have "fp_nodes ?t = fp_nodes page" by (simp, metis append_take_drop_id)
    then show ?thesis unfolding tr using False that by simp
  qed
  ultimately show ?thesis by auto
qed

section \<open>Properties\<close>

text \<open>C26: on a well-formed page the search returns the first slot with enough space to the right of where it starts, with
  wraparound, and \<open>-1\<close> if no slot has; it changes only the hint for the next search.\<close>

theorem fsm_search_first:
  assumes "valid (fp_nodes page)"
  shows "fsm_search_avail page m adv =
    (case find (\<lambda>x. m \<le> fsm_get_avail page x) ([start_slot page..<LeafNodesPerPage] @ [0..<start_slot page]) of
       None \<Rightarrow> Some (- 1, page)
     | Some x \<Rightarrow> Some (int x, page\<lparr>fp_next_slot := int x + (if adv then 1 else 0)\<rparr>))"
  using search_page_valid [OF assms] by (simp add: first_slot_def fsm_get_avail_def)

definition empty_page :: FSMPage where
  "empty_page = \<lparr>fp_next_slot = 0, fp_nodes = replicate NodesPerPage 0\<rparr>"

lemma empty_page_valid: "valid (fp_nodes empty_page)"
  using sizes(2) by (simp add: empty_page_def valid_def node_ok_def child_max_def Let_def)

theorem fsm_search_first_witness: "fsm_search_avail empty_page 1 True = Some (- 1, empty_page)"
proof -
  have "find (\<lambda>x. 1 \<le> fsm_get_avail empty_page x) ([start_slot empty_page..<LeafNodesPerPage] @ [0..<start_slot empty_page]) = None"
    using sizes(2,5) by (auto simp: find_None_iff fsm_get_avail_def empty_page_def start_slot_def)
  then show ?thesis using fsm_search_first [OF empty_page_valid, of 1 True] by simp
qed

text \<open>C27: every operation leaves a well-formed page and changes the slots as it should: setting a slot, clearing the slots
  from one on, and the repair of a torn page; the root then is at least what was set.\<close>

theorem fsm_updates:
  assumes "length (fp_nodes page) = NodesPerPage" and "slot < LeafNodesPerPage"
  shows "valid (fp_nodes (snd (fsm_rebuild_page page))) \<and>
    (if valid (fp_nodes page)
     then valid (fp_nodes (snd (fsm_set_avail page slot v))) \<and>
          (\<forall>x < LeafNodesPerPage. fsm_get_avail (snd (fsm_set_avail page slot v)) x = (if x = slot then v else fsm_get_avail page x)) \<and>
          (fst (fsm_set_avail page slot v) \<longleftrightarrow> fsm_get_avail page slot \<noteq> v) \<and>
          valid (fp_nodes (snd (fsm_truncate_avail page slot)))
     else True) \<and>
    v \<le> fsm_get_max_avail (snd (fsm_set_avail page slot v)) \<and>
    (\<forall>x < LeafNodesPerPage. fsm_get_avail (snd (fsm_truncate_avail page slot)) x = (if x < slot then fsm_get_avail page x else 0))"
proof -
  let ?n = "NonLeafNodesPerPage + slot" and ?set = "snd (fsm_set_avail page slot v)"
  let ?page = "page\<lparr>fp_nodes := propagate ?n ((fp_nodes page)[?n := v])\<rparr>"
  note v = rebuild_valid [OF assms(1)]
  have n: "0 < ?n" "NonLeafNodesPerPage \<le> ?n" "?n < NodesPerPage" using assms(2) sizes(2,4,5) by simp_all
  have root: "v \<le> fsm_get_max_avail ?set"
  proof (cases "fp_nodes page ! ?n = v \<and> v \<le> fp_nodes page ! 0")
    case True
    then show ?thesis by (simp add: fsm_set_avail_def fsm_get_max_avail_def)
  next
    case False
    show ?thesis
    proof (cases "fp_nodes ?page ! 0 < v")
      case True
      have len: "length (fp_nodes ?page) = NodesPerPage" using propagate_length assms(1) by simp
      note r = rebuild_valid [OF len]
      have "fp_nodes ?page ! ?n = v" using propagate_leaf [OF n(2,3)] assms(1) n by simp
      then have "v \<le> fp_nodes (snd (fsm_rebuild_page ?page)) ! 0"
        using max_leaf_le_root [of "fp_nodes (snd (fsm_rebuild_page ?page))" slot] r assms(2) n(2) by simp
      then show ?thesis using True False by (auto simp: fsm_set_avail_def fsm_get_max_avail_def Let_def)
    next
      case f: False
      then show ?thesis using False by (auto simp: fsm_set_avail_def fsm_get_max_avail_def Let_def linorder_not_less)
    qed
  qed
  show ?thesis using v root set_avail_valid [OF _ assms(2)] truncate_avail_valid [OF assms] by auto
qed

theorem fsm_updates_witness:
  "5 \<le> fsm_get_max_avail (snd (fsm_set_avail empty_page 3 5))"
  using fsm_updates [of empty_page 3 5] by (simp add: empty_page_def LeafNodesPerPage_def NodesPerPage_def NonLeafNodesPerPage_def)

end
