(* ===== verification/FreeSpace.thy ===== *)
theory FreeSpace
  imports FsmPage
begin

text \<open>
  The free space map of a relation (storage/freespace/freespace.c): pages of theory FsmPage in a tree of three levels
  that is stored depth-first in a file; the categories of free space; recording, searching, truncating and vacuuming.
  The file is the list of its pages; locks, the cache of its size and the marking of dirty buffers are not modelled.
\<close>

section \<open>Categories of free space\<close>

definition FSM_CAT_STEP :: nat where "FSM_CAT_STEP = 8192 div 256"

text \<open>The largest heap tuple: a page less the header with one line pointer, aligned to 8 bytes.\<close>

definition MaxFSMRequestSize :: nat where "MaxFSMRequestSize = 8192 - 32"

definition fsm_space_avail_to_cat :: "nat \<Rightarrow> byte" where
  "fsm_space_avail_to_cat avail =
     (if avail \<ge> MaxFSMRequestSize then 255
      else let cat = avail div FSM_CAT_STEP in word_of_nat (if cat > 254 then 254 else cat))"

definition fsm_space_cat_to_avail :: "byte \<Rightarrow> nat" where
  "fsm_space_cat_to_avail cat = (if cat = 255 then MaxFSMRequestSize else unat cat * FSM_CAT_STEP)"

definition fsm_space_needed_to_cat :: "nat \<Rightarrow> pg_error + byte" where
  "fsm_space_needed_to_cat needed =
     (if needed > MaxFSMRequestSize then Inl InvalidFSMRequest
      else if needed = 0 then Inr 1
      else let cat = (needed + FSM_CAT_STEP - 1) div FSM_CAT_STEP in Inr (word_of_nat (if cat > 255 then 255 else cat)))"

section \<open>Addresses\<close>

abbreviation SlotsPerFSMPage :: nat where "SlotsPerFSMPage \<equiv> LeafNodesPerPage"

definition FSM_TREE_DEPTH :: nat where "FSM_TREE_DEPTH = (if SlotsPerFSMPage \<ge> 1626 then 3 else 4)"
definition FSM_ROOT_LEVEL :: nat where "FSM_ROOT_LEVEL = FSM_TREE_DEPTH - 1"
definition FSM_BOTTOM_LEVEL :: nat where "FSM_BOTTOM_LEVEL = 0"

record FSMAddress =
  addr_level :: nat
  logpageno :: nat

definition FSM_ROOT_ADDRESS :: FSMAddress where
  "FSM_ROOT_ADDRESS = \<lparr>addr_level = FSM_ROOT_LEVEL, logpageno = 0\<rparr>"

text \<open>The pages before a leaf page in the file, level by level.\<close>

fun count_pages :: "nat \<Rightarrow> nat \<Rightarrow> nat \<Rightarrow> nat" where
  "count_pages 0 leafno pages = pages"
| "count_pages (Suc l) leafno pages = count_pages l (leafno div SlotsPerFSMPage) (pages + leafno + 1)"

definition fsm_logical_to_physical :: "FSMAddress \<Rightarrow> nat" where
  "fsm_logical_to_physical addr =
     (let leafno = ((\<lambda>n. n * SlotsPerFSMPage) ^^ addr_level addr) (logpageno addr);
          pages = count_pages FSM_TREE_DEPTH leafno 0
      in pages - addr_level addr - 1)"

definition fsm_get_location :: "nat \<Rightarrow> FSMAddress \<times> nat" where
  "fsm_get_location heapblk =
     (\<lparr>addr_level = FSM_BOTTOM_LEVEL, logpageno = heapblk div SlotsPerFSMPage\<rparr>, heapblk mod SlotsPerFSMPage)"

text \<open>A block number has 32 bits.\<close>

definition fsm_get_heap_blk :: "FSMAddress \<Rightarrow> nat \<Rightarrow> nat" where
  "fsm_get_heap_blk addr slot = (logpageno addr * SlotsPerFSMPage + slot) mod 2 ^ 32"

definition fsm_get_parent :: "FSMAddress \<Rightarrow> FSMAddress \<times> nat" where
  "fsm_get_parent child =
     (\<lparr>addr_level = addr_level child + 1, logpageno = logpageno child div SlotsPerFSMPage\<rparr>,
      logpageno child mod SlotsPerFSMPage)"

definition fsm_get_child :: "FSMAddress \<Rightarrow> nat \<Rightarrow> FSMAddress" where
  "fsm_get_child parent slot =
     \<lparr>addr_level = addr_level parent - 1, logpageno = logpageno parent * SlotsPerFSMPage + slot\<rparr>"

section \<open>Pages of the file\<close>

type_synonym fsm_fork = "FSMPage list"

definition fsm_extend :: "fsm_fork \<Rightarrow> nat \<Rightarrow> fsm_fork" where
  "fsm_extend fork fsm_nblocks = fork @ replicate (fsm_nblocks - length fork) empty_page"

definition fsm_readbuf :: "fsm_fork \<Rightarrow> FSMAddress \<Rightarrow> bool \<Rightarrow> nat option \<times> fsm_fork" where
  "fsm_readbuf fork addr may_extend =
     (let blkno = fsm_logical_to_physical addr
      in if blkno \<ge> length fork
         then if may_extend then (Some blkno, fsm_extend fork (blkno + 1)) else (None, fork)
         else (Some blkno, fork))"

definition fsm_set_and_search :: "fsm_fork \<Rightarrow> FSMAddress \<Rightarrow> nat \<Rightarrow> byte \<Rightarrow> byte \<Rightarrow> (int \<times> fsm_fork) option" where
  "fsm_set_and_search fork addr slot newValue minValue =
     (case fsm_readbuf fork addr True of
        (None, fork) \<Rightarrow> Some (- 1, fork)
      | (Some buf, fork) \<Rightarrow>
          (let page = snd (fsm_set_avail (fork ! buf) slot newValue)
           in if minValue \<noteq> 0
              then map_option (\<lambda>(newslot, page). (newslot, fork[buf := page]))
                     (fsm_search_avail page minValue (addr_level addr = FSM_BOTTOM_LEVEL))
              else Some (- 1, fork[buf := page])))"

section \<open>Searching\<close>

text \<open>One page of the search: the slot or \<open>-1\<close>, and for a page without a slot the value of its root.\<close>

definition search_page :: "fsm_fork \<Rightarrow> byte \<Rightarrow> FSMAddress \<Rightarrow> (int \<times> byte \<times> fsm_fork) option" where
  "search_page fork min_cat addr =
     (case fsm_readbuf fork addr False of
        (None, fork) \<Rightarrow> Some (- 1, 0, fork)
      | (Some buf, fork) \<Rightarrow>
          map_option (\<lambda>(slot, page). (slot, if slot = - 1 then fsm_get_max_avail page else 0, fork[buf := page]))
            (fsm_search_avail (fork ! buf) min_cat (addr_level addr = FSM_BOTTOM_LEVEL)))"

text \<open>The block found, or none; a misleading entry of an upper page is corrected and the search starts over.\<close>

function search_loop :: "fsm_fork \<Rightarrow> byte \<Rightarrow> nat \<Rightarrow> FSMAddress \<Rightarrow> (nat option \<times> fsm_fork) option" where
  "search_loop fork min_cat restarts addr =
     (case search_page fork min_cat addr of
        None \<Rightarrow> None
      | Some (slot, max_avail, fork) \<Rightarrow>
          if slot \<noteq> - 1
          then if addr_level addr = FSM_BOTTOM_LEVEL then Some (Some (fsm_get_heap_blk addr (nat slot)), fork)
               else search_loop fork min_cat restarts (fsm_get_child addr (nat slot))
          else if addr_level addr = FSM_ROOT_LEVEL then Some (None, fork)
          else (case fsm_get_parent addr of
                  (parent, parentslot) \<Rightarrow>
                    (case fsm_set_and_search fork parent parentslot max_avail 0 of
                       None \<Rightarrow> None
                     | Some (s, fork) \<Rightarrow>
                         if restarts > 10000 then Some (None, fork)
                         else search_loop fork min_cat (restarts + 1) FSM_ROOT_ADDRESS)))"
  by pat_completeness auto
termination
  by (relation "measures [\<lambda>(f, m, r, a). 10001 - r, \<lambda>(f, m, r, a). addr_level a]")
    (auto simp: fsm_get_child_def FSM_BOTTOM_LEVEL_def)

declare search_loop.simps [simp del]

definition fsm_search :: "fsm_fork \<Rightarrow> byte \<Rightarrow> (nat option \<times> fsm_fork) option" where
  "fsm_search fork min_cat = search_loop fork min_cat 0 FSM_ROOT_ADDRESS"

section \<open>The interface\<close>

definition GetPageWithFreeSpace :: "fsm_fork \<Rightarrow> nat \<Rightarrow> pg_error + (nat option \<times> fsm_fork) option" where
  "GetPageWithFreeSpace fork spaceNeeded = map_sum id (fsm_search fork) (fsm_space_needed_to_cat spaceNeeded)"

definition RecordAndGetPageWithFreeSpace ::
  "fsm_fork \<Rightarrow> nat \<Rightarrow> nat \<Rightarrow> nat \<Rightarrow> pg_error + (nat option \<times> fsm_fork) option" where
  "RecordAndGetPageWithFreeSpace fork oldPage oldSpaceAvail spaceNeeded =
     (let old_cat = fsm_space_avail_to_cat oldSpaceAvail
      in map_sum id (\<lambda>search_cat.
           case fsm_get_location oldPage of
             (addr, slot) \<Rightarrow>
               (case fsm_set_and_search fork addr slot old_cat search_cat of
                  None \<Rightarrow> None
                | Some (search_slot, fork) \<Rightarrow>
                    if search_slot \<noteq> - 1 then Some (Some (fsm_get_heap_blk addr (nat search_slot)), fork)
                    else fsm_search fork search_cat)) (fsm_space_needed_to_cat spaceNeeded))"

definition RecordPageWithFreeSpace :: "fsm_fork \<Rightarrow> nat \<Rightarrow> nat \<Rightarrow> fsm_fork option" where
  "RecordPageWithFreeSpace fork heapBlk spaceAvail =
     (case fsm_get_location heapBlk of
        (addr, slot) \<Rightarrow> map_option snd (fsm_set_and_search fork addr slot (fsm_space_avail_to_cat spaceAvail) 0))"

text \<open>In recovery; the page is created when the file lacks it.\<close>

definition XLogRecordPageWithFreeSpace :: "fsm_fork \<Rightarrow> nat \<Rightarrow> nat \<Rightarrow> fsm_fork" where
  "XLogRecordPageWithFreeSpace fork heapBlk spaceAvail =
     (let new_cat = fsm_space_avail_to_cat spaceAvail
      in case fsm_get_location heapBlk of
           (addr, slot) \<Rightarrow>
             (let blkno = fsm_logical_to_physical addr;
                  fork = fsm_extend fork (blkno + 1)
              in fork[blkno := snd (fsm_set_avail (fork ! blkno) slot new_cat)]))"

definition GetRecordedFreeSpace :: "fsm_fork \<Rightarrow> nat \<Rightarrow> nat" where
  "GetRecordedFreeSpace fork heapBlk =
     (case fsm_get_location heapBlk of
        (addr, slot) \<Rightarrow>
          (case fsm_readbuf fork addr False of
             (None, _) \<Rightarrow> 0
           | (Some buf, fork) \<Rightarrow> fsm_space_cat_to_avail (fsm_get_avail (fork ! buf) slot)))"

definition FreeSpaceMapTruncateRel :: "fsm_fork \<Rightarrow> nat \<Rightarrow> fsm_fork" where
  "FreeSpaceMapTruncateRel fork nblocks =
     (case fsm_get_location nblocks of
        (addr, slot) \<Rightarrow>
          if slot > 0
          then (case fsm_readbuf fork addr False of
                  (None, fork) \<Rightarrow> fork
                | (Some buf, fork) \<Rightarrow>
                    (let fork = fork[buf := snd (fsm_truncate_avail (fork ! buf) slot)]
                     in take (fsm_logical_to_physical addr + 1) fork))
          else let new_nfsmblocks = fsm_logical_to_physical addr
               in if length fork \<le> new_nfsmblocks then fork else take new_nfsmblocks fork)"

text \<open>Vacuum: the maximum of a page, whether it is missing, and the file; \<open>l\<close> is the level.\<close>

definition vacuum_slot ::
  "(nat \<Rightarrow> fsm_fork \<Rightarrow> byte \<times> bool \<times> fsm_fork) \<Rightarrow> FSMAddress \<Rightarrow> nat \<Rightarrow> nat \<Rightarrow> bool \<times> fsm_fork \<Rightarrow> bool \<times> fsm_fork" where
  "vacuum_slot vacuum_child addr buf slot = (\<lambda>(eof, fork).
     let (child_avail, eof, fork) =
           (if \<not> eof then vacuum_child (logpageno (fsm_get_child addr slot)) fork else (0, eof, fork));
         fork = (if fsm_get_avail (fork ! buf) slot \<noteq> child_avail
                 then fork[buf := snd (fsm_set_avail (fork ! buf) slot child_avail)] else fork)
     in (eof, fork))"

primrec fsm_vacuum_page :: "nat \<Rightarrow> nat \<Rightarrow> fsm_fork \<Rightarrow> byte \<times> bool \<times> fsm_fork" where
  "fsm_vacuum_page 0 p fork =
     (case fsm_readbuf fork \<lparr>addr_level = 0, logpageno = p\<rparr> False of
        (None, fork) \<Rightarrow> (0, True, fork)
      | (Some buf, fork) \<Rightarrow> (fsm_get_max_avail (fork ! buf), False, fork[buf := (fork ! buf)\<lparr>fp_next_slot := 0\<rparr>]))"
| "fsm_vacuum_page (Suc l) p fork =
     (case fsm_readbuf fork \<lparr>addr_level = Suc l, logpageno = p\<rparr> False of
        (None, fork) \<Rightarrow> (0, True, fork)
      | (Some buf, fork) \<Rightarrow>
          (let fork = snd (fold (vacuum_slot (fsm_vacuum_page l) \<lparr>addr_level = Suc l, logpageno = p\<rparr> buf)
                             [0..<SlotsPerFSMPage] (False, fork))
           in (fsm_get_max_avail (fork ! buf), False, fork[buf := (fork ! buf)\<lparr>fp_next_slot := 0\<rparr>])))"

definition FreeSpaceMapVacuum :: "fsm_fork \<Rightarrow> fsm_fork" where
  "FreeSpaceMapVacuum fork = snd (snd (fsm_vacuum_page FSM_ROOT_LEVEL 0 fork))"

end
