(* ===== verification/FreeSpaceProps.thy ===== *)
theory FreeSpaceProps
  imports FreeSpace
begin

text \<open>
  The categories round the right way, the pages of the tree do not overlap in the file, a recorded space is what is read
  back, a search returns only blocks with enough recorded space, and after a vacuum it finds one whenever there is one.
\<close>

section \<open>Addresses\<close>

lemma depth: "FSM_TREE_DEPTH = 3" "FSM_ROOT_LEVEL = 2" "FSM_BOTTOM_LEVEL = 0"
  by (simp_all add: FSM_TREE_DEPTH_def FSM_ROOT_LEVEL_def FSM_BOTTOM_LEVEL_def LeafNodesPerPage_def NodesPerPage_def NonLeafNodesPerPage_def)

text \<open>The block of the leaf page \<open>n\<close>: the pages of all levels before it.\<close>

definition leaf_block :: "nat \<Rightarrow> nat" where
  "leaf_block n = n + n div SlotsPerFSMPage + n div SlotsPerFSMPage div SlotsPerFSMPage + 2"

lemma times_pow: "((\<lambda>n. n * k) ^^ l) n = n * k ^ l" for k :: nat
  by (induction l) simp_all

lemma physical: "fsm_logical_to_physical a = leaf_block (logpageno a * SlotsPerFSMPage ^ addr_level a) - addr_level a"
  by (simp add: fsm_logical_to_physical_def leaf_block_def times_pow depth numeral_3_eq_3 Let_def)

lemma category_div_step: "0 < k \<Longrightarrow> m < n \<Longrightarrow> m div k + of_bool (k dvd n) \<le> n div k" for k :: nat
proof -
  assume k: "0 < k" and m: "m < n"
  show ?thesis
  proof (cases "k dvd n")
    case True
    then obtain q where q: "n = k * q" by (auto elim: dvdE)
    then have "m div k < q" using m k by (simp add: div_less_iff_less_mult mult.commute)
    then show ?thesis using q k True by simp
  next
    case False
    then show ?thesis using m by (simp add: div_le_mono)
  qed
qed

lemma leaf_block_gap:
  assumes "m < n" "SlotsPerFSMPage ^ l dvd n" "l \<le> 2"
  shows "leaf_block m + l < leaf_block n"
proof -
  let ?S = SlotsPerFSMPage
  have S: "0 < ?S" by (rule sizes(7))
  have S2: "0 < ?S * ?S" using S by simp
  have a: "m div ?S + of_bool (?S dvd n) \<le> n div ?S" by (rule category_div_step [OF S assms(1)])
  have b: "m div ?S div ?S + of_bool (?S * ?S dvd n) \<le> n div ?S div ?S"
    using category_div_step [OF S2 assms(1)] by (simp add: div_mult2_eq)
  have "l \<le> of_bool (?S dvd n) + of_bool (?S * ?S dvd n)"
  proof -
    consider "l = 0" | "l = 1" | "l = 2" using assms(3) by linarith
    then show ?thesis using assms(2) by cases (auto simp: power2_eq_square dest: dvd_mult_left)
  qed
  then show ?thesis using a b assms(1) by (simp add: leaf_block_def)
qed

text \<open>Different pages of the tree are different blocks of the file.\<close>

lemma physical_inj:
  assumes "fsm_logical_to_physical a = fsm_logical_to_physical b" and "addr_level a \<le> 2" "addr_level b \<le> 2"
  shows "a = b"
proof -
  let ?S = SlotsPerFSMPage
  let ?la = "logpageno a * ?S ^ addr_level a" and ?lb = "logpageno b * ?S ^ addr_level b"
  have ge: "2 \<le> leaf_block n" for n by (simp add: leaf_block_def)
  have eq: "leaf_block ?la - addr_level a = leaf_block ?lb - addr_level b" using assms(1) by (simp add: physical)
  have "\<not> ?la < ?lb" using leaf_block_gap [of ?la ?lb "addr_level b"] eq assms ge [of ?la] ge [of ?lb] by fastforce
  moreover have "\<not> ?lb < ?la" using leaf_block_gap [of ?lb ?la "addr_level a"] eq assms ge [of ?la] ge [of ?lb] by fastforce
  ultimately have l: "?la = ?lb" by simp
  then have "addr_level a = addr_level b" using eq assms(2,3) ge [of ?lb] by simp
  then show ?thesis using l sizes(7) by (cases a; cases b) simp
qed

section \<open>Pages\<close>

definition sized :: "fsm_fork \<Rightarrow> bool" where
  "sized fork \<longleftrightarrow> (\<forall>page \<in> set fork. length (fp_nodes page) = NodesPerPage)"

definition well_formed :: "fsm_fork \<Rightarrow> bool" where
  "well_formed fork \<longleftrightarrow> (\<forall>page \<in> set fork. valid (fp_nodes page))"

lemma well_formed_sized: "well_formed fork \<Longrightarrow> sized fork"
  by (simp add: well_formed_def sized_def valid_def)

lemma sized_at: "sized fork \<Longrightarrow> b < length fork \<Longrightarrow> length (fp_nodes (fork ! b)) = NodesPerPage"
  by (simp add: sized_def)

lemma well_formed_at: "well_formed fork \<Longrightarrow> b < length fork \<Longrightarrow> valid (fp_nodes (fork ! b))"
  by (simp add: well_formed_def)

lemma sized_update: "sized fork \<Longrightarrow> length (fp_nodes page) = NodesPerPage \<Longrightarrow> sized (fork[b := page])"
  using set_update_subset_insert [of fork b page] by (auto simp: sized_def)

lemma well_formed_update: "well_formed fork \<Longrightarrow> valid (fp_nodes page) \<Longrightarrow> well_formed (fork[b := page])"
  using set_update_subset_insert [of fork b page] by (auto simp: well_formed_def)

lemma fsm_extend_ok:
  "sized fork \<Longrightarrow> sized (fsm_extend fork n)" "well_formed fork \<Longrightarrow> well_formed (fsm_extend fork n)"
  using empty_page_valid by (auto simp: sized_def well_formed_def fsm_extend_def valid_def)

text \<open>What the file says of a slot of a page, which is nothing when the page is missing.\<close>

definition avail :: "fsm_fork \<Rightarrow> FSMAddress \<Rightarrow> nat \<Rightarrow> byte" where
  "avail fork a slot =
     (let b = fsm_logical_to_physical a in if b < length fork then fsm_get_avail (fork ! b) slot else 0)"

lemma avail_extend [simp]: "slot < SlotsPerFSMPage \<Longrightarrow> avail (fsm_extend fork n) a slot = avail fork a slot"
  using sizes(2,5) by (auto simp: avail_def fsm_extend_def fsm_get_avail_def nth_append empty_page_def Let_def)

lemma GetRecorded_avail:
  "GetRecordedFreeSpace fork blk =
     fsm_space_cat_to_avail (avail fork \<lparr>addr_level = 0, logpageno = blk div SlotsPerFSMPage\<rparr> (blk mod SlotsPerFSMPage))"
  by (auto simp: GetRecordedFreeSpace_def fsm_get_location_def fsm_readbuf_def avail_def depth fsm_space_cat_to_avail_def Let_def)

text \<open>A slot set without a search.\<close>

lemma set_only:
  "fsm_set_and_search fork a slot v 0 =
     (let b = fsm_logical_to_physical a; fork = fsm_extend fork (b + 1)
      in Some (- 1, fork[b := snd (fsm_set_avail (fork ! b) slot v)]))"
  by (simp add: fsm_set_and_search_def fsm_readbuf_def fsm_extend_def Let_def)

lemma slots_pos: "0 < SlotsPerFSMPage"
  by (rule sizes(7))

text \<open>Setting a slot of a page of the file changes this slot alone.\<close>

definition set_slot :: "fsm_fork \<Rightarrow> FSMAddress \<Rightarrow> nat \<Rightarrow> byte \<Rightarrow> fsm_fork" where
  "set_slot fork a slot v =
     (let b = fsm_logical_to_physical a; fork = fsm_extend fork (Suc b)
      in fork[b := snd (fsm_set_avail (fork ! b) slot v)])"

lemma set_only_slot: "fsm_set_and_search fork a slot v 0 = Some (- 1, set_slot fork a slot v)"
  by (simp add: set_only set_slot_def Let_def)

lemma fsm_extend_reaches: "b < length (fsm_extend fork (Suc b))"
  by (simp add: fsm_extend_def)

lemma set_slot_ok:
  assumes "slot < SlotsPerFSMPage"
  shows "sized fork \<Longrightarrow> sized (set_slot fork a slot v)" "well_formed fork \<Longrightarrow> well_formed (set_slot fork a slot v)"
  unfolding set_slot_def Let_def
  using set_avail_slots [OF sized_at [OF fsm_extend_ok(1) fsm_extend_reaches] assms]
    set_avail_valid [OF well_formed_at [OF fsm_extend_ok(2) fsm_extend_reaches] assms]
  by (blast intro: sized_update well_formed_update fsm_extend_ok)+

lemma set_slot_avail:
  assumes "sized fork" "slot < SlotsPerFSMPage" "x < SlotsPerFSMPage" "addr_level a \<le> 2" "addr_level a' \<le> 2"
  shows "avail (set_slot fork a slot v) a' x = (if a' = a \<and> x = slot then v else avail fork a' x)"
proof -
  let ?b = "fsm_logical_to_physical a" and ?b' = "fsm_logical_to_physical a'"
  let ?f = "fsm_extend fork (Suc ?b)"
  have len: "length (fp_nodes (?f ! ?b)) = NodesPerPage"
    by (intro sized_at fsm_extend_ok assms(1) fsm_extend_reaches)
  note s = set_avail_slots [OF len assms(2), of v]
  have e: "avail (set_slot fork a slot v) a' x = (if ?b' = ?b \<and> x = slot then v else avail ?f a' x)"
    using s assms(3) fsm_extend_reaches [of ?b fork] by (cases "?b' = ?b") (simp_all add: avail_def set_slot_def Let_def)
  have "?b' = ?b \<longleftrightarrow> a' = a" using physical_inj [OF _ assms(5,4)] by auto
  then show ?thesis using e avail_extend [OF assms(3)] by simp
qed

text \<open>One page of a search keeps what the slots say and returns a slot with enough space.\<close>

lemma search_page_ok:
  assumes "sized fork"
  shows "\<exists>slot top fork'. search_page fork c a = Some (slot, top, fork') \<and> sized fork' \<and> length fork' = length fork \<and>
    (\<forall>a' x. x < SlotsPerFSMPage \<longrightarrow> avail fork' a' x = avail fork a' x) \<and>
    (slot = - 1 \<or> (\<exists>x < SlotsPerFSMPage. slot = int x \<and> c \<le> avail fork a x))"
proof -
  let ?b = "fsm_logical_to_physical a"
  show ?thesis
  proof (cases "?b < length fork")
    case False
    then show ?thesis using assms by (simp add: search_page_def fsm_readbuf_def)
  next
    case True
    obtain r page where r: "fsm_search_avail (fork ! ?b) c (addr_level a = FSM_BOTTOM_LEVEL) = Some (r, page)"
      "r = - 1 \<or> (\<exists>x < SlotsPerFSMPage. r = int x \<and> c \<le> fsm_get_avail (fork ! ?b) x)"
      "fp_nodes page = fp_nodes (fork ! ?b) \<or> valid (fp_nodes page)"
      "\<forall>x < SlotsPerFSMPage. fsm_get_avail page x = fsm_get_avail (fork ! ?b) x"
      using search_avail_ends [OF sized_at [OF assms True]] by metis
    have "length (fp_nodes page) = NodesPerPage" using r(3) sized_at [OF assms True] by (auto simp: valid_def)
    then have "sized (fork[?b := page])" by (rule sized_update [OF assms])
    moreover have "avail (fork[?b := page]) a' x = avail fork a' x" if "x < SlotsPerFSMPage" for a' x
      using r(4) that True by (cases "fsm_logical_to_physical a' = ?b") (simp_all add: avail_def Let_def)
    moreover have "search_page fork c a = Some (r, if r = - 1 then fsm_get_max_avail page else 0, fork[?b := page])"
      using r(1) True by (simp add: search_page_def fsm_readbuf_def Let_def)
    moreover have "r = - 1 \<or> (\<exists>x < SlotsPerFSMPage. r = int x \<and> c \<le> avail fork a x)"
      using r(2) True by (simp add: avail_def)
    ultimately show ?thesis by simp
  qed
qed

section \<open>The search\<close>

definition leaf :: "nat \<Rightarrow> FSMAddress" where "leaf p = \<lparr>addr_level = 0, logpageno = p\<rparr>"

definition same_leaves :: "fsm_fork \<Rightarrow> fsm_fork \<Rightarrow> bool" where
  "same_leaves f g \<longleftrightarrow> (\<forall>p x. x < SlotsPerFSMPage \<longrightarrow> avail g (leaf p) x = avail f (leaf p) x)"

lemma parent_slot_less: "snd (fsm_get_parent a) < SlotsPerFSMPage"
  using slots_pos by (simp add: fsm_get_parent_def)

lemma search_loop_ok:
  "sized fork \<Longrightarrow> addr_level a \<le> 2 \<Longrightarrow>
   \<exists>r fork'. search_loop fork c n a = Some (r, fork') \<and> sized fork' \<and> same_leaves fork fork' \<and>
     (case r of None \<Rightarrow> True | Some b \<Rightarrow> \<exists>p x. x < SlotsPerFSMPage \<and> b = fsm_get_heap_blk (leaf p) x \<and> c \<le> avail fork (leaf p) x)"
proof (induction fork c n a rule: search_loop.induct)
  case (1 fork c n a)
  obtain slot top f where s: "search_page fork c a = Some (slot, top, f)" "sized f"
    "\<forall>a' x. x < SlotsPerFSMPage \<longrightarrow> avail f a' x = avail fork a' x"
    "slot = - 1 \<or> (\<exists>x < SlotsPerFSMPage. slot = int x \<and> c \<le> avail fork a x)"
    using search_page_ok [OF 1(3)] by metis
  have sf: "same_leaves fork f" using s(3) by (simp add: same_leaves_def)
  have onward: "\<exists>r fork'. search_loop fork c n a = Some (r, fork') \<and> sized fork' \<and> same_leaves fork fork' \<and>
     (case r of None \<Rightarrow> True | Some b \<Rightarrow> \<exists>p x. x < SlotsPerFSMPage \<and> b = fsm_get_heap_blk (leaf p) x \<and> c \<le> avail fork (leaf p) x)"
    if u: "search_loop fork c n a = search_loop g c n' a'" and g: "same_leaves fork g"
      and ih: "\<exists>r fork'. search_loop g c n' a' = Some (r, fork') \<and> sized fork' \<and> same_leaves g fork' \<and>
        (case r of None \<Rightarrow> True | Some b \<Rightarrow> \<exists>p x. x < SlotsPerFSMPage \<and> b = fsm_get_heap_blk (leaf p) x \<and> c \<le> avail g (leaf p) x)"
    for g n' a'
  proof -
    obtain r fork' where r: "search_loop g c n' a' = Some (r, fork')" "sized fork'" "same_leaves g fork'"
      "case r of None \<Rightarrow> True | Some b \<Rightarrow> \<exists>p x. x < SlotsPerFSMPage \<and> b = fsm_get_heap_blk (leaf p) x \<and> c \<le> avail g (leaf p) x"
      using ih by blast
    have "same_leaves fork fork'" using r(3) g by (simp add: same_leaves_def)
    moreover have "case r of None \<Rightarrow> True | Some b \<Rightarrow> \<exists>p x. x < SlotsPerFSMPage \<and> b = fsm_get_heap_blk (leaf p) x \<and> c \<le> avail fork (leaf p) x"
      using r(4) g by (cases r) (simp, auto simp: same_leaves_def, metis)
    ultimately show ?thesis using r(1,2) u by auto
  qed
  show ?case
  proof (cases "slot = - 1")
    case False
    then obtain x where x: "x < SlotsPerFSMPage" "slot = int x" "c \<le> avail fork a x" using s(4) by blast
    show ?thesis
    proof (cases "addr_level a = FSM_BOTTOM_LEVEL")
      case True
      then have a: "a = leaf (logpageno a)" by (simp add: leaf_def depth)
      have "search_loop fork c n a = Some (Some (fsm_get_heap_blk a x), f)"
        using s(1) x(2) True by (subst search_loop.simps) simp
      moreover have "c \<le> avail fork (leaf (logpageno a)) x" "fsm_get_heap_blk a x = fsm_get_heap_blk (leaf (logpageno a)) x"
        using a x(3) by simp_all
      ultimately show ?thesis using s(2) sf x(1) by auto
    next
      case False
      have u: "search_loop fork c n a = search_loop f c n (fsm_get_child a x)"
        using s(1) x(2) False by (subst search_loop.simps) simp
      show ?thesis
        by (rule onward [OF u sf], rule 1(1) [OF s(1) refl refl \<open>slot \<noteq> - 1\<close> False, unfolded x(2) nat_int])
          (use s(2) 1(4) in \<open>simp_all add: fsm_get_child_def\<close>)
    qed
  next
    case True
    show ?thesis
    proof (cases "addr_level a = FSM_ROOT_LEVEL")
      case r: True
      then have "search_loop fork c n a = Some (None, f)" using s(1) True by (subst search_loop.simps) simp
      then show ?thesis using s(2) sf by simp
    next
      case r: False
      obtain pa ps where p: "fsm_get_parent a = (pa, ps)" by fastforce
      have ps: "ps < SlotsPerFSMPage" using parent_slot_less [of a] p by simp
      have lev: "addr_level pa \<le> 2" "0 < addr_level pa" using p r 1(4) by (auto simp: fsm_get_parent_def depth)
      let ?g = "set_slot f pa ps top"
      note so = set_only_slot [of f pa ps top]
      have sg: "sized ?g" by (rule set_slot_ok(1) [OF ps s(2)])
      have fg: "same_leaves fork ?g"
        using set_slot_avail [OF s(2) ps _ lev(1)] s(3) lev(2) by (auto simp: same_leaves_def leaf_def)
      show ?thesis
      proof (cases "10000 < n")
        case big: True
        have "search_loop fork c n a = Some (None, ?g)"
          using s(1) True r p so big by (subst search_loop.simps) simp
        then show ?thesis using sg fg by simp
      next
        case small: False
        have u: "search_loop fork c n a = search_loop ?g c (n + 1) FSM_ROOT_ADDRESS"
          using s(1) True r p so small by (subst search_loop.simps) simp
        show ?thesis
          by (rule onward [OF u fg], rule 1(2) [OF s(1) refl refl _ r p [symmetric] so refl small])
            (use sg True in \<open>simp_all add: FSM_ROOT_ADDRESS_def depth\<close>)
      qed
    qed
  qed
qed

section \<open>Categories\<close>

lemma avail_to_cat_value: "fsm_space_avail_to_cat n = (if n \<ge> 8160 then 255 else word_of_nat (n div 32))"
  by (auto simp: fsm_space_avail_to_cat_def MaxFSMRequestSize_def FSM_CAT_STEP_def Let_def)

lemma needed_to_cat_value:
  "fsm_space_needed_to_cat n =
     (if n > 8160 then Inl InvalidFSMRequest else Inr (word_of_nat (if n = 0 then 1 else (n + 31) div 32)))"
proof -
  have "(n + 31) div 32 \<le> 255" if "n \<le> 8160" using div_le_mono [of "n + 31" 8191 32] that by simp
  then show ?thesis
    by (auto simp: fsm_space_needed_to_cat_def MaxFSMRequestSize_def FSM_CAT_STEP_def Let_def add.commute)
qed

lemma unat_byte: "k < 256 \<Longrightarrow> unat (word_of_nat k :: byte) = k"
  by (simp add: unat_of_nat)

lemma byte_255: "v = 255 \<longleftrightarrow> unat v = 255" for v :: byte
  by (simp add: word_unat_eq_iff)

text \<open>A slot has the category asked for just if what it promises is at least the space asked for.\<close>

lemma needed_iff:
  assumes "n \<le> 8160"
  shows "\<exists>c. fsm_space_needed_to_cat n = Inr c \<and> 0 < c \<and> (c \<le> v \<longrightarrow> n \<le> fsm_space_cat_to_avail v) \<and>
    (0 < n \<and> n \<le> fsm_space_cat_to_avail v \<longrightarrow> c \<le> v)"
proof -
  let ?k = "if n = 0 then 1 else (n + 31) div 32"
  have k: "?k \<le> 255" "0 < ?k" "n \<le> ?k * 32" "?k = 255 \<longrightarrow> 8128 < n" "0 < n \<longrightarrow> (\<forall>u. n \<le> u * 32 \<longrightarrow> ?k \<le> u)" using assms by auto
  have c: "unat (word_of_nat ?k :: byte) = ?k" by (rule unat_byte) (use k(1) in simp)
  have v: "unat v \<le> 255" using unsigned_less [of v, where 'a = nat] by simp
  have "n \<le> fsm_space_cat_to_avail v" if "?k \<le> unat v"
    using that k(3) assms by (auto simp: fsm_space_cat_to_avail_def MaxFSMRequestSize_def FSM_CAT_STEP_def)
  moreover have "?k \<le> unat v" if "0 < n" "n \<le> fsm_space_cat_to_avail v"
  proof (cases "v = 255")
    case True
    then show ?thesis using k(1) by simp
  next
    case False
    then have "n \<le> unat v * 32" using that(2) by (simp add: fsm_space_cat_to_avail_def FSM_CAT_STEP_def)
    then show ?thesis using k(5) that(1) by blast
  qed
  moreover have "(0 :: byte) < word_of_nat ?k" unfolding word_less_nat_alt c using k(2) by simp
  ultimately show ?thesis
    using assms by (intro exI [of _ "word_of_nat ?k"]) (simp only: needed_to_cat_value word_le_nat_alt c, simp)
qed

section \<open>Vacuum\<close>

abbreviation page_at :: "nat \<Rightarrow> nat \<Rightarrow> FSMAddress" where "page_at l p \<equiv> \<lparr>addr_level = l, logpageno = p\<rparr>"

definition present :: "fsm_fork \<Rightarrow> FSMAddress \<Rightarrow> bool" where
  "present fork a \<longleftrightarrow> fsm_logical_to_physical a < length fork"

definition page_top :: "fsm_fork \<Rightarrow> FSMAddress \<Rightarrow> byte" where
  "page_top fork a = (if present fork a then fsm_get_max_avail (fork ! fsm_logical_to_physical a) else 0)"

text \<open>The page is in the tree below page \<open>p\<close> of level \<open>l\<close>.\<close>

definition in_subtree :: "nat \<Rightarrow> nat \<Rightarrow> FSMAddress \<Rightarrow> bool" where
  "in_subtree l p a \<longleftrightarrow> addr_level a \<le> l \<and> logpageno a div SlotsPerFSMPage ^ (l - addr_level a) = p"

text \<open>In the tree below a page every slot of an upper page is the root of its child.\<close>

definition synced :: "nat \<Rightarrow> nat \<Rightarrow> fsm_fork \<Rightarrow> bool" where
  "synced l p fork \<longleftrightarrow>
     (\<forall>a x. in_subtree l p a \<and> 0 < addr_level a \<and> x < SlotsPerFSMPage \<longrightarrow> avail fork a x = page_top fork (fsm_get_child a x))"

lemma leaf_block_mono: "m \<le> n \<Longrightarrow> leaf_block m \<le> leaf_block n"
  by (simp add: leaf_block_def add_mono div_le_mono)

lemma present_mono: "present fork (page_at l y) \<Longrightarrow> x \<le> y \<Longrightarrow> present fork (page_at l x)"
  using leaf_block_mono [of "x * SlotsPerFSMPage ^ l" "y * SlotsPerFSMPage ^ l"]
  by (auto simp: present_def physical)

lemma present_under:
  assumes "present fork a" "in_subtree l p a"
  shows "present fork (page_at l p)"
proof -
  let ?S = SlotsPerFSMPage and ?k = "addr_level a"
  have k: "?k \<le> l" and p: "p = logpageno a div ?S ^ (l - ?k)" using assms(2) by (simp_all add: in_subtree_def)
  have "p * ?S ^ l = p * ?S ^ (l - ?k) * ?S ^ ?k" using k by (simp flip: power_add add: mult.assoc)
  also have "\<dots> \<le> logpageno a * ?S ^ ?k" unfolding p by (simp add: mult_le_mono)
  finally have "leaf_block (p * ?S ^ l) \<le> leaf_block (logpageno a * ?S ^ ?k)" by (rule leaf_block_mono)
  then show ?thesis using assms(1) k unfolding present_def physical by simp
qed

lemma child_page [simp]: "fsm_get_child (page_at (Suc l) p) x = page_at l (p * SlotsPerFSMPage + x)"
  by (simp add: fsm_get_child_def)

lemma under_self [simp]: "in_subtree l p (page_at l q) \<longleftrightarrow> q = p"
  by (auto simp: in_subtree_def)

lemma under_level: "in_subtree l p a \<Longrightarrow> addr_level a \<le> l"
  by (simp add: in_subtree_def)

lemma under_unique: "in_subtree l p a \<Longrightarrow> in_subtree l q a \<Longrightarrow> p = q"
  by (simp add: in_subtree_def)

lemma under_Suc:
  assumes "addr_level a \<le> l"
  shows "in_subtree (Suc l) p a \<longleftrightarrow> (\<exists>x < SlotsPerFSMPage. in_subtree l (p * SlotsPerFSMPage + x) a)"
proof -
  let ?S = SlotsPerFSMPage
  let ?q = "logpageno a div ?S ^ (l - addr_level a)"
  have "logpageno a div ?S ^ (Suc l - addr_level a) = ?q div ?S"
    by (simp only: Suc_diff_le [OF assms] power_Suc2 div_mult2_eq)
  then have "in_subtree (Suc l) p a \<longleftrightarrow> ?q div ?S = p" using assms by (simp add: in_subtree_def)
  also have "\<dots> \<longleftrightarrow> (\<exists>x < ?S. ?q = p * ?S + x)"
  proof
    assume "?q div ?S = p"
    then have "?q = p * ?S + ?q mod ?S" by (metis div_mult_mod_eq)
    then show "\<exists>x < ?S. ?q = p * ?S + x" using slots_pos mod_less_divisor by blast
  qed auto
  finally show ?thesis using assms by (simp add: in_subtree_def)
qed

lemma under_child:
  assumes "in_subtree l p a" "0 < addr_level a" "x < SlotsPerFSMPage"
  shows "in_subtree l p (fsm_get_child a x)"
proof -
  let ?S = SlotsPerFSMPage
  have e: "l - (addr_level a - Suc 0) = Suc (l - addr_level a)" using assms under_level [OF assms(1)] by simp
  have le: "addr_level a - Suc 0 \<le> l" using under_level [OF assms(1)] by simp
  have "(logpageno a * ?S + x) div ?S ^ Suc (l - addr_level a) = logpageno a div ?S ^ (l - addr_level a)"
    using assms(3) by (simp add: div_mult2_eq)
  then show ?thesis using assms(1) unfolding in_subtree_def fsm_get_child_def by (simp add: e le del: power_Suc)
qed

text \<open>Resetting the hint of a page changes nothing that matters here.\<close>

definition reset_hint :: "fsm_fork \<Rightarrow> nat \<Rightarrow> fsm_fork" where
  "reset_hint fork b = fork[b := (fork ! b)\<lparr>fp_next_slot := 0\<rparr>]"

lemma reset_hint:
  "length (reset_hint fork b) = length fork" "avail (reset_hint fork b) a x = avail fork a x" "page_top (reset_hint fork b) a = page_top fork a"
  "present (reset_hint fork b) a \<longleftrightarrow> present fork a" "synced l p (reset_hint fork b) \<longleftrightarrow> synced l p fork"
proof -
  have a: "avail (reset_hint fork b) a x = avail fork a x" for a x
    by (cases "fsm_logical_to_physical a = b") (simp_all add: reset_hint_def avail_def fsm_get_avail_def Let_def)
  have t: "page_top (reset_hint fork b) a = page_top fork a" for a
    by (cases "fsm_logical_to_physical a = b") (simp_all add: reset_hint_def page_top_def present_def fsm_get_max_avail_def)
  show "length (reset_hint fork b) = length fork" "avail (reset_hint fork b) a x = avail fork a x" "page_top (reset_hint fork b) a = page_top fork a"
    "present (reset_hint fork b) a \<longleftrightarrow> present fork a" "synced l p (reset_hint fork b) \<longleftrightarrow> synced l p fork"
    by (simp_all only: a t synced_def) (simp_all add: reset_hint_def present_def)
qed

lemma reset_hint_ok: "well_formed fork \<Longrightarrow> b < length fork \<Longrightarrow> well_formed (reset_hint fork b)"
  unfolding reset_hint_def by (rule well_formed_update) (simp_all add: well_formed_at)

text \<open>A slot of a present page is brought up to date.\<close>

definition put :: "fsm_fork \<Rightarrow> FSMAddress \<Rightarrow> nat \<Rightarrow> byte \<Rightarrow> fsm_fork" where
  "put fork a slot v =
     (let b = fsm_logical_to_physical a
      in if fsm_get_avail (fork ! b) slot \<noteq> v then fork[b := snd (fsm_set_avail (fork ! b) slot v)] else fork)"

lemma put_ok:
  assumes "well_formed fork" "present fork a" "slot < SlotsPerFSMPage"
  shows "well_formed (put fork a slot v)" "length (put fork a slot v) = length fork"
    "x < SlotsPerFSMPage \<Longrightarrow> addr_level a \<le> 2 \<Longrightarrow> addr_level a' \<le> 2 \<Longrightarrow>
     avail (put fork a slot v) a' x = (if a' = a \<and> x = slot then v else avail fork a' x)"
    "addr_level a \<le> 2 \<Longrightarrow> addr_level a' \<le> 2 \<Longrightarrow> a' \<noteq> a \<Longrightarrow> page_top (put fork a slot v) a' = page_top fork a'"
proof -
  let ?b = "fsm_logical_to_physical a"
  have b: "?b < length fork" using assms(2) by (simp add: present_def)
  note s = set_avail_valid [OF well_formed_at [OF assms(1) b] assms(3), of v]
  show "well_formed (put fork a slot v)" using s assms(1) by (auto simp: put_def Let_def intro: well_formed_update)
  show "length (put fork a slot v) = length fork" by (simp add: put_def Let_def)
  show "avail (put fork a slot v) a' x = (if a' = a \<and> x = slot then v else avail fork a' x)"
    if "x < SlotsPerFSMPage" "addr_level a \<le> 2" "addr_level a' \<le> 2"
  proof (cases "a' = a")
    case True
    then show ?thesis using s b that(1) by (simp add: put_def avail_def Let_def)
  next
    case False
    then have "fsm_logical_to_physical a' \<noteq> ?b" using physical_inj that(2,3) by blast
    then show ?thesis using False by (simp add: put_def avail_def Let_def)
  qed
  show "page_top (put fork a slot v) a' = page_top fork a'" if "addr_level a \<le> 2" "addr_level a' \<le> 2" "a' \<noteq> a"
  proof -
    have "fsm_logical_to_physical a' \<noteq> ?b" using physical_inj that by blast
    then show ?thesis by (simp add: put_def page_top_def present_def Let_def)
  qed
qed

text \<open>What the vacuum of the tree below a page does.\<close>

definition vacuumed :: "nat \<Rightarrow> nat \<Rightarrow> fsm_fork \<Rightarrow> byte \<times> bool \<times> fsm_fork \<Rightarrow> bool" where
  "vacuumed l p fork = (\<lambda>(m, eof, fork').
     well_formed fork' \<and> length fork' = length fork \<and> m = page_top fork' (page_at l p) \<and> (eof \<longleftrightarrow> \<not> present fork (page_at l p)) \<and>
     (\<forall>a x. x < SlotsPerFSMPage \<and> addr_level a \<le> 2 \<and> \<not> (in_subtree l p a \<and> 0 < addr_level a) \<longrightarrow> avail fork' a x = avail fork a x) \<and>
     (\<forall>a. addr_level a \<le> 2 \<and> \<not> in_subtree l p a \<longrightarrow> page_top fork' a = page_top fork a) \<and>
     synced l p fork')"

lemma missing_synced: "\<not> present fork (page_at l p) \<Longrightarrow> synced l p fork"
proof -
  assume m: "\<not> present fork (page_at l p)"
  have none: "\<not> present fork a" if "in_subtree l p a" for a using present_under [OF _ that] m by blast
  show ?thesis unfolding synced_def
  proof (intro allI impI, elim conjE)
    fix a x assume a: "in_subtree l p a" "0 < addr_level a" "x < SlotsPerFSMPage"
    then show "avail fork a x = page_top fork (fsm_get_child a x)"
      using none [OF a(1)] none [OF under_child [OF a]] by (simp add: page_top_def avail_def present_def Let_def)
  qed
qed

lemma missing_vacuumed: "well_formed fork \<Longrightarrow> \<not> present fork (page_at l p) \<Longrightarrow> vacuumed l p fork (0, True, fork)"
  using missing_synced by (simp add: vacuumed_def page_top_def)

text \<open>The loop over the slots of an upper page, after \<open>k\<close> of them.\<close>

definition vacuumed_slots :: "nat \<Rightarrow> nat \<Rightarrow> nat \<Rightarrow> fsm_fork \<Rightarrow> bool \<times> fsm_fork \<Rightarrow> bool" where
  "vacuumed_slots l p k fork = (\<lambda>(eof, g).
     well_formed g \<and> length g = length fork \<and>
     (eof \<longrightarrow> (\<forall>x \<ge> k. \<not> present fork (page_at l (p * SlotsPerFSMPage + x)))) \<and>
     (\<forall>a x. x < SlotsPerFSMPage \<and> addr_level a \<le> 2 \<and> \<not> (in_subtree (Suc l) p a \<and> 0 < addr_level a) \<longrightarrow> avail g a x = avail fork a x) \<and>
     (\<forall>a. addr_level a \<le> 2 \<and> \<not> in_subtree (Suc l) p a \<longrightarrow> page_top g a = page_top fork a) \<and>
     (\<forall>x < k. avail g (page_at (Suc l) p) x = page_top g (page_at l (p * SlotsPerFSMPage + x)) \<and> synced l (p * SlotsPerFSMPage + x) g))"

lemma present_length: "length g = length f \<Longrightarrow> present g a = present f a"
  by (simp add: present_def)

lemma vacuum_slot_ok:
  assumes step: "\<And>q f. well_formed f \<Longrightarrow> vacuumed l q f (fsm_vacuum_page l q f)"
    and l: "l < 2" and k: "k < SlotsPerFSMPage" and p: "present fork (page_at (Suc l) p)"
    and inv: "vacuumed_slots l p k fork (eof, g)"
  shows "vacuumed_slots l p (Suc k) fork
    (vacuum_slot (fsm_vacuum_page l) (page_at (Suc l) p) (fsm_logical_to_physical (page_at (Suc l) p)) k (eof, g))"
proof -
  let ?S = SlotsPerFSMPage and ?P = "page_at (Suc l) p" and ?q = "\<lambda>x. p * SlotsPerFSMPage + x"
  have g: "well_formed g" "length g = length fork" "eof \<longrightarrow> (\<forall>x \<ge> k. \<not> present fork (page_at l (?q x)))"
    "\<forall>a x. x < ?S \<and> addr_level a \<le> 2 \<and> \<not> (in_subtree (Suc l) p a \<and> 0 < addr_level a) \<longrightarrow> avail g a x = avail fork a x"
    "\<forall>a. addr_level a \<le> 2 \<and> \<not> in_subtree (Suc l) p a \<longrightarrow> page_top g a = page_top fork a"
    "\<forall>x < k. avail g ?P x = page_top g (page_at l (?q x)) \<and> synced l (?q x) g"
    using inv by (auto simp: vacuumed_slots_def)
  note pg = present_length [OF g(2)]
  define r where "r = (if eof then (0, True, g) else fsm_vacuum_page l (?q k) g)"
  have "vacuumed l (?q k) g r"
    using step [OF g(1)] missing_vacuumed [OF g(1)] g(3) pg by (auto simp: r_def)
  moreover obtain m eof' h where r: "r = (m, eof', h)" by (cases r)
  ultimately have h: "well_formed h" "length h = length g" "m = page_top h (page_at l (?q k))" "eof' \<longleftrightarrow> \<not> present g (page_at l (?q k))"
    "\<forall>a x. x < ?S \<and> addr_level a \<le> 2 \<and> \<not> (in_subtree l (?q k) a \<and> 0 < addr_level a) \<longrightarrow> avail h a x = avail g a x"
    "\<forall>a. addr_level a \<le> 2 \<and> \<not> in_subtree l (?q k) a \<longrightarrow> page_top h a = page_top g a" "synced l (?q k) h"
    by (simp_all add: vacuumed_def)
  have ph: "present h ?P" using p g(2) h(2) by (simp add: present_def)
  note put = put_ok [OF h(1) ph k]
  have res: "vacuum_slot (fsm_vacuum_page l) ?P (fsm_logical_to_physical ?P) k (eof, g) = (eof', put h ?P k m)"
    using r by (auto simp: vacuum_slot_def r_def put_def Let_def)
  have up: "in_subtree (Suc l) p a" if "in_subtree l (?q k) a" for a using that under_Suc [OF under_level [OF that]] k by blast
  have le: "addr_level ?P \<le> 2" using l by simp
  have away: "avail (put h ?P k m) a y = avail g a y" "page_top (put h ?P k m) a = page_top g a"
    if "in_subtree l (?q x) a" "x < k" "y < ?S" for a x y
  proof -
    have a: "addr_level a \<le> l" "\<not> in_subtree l (?q k) a" "a \<noteq> ?P"
      using that under_level under_unique [OF that(1)] by fastforce+
    then have "addr_level a \<le> 2" using l by simp
    then show "avail (put h ?P k m) a y = avail g a y" "page_top (put h ?P k m) a = page_top g a"
      using a that(3) h(5,6) put(3) [OF that(3) le, of a m] put(4) [OF le, of a m] by simp_all
  qed
  have now: "avail (put h ?P k m) ?P x = page_top (put h ?P k m) (page_at l (?q x)) \<and> synced l (?q x) (put h ?P k m)" if x: "x < Suc k" for x
  proof (cases "x = k")
    case True
    have t: "page_top (put h ?P k m) a = page_top h a" "avail (put h ?P k m) a y = avail h a y" if "in_subtree l (?q k) a" "y < ?S" for a y
    proof -
      have "addr_level a \<le> 2" "a \<noteq> ?P" using under_level [OF that(1)] l by auto
      then show "page_top (put h ?P k m) a = page_top h a" "avail (put h ?P k m) a y = avail h a y"
        using put(4) [OF le, of a m] put(3) [OF that(2) le, of a m] by simp_all
    qed
    have "synced l (?q k) (put h ?P k m)"
      using h(7) t under_child unfolding synced_def by metis
    moreover have "avail (put h ?P k m) ?P k = m" using put(3) [OF k le le] by simp
    moreover have "page_top (put h ?P k m) (page_at l (?q k)) = m" using t(1) [of "page_at l (?q k)" k] h(3) k by simp
    ultimately show ?thesis using True by simp
  next
    case False
    then have xk: "x < k" using x by simp
    have xS: "x < ?S" using xk k by simp
    have "\<not> in_subtree l (?q k) ?P" using under_level by fastforce
    then have "avail (put h ?P k m) ?P x = avail g ?P x" using h(5) put(3) [OF xS le le, of m] False xS le by simp
    moreover have "page_top (put h ?P k m) (page_at l (?q x)) = page_top g (page_at l (?q x))" by (rule away(2) [OF _ xk k]) simp
    moreover have "synced l (?q x) (put h ?P k m)"
      using g(6) xk away [OF _ xk] under_child unfolding synced_def by metis
    ultimately show ?thesis using g(6) xk by simp
  qed
  have "eof' \<longrightarrow> (\<forall>x \<ge> Suc k. \<not> present fork (page_at l (?q x)))"
    using h(4) pg present_mono [of fork l _ "?q k"] by (metis Suc_leD add_le_cancel_left)
  moreover have "avail (put h ?P k m) a x = avail fork a x"
    if "x < ?S" "addr_level a \<le> 2" "\<not> (in_subtree (Suc l) p a \<and> 0 < addr_level a)" for a x
    using g(4) h(5) put(3) [OF that(1) le that(2), of m] that up by auto
  moreover have "page_top (put h ?P k m) a = page_top fork a" if "addr_level a \<le> 2" "\<not> in_subtree (Suc l) p a" for a
    proof -
    have "a \<noteq> ?P" using that(2) by auto
    then show ?thesis using g(5) h(6) put(4) [OF le that(1), of m] that up by auto
  qed
  ultimately show ?thesis
    unfolding res vacuumed_slots_def using now put(1,2) h(2) g(2) by simp
qed

lemma vacuum_page_ok: "l \<le> 2 \<Longrightarrow> well_formed fork \<Longrightarrow> vacuumed l p fork (fsm_vacuum_page l p fork)"
proof (induction l arbitrary: p fork)
  case 0
  let ?b = "fsm_logical_to_physical (page_at 0 p)"
  show ?case
  proof (cases "present fork (page_at 0 p)")
    case False
    then show ?thesis using missing_vacuumed [OF 0(2)] by (simp add: fsm_readbuf_def present_def Let_def)
  next
    case True
    then have b: "?b < length fork" by (simp add: present_def)
    have "fsm_vacuum_page 0 p fork = (page_top fork (page_at 0 p), False, reset_hint fork ?b)"
      using b True by (simp add: fsm_readbuf_def reset_hint_def page_top_def)
    moreover have "synced 0 p fork" by (auto simp: synced_def in_subtree_def)
    ultimately show ?thesis using True reset_hint_ok [OF 0(2) b] by (simp add: vacuumed_def reset_hint)
  qed
next
  case (Suc l)
  let ?P = "page_at (Suc l) p" and ?S = SlotsPerFSMPage
  let ?b = "fsm_logical_to_physical ?P"
  show ?case
  proof (cases "present fork ?P")
    case False
    then show ?thesis using missing_vacuumed [OF Suc(3)] by (simp add: fsm_readbuf_def present_def)
  next
    case True
    have l: "l < 2" using Suc.prems(1) by simp
    have step: "vacuumed l q f (fsm_vacuum_page l q f)" if "well_formed f" for q f using Suc.IH [OF _ that] l by simp
    have loop: "k \<le> ?S \<Longrightarrow> vacuumed_slots l p k fork (fold (vacuum_slot (fsm_vacuum_page l) ?P ?b) [0..<k] (False, fork))" for k
    proof (induction k)
      case 0
      then show ?case using Suc.prems(2) by (simp add: vacuumed_slots_def)
    next
      case (Suc k)
      obtain eof g where eg: "fold (vacuum_slot (fsm_vacuum_page l) ?P ?b) [0..<k] (False, fork) = (eof, g)" by fastforce
      show ?case using vacuum_slot_ok [OF step l _ True, of k eof g] Suc eg by simp
    qed
    obtain eof g where eg: "fold (vacuum_slot (fsm_vacuum_page l) ?P ?b) [0..<?S] (False, fork) = (eof, g)" by fastforce
    then have inv: "vacuumed_slots l p ?S fork (eof, g)" using loop [of ?S] by simp
    then have g: "well_formed g" "length g = length fork"
      "\<forall>a x. x < ?S \<and> addr_level a \<le> 2 \<and> \<not> (in_subtree (Suc l) p a \<and> 0 < addr_level a) \<longrightarrow> avail g a x = avail fork a x"
      "\<forall>a. addr_level a \<le> 2 \<and> \<not> in_subtree (Suc l) p a \<longrightarrow> page_top g a = page_top fork a"
      "\<forall>x < ?S. avail g ?P x = page_top g (page_at l (p * ?S + x)) \<and> synced l (p * ?S + x) g"
      by (auto simp: vacuumed_slots_def)
    have pg: "present g ?P" and b: "?b < length g" using True g(2) by (simp_all add: present_def)
    have "synced (Suc l) p g"
      unfolding synced_def
    proof (intro allI impI, elim conjE)
      fix a x assume a: "in_subtree (Suc l) p a" "0 < addr_level a" "x < ?S"
      show "avail g a x = page_top g (fsm_get_child a x)"
      proof (cases "addr_level a \<le> l")
        case True
        then obtain y where "y < ?S" "in_subtree l (p * ?S + y) a" using a(1) under_Suc by blast
        then show ?thesis using g(5) a(2,3) unfolding synced_def by blast
      next
        case False
        then have "a = ?P" using a(1) by (cases a) (auto simp: in_subtree_def)
        then show ?thesis using g(5) a(3) by simp
      qed
    qed
    moreover have "fsm_vacuum_page (Suc l) p fork = (page_top g ?P, False, reset_hint g ?b)"
      using True pg eg by (simp add: fsm_readbuf_def reset_hint_def page_top_def present_def)
    ultimately show ?thesis using True g reset_hint_ok [OF g(1) b] by (simp add: vacuumed_def reset_hint)
  qed
qed

section \<open>The search after a vacuum\<close>

definition same_pages :: "fsm_fork \<Rightarrow> fsm_fork \<Rightarrow> bool" where
  "same_pages f g \<longleftrightarrow> length g = length f \<and> (\<forall>b < length f. fp_nodes (g ! b) = fp_nodes (f ! b))"

lemma same_pages_eqs:
  assumes "same_pages f g"
  shows "avail g a x = avail f a x" "page_top g a = page_top f a" "well_formed g \<longleftrightarrow> well_formed f" "synced l p g \<longleftrightarrow> synced l p f"
proof -
  have a: "avail g a x = avail f a x" for a x
    using assms by (simp add: same_pages_def avail_def fsm_get_avail_def Let_def)
  have t: "page_top g a = page_top f a" for a
    using assms by (simp add: same_pages_def page_top_def present_def fsm_get_max_avail_def)
  show "avail g a x = avail f a x" "page_top g a = page_top f a" "synced l p g \<longleftrightarrow> synced l p f"
    by (simp_all only: a t synced_def)
  show "well_formed g \<longleftrightarrow> well_formed f"
    using assms by (auto simp: same_pages_def well_formed_def all_set_conv_all_nth)
qed

lemma search_page_top:
  assumes "well_formed fork" "0 < c"
  shows "if c \<le> page_top fork a
    then \<exists>x g. search_page fork c a = Some (int x, 0, g) \<and> x < SlotsPerFSMPage \<and> c \<le> avail fork a x \<and> same_pages fork g
    else \<exists>v. search_page fork c a = Some (- 1, v, fork)"
proof (cases "present fork a")
  case False
  then show ?thesis using assms(2) by (auto simp: search_page_def fsm_readbuf_def page_top_def present_def Let_def)
next
  case True
  let ?b = "fsm_logical_to_physical a" and ?adv = "addr_level a = FSM_BOTTOM_LEVEL"
  have b: "?b < length fork" using True by (simp add: present_def)
  note v = well_formed_at [OF assms(1) b]
  note s = search_page_valid [OF v, of c ?adv]
  show ?thesis
  proof (cases "c \<le> page_top fork a")
    case True
    then have "c \<le> fp_nodes (fork ! ?b) ! 0" using b by (simp add: page_top_def present_def fsm_get_max_avail_def)
    then obtain x where x: "first_slot (fp_nodes (fork ! ?b)) c (start_slot (fork ! ?b)) = Some x"
      using search_valid [OF v _ start_slot_less] by blast
    have "c \<le> fsm_get_avail (fork ! ?b) x \<and> x < SlotsPerFSMPage"
      using find_SomeD [OF x [unfolded first_slot_def]] start_slot_less [of "fork ! ?b"] by (auto simp: fsm_get_avail_def)
    moreover define g where "g = fork[?b := (fork ! ?b)\<lparr>fp_next_slot := int x + (if ?adv then 1 else 0)\<rparr>]"
    moreover have "search_page fork c a = Some (int x, 0, g)"
      using s x b by (simp add: search_page_def fsm_readbuf_def g_def Let_def)
    moreover have "same_pages fork g" using b by (simp add: same_pages_def g_def nth_list_update)
    ultimately show ?thesis using True b by (auto simp: avail_def)
  next
    case False
    then have "fp_nodes (fork ! ?b) ! 0 < c" using b by (simp add: page_top_def present_def fsm_get_max_avail_def linorder_not_le)
    then have "search_page fork c a = Some (- 1, fsm_get_max_avail (fork ! ?b), fork)"
      using b by (simp add: search_page_def fsm_readbuf_def fsm_search_avail.simps Let_def)
    then show ?thesis using False by simp
  qed
qed

lemma search_descends:
  "well_formed fork \<Longrightarrow> 0 < c \<Longrightarrow> synced 2 0 fork \<Longrightarrow> in_subtree 2 0 (page_at l p) \<Longrightarrow> c \<le> page_top fork (page_at l p) \<Longrightarrow>
   (\<exists>b g. search_loop fork c n (page_at l p) = Some (Some b, g)) \<and>
   (\<exists>q x. x < SlotsPerFSMPage \<and> in_subtree 2 0 (leaf q) \<and> c \<le> avail fork (leaf q) x)"
proof (induction l arbitrary: p fork)
  case 0
  then obtain x g where x: "search_page fork c (page_at 0 p) = Some (int x, 0, g)" "x < SlotsPerFSMPage" "c \<le> avail fork (page_at 0 p) x"
    using search_page_top [OF 0(1,2), of "page_at 0 p"] by auto
  then have "\<exists>b g. search_loop fork c n (page_at 0 p) = Some (Some b, g)" by (subst search_loop.simps) (simp add: depth)
  then show ?case using x(2,3) 0(4) by (auto simp: leaf_def)
next
  case (Suc l)
  then obtain x g where x: "search_page fork c (page_at (Suc l) p) = Some (int x, 0, g)" "x < SlotsPerFSMPage"
    "c \<le> avail fork (page_at (Suc l) p) x" "same_pages fork g"
    using search_page_top [OF Suc.prems(1,2), of "page_at (Suc l) p"] by auto
  note e = same_pages_eqs [OF x(4)]
  have "in_subtree 2 0 (fsm_get_child (page_at (Suc l) p) x)" by (rule under_child [OF Suc.prems(4) _ x(2)]) simp
  moreover have "c \<le> page_top g (fsm_get_child (page_at (Suc l) p) x)"
    using Suc.prems(3,4) x(2,3) unfolding synced_def e(2) by simp
  ultimately obtain b h q y where "search_loop g c n (page_at l (p * SlotsPerFSMPage + x)) = Some (Some b, h)"
    and "y < SlotsPerFSMPage" "in_subtree 2 0 (leaf q)" "c \<le> avail fork (leaf q) y"
    using Suc.IH [of g "p * SlotsPerFSMPage + x"] Suc.prems(1,2,3) e(1,3,4) by auto
  moreover have "search_loop fork c n (page_at (Suc l) p) = search_loop g c n (page_at l (p * SlotsPerFSMPage + x))"
    using x(1) by (subst search_loop.simps) (simp add: depth)
  ultimately show ?case by auto
qed

lemma avail_le_top: "well_formed fork \<Longrightarrow> x < SlotsPerFSMPage \<Longrightarrow> avail fork a x \<le> page_top fork a"
  using max_leaf_le_root [OF well_formed_at]
  by (auto simp: avail_def page_top_def present_def fsm_get_avail_def fsm_get_max_avail_def Let_def)

lemma top_le_root:
  "well_formed fork \<Longrightarrow> synced 2 0 fork \<Longrightarrow> in_subtree 2 0 a \<Longrightarrow> page_top fork a \<le> page_top fork (page_at 2 0)"
proof (induction "2 - addr_level a" arbitrary: a)
  case 0
  then have "a = page_at 2 0" by (cases a) (auto simp: in_subtree_def)
  then show ?case by simp
next
  case (Suc k)
  let ?S = SlotsPerFSMPage
  let ?u = "page_at (Suc (addr_level a)) (logpageno a div ?S)"
  have "2 - addr_level a = Suc (2 - Suc (addr_level a))" using Suc(2) by simp
  then have u: "in_subtree 2 0 ?u"
    using Suc(5) slots_pos by (auto simp: in_subtree_def div_mult2_eq)
  have x: "logpageno a mod ?S < ?S" using slots_pos by simp
  have "fsm_get_child ?u (logpageno a mod ?S) = a" by simp
  then have "page_top fork a = avail fork ?u (logpageno a mod ?S)"
    using Suc(4) u x unfolding synced_def by (metis FSMAddress.select_convs(1) zero_less_Suc)
  also have "\<dots> \<le> page_top fork ?u" by (rule avail_le_top [OF Suc(3) x])
  also have "\<dots> \<le> page_top fork (page_at 2 0)" by (rule Suc(1) [OF _ Suc(3,4) u]) (use Suc(2) in simp)
  finally show ?case .
qed

text \<open>The search finds a block just if the tree has one with enough space.\<close>

lemma search_synced:
  assumes "well_formed fork" "synced 2 0 fork" "0 < c"
  shows "\<exists>r g. fsm_search fork c = Some (r, g) \<and>
    (r = None \<longleftrightarrow> (\<forall>p x. x < SlotsPerFSMPage \<and> in_subtree 2 0 (leaf p) \<longrightarrow> avail fork (leaf p) x < c))"
proof (cases "c \<le> page_top fork (page_at 2 0)")
  case True
  have r: "FSM_ROOT_ADDRESS = page_at 2 0" by (simp add: FSM_ROOT_ADDRESS_def depth)
  obtain b g p x where "fsm_search fork c = Some (Some b, g)" "x < SlotsPerFSMPage" "in_subtree 2 0 (leaf p)" "c \<le> avail fork (leaf p) x"
    using search_descends [OF assms(1,3,2) _ True, of 0] unfolding fsm_search_def r by (metis under_self)
  then show ?thesis by (auto simp: linorder_not_less)
next
  case False
  obtain v where "search_page fork c (page_at 2 0) = Some (- 1, v, fork)"
    using search_page_top [OF assms(1,3), of "page_at 2 0"] False by auto
  then have "fsm_search fork c = Some (None, fork)"
    unfolding fsm_search_def by (subst search_loop.simps) (simp add: FSM_ROOT_ADDRESS_def depth)
  moreover have "avail fork (leaf p) x < c" if "x < SlotsPerFSMPage" "in_subtree 2 0 (leaf p)" for p x
    using avail_le_top [OF assms(1) that(1), of "leaf p"] top_le_root [OF assms(1,2) that(2)] False by (meson le_less_trans linorder_not_le order.trans)
  ultimately show ?thesis by auto
qed

section \<open>Properties\<close>

text \<open>C25: a space is recorded rounded down to a multiple of 32, and never more than 8160 bytes, the largest tuple; what is asked for is
  rounded up, so a block is given out just if what is recorded of it suffices; no category of a request is 0, and a
  request larger than the largest tuple is an error.\<close>

theorem fsm_categories:
  "fsm_space_cat_to_avail (fsm_space_avail_to_cat n) = min 8160 (n - n mod 32) \<and>
   (case fsm_space_needed_to_cat n of
      Inl e \<Rightarrow> e = InvalidFSMRequest \<and> 8160 < n
    | Inr c \<Rightarrow> n \<le> 8160 \<and> 0 < c \<and> (if n = 0 then True else c \<le> v \<longleftrightarrow> n \<le> fsm_space_cat_to_avail v))"
proof
  have small: "unat (word_of_nat (n div 32) :: byte) = n div 32 \<and> word_of_nat (n div 32) \<noteq> (255 :: byte)" if "n < 8160"
  proof -
    have "n div 32 < 255" using that by (simp add: div_less_iff_less_mult)
    then show ?thesis using unat_byte [of "n div 32"] by (simp add: byte_255)
  qed
  have "8160 \<le> n - n mod 32" if "8160 \<le> n"
    using div_le_mono [OF that, of 32] by (simp add: minus_mod_eq_mult_div)
  then show "fsm_space_cat_to_avail (fsm_space_avail_to_cat n) = min 8160 (n - n mod 32)"
    unfolding avail_to_cat_value using small by (auto simp: min_def minus_mod_eq_div_mult fsm_space_cat_to_avail_def MaxFSMRequestSize_def FSM_CAT_STEP_def)
  show "case fsm_space_needed_to_cat n of
      Inl e \<Rightarrow> e = InvalidFSMRequest \<and> 8160 < n
    | Inr c \<Rightarrow> n \<le> 8160 \<and> 0 < c \<and> (if n = 0 then True else c \<le> v \<longleftrightarrow> n \<le> fsm_space_cat_to_avail v)"
    using needed_iff [of n v] by (cases "n \<le> 8160") (auto simp: needed_to_cat_value)
qed

text \<open>C24: a block of a relation has a slot of a leaf page of its own; parents and children of pages are inverse to each
  other; and the pages of the three levels have different places in the file.\<close>

theorem fsm_addresses:
  "fsm_get_heap_blk (fst (fsm_get_location blk)) (snd (fsm_get_location blk)) = blk mod 2 ^ 32 \<and>
   fsm_get_location (p * SlotsPerFSMPage + s mod SlotsPerFSMPage) = (\<lparr>addr_level = FSM_BOTTOM_LEVEL, logpageno = p\<rparr>, s mod SlotsPerFSMPage) \<and>
   fsm_get_parent (fsm_get_child \<lparr>addr_level = Suc l, logpageno = p\<rparr> (s mod SlotsPerFSMPage)) =
     (\<lparr>addr_level = Suc l, logpageno = p\<rparr>, s mod SlotsPerFSMPage) \<and>
   fsm_get_child (fst (fsm_get_parent a)) (snd (fsm_get_parent a)) = a \<and>
   (fsm_logical_to_physical \<lparr>addr_level = k mod FSM_TREE_DEPTH, logpageno = p\<rparr> =
    fsm_logical_to_physical \<lparr>addr_level = k' mod FSM_TREE_DEPTH, logpageno = p'\<rparr> \<longleftrightarrow> k mod FSM_TREE_DEPTH = k' mod FSM_TREE_DEPTH \<and> p = p')"
proof -
  have "k mod FSM_TREE_DEPTH \<le> 2" "k' mod FSM_TREE_DEPTH \<le> 2" by (simp_all add: depth)
  note i = physical_inj [of "\<lparr>addr_level = k mod FSM_TREE_DEPTH, logpageno = p\<rparr>" "\<lparr>addr_level = k' mod FSM_TREE_DEPTH, logpageno = p'\<rparr>"]
  show ?thesis
    using i \<open>k mod FSM_TREE_DEPTH \<le> 2\<close> \<open>k' mod FSM_TREE_DEPTH \<le> 2\<close> slots_pos
    by (auto simp: fsm_get_heap_blk_def fsm_get_location_def fsm_get_parent_def fsm_get_child_def)
qed

text \<open>C23: the space recorded for a block is what is read back, rounded down to its category; that of every other block stays; the
  replay of a record in recovery has the same effect.\<close>

theorem fsm_record_read:
  assumes "sized fork"
  shows "\<exists>fork'. RecordPageWithFreeSpace fork blk n = Some fork' \<and> XLogRecordPageWithFreeSpace fork blk n = fork' \<and> sized fork' \<and>
    (\<forall>b. GetRecordedFreeSpace fork' b =
       (if b = blk then fsm_space_cat_to_avail (fsm_space_avail_to_cat n) else GetRecordedFreeSpace fork b))"
proof -
  let ?S = SlotsPerFSMPage
  let ?a = "\<lparr>addr_level = 0, logpageno = blk div ?S\<rparr>"
  let ?f = "set_slot fork ?a (blk mod ?S) (fsm_space_avail_to_cat n)"
  have m: "x mod ?S < ?S" for x using slots_pos by simp
  have "RecordPageWithFreeSpace fork blk n = Some ?f"
    by (simp add: RecordPageWithFreeSpace_def fsm_get_location_def set_only_slot depth)
  moreover have "XLogRecordPageWithFreeSpace fork blk n = ?f"
    by (simp add: XLogRecordPageWithFreeSpace_def fsm_get_location_def set_slot_def depth Let_def)
  moreover have "avail ?f \<lparr>addr_level = 0, logpageno = b div ?S\<rparr> (b mod ?S) =
      (if b = blk then fsm_space_avail_to_cat n else avail fork \<lparr>addr_level = 0, logpageno = b div ?S\<rparr> (b mod ?S))" for b
  proof -
    have "b div ?S = blk div ?S \<and> b mod ?S = blk mod ?S \<longleftrightarrow> b = blk" by (metis div_mult_mod_eq)
    then show ?thesis using set_slot_avail [OF assms m m, of ?a "\<lparr>addr_level = 0, logpageno = b div ?S\<rparr>"] by simp
  qed
  ultimately show ?thesis using set_slot_ok(1) [OF m assms] by (simp add: GetRecorded_avail)
qed

theorem fsm_record_read_witness:
  "\<exists>fork'. RecordPageWithFreeSpace [] 5000 100 = Some fork' \<and> GetRecordedFreeSpace fork' 5000 = 96"
proof -
  have "sized []" by (simp add: sized_def)
  then obtain fork' where "RecordPageWithFreeSpace [] 5000 100 = Some fork'"
    "GetRecordedFreeSpace fork' 5000 = fsm_space_cat_to_avail (fsm_space_avail_to_cat 100)"
    using fsm_record_read [of "[]" 5000 100] by auto
  moreover have "fsm_space_cat_to_avail (fsm_space_avail_to_cat 100) = 96"
    by (simp add: fsm_space_avail_to_cat_def fsm_space_cat_to_avail_def MaxFSMRequestSize_def FSM_CAT_STEP_def Let_def)
  ultimately show ?thesis by auto
qed

text \<open>The slots beyond the last block number of a relation are never recorded.\<close>

definition within_relation :: "fsm_fork \<Rightarrow> bool" where
  "within_relation fork \<longleftrightarrow>
     (\<forall>p x. x < SlotsPerFSMPage \<and> 2 ^ 32 \<le> p * SlotsPerFSMPage + x \<longrightarrow> avail fork (leaf p) x = 0)"

lemma heap_blk_recorded:
  assumes "within_relation fork" "x < SlotsPerFSMPage" "avail fork (leaf p) x \<noteq> 0"
  shows "GetRecordedFreeSpace fork (fsm_get_heap_blk (leaf p) x) = fsm_space_cat_to_avail (avail fork (leaf p) x)"
proof -
  have "p * SlotsPerFSMPage + x < 2 ^ 32" using assms by (meson linorder_not_less within_relation_def)
  then have "fsm_get_heap_blk (leaf p) x = p * SlotsPerFSMPage + x" by (simp add: fsm_get_heap_blk_def leaf_def)
  then show ?thesis using assms(2) by (simp add: GetRecorded_avail leaf_def)
qed

text \<open>C22: on every map, also one that a crash has left inconsistent, the search for space ends, returns only a block with as
  much recorded space as was asked for, and changes no block's record.\<close>

theorem fsm_search_safe:
  assumes "sized fork" "within_relation fork" "n \<le> 8160"
  shows "\<exists>r fork'. GetPageWithFreeSpace fork n = Inr (Some (r, fork')) \<and> sized fork' \<and>
    (\<forall>b. GetRecordedFreeSpace fork' b = GetRecordedFreeSpace fork b) \<and>
    (case r of None \<Rightarrow> True | Some b \<Rightarrow> n \<le> GetRecordedFreeSpace fork b)"
proof -
  obtain c where c: "fsm_space_needed_to_cat n = Inr c" "0 < c" "\<And>v. c \<le> v \<Longrightarrow> n \<le> fsm_space_cat_to_avail v"
    using needed_iff [OF assms(3)] by (metis Inr_inject)
  obtain r fork' where r: "search_loop fork c 0 FSM_ROOT_ADDRESS = Some (r, fork')" "sized fork'" "same_leaves fork fork'"
    "case r of None \<Rightarrow> True | Some b \<Rightarrow> \<exists>p x. x < SlotsPerFSMPage \<and> b = fsm_get_heap_blk (leaf p) x \<and> c \<le> avail fork (leaf p) x"
    using search_loop_ok [OF assms(1), of FSM_ROOT_ADDRESS c 0] by (auto simp: FSM_ROOT_ADDRESS_def depth)
  have "GetRecordedFreeSpace fork' b = GetRecordedFreeSpace fork b" for b
    using r(3) slots_pos by (simp add: GetRecorded_avail same_leaves_def leaf_def)
  moreover have "case r of None \<Rightarrow> True | Some b \<Rightarrow> n \<le> GetRecordedFreeSpace fork b"
  proof (cases r)
    case (Some b)
    then obtain p x where b: "x < SlotsPerFSMPage" "b = fsm_get_heap_blk (leaf p) x" "c \<le> avail fork (leaf p) x" using r(4) by auto
    then have "avail fork (leaf p) x \<noteq> 0" using c(2) by auto
    then show ?thesis using heap_blk_recorded [OF assms(2) b(1)] b(2) c(3) [OF b(3)] Some by simp
  qed simp
  ultimately show ?thesis using c(1) r(1,2) by (simp add: GetPageWithFreeSpace_def fsm_search_def)
qed

theorem fsm_search_safe_witness: "\<exists>r fork'. GetPageWithFreeSpace [] 100 = Inr (Some (r, fork'))"
proof -
  have "sized []" "within_relation []" by (simp_all add: sized_def within_relation_def avail_def)
  then show ?thesis using fsm_search_safe [of "[]" 100] by auto
qed

text \<open>
  On a bottom page the vacuum only resets the pointer to the next slot and passes the root on: a page that a crash has torn
  is repaired by a search that comes upon it, but not by \<open>FreeSpaceMapVacuum\<close>, which is to fix any inconsistencies.
\<close>

lemma fsm_vacuum_keeps_bottom_pages:
  "map fp_nodes (snd (snd (fsm_vacuum_page 0 p fork))) = map fp_nodes fork \<and>
   (present fork (leaf p) \<longrightarrow> fst (fsm_vacuum_page 0 p fork) = fp_nodes (fork ! fsm_logical_to_physical (leaf p)) ! 0)"
proof -
  have "(map fp_nodes fork)[b := fp_nodes (fork ! b)] = map fp_nodes fork" for b
    by (cases "b < length fork") (simp_all add: list_update_same_conv list_update_beyond)
  then show ?thesis by (simp add: fsm_readbuf_def present_def leaf_def map_update fsm_get_max_avail_def Let_def)
qed

text \<open>C21: let every page of the map be well formed, none of them torn, and no space be recorded beyond the last possible block
  number: then vacuum keeps the records of all blocks and makes the upper pages agree with them, whatever they said of
  their children before: afterwards the search for space finds a block just if some block of the relation has that much space.\<close>

theorem fsm_vacuum_search:
  assumes "well_formed fork" "within_relation fork" "0 < n" "n \<le> 8160"
  shows "well_formed (FreeSpaceMapVacuum fork) \<and>
    (\<forall>b. GetRecordedFreeSpace (FreeSpaceMapVacuum fork) b = GetRecordedFreeSpace fork b) \<and>
    (\<exists>r fork'. GetPageWithFreeSpace (FreeSpaceMapVacuum fork) n = Inr (Some (r, fork')) \<and>
       (r = None \<longleftrightarrow> \<not> (\<exists>b. b < 2 ^ 32 \<and> n \<le> GetRecordedFreeSpace fork b)))"
proof -
  let ?S = SlotsPerFSMPage
  let ?v = "FreeSpaceMapVacuum fork"
  have v: "well_formed ?v" "synced 2 0 ?v" "\<And>a x. x < ?S \<Longrightarrow> addr_level a = 0 \<Longrightarrow> avail ?v a x = avail fork a x"
    using vacuum_page_ok [OF order_refl assms(1), of 0]
    by (auto simp: FreeSpaceMapVacuum_def vacuumed_def depth split: prod.splits)
  have rec: "GetRecordedFreeSpace ?v b = GetRecordedFreeSpace fork b" for b
    using v(3) slots_pos by (simp add: GetRecorded_avail)
  obtain c where c: "fsm_space_needed_to_cat n = Inr c" "0 < c" "\<And>v. c \<le> v \<longleftrightarrow> n \<le> fsm_space_cat_to_avail v"
    using needed_iff [OF assms(4)] assms(3) by (metis Inr_inject)
  obtain r g where r: "fsm_search ?v c = Some (r, g)"
    "r = None \<longleftrightarrow> (\<forall>p x. x < ?S \<and> in_subtree 2 0 (leaf p) \<longrightarrow> avail ?v (leaf p) x < c)"
    using search_synced [OF v(1,2) c(2)] by blast
  have "(\<forall>p x. x < ?S \<and> in_subtree 2 0 (leaf p) \<longrightarrow> avail ?v (leaf p) x < c) \<longleftrightarrow> \<not> (\<exists>b < 2 ^ 32. n \<le> GetRecordedFreeSpace fork b)"
  proof (intro iffI notI allI impI; (elim exE conjE)?)
    fix b assume none: "\<forall>p x. x < ?S \<and> in_subtree 2 0 (leaf p) \<longrightarrow> avail ?v (leaf p) x < c"
      and b: "b < 2 ^ 32" "n \<le> GetRecordedFreeSpace fork b"
    have "b div ?S div (?S * ?S) = 0"
      using b(1) by (simp add: LeafNodesPerPage_def NodesPerPage_def NonLeafNodesPerPage_def flip: div_mult2_eq)
    then have "in_subtree 2 0 (leaf (b div ?S))" by (simp add: in_subtree_def leaf_def power2_eq_square)
    then have "avail ?v (leaf (b div ?S)) (b mod ?S) < c" using none slots_pos by simp
    then have "\<not> n \<le> fsm_space_cat_to_avail (avail fork (leaf (b div ?S)) (b mod ?S))"
      unfolding c(3) [symmetric] using v(3) slots_pos by (simp add: leaf_def linorder_not_le)
    then show False using b(2) by (simp add: GetRecorded_avail leaf_def)
  next
    fix p x assume none: "\<not> (\<exists>b < 2 ^ 32. n \<le> GetRecordedFreeSpace fork b)" and x: "x < ?S" "in_subtree 2 0 (leaf p)"
    show "avail ?v (leaf p) x < c"
    proof (rule ccontr)
      assume "\<not> avail ?v (leaf p) x < c"
      then have a: "c \<le> avail fork (leaf p) x" using v(3) [OF x(1)] by (simp add: leaf_def)
      then have "avail fork (leaf p) x \<noteq> 0" using c(2) by auto
      then have "n \<le> GetRecordedFreeSpace fork (fsm_get_heap_blk (leaf p) x)"
        using heap_blk_recorded [OF assms(2) x(1)] a c(3) by simp
      then show False using none by (metis fsm_get_heap_blk_def mod_less_divisor zero_less_numeral zero_less_power)
    qed
  qed
  then show ?thesis using v(1) rec r c(1) by (auto simp: GetPageWithFreeSpace_def)
qed

theorem fsm_vacuum_search_witness:
  "\<exists>b fork'. GetPageWithFreeSpace (FreeSpaceMapVacuum (set_slot [] (leaf 1) 931 3)) 96 = Inr (Some (Some b, fork'))"
proof -
  let ?f = "set_slot [] (leaf 1) 931 3"
  have size: "931 < SlotsPerFSMPage" "SlotsPerFSMPage = 4069" by (simp_all add: LeafNodesPerPage_def NodesPerPage_def NonLeafNodesPerPage_def)
  have "well_formed []" "sized []" by (simp_all add: well_formed_def sized_def)
  then have f: "well_formed ?f" "\<And>p x. x < SlotsPerFSMPage \<Longrightarrow> avail ?f (leaf p) x = (if p = 1 \<and> x = 931 then 3 else 0)"
    using set_slot_ok(2) [OF size(1)] set_slot_avail [OF _ size(1)] by (auto simp: leaf_def avail_def)
  have "within_relation ?f" unfolding within_relation_def
  proof (intro allI impI, elim conjE)
    fix p x assume "x < SlotsPerFSMPage" "2 ^ 32 \<le> p * SlotsPerFSMPage + x"
    then show "avail ?f (leaf p) x = 0" using f(2) [of x p] size(2) by auto
  qed
  moreover have "96 \<le> GetRecordedFreeSpace ?f (1 * SlotsPerFSMPage + 931)"
  proof -
    have "(1 * SlotsPerFSMPage + 931) div SlotsPerFSMPage = 1" "(1 * SlotsPerFSMPage + 931) mod SlotsPerFSMPage = 931"
      unfolding size(2) by simp_all
    then show ?thesis
      using f(2) [OF size(1), of 1] unfolding GetRecorded_avail leaf_def
      by (simp only:) (simp add: fsm_space_cat_to_avail_def FSM_CAT_STEP_def)
  qed
  moreover have "1 * SlotsPerFSMPage + 931 < 2 ^ 32" using size by simp
  ultimately obtain r fork' where "GetPageWithFreeSpace (FreeSpaceMapVacuum ?f) 96 = Inr (Some (r, fork'))" "r \<noteq> None"
    using fsm_vacuum_search [OF f(1), of 96] by auto
  then show ?thesis by auto
qed

end
