(* ===== verification/Xact.thy ===== *)
theory Xact
  imports Prelude
begin

text \<open>
  Transactions and savepoints (access/transam/xact.c) and their use by the main loop (tcop/postgres.c, tcop/utility.c) and
  by the exception blocks of PL/pgSQL: the stack of transaction states, the block states a statement sets and
  \<open>CommitTransactionCommand\<close> works off, the transaction ids and what the commit log says of them.  Locks, resource owners
  (but for their existence), memory contexts, settings, snapshots, the log and the callbacks of other modules are not
  modelled; what they may raise before the commit is an argument.
\<close>

section \<open>States\<close>

type_synonym TransactionId = "32 word"

datatype TransState = TRANS_DEFAULT | TRANS_START | TRANS_INPROGRESS | TRANS_COMMIT | TRANS_ABORT | TRANS_PREPARE

datatype TBlockState =
    TBLOCK_DEFAULT | TBLOCK_STARTED
  | TBLOCK_BEGIN | TBLOCK_INPROGRESS | TBLOCK_END | TBLOCK_ABORT | TBLOCK_ABORT_END | TBLOCK_ABORT_PENDING | TBLOCK_PREPARE
  | TBLOCK_SUBBEGIN | TBLOCK_SUBINPROGRESS | TBLOCK_SUBEND | TBLOCK_SUBABORT | TBLOCK_SUBABORT_END
  | TBLOCK_SUBABORT_PENDING | TBLOCK_SUBRESTART | TBLOCK_SUBABORT_RESTART

record TransactionState =
  transactionId :: TransactionId
  subTransactionId :: "32 word"
  sp_name :: "string option"
  savepointLevel :: nat
  tstate :: TransState
  blockState :: TBlockState
  nestingLevel :: nat
  curTransactionOwner :: bool
  childXids :: "TransactionId list"

definition TopTransactionStateData :: TransactionState where
  "TopTransactionStateData = \<lparr>transactionId = 0, subTransactionId = 0, sp_name = None, savepointLevel = 0,
     tstate = TRANS_DEFAULT, blockState = TBLOCK_DEFAULT, nestingLevel = 0, curTransactionOwner = False, childXids = []\<rparr>"

datatype XidStatus = TRANSACTION_STATUS_IN_PROGRESS | TRANSACTION_STATUS_COMMITTED | TRANSACTION_STATUS_ABORTED

text \<open>
  The backend: the current state and its chain of parents, the counters, the commit log and the prepared transactions, and
  whether a \<open>WARNING\<close> said that the low-level state was not the expected one.  \<open>xids_taken\<close> counts the
  transaction ids this backend has got.
\<close>

record Xact =
  curState :: TransactionState
  parents :: "TransactionState list"
  currentSubTransactionId :: "32 word"
  currentCommandId :: "32 word"
  currentCommandIdUsed :: bool
  prepareGID :: string
  clog :: "TransactionId \<Rightarrow> XidStatus"
  prepared_xacts :: "(string \<times> TransactionId \<times> TransactionId list) list"
  xids_taken :: nat
  state_warning :: bool

text \<open>
  What the rest of the server decides: the ids \<open>GetNewTransactionId\<close> hands out, whether the processing before a commit
  (deferred triggers, the check for serialization failures) raises an error, the limit of prepared transactions.
\<close>

record XactEnv =
  newXid :: "nat \<Rightarrow> TransactionId"
  precommit_fails :: bool
  max_prepared_xacts :: nat
  RecoveryInProgress :: bool

text \<open>A function ends, raises an error after changing the state, or ends the session (\<open>FATAL\<close>, \<open>PANIC\<close>).\<close>

datatype 'a xresult = XDone 'a Xact | XError Xact | XFatal

fun and_then :: "'a xresult \<Rightarrow> ('a \<Rightarrow> Xact \<Rightarrow> 'b xresult) \<Rightarrow> 'b xresult" where
  "and_then (XDone a xs) f = f a xs"
| "and_then (XError xs) f = XError xs"
| "and_then XFatal f = XFatal"

definition setBlockState :: "TBlockState \<Rightarrow> Xact \<Rightarrow> Xact" where
  "setBlockState b xs = xs\<lparr>curState := (curState xs)\<lparr>blockState := b\<rparr>\<rparr>"

definition setState :: "TransState \<Rightarrow> Xact \<Rightarrow> Xact" where
  "setState st xs = xs\<lparr>curState := (curState xs)\<lparr>tstate := st\<rparr>\<rparr>"

definition warn_unless :: "bool \<Rightarrow> Xact \<Rightarrow> Xact" where
  "warn_unless ok xs = (if ok then xs else xs\<lparr>state_warning := True\<rparr>)"

definition stack :: "Xact \<Rightarrow> TransactionState list" where
  "stack xs = curState xs # parents xs"

definition set_stack :: "TransactionState list \<Rightarrow> Xact \<Rightarrow> Xact" where
  "set_stack ss xs = xs\<lparr>curState := hd ss, parents := tl ss\<rparr>"

section \<open>Transaction ids\<close>

definition InvalidSubTransactionId :: "32 word" where "InvalidSubTransactionId = 0"
definition TopSubTransactionId :: "32 word" where "TopSubTransactionId = 1"
definition FirstCommandId :: "32 word" where "FirstCommandId = 0"

definition TransactionIdIsValid :: "TransactionId \<Rightarrow> bool" where "TransactionIdIsValid xid \<longleftrightarrow> xid \<noteq> 0"
definition TransactionIdIsNormal :: "TransactionId \<Rightarrow> bool" where "TransactionIdIsNormal xid \<longleftrightarrow> xid \<ge> 3"

definition TransactionIdPrecedes :: "TransactionId \<Rightarrow> TransactionId \<Rightarrow> bool" where
  "TransactionIdPrecedes id1 id2 \<longleftrightarrow>
     (if \<not> TransactionIdIsNormal id1 \<or> \<not> TransactionIdIsNormal id2 then id1 < id2 else sint (id1 - id2) < 0)"

definition set_status :: "TransactionId \<Rightarrow> TransactionId list \<Rightarrow> XidStatus \<Rightarrow> (TransactionId \<Rightarrow> XidStatus) \<Rightarrow> TransactionId \<Rightarrow> XidStatus" where
  "set_status xid xids st log = (\<lambda>x. if x = xid \<or> x \<in> set xids then st else log x)"

definition TransactionIdCommitTree :: "TransactionId \<Rightarrow> TransactionId list \<Rightarrow> Xact \<Rightarrow> Xact" where
  "TransactionIdCommitTree xid xids xs = xs\<lparr>clog := set_status xid xids TRANSACTION_STATUS_COMMITTED (clog xs)\<rparr>"

definition TransactionIdAbortTree :: "TransactionId \<Rightarrow> TransactionId list \<Rightarrow> Xact \<Rightarrow> Xact" where
  "TransactionIdAbortTree xid xids xs = xs\<lparr>clog := set_status xid xids TRANSACTION_STATUS_ABORTED (clog xs)\<rparr>"

definition TransactionIdDidCommit :: "TransactionId \<Rightarrow> Xact \<Rightarrow> bool" where
  "TransactionIdDidCommit xid xs \<longleftrightarrow> clog xs xid = TRANSACTION_STATUS_COMMITTED"

definition IsAbortedTransactionBlockState :: "Xact \<Rightarrow> bool" where
  "IsAbortedTransactionBlockState xs \<longleftrightarrow>
     blockState (curState xs) = TBLOCK_ABORT \<or> blockState (curState xs) = TBLOCK_SUBABORT"

text \<open>A state gets its id after its parents.\<close>

fun AssignTransactionId :: "XactEnv \<Rightarrow> TransactionState list \<Rightarrow> nat \<Rightarrow> TransactionState list \<times> nat" where
  "AssignTransactionId env [] n = ([], n)"
| "AssignTransactionId env (s # ps) n =
     (if TransactionIdIsValid (transactionId s) then (s # ps, n)
      else case AssignTransactionId env ps n of (ps, n) \<Rightarrow> (s\<lparr>transactionId := newXid env n\<rparr> # ps, n + 1))"

definition GetCurrentTransactionId :: "XactEnv \<Rightarrow> Xact \<Rightarrow> Xact" where
  "GetCurrentTransactionId env xs =
     (case AssignTransactionId env (stack xs) (xids_taken xs) of (ss, n) \<Rightarrow> (set_stack ss xs)\<lparr>xids_taken := n\<rparr>)"

definition GetCurrentTransactionIdIfAny :: "Xact \<Rightarrow> TransactionId" where
  "GetCurrentTransactionIdIfAny xs = transactionId (curState xs)"

definition GetTopTransactionIdIfAny :: "Xact \<Rightarrow> TransactionId" where
  "GetTopTransactionIdIfAny xs = transactionId (last (stack xs))"

definition GetCurrentCommandId :: "bool \<Rightarrow> Xact \<Rightarrow> Xact" where
  "GetCurrentCommandId used xs = (if used then xs\<lparr>currentCommandIdUsed := True\<rparr> else xs)"

definition xactGetCommittedChildren :: "Xact \<Rightarrow> TransactionId list" where
  "xactGetCommittedChildren xs = childXids (curState xs)"

text \<open>The binary search of the ordered array of children; \<open>low\<close> and \<open>high\<close> bound what is left.\<close>

function search_children :: "TransactionId list \<Rightarrow> TransactionId \<Rightarrow> int \<Rightarrow> int \<Rightarrow> bool" where
  "search_children xids xid low high =
     (if low \<le> high
      then let middle = low + (high - low) div 2;
               probe = xids ! nat middle
           in if probe = xid then True
              else if TransactionIdPrecedes probe xid then search_children xids xid (middle + 1) high
              else search_children xids xid low (middle - 1)
      else False)"
  by pat_completeness auto
termination
  by (relation "measure (\<lambda>(xids, xid, low, high). nat (high + 1 - low))") auto

declare search_children.simps [simp del]

definition TransactionIdIsCurrentTransactionId :: "TransactionId \<Rightarrow> Xact \<Rightarrow> bool" where
  "TransactionIdIsCurrentTransactionId xid xs \<longleftrightarrow>
     TransactionIdIsNormal xid \<and>
     list_ex (\<lambda>s. tstate s \<noteq> TRANS_ABORT \<and> TransactionIdIsValid (transactionId s) \<and>
        (xid = transactionId s \<or> search_children (childXids s) xid 0 (int (length (childXids s)) - 1))) (stack xs)"

definition CommandCounterIncrement :: "Xact \<Rightarrow> unit xresult" where
  "CommandCounterIncrement xs =
     (if currentCommandIdUsed xs
      then if currentCommandId xs + 1 = FirstCommandId then XError xs
           else XDone () (xs\<lparr>currentCommandId := currentCommandId xs + 1, currentCommandIdUsed := False\<rparr>)
      else XDone () xs)"

section \<open>The end of a transaction in the commit log\<close>

definition RecordTransactionCommit :: "Xact \<Rightarrow> Xact" where
  "RecordTransactionCommit xs =
     (let xid = GetTopTransactionIdIfAny xs
      in if TransactionIdIsValid xid then TransactionIdCommitTree xid (xactGetCommittedChildren xs) xs else xs)"

definition RecordTransactionAbort :: "Xact \<Rightarrow> unit xresult" where
  "RecordTransactionAbort xs =
     (let xid = GetCurrentTransactionIdIfAny xs
      in if \<not> TransactionIdIsValid xid then XDone () xs
         else if TransactionIdDidCommit xid xs then XFatal
         else XDone () (TransactionIdAbortTree xid (xactGetCommittedChildren xs) xs))"

definition MaxAllocSize :: nat where "MaxAllocSize = 0x3fffffff"

text \<open>The children of a committed subtransaction join those of the parent; the array cannot exceed a request of memory.\<close>

definition AtSubCommit_childXids :: "Xact \<Rightarrow> unit xresult" where
  "AtSubCommit_childXids xs =
     (case parents xs of
        [] \<Rightarrow> XFatal
      | p # ps \<Rightarrow>
          (let s = curState xs;
               new_nChildXids = length (childXids p) + length (childXids s) + 1
           in if MaxAllocSize div 4 < new_nChildXids then XError xs
              else XDone () (xs\<lparr>curState := s\<lparr>childXids := []\<rparr>,
                     parents := p\<lparr>childXids := childXids p @ transactionId s # childXids s\<rparr> # ps\<rparr>)))"

definition AtSubAbort_childXids :: "Xact \<Rightarrow> Xact" where
  "AtSubAbort_childXids xs = xs\<lparr>curState := (curState xs)\<lparr>childXids := []\<rparr>\<rparr>"

section \<open>Top-level transactions\<close>

text \<open>What the end of a transaction resets.\<close>

definition reset_state :: "Xact \<Rightarrow> Xact" where
  "reset_state xs = xs\<lparr>curState := (curState xs)\<lparr>curTransactionOwner := False, transactionId := 0,
     subTransactionId := InvalidSubTransactionId, nestingLevel := 0, childXids := [], tstate := TRANS_DEFAULT\<rparr>\<rparr>"

definition StartTransaction :: "Xact \<Rightarrow> Xact" where
  "StartTransaction xs =
     (let xs = set_stack [last (stack xs)] xs;
          xs = warn_unless (tstate (curState xs) = TRANS_DEFAULT) xs
      in xs\<lparr>curState := (curState xs)\<lparr>transactionId := 0, subTransactionId := TopSubTransactionId, curTransactionOwner := True,
              nestingLevel := 1, childXids := [], tstate := TRANS_INPROGRESS\<rparr>,
            currentSubTransactionId := TopSubTransactionId, currentCommandId := FirstCommandId, currentCommandIdUsed := False\<rparr>)"

definition CommitTransaction :: "XactEnv \<Rightarrow> Xact \<Rightarrow> unit xresult" where
  "CommitTransaction env xs =
     (let xs = warn_unless (tstate (curState xs) = TRANS_INPROGRESS) xs
      in if precommit_fails env then XError xs
         else XDone () (reset_state (RecordTransactionCommit (setState TRANS_COMMIT xs))))"

definition GIDSIZE :: nat where "GIDSIZE = 200"

definition MarkAsPreparing :: "XactEnv \<Rightarrow> string \<Rightarrow> (string \<times> TransactionId \<times> TransactionId list) list \<Rightarrow> bool" where
  "MarkAsPreparing env gid gxacts \<longleftrightarrow>
     length gid < GIDSIZE \<and> max_prepared_xacts env \<noteq> 0 \<and> gid \<notin> fst ` set gxacts \<and> length gxacts < max_prepared_xacts env"

text \<open>
  The errors of a prepare are those of the processing before the commit and of \<open>MarkAsPreparing\<close>; the steps from there to
  \<open>EndPrepare\<close>, which collect the records of other modules, do not fail here, and all prepared transactions are of this session.
\<close>

definition PrepareTransaction :: "XactEnv \<Rightarrow> Xact \<Rightarrow> unit xresult" where
  "PrepareTransaction env xs =
     (let xs = GetCurrentTransactionId env xs;
          xid = transactionId (curState xs);
          xs = warn_unless (tstate (curState xs) = TRANS_INPROGRESS) xs
      in if precommit_fails env then XError xs
         else let xs = setState TRANS_PREPARE xs
              in if \<not> MarkAsPreparing env (prepareGID xs) (prepared_xacts xs) then XError xs
                 else XDone () (reset_state
                        (xs\<lparr>prepared_xacts := (prepareGID xs, xid, xactGetCommittedChildren xs) # prepared_xacts xs\<rparr>)))"

definition AbortTransaction :: "Xact \<Rightarrow> unit xresult" where
  "AbortTransaction xs =
     (let xs = warn_unless (tstate (curState xs) = TRANS_INPROGRESS \<or> tstate (curState xs) = TRANS_PREPARE) xs
      in RecordTransactionAbort (setState TRANS_ABORT xs))"

definition CleanupTransaction :: "Xact \<Rightarrow> unit xresult" where
  "CleanupTransaction xs = (if tstate (curState xs) \<noteq> TRANS_ABORT then XFatal else XDone () (reset_state xs))"

section \<open>Subtransactions\<close>

definition PushTransaction :: "Xact \<Rightarrow> unit xresult" where
  "PushTransaction xs =
     (let p = curState xs;
          subid = currentSubTransactionId xs + 1
      in if subid = InvalidSubTransactionId then XError xs
         else XDone () (xs\<lparr>currentSubTransactionId := subid,
                curState := \<lparr>transactionId = 0, subTransactionId = subid, sp_name = None, savepointLevel = savepointLevel p,
                  tstate = TRANS_DEFAULT, blockState = TBLOCK_SUBBEGIN, nestingLevel = nestingLevel p + 1,
                  curTransactionOwner = False, childXids = []\<rparr>,
                parents := p # parents xs\<rparr>))"

definition PopTransaction :: "Xact \<Rightarrow> unit xresult" where
  "PopTransaction xs =
     (let xs = warn_unless (tstate (curState xs) = TRANS_DEFAULT) xs
      in case parents xs of [] \<Rightarrow> XFatal | p # ps \<Rightarrow> XDone () (xs\<lparr>curState := p, parents := ps\<rparr>))"

definition StartSubTransaction :: "Xact \<Rightarrow> Xact" where
  "StartSubTransaction xs =
     (let xs = warn_unless (tstate (curState xs) = TRANS_DEFAULT) xs
      in xs\<lparr>curState := (curState xs)\<lparr>curTransactionOwner := True, tstate := TRANS_INPROGRESS\<rparr>\<rparr>)"

definition end_sub :: "Xact \<Rightarrow> unit xresult" where
  "end_sub xs = PopTransaction (xs\<lparr>curState := (curState xs)\<lparr>curTransactionOwner := False, tstate := TRANS_DEFAULT\<rparr>\<rparr>)"

definition CommitSubTransaction :: "Xact \<Rightarrow> unit xresult" where
  "CommitSubTransaction xs =
     (let xs = warn_unless (tstate (curState xs) = TRANS_INPROGRESS) xs
      in and_then (CommandCounterIncrement (setState TRANS_COMMIT xs)) (\<lambda>_ xs.
         and_then (if TransactionIdIsValid (transactionId (curState xs)) then AtSubCommit_childXids xs else XDone () xs) (\<lambda>_ xs.
         end_sub xs)))"

definition AbortSubTransaction :: "Xact \<Rightarrow> unit xresult" where
  "AbortSubTransaction xs =
     (let xs = setState TRANS_ABORT (warn_unless (tstate (curState xs) = TRANS_INPROGRESS) xs)
      in if curTransactionOwner (curState xs)
         then and_then (RecordTransactionAbort xs) (\<lambda>_ xs.
              XDone () (if TransactionIdIsValid (transactionId (curState xs)) then AtSubAbort_childXids xs else xs))
         else XDone () xs)"

definition CleanupSubTransaction :: "Xact \<Rightarrow> unit xresult" where
  "CleanupSubTransaction xs = end_sub (warn_unless (tstate (curState xs) = TRANS_ABORT) xs)"

end
