(* ===== verification/XactBlock.thy ===== *)
theory XactBlock
  imports Xact
begin

text \<open>
  The block level of transactions: the state machine of commands and of \<open>BEGIN\<close>, \<open>COMMIT\<close>, \<open>ROLLBACK\<close>,
  \<open>PREPARE TRANSACTION\<close> and the savepoint commands, which only set block states that the end of the command works off,
  and the way the main loop and exception blocks drive it.
\<close>

section \<open>Each subtransaction that ends leaves its parent\<close>

lemma parents_simps [simp]:
  "parents (warn_unless b xs) = parents xs" "parents (setState st xs) = parents xs" "parents (setBlockState bs xs) = parents xs"
  "parents (AtSubAbort_childXids xs) = parents xs" "parents (TransactionIdAbortTree x ys xs) = parents xs"
  "parents (StartSubTransaction xs) = parents xs"
  by (simp_all add: warn_unless_def setState_def setBlockState_def AtSubAbort_childXids_def TransactionIdAbortTree_def StartSubTransaction_def Let_def)

lemma end_sub_parents: "end_sub xs = XDone u xs' \<Longrightarrow> length (parents xs') < length (parents xs)"
  by (auto simp: end_sub_def PopTransaction_def Let_def split: list.splits)

lemma cleanup_parents: "CleanupSubTransaction xs = XDone u xs' \<Longrightarrow> length (parents xs') < length (parents xs)"
  by (auto simp: CleanupSubTransaction_def dest: end_sub_parents)

lemma and_then_Done: "and_then r f = XDone b xs' \<longleftrightarrow> (\<exists>a xs. r = XDone a xs \<and> f a xs = XDone b xs')"
  by (cases r) simp_all

lemma counter_parents: "CommandCounterIncrement xs = XDone u xs' \<Longrightarrow> parents xs' = parents xs"
  by (auto simp: CommandCounterIncrement_def split: if_splits)

lemma children_parents: "AtSubCommit_childXids xs = XDone u xs' \<Longrightarrow> length (parents xs') = length (parents xs)"
  by (auto simp: AtSubCommit_childXids_def Let_def split: list.splits if_splits)

lemma commit_sub_parents: "CommitSubTransaction xs = XDone u xs' \<Longrightarrow> length (parents xs') < length (parents xs)"
  by (auto simp: CommitSubTransaction_def and_then_Done Let_def split: if_splits
      dest!: end_sub_parents counter_parents children_parents)

lemma abort_sub_parents: "AbortSubTransaction xs = XDone u xs' \<Longrightarrow> parents xs' = parents xs"
  by (auto simp: AbortSubTransaction_def RecordTransactionAbort_def and_then_Done Let_def split: if_splits)

section \<open>Commands\<close>

text \<open>The start of a command.\<close>

definition StartTransactionCommand :: "Xact \<Rightarrow> unit xresult" where
  "StartTransactionCommand xs =
     (case blockState (curState xs) of
        TBLOCK_DEFAULT \<Rightarrow> XDone () (setBlockState TBLOCK_STARTED (StartTransaction xs))
      | TBLOCK_INPROGRESS \<Rightarrow> XDone () xs
      | TBLOCK_SUBINPROGRESS \<Rightarrow> XDone () xs
      | TBLOCK_ABORT \<Rightarrow> XDone () xs
      | TBLOCK_SUBABORT \<Rightarrow> XDone () xs
      | _ \<Rightarrow> XError xs)"

text \<open>\<open>SAVEPOINT\<close>; a restart passes no name.\<close>

definition push_named :: "string option \<Rightarrow> Xact \<Rightarrow> unit xresult" where
  "push_named name xs =
     and_then (PushTransaction xs) (\<lambda>_ xs.
       XDone () (case name of None \<Rightarrow> xs | Some n \<Rightarrow> xs\<lparr>curState := (curState xs)\<lparr>sp_name := Some n\<rparr>\<rparr>))"

definition DefineSavepoint :: "string option \<Rightarrow> Xact \<Rightarrow> unit xresult" where
  "DefineSavepoint name xs =
     (if blockState (curState xs) \<in> {TBLOCK_INPROGRESS, TBLOCK_SUBINPROGRESS} then push_named name xs else XFatal)"

text \<open>The restart of a savepoint, after its cleanup.\<close>

definition restart :: "string option \<Rightarrow> nat \<Rightarrow> Xact \<Rightarrow> unit xresult" where
  "restart name level xs =
     and_then (DefineSavepoint None xs) (\<lambda>_ xs.
       XDone () (setBlockState TBLOCK_SUBINPROGRESS (StartSubTransaction
         (xs\<lparr>curState := (curState xs)\<lparr>sp_name := name, savepointLevel := level\<rparr>\<rparr>))))"

function commit_sub_loop :: "Xact \<Rightarrow> unit xresult" where
  "commit_sub_loop xs =
     (case CommitSubTransaction xs of
        XDone _ xs \<Rightarrow> if blockState (curState xs) = TBLOCK_SUBEND then commit_sub_loop xs else XDone () xs
      | XError xs \<Rightarrow> XError xs
      | XFatal \<Rightarrow> XFatal)"
  by pat_completeness auto
termination
  by (relation "measure (\<lambda>xs. length (parents xs))") (auto dest: commit_sub_parents)

definition finish :: "unit xresult \<Rightarrow> unit xresult" where
  "finish r = and_then r (\<lambda>_ xs. XDone () (setBlockState TBLOCK_DEFAULT xs))"

definition abort_and_cleanup :: "Xact \<Rightarrow> unit xresult" where
  "abort_and_cleanup xs = and_then (AbortTransaction xs) (\<lambda>_ xs. CleanupTransaction xs)"

definition abort_and_cleanup_sub :: "Xact \<Rightarrow> unit xresult" where
  "abort_and_cleanup_sub xs = and_then (AbortSubTransaction xs) (\<lambda>_ xs. CleanupSubTransaction xs)"

lemma abort_and_cleanup_sub_parents:
  "abort_and_cleanup_sub xs = XDone u xs' \<Longrightarrow> length (parents xs') < length (parents xs)"
  by (auto simp: abort_and_cleanup_sub_def and_then_Done dest!: abort_sub_parents cleanup_parents)

text \<open>The end of a command.\<close>

function CommitTransactionCommand :: "XactEnv \<Rightarrow> Xact \<Rightarrow> unit xresult" where
  "CommitTransactionCommand env xs =
     (let s = curState xs
      in case blockState s of
        TBLOCK_DEFAULT \<Rightarrow> XFatal
      | TBLOCK_STARTED \<Rightarrow> finish (CommitTransaction env xs)
      | TBLOCK_BEGIN \<Rightarrow> XDone () (setBlockState TBLOCK_INPROGRESS xs)
      | TBLOCK_INPROGRESS \<Rightarrow> CommandCounterIncrement xs
      | TBLOCK_SUBINPROGRESS \<Rightarrow> CommandCounterIncrement xs
      | TBLOCK_END \<Rightarrow> finish (CommitTransaction env xs)
      | TBLOCK_ABORT \<Rightarrow> XDone () xs
      | TBLOCK_SUBABORT \<Rightarrow> XDone () xs
      | TBLOCK_ABORT_END \<Rightarrow> finish (CleanupTransaction xs)
      | TBLOCK_ABORT_PENDING \<Rightarrow> finish (abort_and_cleanup xs)
      | TBLOCK_PREPARE \<Rightarrow> finish (PrepareTransaction env xs)
      | TBLOCK_SUBBEGIN \<Rightarrow> XDone () (setBlockState TBLOCK_SUBINPROGRESS (StartSubTransaction xs))
      | TBLOCK_SUBEND \<Rightarrow>
          and_then (commit_sub_loop xs) (\<lambda>_ xs.
            if blockState (curState xs) = TBLOCK_END then finish (CommitTransaction env xs)
            else if blockState (curState xs) = TBLOCK_PREPARE then finish (PrepareTransaction env xs)
            else XDone () xs)
      | TBLOCK_SUBABORT_END \<Rightarrow>
          (case CleanupSubTransaction xs of
             XDone _ xs \<Rightarrow> CommitTransactionCommand env xs
           | XError xs \<Rightarrow> XError xs
           | XFatal \<Rightarrow> XFatal)
      | TBLOCK_SUBABORT_PENDING \<Rightarrow>
          (case abort_and_cleanup_sub xs of
             XDone _ xs \<Rightarrow> CommitTransactionCommand env xs
           | XError xs \<Rightarrow> XError xs
           | XFatal \<Rightarrow> XFatal)
      | TBLOCK_SUBRESTART \<Rightarrow>
          and_then (abort_and_cleanup_sub (xs\<lparr>curState := s\<lparr>sp_name := None\<rparr>\<rparr>)) (\<lambda>_ xs.
            restart (sp_name s) (savepointLevel s) xs)
      | TBLOCK_SUBABORT_RESTART \<Rightarrow>
          and_then (CleanupSubTransaction (xs\<lparr>curState := s\<lparr>sp_name := None\<rparr>\<rparr>)) (\<lambda>_ xs.
            restart (sp_name s) (savepointLevel s) xs))"
  by pat_completeness auto
termination
  by (relation "measure (\<lambda>(env, xs). length (parents xs))") (auto dest: cleanup_parents abort_and_cleanup_sub_parents)

text \<open>The recovery from an error.\<close>

function AbortCurrentTransaction :: "Xact \<Rightarrow> unit xresult" where
  "AbortCurrentTransaction xs =
     (case blockState (curState xs) of
        TBLOCK_DEFAULT \<Rightarrow>
          (if tstate (curState xs) = TRANS_DEFAULT then XDone () xs
           else abort_and_cleanup (if tstate (curState xs) = TRANS_START then setState TRANS_INPROGRESS xs else xs))
      | TBLOCK_STARTED \<Rightarrow> finish (abort_and_cleanup xs)
      | TBLOCK_BEGIN \<Rightarrow> finish (abort_and_cleanup xs)
      | TBLOCK_INPROGRESS \<Rightarrow> and_then (AbortTransaction xs) (\<lambda>_ xs. XDone () (setBlockState TBLOCK_ABORT xs))
      | TBLOCK_END \<Rightarrow> finish (abort_and_cleanup xs)
      | TBLOCK_ABORT \<Rightarrow> XDone () xs
      | TBLOCK_SUBABORT \<Rightarrow> XDone () xs
      | TBLOCK_ABORT_END \<Rightarrow> finish (CleanupTransaction xs)
      | TBLOCK_ABORT_PENDING \<Rightarrow> finish (abort_and_cleanup xs)
      | TBLOCK_PREPARE \<Rightarrow> finish (abort_and_cleanup xs)
      | TBLOCK_SUBINPROGRESS \<Rightarrow> and_then (AbortSubTransaction xs) (\<lambda>_ xs. XDone () (setBlockState TBLOCK_SUBABORT xs))
      | TBLOCK_SUBABORT_END \<Rightarrow>
          (case CleanupSubTransaction xs of
             XDone _ xs \<Rightarrow> AbortCurrentTransaction xs | XError xs \<Rightarrow> XError xs | XFatal \<Rightarrow> XFatal)
      | TBLOCK_SUBABORT_RESTART \<Rightarrow>
          (case CleanupSubTransaction xs of
             XDone _ xs \<Rightarrow> AbortCurrentTransaction xs | XError xs \<Rightarrow> XError xs | XFatal \<Rightarrow> XFatal)
      | _ \<Rightarrow>
          (case abort_and_cleanup_sub xs of
             XDone _ xs \<Rightarrow> AbortCurrentTransaction xs | XError xs \<Rightarrow> XError xs | XFatal \<Rightarrow> XFatal))"
  by pat_completeness auto
termination
  by (relation "measure (\<lambda>xs. length (parents xs))") (auto dest: cleanup_parents abort_and_cleanup_sub_parents)

declare commit_sub_loop.simps [simp del] CommitTransactionCommand.simps [simp del] AbortCurrentTransaction.simps [simp del]

section \<open>Transaction statements\<close>

definition BeginTransactionBlock :: "Xact \<Rightarrow> unit xresult" where
  "BeginTransactionBlock xs =
     (let b = blockState (curState xs)
      in if b = TBLOCK_STARTED then XDone () (setBlockState TBLOCK_BEGIN xs)
         else if b \<in> {TBLOCK_INPROGRESS, TBLOCK_SUBINPROGRESS, TBLOCK_ABORT, TBLOCK_SUBABORT} then XDone () xs
         else XFatal)"

text \<open>The states of a live chain that is to be committed, and of one that is to be aborted.\<close>

fun end_chain :: "TransactionState list \<Rightarrow> TransactionState list option" where
  "end_chain [] = None"
| "end_chain [s] = (if blockState s = TBLOCK_INPROGRESS then Some [s\<lparr>blockState := TBLOCK_END\<rparr>] else None)"
| "end_chain (s # ps) =
     (if blockState s = TBLOCK_SUBINPROGRESS then map_option ((#) (s\<lparr>blockState := TBLOCK_SUBEND\<rparr>)) (end_chain ps) else None)"

definition abort_mark :: "TransactionState \<Rightarrow> TransactionState option" where
  "abort_mark s =
     (if blockState s = TBLOCK_SUBINPROGRESS then Some (s\<lparr>blockState := TBLOCK_SUBABORT_PENDING\<rparr>)
      else if blockState s = TBLOCK_SUBABORT then Some (s\<lparr>blockState := TBLOCK_SUBABORT_END\<rparr>) else None)"

fun abort_chain :: "TransactionState list \<Rightarrow> TransactionState list option" where
  "abort_chain [] = None"
| "abort_chain [s] =
     (if blockState s = TBLOCK_INPROGRESS then Some [s\<lparr>blockState := TBLOCK_ABORT_PENDING\<rparr>]
      else if blockState s = TBLOCK_ABORT then Some [s\<lparr>blockState := TBLOCK_ABORT_END\<rparr>] else None)"
| "abort_chain (s # ps) =
     (case abort_mark s of None \<Rightarrow> None | Some s \<Rightarrow> map_option ((#) s) (abort_chain ps))"

definition mark_stack :: "'a \<Rightarrow> TransactionState list option \<Rightarrow> Xact \<Rightarrow> 'a xresult" where
  "mark_stack r ss xs = (case ss of None \<Rightarrow> XFatal | Some ss \<Rightarrow> XDone r (set_stack ss xs))"

definition EndTransactionBlock :: "Xact \<Rightarrow> bool xresult" where
  "EndTransactionBlock xs =
     (case blockState (curState xs) of
        TBLOCK_INPROGRESS \<Rightarrow> XDone True (setBlockState TBLOCK_END xs)
      | TBLOCK_ABORT \<Rightarrow> XDone False (setBlockState TBLOCK_ABORT_END xs)
      | TBLOCK_SUBINPROGRESS \<Rightarrow> mark_stack True (end_chain (stack xs)) xs
      | TBLOCK_SUBABORT \<Rightarrow> mark_stack False (abort_chain (stack xs)) xs
      | TBLOCK_STARTED \<Rightarrow> XDone True xs
      | _ \<Rightarrow> XFatal)"

definition PrepareTransactionBlock :: "string \<Rightarrow> Xact \<Rightarrow> bool xresult" where
  "PrepareTransactionBlock gid xs =
     and_then (EndTransactionBlock xs) (\<lambda>result xs.
       if result
       then let s = last (stack xs)
            in if blockState s = TBLOCK_END
               then XDone True (set_stack (butlast (stack xs) @ [s\<lparr>blockState := TBLOCK_PREPARE\<rparr>]) xs\<lparr>prepareGID := gid\<rparr>)
               else XDone False xs
       else XDone False xs)"

definition UserAbortTransactionBlock :: "Xact \<Rightarrow> unit xresult" where
  "UserAbortTransactionBlock xs =
     (case blockState (curState xs) of
        TBLOCK_INPROGRESS \<Rightarrow> XDone () (setBlockState TBLOCK_ABORT_PENDING xs)
      | TBLOCK_ABORT \<Rightarrow> XDone () (setBlockState TBLOCK_ABORT_END xs)
      | TBLOCK_SUBINPROGRESS \<Rightarrow> mark_stack () (abort_chain (stack xs)) xs
      | TBLOCK_SUBABORT \<Rightarrow> mark_stack () (abort_chain (stack xs)) xs
      | TBLOCK_STARTED \<Rightarrow> XDone () (setBlockState TBLOCK_ABORT_PENDING xs)
      | _ \<Rightarrow> XFatal)"

text \<open>The savepoint of a name: the innermost one, which must be of the current level.\<close>

definition find_savepoint :: "string \<Rightarrow> Xact \<Rightarrow> bool" where
  "find_savepoint name xs =
     (case find (\<lambda>s. sp_name s = Some name) (stack xs) of
        None \<Rightarrow> False
      | Some target \<Rightarrow> savepointLevel target = savepointLevel (curState xs))"

fun release_chain :: "string \<Rightarrow> TransactionState list \<Rightarrow> TransactionState list" where
  "release_chain name [] = []"
| "release_chain name (s # ps) =
     s\<lparr>blockState := TBLOCK_SUBEND\<rparr> # (if sp_name s = Some name then ps else release_chain name ps)"

definition ReleaseSavepoint :: "string \<Rightarrow> Xact \<Rightarrow> unit xresult" where
  "ReleaseSavepoint name xs =
     (case blockState (curState xs) of
        TBLOCK_INPROGRESS \<Rightarrow> XError xs
      | TBLOCK_SUBINPROGRESS \<Rightarrow>
          (if find_savepoint name xs then XDone () (set_stack (release_chain name (stack xs)) xs) else XError xs)
      | _ \<Rightarrow> XFatal)"

definition restart_mark :: "TransactionState \<Rightarrow> TransactionState option" where
  "restart_mark s =
     (if blockState s = TBLOCK_SUBINPROGRESS then Some (s\<lparr>blockState := TBLOCK_SUBRESTART\<rparr>)
      else if blockState s = TBLOCK_SUBABORT then Some (s\<lparr>blockState := TBLOCK_SUBABORT_RESTART\<rparr>) else None)"

fun rollback_chain :: "string \<Rightarrow> TransactionState list \<Rightarrow> TransactionState list option" where
  "rollback_chain name [] = None"
| "rollback_chain name (s # ps) =
     (if sp_name s = Some name then map_option (\<lambda>s. s # ps) (restart_mark s)
      else case abort_mark s of None \<Rightarrow> None | Some s \<Rightarrow> map_option ((#) s) (rollback_chain name ps))"

definition RollbackToSavepoint :: "string \<Rightarrow> Xact \<Rightarrow> unit xresult" where
  "RollbackToSavepoint name xs =
     (let b = blockState (curState xs)
      in if b \<in> {TBLOCK_INPROGRESS, TBLOCK_ABORT} then XError xs
         else if b \<in> {TBLOCK_SUBINPROGRESS, TBLOCK_SUBABORT}
         then if find_savepoint name xs then mark_stack () (rollback_chain name (stack xs)) xs else XError xs
         else XFatal)"

section \<open>Subtransactions of exception blocks\<close>

definition BeginInternalSubTransaction :: "XactEnv \<Rightarrow> string option \<Rightarrow> Xact \<Rightarrow> unit xresult" where
  "BeginInternalSubTransaction env name xs =
     (if blockState (curState xs) \<in> {TBLOCK_STARTED, TBLOCK_INPROGRESS, TBLOCK_END, TBLOCK_PREPARE, TBLOCK_SUBINPROGRESS}
      then and_then (push_named name xs) (\<lambda>_ xs.
           and_then (CommitTransactionCommand env xs) (\<lambda>_ xs. StartTransactionCommand xs))
      else XFatal)"

definition ReleaseCurrentSubTransaction :: "Xact \<Rightarrow> unit xresult" where
  "ReleaseCurrentSubTransaction xs =
     (if blockState (curState xs) \<noteq> TBLOCK_SUBINPROGRESS then XError xs else CommitSubTransaction xs)"

definition RollbackAndReleaseCurrentSubTransaction :: "Xact \<Rightarrow> unit xresult" where
  "RollbackAndReleaseCurrentSubTransaction xs =
     (if blockState (curState xs) \<in> {TBLOCK_SUBINPROGRESS, TBLOCK_SUBABORT}
      then and_then (if blockState (curState xs) = TBLOCK_SUBINPROGRESS then AbortSubTransaction xs else XDone () xs)
             (\<lambda>_ xs. CleanupSubTransaction xs)
      else XFatal)"

section \<open>Leaving, and what other code asks\<close>

function AbortOutOfAnyTransaction :: "Xact \<Rightarrow> unit xresult" where
  "AbortOutOfAnyTransaction xs =
     (let b = blockState (curState xs)
      in if b = TBLOCK_DEFAULT then XDone () xs
         else if b \<in> {TBLOCK_STARTED, TBLOCK_BEGIN, TBLOCK_INPROGRESS, TBLOCK_END, TBLOCK_ABORT_PENDING, TBLOCK_PREPARE}
         then finish (abort_and_cleanup xs)
         else if b \<in> {TBLOCK_ABORT, TBLOCK_ABORT_END} then finish (CleanupTransaction xs)
         else if b \<in> {TBLOCK_SUBBEGIN, TBLOCK_SUBINPROGRESS, TBLOCK_SUBEND, TBLOCK_SUBABORT_PENDING, TBLOCK_SUBRESTART}
         then (case abort_and_cleanup_sub xs of
                 XDone _ xs \<Rightarrow> AbortOutOfAnyTransaction xs | XError xs \<Rightarrow> XError xs | XFatal \<Rightarrow> XFatal)
         else (case CleanupSubTransaction xs of
                 XDone _ xs \<Rightarrow> AbortOutOfAnyTransaction xs | XError xs \<Rightarrow> XError xs | XFatal \<Rightarrow> XFatal))"
  by pat_completeness auto
termination
  by (relation "measure (\<lambda>xs. length (parents xs))") (auto dest: cleanup_parents abort_and_cleanup_sub_parents)

declare AbortOutOfAnyTransaction.simps [simp del]

definition IsTransactionBlock :: "Xact \<Rightarrow> bool" where
  "IsTransactionBlock xs \<longleftrightarrow> \<not> (blockState (curState xs) = TBLOCK_DEFAULT \<or> blockState (curState xs) = TBLOCK_STARTED)"

definition IsSubTransaction :: "Xact \<Rightarrow> bool" where
  "IsSubTransaction xs \<longleftrightarrow> nestingLevel (curState xs) \<ge> 2"

definition RequireTransactionChain :: "bool \<Rightarrow> Xact \<Rightarrow> unit xresult" where
  "RequireTransactionChain isTopLevel xs =
     (if IsTransactionBlock xs then XDone () xs
      else if IsSubTransaction xs then XDone () xs
      else if \<not> isTopLevel then XDone () xs
      else XError xs)"

definition TransactionBlockStatusCode :: "Xact \<Rightarrow> char" where
  "TransactionBlockStatusCode xs =
     (let b = blockState (curState xs)
      in if b \<in> {TBLOCK_DEFAULT, TBLOCK_STARTED} then CHR ''I''
         else if b \<in> {TBLOCK_BEGIN, TBLOCK_SUBBEGIN, TBLOCK_INPROGRESS, TBLOCK_SUBINPROGRESS, TBLOCK_END, TBLOCK_SUBEND, TBLOCK_PREPARE}
         then CHR ''T'' else CHR ''E'')"

section \<open>Statements\<close>

text \<open>
  What a statement other than a transaction command does to the transaction: it may write, which takes a transaction id
  and uses the command id, it may fail, and it may run an exception block of PL/pgSQL, with a handler or without one for the
  error that occurs.
\<close>

datatype effect = Write | Raise | ExceptionBlock "effect list" "effect list option"

fun PG_TRY :: "'a xresult \<Rightarrow> (Xact \<Rightarrow> 'a xresult) \<Rightarrow> 'a xresult" where
  "PG_TRY (XDone a xs) catch_error = XDone a xs"
| "PG_TRY (XError xs) catch_error = catch_error xs"
| "PG_TRY XFatal catch_error = XFatal"

definition exec_stmt_block ::
  "XactEnv \<Rightarrow> (Xact \<Rightarrow> unit xresult) \<Rightarrow> (Xact \<Rightarrow> unit xresult) option \<Rightarrow> Xact \<Rightarrow> unit xresult" where
  "exec_stmt_block env body handler xs =
     and_then (BeginInternalSubTransaction env None xs) (\<lambda>_ xs.
       PG_TRY (and_then (body xs) (\<lambda>_ xs. ReleaseCurrentSubTransaction xs)) (\<lambda>xs.
         and_then (RollbackAndReleaseCurrentSubTransaction xs) (\<lambda>_ xs.
           case handler of None \<Rightarrow> XError xs | Some action \<Rightarrow> action xs)))"

fun exec_stmts_plpgsql :: "(Xact \<Rightarrow> unit xresult) list \<Rightarrow> Xact \<Rightarrow> unit xresult" where
  "exec_stmts_plpgsql [] xs = XDone () xs"
| "exec_stmts_plpgsql (e # es) xs = and_then (e xs) (\<lambda>_ xs. exec_stmts_plpgsql es xs)"

primrec exec_effect :: "XactEnv \<Rightarrow> effect \<Rightarrow> Xact \<Rightarrow> unit xresult" where
  "exec_effect env Write = (\<lambda>xs. XDone () (GetCurrentCommandId True (GetCurrentTransactionId env xs)))"
| "exec_effect env Raise = (\<lambda>xs. XError xs)"
| "exec_effect env (ExceptionBlock body handler) =
     exec_stmt_block env (exec_stmts_plpgsql (map (exec_effect env) body))
       (map_option exec_stmts_plpgsql (map_option (map (exec_effect env)) handler))"

definition exec_effects :: "XactEnv \<Rightarrow> effect list \<Rightarrow> Xact \<Rightarrow> unit xresult" where
  "exec_effects env es = exec_stmts_plpgsql (map (exec_effect env) es)"

datatype Stmt =
    BeginStmt | CommitStmt | PrepareStmt string | RollbackStmt
  | SavepointStmt string | ReleaseStmt string | RollbackToStmt string
  | OtherStmt "effect list"

definition isTransactionStmt :: "Stmt \<Rightarrow> bool" where
  "isTransactionStmt stmt \<longleftrightarrow> (case stmt of OtherStmt _ \<Rightarrow> False | _ \<Rightarrow> True)"

definition IsTransactionExitStmt :: "Stmt \<Rightarrow> bool" where
  "IsTransactionExitStmt stmt \<longleftrightarrow>
     (case stmt of CommitStmt \<Rightarrow> True | PrepareStmt _ \<Rightarrow> True | RollbackStmt \<Rightarrow> True | RollbackToStmt _ \<Rightarrow> True | _ \<Rightarrow> False)"

definition ignore_result :: "bool xresult \<Rightarrow> unit xresult" where
  "ignore_result r = and_then r (\<lambda>_ xs. XDone () xs)"

definition run_stmt :: "XactEnv \<Rightarrow> bool \<Rightarrow> Stmt \<Rightarrow> Xact \<Rightarrow> unit xresult" where
  "run_stmt env isTopLevel stmt xs =
     (case stmt of
        BeginStmt \<Rightarrow> BeginTransactionBlock xs
      | CommitStmt \<Rightarrow> ignore_result (EndTransactionBlock xs)
      | PrepareStmt gid \<Rightarrow> if RecoveryInProgress env then XError xs else ignore_result (PrepareTransactionBlock gid xs)
      | RollbackStmt \<Rightarrow> UserAbortTransactionBlock xs
      | SavepointStmt name \<Rightarrow> and_then (RequireTransactionChain isTopLevel xs) (\<lambda>_ xs. DefineSavepoint (Some name) xs)
      | ReleaseStmt name \<Rightarrow> and_then (RequireTransactionChain isTopLevel xs) (\<lambda>_ xs. ReleaseSavepoint name xs)
      | RollbackToStmt name \<Rightarrow> and_then (RequireTransactionChain isTopLevel xs) (\<lambda>_ xs. RollbackToSavepoint name xs)
      | OtherStmt es \<Rightarrow> exec_effects env es xs)"

section \<open>Queries\<close>

text \<open>The flag says that a command is open.\<close>

definition start_xact_command :: "bool \<Rightarrow> Xact \<Rightarrow> unit xresult" where
  "start_xact_command xact_started xs = (if \<not> xact_started then StartTransactionCommand xs else XDone () xs)"

definition finish_xact_command :: "XactEnv \<Rightarrow> bool \<Rightarrow> Xact \<Rightarrow> unit xresult" where
  "finish_xact_command env xact_started xs = (if xact_started then CommitTransactionCommand env xs else XDone () xs)"

fun exec_stmts :: "XactEnv \<Rightarrow> bool \<Rightarrow> Stmt list \<Rightarrow> bool \<Rightarrow> Xact \<Rightarrow> unit xresult" where
  "exec_stmts env isTopLevel [] xact_started xs = finish_xact_command env xact_started xs"
| "exec_stmts env isTopLevel (stmt # stmts) xact_started xs =
     (if IsAbortedTransactionBlockState xs \<and> \<not> IsTransactionExitStmt stmt then XError xs
      else and_then (start_xact_command xact_started xs) (\<lambda>_ xs.
           and_then (run_stmt env isTopLevel stmt xs) (\<lambda>_ xs.
             if isTransactionStmt stmt \<or> stmts = []
             then and_then (finish_xact_command env True xs) (\<lambda>_ xs. exec_stmts env isTopLevel stmts False xs)
             else and_then (CommandCounterIncrement xs) (\<lambda>_ xs. exec_stmts env isTopLevel stmts True xs))))"

definition exec_simple_query :: "XactEnv \<Rightarrow> Stmt list \<Rightarrow> Xact \<Rightarrow> unit xresult" where
  "exec_simple_query env stmts xs =
     and_then (start_xact_command False xs) (\<lambda>_ xs. exec_stmts env (length stmts = 1) stmts True xs)"

text \<open>The main loop; \<open>None\<close> is the end of the session.\<close>

definition process_query :: "XactEnv \<Rightarrow> Stmt list \<Rightarrow> Xact \<Rightarrow> Xact option" where
  "process_query env stmts xs =
     (case exec_simple_query env stmts xs of
        XDone _ xs \<Rightarrow> Some xs
      | XError xs \<Rightarrow> (case AbortCurrentTransaction xs of XDone _ xs \<Rightarrow> Some xs | _ \<Rightarrow> None)
      | XFatal \<Rightarrow> None)"

text \<open>Each query comes with what the rest of the server decides during it.\<close>

fun PostgresMain :: "(XactEnv \<times> Stmt list) list \<Rightarrow> Xact \<Rightarrow> Xact option" where
  "PostgresMain [] xs = Some xs"
| "PostgresMain ((env, stmts) # queries) xs =
     (case process_query env stmts xs of None \<Rightarrow> None | Some xs \<Rightarrow> PostgresMain queries xs)"

end
