(* ===== verification/XactSpec.thy ===== *)
theory XactSpec
  imports XactBlock
begin

text \<open>
  What transactions and savepoints mean: a stack of frames with the transaction ids of the work done in each, without
  pending states, and the commit log.  The work of a frame joins the frame around it when its savepoint is released, and
  is aborted when it is rolled back; a commit commits the work of all frames at once.
\<close>

section \<open>Frames\<close>

text \<open>A frame has the name of its savepoint and its transaction ids, the innermost frame comes first.\<close>

type_synonym frame = "string option \<times> TransactionId list"

datatype block =
    Idle
  | Single "TransactionId list"   \<comment> \<open>a transaction without a block\<close>
  | Block "frame list"
  | Failed "frame list"           \<comment> \<open>the innermost frame is aborted\<close>

record spec =
  sblock :: block
  slog :: "TransactionId \<Rightarrow> XidStatus"
  staken :: nat
  sprepared :: "(string \<times> TransactionId \<times> TransactionId list) list"

definition mark :: "TransactionId list \<Rightarrow> XidStatus \<Rightarrow> (TransactionId \<Rightarrow> XidStatus) \<Rightarrow> TransactionId \<Rightarrow> XidStatus" where
  "mark xids st log = (\<lambda>x. if x \<in> set xids then st else log x)"

abbreviation mark_aborted where "mark_aborted xids \<equiv> mark xids TRANSACTION_STATUS_ABORTED"
abbreviation mark_committed where "mark_committed xids \<equiv> mark xids TRANSACTION_STATUS_COMMITTED"

text \<open>All ids of a stack, the outermost first.\<close>

definition all_ids :: "frame list \<Rightarrow> TransactionId list" where
  "all_ids fs = concat (map snd (rev fs))"

section \<open>Statements inside a frame\<close>

type_synonym work = "frame list \<times> nat \<times> (TransactionId \<Rightarrow> XidStatus)"

fun give_ids :: "XactEnv \<Rightarrow> frame list \<Rightarrow> nat \<Rightarrow> frame list \<times> nat" where
  "give_ids env [] n = ([], n)"
| "give_ids env (f # fs) n =
     (if snd f \<noteq> [] then (f # fs, n)
      else case give_ids env fs n of (fs, n) \<Rightarrow> ((fst f, [newXid env n]) # fs, n + 1))"

text \<open>The work of the innermost frame joins the next one, or is undone.\<close>

fun join :: "frame list \<Rightarrow> frame list" where
  "join (f # g # fs) = (fst g, snd g @ snd f) # fs"
| "join fs = fs"

definition undo :: "work \<Rightarrow> work" where
  "undo = (\<lambda>(fs, n, log). (tl fs, n, mark_aborted (snd (hd fs)) log))"

fun in_sequence :: "(work \<Rightarrow> bool \<times> work) list \<Rightarrow> work \<Rightarrow> bool \<times> work" where
  "in_sequence [] w = (True, w)"
| "in_sequence (e # es) w = (case e w of (ok, w) \<Rightarrow> if ok then in_sequence es w else (False, w))"

definition protected :: "(work \<Rightarrow> bool \<times> work) \<Rightarrow> (work \<Rightarrow> bool \<times> work) option \<Rightarrow> work \<Rightarrow> bool \<times> work" where
  "protected body handler = (\<lambda>(fs, n, log).
     case body ((None, []) # fs, n, log) of
       (True, (fs, n, log)) \<Rightarrow> (True, (join fs, n, log))
     | (False, w) \<Rightarrow> (case handler of None \<Rightarrow> (False, undo w) | Some action \<Rightarrow> action (undo w)))"

primrec do_effect :: "XactEnv \<Rightarrow> effect \<Rightarrow> work \<Rightarrow> bool \<times> work" where
  "do_effect env Write = (\<lambda>(fs, n, log). case give_ids env fs n of (fs, n) \<Rightarrow> (True, (fs, n, log)))"
| "do_effect env Raise = (\<lambda>w. (False, w))"
| "do_effect env (ExceptionBlock body handler) =
     protected (in_sequence (map (do_effect env) body)) (map_option in_sequence (map_option (map (do_effect env)) handler))"

section \<open>Statements\<close>

fun frames :: "block \<Rightarrow> frame list" where
  "frames Idle = []"
| "frames (Single xids) = [(None, xids)]"
| "frames (Block fs) = fs"
| "frames (Failed fs) = fs"

definition ended :: "XidStatus \<Rightarrow> spec \<Rightarrow> spec" where
  "ended st sp = sp\<lparr>sblock := Idle, slog := mark (all_ids (frames (sblock sp))) st (slog sp)\<rparr>"

abbreviation rolled_back where "rolled_back \<equiv> ended TRANSACTION_STATUS_ABORTED"

definition committed :: "XactEnv \<Rightarrow> spec \<Rightarrow> bool \<times> spec" where
  "committed env sp = (if precommit_fails env then (False, rolled_back sp) else (True, ended TRANSACTION_STATUS_COMMITTED sp))"

text \<open>\<open>PREPARE TRANSACTION\<close> gives the outermost frame an id if it has none.\<close>

definition prepare :: "XactEnv \<Rightarrow> string \<Rightarrow> spec \<Rightarrow> bool \<times> spec" where
  "prepare env gid sp =
     (let ids = all_ids (frames (sblock sp));
          ids' = (if ids = [] then [newXid env (staken sp)] else ids);
          sp = sp\<lparr>staken := (if ids = [] then staken sp + 1 else staken sp), sblock := Single ids'\<rparr>
      in if precommit_fails env \<or> \<not> MarkAsPreparing env gid (sprepared sp) then (False, rolled_back sp)
         else (True, sp\<lparr>sblock := Idle, sprepared := (gid, hd ids', tl ids') # sprepared sp\<rparr>))"

text \<open>A savepoint is released with all frames inside it, and is undone with them.\<close>

fun release :: "string \<Rightarrow> frame list \<Rightarrow> frame list option" where
  "release name (f # g # fs) =
     (if fst f = Some name then Some (join (f # g # fs)) else release name (join (f # g # fs)))"
| "release name fs = None"

fun rollback_to :: "string \<Rightarrow> frame list \<Rightarrow> (TransactionId \<Rightarrow> XidStatus) \<Rightarrow> (frame list \<times> (TransactionId \<Rightarrow> XidStatus)) option" where
  "rollback_to name (f # g # fs) log =
     (if fst f = Some name then Some ((fst f, []) # g # fs, mark_aborted (snd f) log)
      else rollback_to name (g # fs) (mark_aborted (snd f) log))"
| "rollback_to name fs log = None"

definition spec_finish :: "XactEnv \<Rightarrow> spec \<Rightarrow> bool \<times> spec" where
  "spec_finish env sp = (case sblock sp of Single _ \<Rightarrow> committed env sp | _ \<Rightarrow> (True, sp))"

definition spec_open :: "spec \<Rightarrow> spec" where
  "spec_open sp = (case sblock sp of Idle \<Rightarrow> sp\<lparr>sblock := Single []\<rparr> | _ \<Rightarrow> sp)"

text \<open>The statements that need a block fail in a transaction without one, and end the session in a query string.\<close>

definition needs_block :: "bool \<Rightarrow> spec \<Rightarrow> (bool \<times> spec) option" where
  "needs_block isTopLevel sp = (if isTopLevel then Some (False, sp) else None)"

definition spec_stmt :: "XactEnv \<Rightarrow> bool \<Rightarrow> Stmt \<Rightarrow> spec \<Rightarrow> (bool \<times> spec) option" where
  "spec_stmt env isTopLevel stmt sp =
     (case stmt of
        BeginStmt \<Rightarrow> Some (True, case sblock sp of Single xids \<Rightarrow> sp\<lparr>sblock := Block [(None, xids)]\<rparr> | _ \<Rightarrow> sp)
      | CommitStmt \<Rightarrow>
          Some (case sblock sp of Block _ \<Rightarrow> committed env sp | Failed _ \<Rightarrow> (True, rolled_back sp) | _ \<Rightarrow> (True, sp))
      | PrepareStmt gid \<Rightarrow>
          Some (if RecoveryInProgress env then (False, sp)
                else case sblock sp of Block _ \<Rightarrow> prepare env gid sp | Failed _ \<Rightarrow> (True, rolled_back sp) | _ \<Rightarrow> (True, sp))
      | RollbackStmt \<Rightarrow> Some (True, rolled_back sp)
      | SavepointStmt name \<Rightarrow>
          (case sblock sp of Block fs \<Rightarrow> Some (True, sp\<lparr>sblock := Block ((Some name, []) # fs)\<rparr>) | _ \<Rightarrow> needs_block isTopLevel sp)
      | ReleaseStmt name \<Rightarrow>
          (case sblock sp of
             Block fs \<Rightarrow> Some (case release name fs of None \<Rightarrow> (False, sp) | Some fs \<Rightarrow> (True, sp\<lparr>sblock := Block fs\<rparr>))
           | _ \<Rightarrow> needs_block isTopLevel sp)
      | RollbackToStmt name \<Rightarrow>
          (case sblock sp of
             Single _ \<Rightarrow> needs_block isTopLevel sp
           | b \<Rightarrow> Some (case rollback_to name (frames b) (slog sp) of
                            None \<Rightarrow> (False, sp)
                          | Some (fs, log) \<Rightarrow> (True, sp\<lparr>sblock := Block fs, slog := log\<rparr>)))
      | OtherStmt es \<Rightarrow>
          (case in_sequence (map (do_effect env) es) (frames (sblock sp), staken sp, slog sp) of
             (ok, fs, n, log) \<Rightarrow>
               Some (ok, sp\<lparr>sblock := (case sblock sp of Single _ \<Rightarrow> Single (all_ids fs) | _ \<Rightarrow> Block fs),
                            staken := n, slog := log\<rparr>)))"

text \<open>An error aborts a transaction without a block, and the innermost frame of a block.\<close>

definition spec_error :: "spec \<Rightarrow> spec" where
  "spec_error sp =
     (case sblock sp of
        Single _ \<Rightarrow> rolled_back sp
      | Block (f # fs) \<Rightarrow> sp\<lparr>sblock := Failed ((fst f, []) # fs), slog := mark_aborted (snd f) (slog sp)\<rparr>
      | _ \<Rightarrow> sp)"

section \<open>Queries\<close>

definition is_failed :: "spec \<Rightarrow> bool" where
  "is_failed sp \<longleftrightarrow> (case sblock sp of Failed _ \<Rightarrow> True | _ \<Rightarrow> False)"

fun spec_stmts :: "XactEnv \<Rightarrow> bool \<Rightarrow> Stmt list \<Rightarrow> spec \<Rightarrow> (bool \<times> spec) option" where
  "spec_stmts env isTopLevel [] sp = Some (spec_finish env sp)"
| "spec_stmts env isTopLevel (stmt # stmts) sp =
     (if is_failed sp \<and> \<not> IsTransactionExitStmt stmt then Some (False, sp)
      else case spec_stmt env isTopLevel stmt (spec_open sp) of
             None \<Rightarrow> None
           | Some (ok, sp) \<Rightarrow>
               if \<not> ok then Some (False, sp)
               else if isTransactionStmt stmt \<or> stmts = []
               then (case spec_finish env sp of (ok, sp) \<Rightarrow> if ok then spec_stmts env isTopLevel stmts sp else Some (False, sp))
               else spec_stmts env isTopLevel stmts sp)"

definition spec_query :: "XactEnv \<Rightarrow> Stmt list \<Rightarrow> spec \<Rightarrow> spec option" where
  "spec_query env stmts sp =
     map_option (\<lambda>(ok, sp). if ok then sp else spec_error sp) (spec_stmts env (length stmts = 1) stmts (spec_open sp))"

fun spec_session :: "(XactEnv \<times> Stmt list) list \<Rightarrow> spec \<Rightarrow> spec option" where
  "spec_session [] sp = Some sp"
| "spec_session ((env, stmts) # queries) sp =
     (case spec_query env stmts sp of None \<Rightarrow> None | Some sp \<Rightarrow> spec_session queries sp)"

end
