(* ===== verification/XactProps.thy ===== *)
theory XactProps
  imports XactSpec
begin

text \<open>
  The code refines the stack of frames: for every sequence of queries the states, the commit log and the prepared
  transactions are those of theory XactSpec, the session ends where it says so, and the low-level states are always the
  expected ones.
\<close>

section \<open>Steps of one subtransaction\<close>

definition ids :: "TransactionState \<Rightarrow> TransactionId list" where
  "ids s = (if transactionId s = 0 then [] else transactionId s # childXids s)"

text \<open>How far the command counter may have come.\<close>

definition commands :: "Xact \<Rightarrow> nat" where
  "commands xs = unat (currentCommandId xs) + (if currentCommandIdUsed xs then 1 else 0)"

text \<open>What the operations on the stack leave alone.\<close>

definition same_rest :: "Xact \<Rightarrow> Xact \<Rightarrow> bool" where
  "same_rest xs xs' \<longleftrightarrow> xids_taken xs' = xids_taken xs \<and> prepared_xacts xs' = prepared_xacts xs \<and>
     state_warning xs' = state_warning xs \<and> currentSubTransactionId xs' = currentSubTransactionId xs \<and>
     prepareGID xs' = prepareGID xs \<and> commands xs' \<le> commands xs"

lemma quiet_refl [simp]: "same_rest xs xs"
  by (simp add: same_rest_def)

lemma quiet_trans: "same_rest xs ys \<Longrightarrow> same_rest ys zs \<Longrightarrow> same_rest xs zs"
  by (simp add: same_rest_def)

lemma stack_eq: "stack xs = s # ps \<longleftrightarrow> curState xs = s \<and> parents xs = ps"
  by (simp add: stack_def)

lemma set_stack_stack [simp]: "set_stack (stack xs) xs = xs"
  by (simp add: set_stack_def stack_def)

lemma stack_set_stack [simp]: "ss \<noteq> [] \<Longrightarrow> stack (set_stack ss xs) = ss"
  by (simp add: set_stack_def stack_def)

lemma set_stack_fields [simp]:
  "clog (set_stack ss xs) = clog xs" "xids_taken (set_stack ss xs) = xids_taken xs" "prepared_xacts (set_stack ss xs) = prepared_xacts xs"
  "state_warning (set_stack ss xs) = state_warning xs" "currentSubTransactionId (set_stack ss xs) = currentSubTransactionId xs"
  "prepareGID (set_stack ss xs) = prepareGID xs" "commands (set_stack ss xs) = commands xs"
  by (simp_all add: set_stack_def commands_def)

lemma quiet_set_stack [simp]: "same_rest (set_stack ss xs) ys \<longleftrightarrow> same_rest xs ys" "same_rest xs (set_stack ss ys) \<longleftrightarrow> same_rest xs ys"
  by (simp_all add: same_rest_def)

lemma mark_simps [simp]: "mark [] st log = log" "mark xids st (mark yids st log) = mark (yids @ xids) st log"
  by (auto simp: mark_def)

lemma mark_cong: "set xids = set yids \<Longrightarrow> mark xids st log = mark yids st log"
  by (simp add: mark_def)

lemma set_status_mark: "set_status x xids st log = mark (x # xids) st log"
  by (auto simp: set_status_def mark_def)

lemma counter_ok:
  assumes "commands xs < 2 ^ 32"
  shows "\<exists>xs'. CommandCounterIncrement xs = XDone () xs' \<and> same_rest xs xs' \<and> stack xs' = stack xs \<and> clog xs' = clog xs"
proof (cases "currentCommandIdUsed xs")
  case True
  then have u: "unat (currentCommandId xs) + 1 < 2 ^ 32" using assms by (simp add: commands_def)
  then have n: "unat (currentCommandId xs + 1) = unat (currentCommandId xs) + 1" by (simp add: unat_word_ariths(1))
  then have "currentCommandId xs + 1 \<noteq> FirstCommandId" by (auto simp: FirstCommandId_def)
  then show ?thesis using True n by (simp add: CommandCounterIncrement_def same_rest_def commands_def stack_def)
qed (simp add: CommandCounterIncrement_def)

lemmas sub_defs = warn_unless_def setState_def end_sub_def PopTransaction_def same_rest_def commands_def stack_def Let_def

lemma commit_sub_ok:
  assumes st: "stack xs = s # p # ps" and s: "tstate s = TRANS_INPROGRESS" and c: "commands xs < 2 ^ 32"
    and room: "Suc (length (childXids p) + length (childXids s)) \<le> MaxAllocSize div 4"
  shows "\<exists>xs'. CommitSubTransaction xs = XDone () xs' \<and> same_rest xs xs' \<and> clog xs' = clog xs \<and>
    stack xs' = p\<lparr>childXids := childXids p @ ids s\<rparr> # ps"
proof -
  let ?x = "setState TRANS_COMMIT xs"
  have "commands ?x < 2 ^ 32" "stack ?x = s\<lparr>tstate := TRANS_COMMIT\<rparr> # p # ps" "same_rest xs ?x" "clog ?x = clog xs"
    using c st by (simp_all add: sub_defs)
  then obtain y where y: "CommandCounterIncrement ?x = XDone () y" "same_rest xs y" "stack y = s\<lparr>tstate := TRANS_COMMIT\<rparr> # p # ps" "clog y = clog xs"
    using counter_ok [of ?x] quiet_trans by metis
  have e: "CommitSubTransaction xs =
      and_then (if TransactionIdIsValid (transactionId s) then AtSubCommit_childXids y else XDone () y) (\<lambda>_ xs. end_sub xs)"
    using st s y by (simp add: CommitSubTransaction_def warn_unless_def Let_def stack_eq)
  show ?thesis
  proof (cases "transactionId s = 0")
    case True
    then show ?thesis unfolding e using y by (simp add: TransactionIdIsValid_def ids_def sub_defs)
  next
    case False
    then show ?thesis
      unfolding e using y room by (simp add: TransactionIdIsValid_def ids_def AtSubCommit_childXids_def sub_defs)
  qed
qed

lemma abort_sub_ok:
  assumes st: "stack xs = s # p # ps" and s: "tstate s = TRANS_INPROGRESS" "curTransactionOwner s" "transactionId s = 0 \<longrightarrow> childXids s = []"
    and c: "transactionId s = 0 \<or> clog xs (transactionId s) \<noteq> TRANSACTION_STATUS_COMMITTED"
  shows "\<exists>xs'. AbortSubTransaction xs = XDone () xs' \<and> same_rest xs xs' \<and> clog xs' = mark_aborted (ids s) (clog xs) \<and>
    stack xs' = s\<lparr>tstate := TRANS_ABORT, childXids := []\<rparr> # p # ps"
  using assms
  by (simp add: AbortSubTransaction_def RecordTransactionAbort_def GetCurrentTransactionIdIfAny_def TransactionIdIsValid_def
      TransactionIdDidCommit_def TransactionIdAbortTree_def xactGetCommittedChildren_def AtSubAbort_childXids_def set_status_mark ids_def sub_defs)
    auto

lemma cleanup_sub_ok:
  assumes "stack xs = s # p # ps" "tstate s = TRANS_ABORT"
  shows "\<exists>xs'. CleanupSubTransaction xs = XDone () xs' \<and> same_rest xs xs' \<and> clog xs' = clog xs \<and> stack xs' = p # ps"
  using assms by (simp add: CleanupSubTransaction_def sub_defs)

lemma abort_and_cleanup_sub_ok:
  assumes "stack xs = s # p # ps" "tstate s = TRANS_INPROGRESS" "curTransactionOwner s" "transactionId s = 0 \<longrightarrow> childXids s = []"
    and "transactionId s = 0 \<or> clog xs (transactionId s) \<noteq> TRANSACTION_STATUS_COMMITTED"
  shows "\<exists>xs'. abort_and_cleanup_sub xs = XDone () xs' \<and> same_rest xs xs' \<and> clog xs' = mark_aborted (ids s) (clog xs) \<and> stack xs' = p # ps"
proof -
  obtain y where y: "AbortSubTransaction xs = XDone () y" "same_rest xs y" "clog y = mark_aborted (ids s) (clog xs)"
    "stack y = s\<lparr>tstate := TRANS_ABORT, childXids := []\<rparr> # p # ps"
    using abort_sub_ok [OF assms] by blast
  then show ?thesis
    using cleanup_sub_ok [OF y(4)] quiet_trans [OF y(2)] by (auto simp: abort_and_cleanup_sub_def)
qed

text \<open>The top level.\<close>

definition idle :: "Xact \<Rightarrow> bool" where
  "idle xs \<longleftrightarrow> (\<exists>s. stack xs = [s] \<and> tstate s = TRANS_DEFAULT \<and> blockState s = TBLOCK_DEFAULT \<and> sp_name s = None \<and> savepointLevel s = 0 \<and>
     transactionId s = 0)"

lemmas top_defs = reset_state_def finish_def setBlockState_def idle_def RecordTransactionCommit_def RecordTransactionAbort_def
  GetTopTransactionIdIfAny_def GetCurrentTransactionIdIfAny_def TransactionIdIsValid_def TransactionIdDidCommit_def
  TransactionIdAbortTree_def TransactionIdCommitTree_def xactGetCommittedChildren_def set_status_mark ids_def

lemma commit_ok:
  assumes "stack xs = [s]" "tstate s = TRANS_INPROGRESS" "sp_name s = None" "savepointLevel s = 0" "transactionId s = 0 \<longrightarrow> childXids s = []"
  shows "if precommit_fails env then CommitTransaction env xs = XError xs
    else \<exists>xs'. finish (CommitTransaction env xs) = XDone () xs' \<and> same_rest xs xs' \<and> clog xs' = mark_committed (ids s) (clog xs) \<and> idle xs'"
  using assms by (auto simp: CommitTransaction_def top_defs sub_defs)

lemma abort_top_ok:
  assumes "stack xs = [s]" "tstate s = TRANS_INPROGRESS \<or> tstate s = TRANS_PREPARE" "sp_name s = None" "savepointLevel s = 0"
    and "transactionId s = 0 \<longrightarrow> childXids s = []"
    and "transactionId s = 0 \<or> clog xs (transactionId s) \<noteq> TRANSACTION_STATUS_COMMITTED"
  shows "\<exists>xs'. AbortTransaction xs = XDone () xs' \<and> same_rest xs xs' \<and> clog xs' = mark_aborted (ids s) (clog xs) \<and>
      stack xs' = [s\<lparr>tstate := TRANS_ABORT\<rparr>]"
  using assms by (auto simp: AbortTransaction_def top_defs sub_defs)

lemma cleanup_top_ok:
  assumes "stack xs = [s]" "tstate s = TRANS_ABORT" "sp_name s = None" "savepointLevel s = 0"
  shows "\<exists>xs'. finish (CleanupTransaction xs) = XDone () xs' \<and> same_rest xs xs' \<and> clog xs' = clog xs \<and> idle xs'"
  using assms by (auto simp: CleanupTransaction_def top_defs sub_defs)

lemma abort_and_cleanup_ok:
  assumes "stack xs = [s]" "tstate s = TRANS_INPROGRESS \<or> tstate s = TRANS_PREPARE" "sp_name s = None" "savepointLevel s = 0"
    and "transactionId s = 0 \<longrightarrow> childXids s = []"
    and "transactionId s = 0 \<or> clog xs (transactionId s) \<noteq> TRANSACTION_STATUS_COMMITTED"
  shows "\<exists>xs'. finish (abort_and_cleanup xs) = XDone () xs' \<and> same_rest xs xs' \<and> clog xs' = mark_aborted (ids s) (clog xs) \<and> idle xs'"
proof -
  obtain y where y: "AbortTransaction xs = XDone () y" "same_rest xs y" "clog y = mark_aborted (ids s) (clog xs)" "stack y = [s\<lparr>tstate := TRANS_ABORT\<rparr>]"
    using abort_top_ok [OF assms] by blast
  then have "finish (abort_and_cleanup xs) = finish (CleanupTransaction y)" by (simp add: abort_and_cleanup_def finish_def)
  then show ?thesis using cleanup_top_ok [OF y(4)] assms(3,4) quiet_trans [OF y(2)] y(3) by auto
qed

section \<open>Chains of states\<close>

definition live :: "TBlockState \<Rightarrow> nat \<Rightarrow> frame \<Rightarrow> TransactionState \<Rightarrow> bool" where
  "live b depth f s \<longleftrightarrow> snd f = ids s \<and> (transactionId s = 0 \<longrightarrow> childXids s = []) \<and> fst f = sp_name s \<and> savepointLevel s = 0 \<and>
     tstate s = TRANS_INPROGRESS \<and> curTransactionOwner s \<and> blockState s = b \<and> nestingLevel s = depth"

text \<open>The states of a stack of frames: the top level has block state \<open>base\<close> and no name, the others \<open>sub\<close>.\<close>

fun level_chain :: "TBlockState \<Rightarrow> TBlockState \<Rightarrow> frame list \<Rightarrow> TransactionState list \<Rightarrow> bool" where
  "level_chain sub base [f] [s] \<longleftrightarrow> live base 1 f s \<and> fst f = None"
| "level_chain sub base (f # g # fs) (s # t # ss) \<longleftrightarrow> live sub (length fs + 2) f s \<and> level_chain sub base (g # fs) (t # ss)"
| "level_chain sub base _ _ \<longleftrightarrow> False"

text \<open>A frame has ids only if the one around it has.\<close>

fun upward :: "frame list \<Rightarrow> bool" where
  "upward (f # g # fs) \<longleftrightarrow> (snd f \<noteq> [] \<longrightarrow> snd g \<noteq> []) \<and> upward (g # fs)"
| "upward _ \<longleftrightarrow> True"

definition load :: "frame list \<Rightarrow> nat" where
  "load fs = sum_list (map (\<lambda>f. max 1 (length (snd f))) fs)"

definition empties :: "frame list \<Rightarrow> nat" where
  "empties fs = length (filter (\<lambda>f. snd f = []) fs)"

definition good_ids :: "(nat \<Rightarrow> TransactionId) \<Rightarrow> nat \<Rightarrow> bool" where
  "good_ids g K \<longleftrightarrow> inj_on g {..<K} \<and> (\<forall>i < K. g i \<noteq> 0)"

definition fresh :: "(nat \<Rightarrow> TransactionId) \<Rightarrow> nat \<Rightarrow> work \<Rightarrow> bool" where
  "fresh g K = (\<lambda>(fs, n, log).
     (\<forall>f \<in> set fs. \<forall>x \<in> set (snd f). x \<noteq> 0 \<and> log x \<noteq> TRANSACTION_STATUS_COMMITTED \<and> x \<notin> g ` {n..<K}) \<and>
     (\<forall>i. n \<le> i \<and> i < K \<longrightarrow> log (g i) \<noteq> TRANSACTION_STATUS_COMMITTED))"

text \<open>The relation of the specification and the code inside a transaction, after work of cost \<open>k\<close> of at most \<open>K\<close>.\<close>

definition bounds :: "(nat \<Rightarrow> TransactionId) \<Rightarrow> nat \<Rightarrow> nat \<Rightarrow> work \<Rightarrow> Xact \<Rightarrow> bool" where
  "bounds g K k = (\<lambda>(fs, n, log) xs. clog xs = log \<and> xids_taken xs = n \<and> \<not> state_warning xs \<and> upward fs \<and> fresh g K (fs, n, log) \<and>
     load fs \<le> k \<and> n + empties fs \<le> k \<and> unat (currentSubTransactionId xs) \<le> k + 1 \<and> commands xs \<le> k \<and>
     k \<le> K \<and> good_ids g K \<and> K \<le> MaxAllocSize div 4)"

definition works :: "(nat \<Rightarrow> TransactionId) \<Rightarrow> nat \<Rightarrow> TBlockState \<Rightarrow> nat \<Rightarrow> work \<Rightarrow> Xact \<Rightarrow> bool" where
  "works g K base k w xs \<longleftrightarrow> level_chain TBLOCK_SUBINPROGRESS base (fst w) (stack xs) \<and> bounds g K k w xs"

lemma bounds_mono: "bounds g K k w xs \<Longrightarrow> k \<le> k' \<Longrightarrow> k' \<le> K \<Longrightarrow> bounds g K k' w xs"
  by (auto simp: bounds_def)

lemma works_mono: "works g K base k w xs \<Longrightarrow> k \<le> k' \<Longrightarrow> k' \<le> K \<Longrightarrow> works g K base k' w xs"
  by (auto simp: works_def intro: bounds_mono)

lemma chain_Cons:
  "level_chain sub base (f # fs) ss \<longleftrightarrow> (\<exists>s ss'. ss = s # ss' \<and>
     (if fs = [] then ss' = [] \<and> live base 1 f s \<and> fst f = None else live sub (length fs + 1) f s \<and> level_chain sub base fs ss'))"
  by (cases fs; cases ss; cases "tl ss") auto

lemma chain_Nil [simp]: "\<not> level_chain sub base [] ss" "\<not> level_chain sub base fs []"
  subgoal by simp
  subgoal by (cases fs; cases "tl fs") simp_all
  done

lemma live_ids: "live b d f s \<Longrightarrow> transactionId s = 0 \<longleftrightarrow> snd f = []"
  by (auto simp: live_def ids_def)

lemma max_children: "MaxAllocSize div 4 = 268435455"
  by (simp add: MaxAllocSize_def)

lemma bounds_commands: "bounds g K k w xs \<Longrightarrow> commands xs < 2 ^ 32"
  unfolding bounds_def max_children by (cases w) simp

lemma load_simps [simp]: "load [] = 0" "load (f # fs) = max 1 (length (snd f)) + load fs"
  by (simp_all add: load_def)

lemma empties_simps [simp]: "empties [] = 0" "empties (f # fs) = (if snd f = [] then 1 else 0) + empties fs"
  by (simp_all add: empties_def)

section \<open>Ids\<close>

lemma give_ids_length: "give_ids env fs n = (fs', n') \<Longrightarrow> map fst fs' = map fst fs"
  by (induction fs arbitrary: n fs' n') (auto split: if_splits prod.splits)

lemma upward_ids: "upward (f # fs) \<Longrightarrow> snd f \<noteq> [] \<Longrightarrow> g \<in> set fs \<Longrightarrow> snd g \<noteq> []"
  by (induction fs arbitrary: f) auto

lemma upward_tl: "upward (f # fs) \<Longrightarrow> upward fs"
  by (cases fs) simp_all

lemma give_ids_counts:
  "give_ids env fs n = (fs', n') \<Longrightarrow> load fs' = load fs \<and> n' + empties fs' = n + empties fs \<and> n \<le> n' \<and> (upward fs \<longrightarrow> upward fs' \<and> (\<forall>f \<in> set fs'. snd f \<noteq> []))"
proof (induction fs arbitrary: n fs' n')
  case (Cons f fs)
  show ?case
  proof (cases "snd f = []")
    case False
    then have "fs' = f # fs" "n' = n" using Cons.prems by simp_all
    then show ?thesis using False upward_ids [of f fs] by auto
  next
    case True
    obtain gs m where g: "give_ids env fs n = (gs, m)" by fastforce
    then have e: "fs' = (fst f, [newXid env m]) # gs" "n' = m + 1" using Cons.prems True by auto
    have "upward ((fst f, [newXid env m]) # gs)" if "upward gs" "\<forall>f \<in> set gs. snd f \<noteq> []" using that by (cases gs) auto
    then show ?thesis using Cons.IH [OF g] upward_tl [of f fs] e True by auto
  qed
qed simp

lemma give_ids_fresh:
  "give_ids env fs n = (fs', n') \<Longrightarrow> fresh (newXid env) K (fs, n, log) \<Longrightarrow> good_ids (newXid env) K \<Longrightarrow> n + empties fs \<le> K \<Longrightarrow>
   fresh (newXid env) K (fs', n', log)"
proof (induction fs arbitrary: n fs' n')
  case (Cons f fs)
  show ?case
  proof (cases "snd f = []")
    case False
    then show ?thesis using Cons.prems by auto
  next
    case True
    obtain gs m where g: "give_ids env fs n = (gs, m)" by fastforce
    then have e: "fs' = (fst f, [newXid env m]) # gs" "n' = m + 1" using Cons.prems True by auto
    have "fresh (newXid env) K (fs, n, log)" using Cons.prems(2) by (simp add: fresh_def)
    then have fr: "fresh (newXid env) K (gs, m, log)" using Cons.IH [OF g] Cons.prems(3,4) True by simp
    have m: "m < K" using give_ids_counts [OF g] Cons.prems(4) True by simp
    have new: "newXid env m \<noteq> 0" "newXid env m \<notin> newXid env ` {m + 1..<K}"
      using Cons.prems(3) m unfolding good_ids_def inj_on_def by (blast, fastforce)
    show ?thesis
      unfolding e fresh_def
    proof (clarsimp, intro conjI ballI allI impI)
      show "newXid env m \<noteq> 0" "newXid env m \<notin> newXid env ` {Suc m..<K}" using new by simp_all
      show "log (newXid env m) \<noteq> TRANSACTION_STATUS_COMMITTED" using fr m by (simp add: fresh_def)
    next
      fix f' x assume "f' \<in> set gs" "x \<in> set (snd f')"
      then have "x \<noteq> 0 \<and> log x \<noteq> TRANSACTION_STATUS_COMMITTED \<and> x \<notin> newXid env ` {m..<K}" using fr by (auto simp: fresh_def)
      moreover have "newXid env ` {Suc m..<K} \<subseteq> newXid env ` {m..<K}" by auto
      ultimately show "x \<noteq> 0" "log x \<noteq> TRANSACTION_STATUS_COMMITTED" "x \<notin> newXid env ` {Suc m..<K}" by auto
    next
      fix i assume "Suc m \<le> i \<and> i < K"
      then show "log (newXid env i) \<noteq> TRANSACTION_STATUS_COMMITTED" using fr by (simp add: fresh_def)
    qed
  qed
qed simp

lemma assign_chain:
  "level_chain sub base fs ss \<Longrightarrow> give_ids env fs n = (fs', n') \<Longrightarrow> (\<forall>i < n'. newXid env i \<noteq> 0) \<Longrightarrow>
   \<exists>ss'. AssignTransactionId env ss n = (ss', n') \<and> level_chain sub base fs' ss'"
proof (induction fs arbitrary: ss fs' n')
  case (Cons f fs)
  obtain s ss0 where ss: "ss = s # ss0"
    "if fs = [] then ss0 = [] \<and> live base 1 f s \<and> fst f = None else live sub (length fs + 1) f s \<and> level_chain sub base fs ss0"
    using Cons.prems(1) unfolding chain_Cons by blast
  have z: "transactionId s = 0 \<longleftrightarrow> snd f = []" using ss(2) live_ids [of _ _ f s] by (cases "fs = []") auto
  show ?case
  proof (cases "snd f = []")
    case False
    then show ?thesis using Cons.prems z ss(1) by (auto simp: TransactionIdIsValid_def)
  next
    case True
    obtain gs m where g: "give_ids env fs n = (gs, m)" by fastforce
    then have e: "fs' = (fst f, [newXid env m]) # gs" "n' = m + 1" using Cons.prems True by auto
    have len: "length gs = length fs" using give_ids_length [OF g] by (metis length_map)
    have "\<exists>ss1. AssignTransactionId env ss0 n = (ss1, m) \<and> (if gs = [] then ss1 = [] else level_chain sub base gs ss1)"
    proof (cases fs)
      case Nil
      then show ?thesis using g ss(2) by auto
    next
      case (Cons a list)
      then show ?thesis using Cons.IH [of ss0 gs m] g ss(2) Cons.prems(3) e(2) len by auto
    qed
    then obtain ss1 where s1: "AssignTransactionId env ss0 n = (ss1, m)" "if gs = [] then ss1 = [] else level_chain sub base gs ss1" by blast
    have "newXid env m \<noteq> 0" using Cons.prems(3) e(2) by simp
    then have "live b d (fst f, [newXid env m]) (s\<lparr>transactionId := newXid env m\<rparr>)" if "live b d f s" for b d
      using that True z by (simp add: live_def ids_def)
    then show ?thesis
      unfolding e chain_Cons using ss s1 z True len by (auto simp: TransactionIdIsValid_def split: if_splits)
  qed
qed simp

section \<open>Statements inside a frame\<close>

lemma fresh_mono: "fresh g K (fs, n, log) \<Longrightarrow> (\<And>f. f \<in> set fs' \<Longrightarrow> set (snd f) \<subseteq> (\<Union>f \<in> set fs. set (snd f))) \<Longrightarrow> fresh g K (fs', n, log)"
  by (fastforce simp: fresh_def)

lemma fresh_aborted: "fresh g K (fs, n, log) \<Longrightarrow> fresh g K (fs, n, mark_aborted xids log)"
  by (auto simp: fresh_def mark_def)

lemma write_ok:
  assumes "works (newXid env) K base k (fs, n, log) xs" "k + 1 \<le> K" "give_ids env fs n = (fs', n')"
  shows "\<exists>xs'. exec_effect env Write xs = XDone () xs' \<and> works (newXid env) K base (k + 1) (fs', n', log) xs' \<and>
    prepared_xacts xs' = prepared_xacts xs"
proof -
  have c: "level_chain TBLOCK_SUBINPROGRESS base fs (stack xs)" and b: "bounds (newXid env) K k (fs, n, log) xs"
    using assms(1) by (simp_all add: works_def)
  have bd: "clog xs = log" "xids_taken xs = n" "\<not> state_warning xs" "upward fs" "fresh (newXid env) K (fs, n, log)" "load fs \<le> k"
    "n + empties fs \<le> k" "unat (currentSubTransactionId xs) \<le> k + 1" "commands xs \<le> k" "good_ids (newXid env) K" "K \<le> MaxAllocSize div 4"
    using b by (simp_all add: bounds_def)
  note g = give_ids_counts [OF assms(3)]
  have "\<forall>i < n'. newXid env i \<noteq> 0" using bd(7,10) g assms(2) by (auto simp: good_ids_def)
  then obtain ss where ss: "AssignTransactionId env (stack xs) n = (ss, n')" "level_chain TBLOCK_SUBINPROGRESS base fs' ss"
    using assign_chain [OF c assms(3)] by blast
  have ne: "ss \<noteq> []" using ss(2) by auto
  define ys where "ys = (set_stack ss xs)\<lparr>xids_taken := n', currentCommandIdUsed := True\<rparr>"
  have e: "exec_effect env Write xs = XDone () ys"
    using ss(1) bd(2) by (simp add: GetCurrentTransactionId_def GetCurrentCommandId_def ys_def)
  have "stack ys = ss" using ne by (simp add: ys_def stack_def set_stack_def)
  moreover have "commands ys \<le> k + 1" using bd(9) by (simp add: ys_def commands_def set_stack_def split: if_splits)
  moreover have "fresh (newXid env) K (fs', n', log)"
    using give_ids_fresh [OF assms(3) bd(5,10)] bd(7) assms(2) by simp
  ultimately show ?thesis
    using e ss(2) bd g assms(2) by (auto simp: works_def bounds_def ys_def)
qed

text \<open>A new subtransaction, before and after it is started.\<close>

definition pushed :: "string option \<Rightarrow> nat \<Rightarrow> Xact \<Rightarrow> Xact" where
  "pushed name depth xs =
     xs\<lparr>currentSubTransactionId := currentSubTransactionId xs + 1,
       curState := \<lparr>transactionId = 0, subTransactionId = currentSubTransactionId xs + 1, sp_name = name, savepointLevel = 0,
         tstate = TRANS_DEFAULT, blockState = TBLOCK_SUBBEGIN, nestingLevel = depth, curTransactionOwner = False, childXids = []\<rparr>,
       parents := stack xs\<rparr>"

lemma pushed_ok:
  assumes "works g K base k (fs, n, log) xs" "k + 1 \<le> K"
  shows "push_named name xs = XDone () (pushed name (length fs + 1) xs)"
    "works g K base (k + 1) ((name', []) # fs, n, log)
       (setBlockState TBLOCK_SUBINPROGRESS (StartSubTransaction (pushed name' (length fs + 1) xs)))"
proof -
  have c: "level_chain TBLOCK_SUBINPROGRESS base fs (stack xs)" and b: "bounds g K k (fs, n, log) xs"
    using assms(1) by (simp_all add: works_def)
  obtain f fs0 s ss where st: "fs = f # fs0" "stack xs = s # ss" using c by (cases fs; cases "stack xs") auto
  have s: "savepointLevel s = 0" "nestingLevel s = length fs"
    using c unfolding st chain_Cons by (auto simp: live_def split: if_splits)
  let ?id = "currentSubTransactionId xs + 1"
  have u: "unat (currentSubTransactionId xs) + 1 < 2 ^ 32" using b assms(2) by (simp add: bounds_def max_children)
  then have id: "unat ?id = unat (currentSubTransactionId xs) + 1" by (simp add: unat_word_ariths(1))
  then have id0: "?id \<noteq> InvalidSubTransactionId" by (auto simp: InvalidSubTransactionId_def)
  show "push_named name xs = XDone () (pushed name (length fs + 1) xs)"
    using st(2) s id0 by (cases name) (simp_all add: push_named_def PushTransaction_def pushed_def stack_eq stack_def Let_def)
  let ?z = "setBlockState TBLOCK_SUBINPROGRESS (StartSubTransaction (pushed name' (length fs + 1) xs))"
  have "stack ?z = curState ?z # stack xs"
    by (simp add: setBlockState_def StartSubTransaction_def warn_unless_def pushed_def stack_def)
  moreover have "live TBLOCK_SUBINPROGRESS (length fs + 1) (name', []) (curState ?z)"
    by (simp add: live_def setBlockState_def StartSubTransaction_def warn_unless_def pushed_def ids_def)
  ultimately have "level_chain TBLOCK_SUBINPROGRESS base ((name', []) # fs) (stack ?z)"
    using c st(1) unfolding chain_Cons [of _ _ "(name', [])"] by simp
  moreover have "bounds g K (k + 1) ((name', []) # fs, n, log) ?z"
    using b assms(2) id st(1)
    by (auto simp: bounds_def setBlockState_def StartSubTransaction_def warn_unless_def pushed_def commands_def fresh_def)
  ultimately show "works g K base (k + 1) ((name', []) # fs, n, log) ?z" by (simp add: works_def)
qed

lemma push_ok:
  assumes "works g K base k (fs, n, log) xs" "k + 1 \<le> K"
  shows "\<exists>ys xs'. push_named name xs = XDone () ys \<and> CommitTransactionCommand env ys = XDone () xs' \<and>
    works g K base (k + 1) ((name, []) # fs, n, log) xs' \<and> prepared_xacts xs' = prepared_xacts xs"
proof -
  let ?y = "pushed name (length fs + 1) xs"
  have "CommitTransactionCommand env ?y = XDone () (setBlockState TBLOCK_SUBINPROGRESS (StartSubTransaction ?y))"
    by (subst CommitTransactionCommand.simps) (simp add: pushed_def)
  moreover have "prepared_xacts (setBlockState TBLOCK_SUBINPROGRESS (StartSubTransaction ?y)) = prepared_xacts xs"
    by (simp add: setBlockState_def StartSubTransaction_def warn_unless_def pushed_def)
  ultimately show ?thesis using pushed_ok [OF assms] by blast
qed

text \<open>A savepoint is restarted in its parent.\<close>

lemma restart_ok:
  assumes "works g K TBLOCK_INPROGRESS k (fs, n, log) xs" "k + 1 \<le> K"
  shows "\<exists>xs'. restart name 0 xs = XDone () xs' \<and> works g K TBLOCK_INPROGRESS (k + 1) ((name, []) # fs, n, log) xs' \<and>
    prepared_xacts xs' = prepared_xacts xs"
proof -
  have c: "level_chain TBLOCK_SUBINPROGRESS TBLOCK_INPROGRESS fs (stack xs)" using assms(1) by (simp add: works_def)
  have "blockState (curState xs) \<in> {TBLOCK_INPROGRESS, TBLOCK_SUBINPROGRESS}"
    using c by (cases fs) (auto simp: chain_Cons stack_def live_def split: if_splits)
  moreover have "(pushed None d xs)\<lparr>curState := (curState (pushed None d xs))\<lparr>sp_name := name, savepointLevel := 0\<rparr>\<rparr> = pushed name d xs" for d
    by (simp add: pushed_def)
  ultimately have "restart name 0 xs = XDone () (setBlockState TBLOCK_SUBINPROGRESS (StartSubTransaction (pushed name (length fs + 1) xs)))"
    using pushed_ok(1) [OF assms, of None] by (simp add: restart_def DefineSavepoint_def)
  moreover have "prepared_xacts (setBlockState TBLOCK_SUBINPROGRESS (StartSubTransaction (pushed name (length fs + 1) xs))) = prepared_xacts xs"
    by (simp add: setBlockState_def StartSubTransaction_def warn_unless_def pushed_def)
  ultimately show ?thesis using pushed_ok(2) [OF assms, of name] by auto
qed

lemma quiet_bounds:
  assumes "same_rest xs xs'" "bounds g K k (fs, n, log) xs" "clog xs' = log'" "upward fs'" "fresh g K (fs', n, log')"
    and "load fs' \<le> load fs" "empties fs' \<le> empties fs"
  shows "bounds g K k (fs', n, log') xs'"
  using assms by (auto simp: bounds_def same_rest_def)

lemma chain_Cons2: "level_chain sub base (f # g # fs) ss \<longleftrightarrow>
    (\<exists>s t ss'. ss = s # t # ss' \<and> live sub (length fs + 2) f s \<and> level_chain sub base (g # fs) (t # ss'))"
  by (cases ss; cases "tl ss") auto

lemma chain_sub: "level_chain sub base (f # g # fs) ss \<Longrightarrow> blockState (hd ss) = sub"
  by (auto simp: chain_Cons2 live_def)

text \<open>The effect of a child that is committed on the chain.\<close>

lemma chain_join:
  assumes "level_chain sub base (f # g # fs) (s # t # ss)" "snd f \<noteq> [] \<longrightarrow> snd g \<noteq> []"
  shows "level_chain sub base (join (f # g # fs)) (t\<lparr>childXids := childXids t @ ids s\<rparr> # ss)"
proof -
  have l: "snd f = ids s" using assms(1) by (simp add: live_def)
  have "live b d (fst g, snd g @ snd f) (t\<lparr>childXids := childXids t @ ids s\<rparr>)" if "live b d g t" for b d
    using that assms(2) l by (auto simp: live_def ids_def)
  then show ?thesis using assms(1) by (auto simp: chain_Cons [of _ _ g] chain_Cons [of _ _ "(fst g, snd g @ ids s)"] l split: if_splits)
qed

lemma join_counts: "load (join (f # g # fs)) \<le> load (f # g # fs)" "empties (join (f # g # fs)) \<le> empties (f # g # fs)"
  by auto

lemma upward_join: "upward (f # g # fs) \<Longrightarrow> upward (join (f # g # fs))"
  by (cases fs) auto

lemma join_room:
  assumes "live b d f s" "live b' d' g t" "load (f # g # fs) \<le> MaxAllocSize div 4" "snd f \<noteq> [] \<longrightarrow> snd g \<noteq> []"
  shows "Suc (length (childXids t) + length (childXids s)) \<le> MaxAllocSize div 4"
  using assms by (auto simp: live_def ids_def max_children split: if_splits)

lemma join_step:
  assumes "stack xs = s # t # ss" "live b d f s" "live b' d' g' t" "bounds g K k (f # g' # fs, n, log) xs"
  shows "\<exists>xs'. CommitSubTransaction xs = XDone () xs' \<and> stack xs' = t\<lparr>childXids := childXids t @ ids s\<rparr> # ss \<and>
    bounds g K k (join (f # g' # fs), n, log) xs' \<and> prepared_xacts xs' = prepared_xacts xs \<and> prepareGID xs' = prepareGID xs"
proof -
  have up: "snd f \<noteq> [] \<longrightarrow> snd g' \<noteq> []" "upward (f # g' # fs)" using assms(4) by (simp_all add: bounds_def)
  have "load (f # g' # fs) \<le> MaxAllocSize div 4" using assms(4) unfolding bounds_def by auto
  then have room: "Suc (length (childXids t) + length (childXids s)) \<le> MaxAllocSize div 4" by (rule join_room [OF assms(2,3) _ up(1)])
  have "tstate s = TRANS_INPROGRESS" using assms(2) by (simp add: live_def)
  then obtain xs' where x: "CommitSubTransaction xs = XDone () xs'" "same_rest xs xs'" "clog xs' = clog xs"
    "stack xs' = t\<lparr>childXids := childXids t @ ids s\<rparr> # ss"
    using commit_sub_ok [OF assms(1) _ bounds_commands [OF assms(4)] room] by blast
  have "bounds g K k (join (f # g' # fs), n, log) xs'"
  proof (rule quiet_bounds [OF x(2) assms(4)])
    have "fresh g K (f # g' # fs, n, log)" "clog xs = log" using assms(4) by (simp_all add: bounds_def)
    then show "fresh g K (join (f # g' # fs), n, log)" "clog xs' = log" using x(3) by (auto simp: fresh_def)
  qed (use up upward_join join_counts in blast)+
  then show ?thesis using x by (simp add: same_rest_def)
qed

lemma join_ok:
  assumes "level_chain sub base (f # g' # fs) (stack xs)" "bounds g K k (f # g' # fs, n, log) xs"
  shows "\<exists>xs'. CommitSubTransaction xs = XDone () xs' \<and> level_chain sub base (join (f # g' # fs)) (stack xs') \<and>
    bounds g K k (join (f # g' # fs), n, log) xs' \<and> prepared_xacts xs' = prepared_xacts xs \<and> prepareGID xs' = prepareGID xs"
proof -
  obtain s t ss where st: "stack xs = s # t # ss" "live sub (length fs + 2) f s" "level_chain sub base (g' # fs) (t # ss)"
    using assms(1) unfolding chain_Cons2 by blast
  have up: "snd f \<noteq> [] \<longrightarrow> snd g' \<noteq> []" using assms(2) by (simp add: bounds_def)
  obtain b d where t: "live b d g' t" using st(3) unfolding chain_Cons by (auto split: if_splits)
  show ?thesis using join_step [OF st(1,2) t assms(2)] chain_join [OF assms(1) [unfolded st(1)] up] by auto
qed

lemma fresh_uncommitted:
  "fresh g K (f # fs, n, log) \<Longrightarrow> live b d f s \<Longrightarrow> transactionId s = 0 \<or> log (transactionId s) \<noteq> TRANSACTION_STATUS_COMMITTED"
  unfolding fresh_def live_def ids_def by (cases "transactionId s = 0") auto

lemma fresh_rest: "fresh g K (f # fs, n, log) \<Longrightarrow> fresh g K (fs, n, mark_aborted xids log)"
  by (rule fresh_aborted) (simp add: fresh_def)

lemma undo_step:
  assumes "stack xs = s # t # ss" "live b d f s" "bounds g K k (f # g' # fs, n, log) xs"
  shows "\<exists>xs'. abort_and_cleanup_sub xs = XDone () xs' \<and> stack xs' = t # ss \<and>
    bounds g K k (g' # fs, n, mark_aborted (snd f) log) xs' \<and> prepared_xacts xs' = prepared_xacts xs \<and> prepareGID xs' = prepareGID xs"
proof -
  have fr: "fresh g K (f # g' # fs, n, log)" and cl: "clog xs = log" and up: "upward (g' # fs)" using assms(3) by (simp_all add: bounds_def)
  have s: "tstate s = TRANS_INPROGRESS" "curTransactionOwner s" "transactionId s = 0 \<longrightarrow> childXids s = []" "ids s = snd f"
    using assms(2) by (simp_all add: live_def)
  have un: "transactionId s = 0 \<or> clog xs (transactionId s) \<noteq> TRANSACTION_STATUS_COMMITTED"
    using fresh_uncommitted [OF fr assms(2)] cl by simp
  obtain xs' where x: "abort_and_cleanup_sub xs = XDone () xs'" "same_rest xs xs'" "clog xs' = mark_aborted (ids s) (clog xs)" "stack xs' = t # ss"
    using abort_and_cleanup_sub_ok [OF assms(1) s(1-3) un] by blast
  have "bounds g K k (g' # fs, n, mark_aborted (snd f) log) xs'"
  proof (rule quiet_bounds [OF x(2) assms(3)])
    show "clog xs' = mark_aborted (snd f) log" using x(3) cl s(4) by simp
    show "fresh g K (g' # fs, n, mark_aborted (snd f) log)" by (rule fresh_rest [OF fr])
    show "upward (g' # fs)" by (rule up)
  qed simp_all
  then show ?thesis using x(1,2,4) by (simp add: same_rest_def)
qed

lemma undo_ok:
  assumes "level_chain sub base (f # g' # fs) (stack xs)" "bounds g K k (f # g' # fs, n, log) xs"
  shows "\<exists>xs'. abort_and_cleanup_sub xs = XDone () xs' \<and> stack xs' = parents xs \<and>
    bounds g K k (g' # fs, n, mark_aborted (snd f) log) xs' \<and> prepared_xacts xs' = prepared_xacts xs \<and> prepareGID xs' = prepareGID xs"
proof -
  obtain s t ss where st: "stack xs = s # t # ss" "live sub (length fs + 2) f s"
    using assms(1) unfolding chain_Cons2 by blast
  then show ?thesis using undo_step [OF st assms(2)] by (simp add: stack_eq)
qed

text \<open>A statement and its meaning: the same outcome, the relation after a cost, the same frames.\<close>

definition agrees :: "(nat \<Rightarrow> TransactionId) \<Rightarrow> nat \<Rightarrow> TBlockState \<Rightarrow> nat \<Rightarrow> frame list \<Rightarrow> Xact \<Rightarrow> bool \<times> work \<Rightarrow> unit xresult \<Rightarrow> bool" where
  "agrees g K base k fs xs ow r \<longleftrightarrow>
     (\<exists>xs'. r = (if fst ow then XDone () xs' else XError xs') \<and> works g K base k (snd ow) xs' \<and>
        map fst (fst (snd ow)) = map fst fs \<and> prepared_xacts xs' = prepared_xacts xs)"

definition simulates :: "(nat \<Rightarrow> TransactionId) \<Rightarrow> nat \<Rightarrow> nat \<Rightarrow> (work \<Rightarrow> bool \<times> work) \<Rightarrow> (Xact \<Rightarrow> unit xresult) \<Rightarrow> bool" where
  "simulates g K cost act code \<longleftrightarrow>
     (\<forall>base k w xs. base \<in> {TBLOCK_STARTED, TBLOCK_INPROGRESS} \<and> works g K base k w xs \<and> k + cost \<le> K \<longrightarrow>
        agrees g K base (k + cost) (fst w) xs (act w) (code xs))"

lemma simulatesD:
  "simulates g K cost act code \<Longrightarrow> base \<in> {TBLOCK_STARTED, TBLOCK_INPROGRESS} \<Longrightarrow> works g K base k w xs \<Longrightarrow> k + cost \<le> K \<Longrightarrow>
   agrees g K base (k + cost) (fst w) xs (act w) (code xs)"
  unfolding simulates_def by blast

lemma sequence_ok:
  assumes "\<And>e. e \<in> set es \<Longrightarrow> simulates g K (cost e) (act e) (code e)"
  shows "simulates g K (sum_list (map cost es)) (in_sequence (map act es)) (exec_stmts_plpgsql (map code es))"
  using assms
proof (induction es)
  case Nil
  then show ?case by (simp add: simulates_def agrees_def)
next
  case (Cons e es)
  show ?case unfolding simulates_def
  proof (intro allI impI, elim conjE)
    fix base k w xs
    let ?k = "k + cost e + sum_list (map cost es)"
    assume b: "base \<in> {TBLOCK_STARTED, TBLOCK_INPROGRESS}" and w: "works g K base k w xs" and k: "k + sum_list (map cost (e # es)) \<le> K"
    have "agrees g K base (k + cost e) (fst w) xs (act e w) (code e xs)"
      using simulatesD [OF Cons.prems [of e] b w] k by simp
    then obtain ok w' xs' where e: "act e w = (ok, w')" "code e xs = (if ok then XDone () xs' else XError xs')"
      "works g K base (k + cost e) w' xs'" "map fst (fst w') = map fst (fst w)" "prepared_xacts xs' = prepared_xacts xs"
      unfolding agrees_def by (metis prod.collapse)
    show "agrees g K base (k + sum_list (map cost (e # es))) (fst w) xs (in_sequence (map act (e # es)) w) (exec_stmts_plpgsql (map code (e # es)) xs)"
    proof (cases ok)
      case True
      have "agrees g K base ?k (fst w') xs' (in_sequence (map act es) w') (exec_stmts_plpgsql (map code es) xs')"
        using simulatesD [OF Cons.IH [OF Cons.prems] b e(3)] k by simp
      then show ?thesis using e True by (simp add: agrees_def add.assoc)
    next
      case False
      have "works g K base ?k w' xs'" by (rule works_mono [OF e(3)]) (use k in simp_all)
      then show ?thesis using e False by (simp add: agrees_def add.assoc)
    qed
  qed
qed

lemma chain_state:
  assumes "level_chain sub base fs (stack xs)"
  shows "blockState (curState xs) = (if length fs = 1 then base else sub)"
  using assms by (cases fs) (auto simp: chain_Cons stack_def live_def split: if_splits)

lemma chain_length: "level_chain sub base fs ss \<Longrightarrow> length ss = length fs"
  by (induction fs arbitrary: ss) (auto simp: chain_Cons split: if_splits)

lemma chain_tl: "level_chain sub base (f # g # fs) (stack xs) \<Longrightarrow> level_chain sub base (g # fs) (parents xs)"
  by (auto simp: chain_Cons2 stack_def)

lemma release_ok:
  assumes "works g K base k (f # g' # fs, n, log) xs"
  shows "\<exists>xs'. ReleaseCurrentSubTransaction xs = XDone () xs' \<and> works g K base k (join (f # g' # fs), n, log) xs' \<and> prepared_xacts xs' = prepared_xacts xs"
proof -
  have c: "level_chain TBLOCK_SUBINPROGRESS base (f # g' # fs) (stack xs)" and b: "bounds g K k (f # g' # fs, n, log) xs"
    using assms by (simp_all add: works_def)
  then show ?thesis
    using join_ok [OF c b] chain_state [OF c] by (auto simp: ReleaseCurrentSubTransaction_def works_def)
qed

lemma rollback_ok:
  assumes "works g K base k (f # g' # fs, n, log) xs"
  shows "\<exists>xs'. RollbackAndReleaseCurrentSubTransaction xs = XDone () xs' \<and> works g K base k (undo (f # g' # fs, n, log)) xs' \<and>
    prepared_xacts xs' = prepared_xacts xs"
proof -
  have c: "level_chain TBLOCK_SUBINPROGRESS base (f # g' # fs) (stack xs)" and b: "bounds g K k (f # g' # fs, n, log) xs"
    using assms by (simp_all add: works_def)
  have "RollbackAndReleaseCurrentSubTransaction xs = abort_and_cleanup_sub xs"
    using chain_state [OF c] by (simp add: RollbackAndReleaseCurrentSubTransaction_def abort_and_cleanup_sub_def)
  moreover obtain ys where "abort_and_cleanup_sub xs = XDone () ys" "stack ys = parents xs"
    "bounds g K k (g' # fs, n, mark_aborted (snd f) log) ys" "prepared_xacts ys = prepared_xacts xs"
    using undo_ok [OF c b] by blast
  ultimately show ?thesis using chain_tl [OF c] by (simp add: works_def undo_def)
qed

lemma begin_ok:
  assumes "works g K base k (fs, n, log) xs" "k + 1 \<le> K" "base \<in> {TBLOCK_STARTED, TBLOCK_INPROGRESS}"
  shows "\<exists>xs'. BeginInternalSubTransaction env None xs = XDone () xs' \<and> works g K base (k + 1) ((None, []) # fs, n, log) xs' \<and>
    prepared_xacts xs' = prepared_xacts xs"
proof -
  obtain ys zs where p: "push_named None xs = XDone () ys" "CommitTransactionCommand env ys = XDone () zs"
    "works g K base (k + 1) ((None, []) # fs, n, log) zs" "prepared_xacts zs = prepared_xacts xs"
    using push_ok [OF assms(1,2)] by metis
  have c: "level_chain TBLOCK_SUBINPROGRESS base fs (stack xs)" using assms(1) by (simp add: works_def)
  have "blockState (curState zs) = TBLOCK_SUBINPROGRESS"
    using chain_state [of TBLOCK_SUBINPROGRESS base "(None, []) # fs" zs] p(3) c by (auto simp: works_def)
  then have "StartTransactionCommand zs = XDone () zs" by (simp add: StartTransactionCommand_def)
  then show ?thesis using p chain_state [OF c] assms(3) by (auto simp: BeginInternalSubTransaction_def)
qed

lemma protected_ok:
  assumes body: "simulates g K cb act code" and handler: "rel_option (\<lambda>a c. simulates g K ch a c) hact hcode"
  shows "simulates g K (1 + cb + ch) (protected act hact) (exec_stmt_block env code hcode)"
  unfolding simulates_def
proof (intro allI impI, elim conjE)
  fix base k w xs
  assume b: "base \<in> {TBLOCK_STARTED, TBLOCK_INPROGRESS}" and w: "works g K base k w xs" and k: "k + (1 + cb + ch) \<le> K"
  obtain fs n log where fs: "w = (fs, n, log)" by (cases w) auto
  have ne: "fs \<noteq> []" using w fs by (auto simp: works_def)
  obtain ys where ys: "BeginInternalSubTransaction env None xs = XDone () ys" "works g K base (k + 1) ((None, []) # fs, n, log) ys"
    "prepared_xacts ys = prepared_xacts xs"
    using begin_ok [OF w [unfolded fs] _ b] k by auto
  have "agrees g K base (k + 1 + cb) ((None, []) # fs) ys (act ((None, []) # fs, n, log)) (code ys)"
    using simulatesD [OF body b ys(2)] k by simp
  then obtain ok fs' n' log' zs where a: "act ((None, []) # fs, n, log) = (ok, fs', n', log')" "code ys = (if ok then XDone () zs else XError zs)"
    "works g K base (k + 1 + cb) (fs', n', log') zs" "map fst fs' = map fst ((None, []) # fs)" "prepared_xacts zs = prepared_xacts ys"
    unfolding agrees_def by (metis prod.collapse fst_conv snd_conv)
  obtain f h fs0 where fs': "fs' = f # h # fs0" "fst h # map fst fs0 = map fst fs" "fst f = None"
    using a(4) ne by (cases fs'; cases "tl fs'"; cases fs) auto
  show "agrees g K base (k + (1 + cb + ch)) (fst w) xs (protected act hact w) (exec_stmt_block env code hcode xs)"
  proof (cases ok)
    case True
    obtain us where us: "ReleaseCurrentSubTransaction zs = XDone () us" "works g K base (k + 1 + cb) (join fs', n', log') us"
      "prepared_xacts us = prepared_xacts zs"
      using release_ok [OF a(3) [unfolded fs']] fs' by auto
    have "works g K base (k + (1 + cb + ch)) (join fs', n', log') us" by (rule works_mono [OF us(2)]) (use k in simp_all)
    then show ?thesis
      using True a ys us fs fs' by (simp add: agrees_def protected_def exec_stmt_block_def)
  next
    case False
    obtain us where us: "RollbackAndReleaseCurrentSubTransaction zs = XDone () us" "works g K base (k + 1 + cb) (undo (fs', n', log')) us"
      "prepared_xacts us = prepared_xacts zs"
      using rollback_ok [OF a(3) [unfolded fs']] fs' by auto
    have names: "map fst (fst (undo (fs', n', log'))) = map fst fs" using fs' by (simp add: undo_def)
    have code: "exec_stmt_block env code hcode xs = (case hcode of None \<Rightarrow> XError us | Some action \<Rightarrow> action us)"
      using False a ys us by (simp add: exec_stmt_block_def)
    have spec: "protected act hact w = (case hact of None \<Rightarrow> (False, undo (fs', n', log')) | Some action \<Rightarrow> action (undo (fs', n', log')))"
      using False a fs by (simp add: protected_def)
    show ?thesis
    proof (cases hact)
      case None
      then have "hcode = None" using handler by (cases hcode) simp_all
      moreover have "works g K base (k + (1 + cb + ch)) (undo (fs', n', log')) us" by (rule works_mono [OF us(2)]) (use k in simp_all)
      ultimately show ?thesis using None code spec names us ys a fs by (simp add: agrees_def)
    next
      case (Some ha)
      then obtain hc where hc: "hcode = Some hc" "simulates g K ch ha hc" using handler by (cases hcode) simp_all
      have "agrees g K base (k + 1 + cb + ch) (fst (undo (fs', n', log'))) us (ha (undo (fs', n', log'))) (hc us)"
        by (rule simulatesD [OF hc(2) b us(2)]) (use k in simp)
      then show ?thesis using Some hc(1) code spec names us ys a fs by (simp add: agrees_def add.assoc)
    qed
  qed
qed

primrec effect_cost :: "effect \<Rightarrow> nat" where
  "effect_cost Write = 1"
| "effect_cost Raise = 0"
| "effect_cost (ExceptionBlock body handler) =
     1 + sum_list (map effect_cost body) + (case map_option sum_list (map_option (map effect_cost) handler) of None \<Rightarrow> 0 | Some c \<Rightarrow> c)"

lemma effect_ok: "newXid env = g \<Longrightarrow> simulates g K (effect_cost e) (do_effect env e) (exec_effect env e)"
proof (induction e)
  case Write
  show ?case unfolding simulates_def
  proof (intro allI impI, elim conjE)
    fix base k w xs assume w: "works g K base k w xs" and k: "k + effect_cost Write \<le> K"
    obtain fs n log where fs: "w = (fs, n, log)" by (cases w) auto
    obtain fs' n' where g: "give_ids env fs n = (fs', n')" by fastforce
    obtain xs' where "exec_effect env Write xs = XDone () xs'" "works g K base (k + 1) (fs', n', log) xs'" "prepared_xacts xs' = prepared_xacts xs"
      using write_ok [of env K base k fs n log xs] w fs g k Write by auto
    then show "agrees g K base (k + effect_cost Write) (fst w) xs (do_effect env Write w) (exec_effect env Write xs)"
      using g fs give_ids_length [OF g] by (simp add: agrees_def)
  qed
next
  case Raise
  then show ?case by (simp add: simulates_def agrees_def)
next
  case (ExceptionBlock body handler)
  have b: "simulates g K (sum_list (map effect_cost body)) (in_sequence (map (do_effect env) body)) (exec_stmts_plpgsql (map (exec_effect env) body))"
    by (rule sequence_ok) (use ExceptionBlock in blast)
  show ?case
  proof (cases handler)
    case None
    show ?thesis using protected_ok [OF b, of 0 None None env] None by simp
  next
    case (Some h)
    have "simulates g K (sum_list (map effect_cost h)) (in_sequence (map (do_effect env) h)) (exec_stmts_plpgsql (map (exec_effect env) h))"
      by (rule sequence_ok) (use ExceptionBlock Some in auto)
    then show ?thesis
      using protected_ok [OF b, of "sum_list (map effect_cost h)" "Some (in_sequence (map (do_effect env) h))"
          "Some (exec_stmts_plpgsql (map (exec_effect env) h))" env] Some by simp
  qed
qed

lemma effects_ok:
  "newXid env = g \<Longrightarrow> simulates g K (sum_list (map effect_cost es)) (in_sequence (map (do_effect env) es)) (exec_effects env es)"
  unfolding exec_effects_def by (rule sequence_ok) (rule effect_ok)

end
