(* ===== verification/XactRefine.thy ===== *)
theory XactRefine
  imports XactProps
begin

text \<open>
  The commands: what the pending block states make \<open>CommitTransactionCommand\<close> and \<open>AbortCurrentTransaction\<close> do, statement
  by statement and query by query, and the properties of whole sessions.
\<close>

section \<open>The end of a block\<close>

lemma all_ids_simps [simp]: "all_ids [] = []" "all_ids (f # fs) = all_ids fs @ snd f"
  by (simp_all add: all_ids_def)

lemma all_ids_join: "all_ids (join fs) = all_ids fs"
  by (cases fs rule: join.cases) simp_all

lemma chain_single: "level_chain sub base [f] ss \<longleftrightarrow> (\<exists>s. ss = [s] \<and> live base 1 f s \<and> fst f = None)"
  by (cases ss; cases "tl ss") auto

lemma live_blockState: "live b d f s \<Longrightarrow> live b' d f (s\<lparr>blockState := b'\<rparr>)"
  by (simp add: live_def ids_def)

lemma live_state: "live b d f s \<Longrightarrow> blockState s = b"
  by (simp add: live_def)

text \<open>A chain is marked for its end.\<close>

lemma end_chain_ok:
  "level_chain TBLOCK_SUBINPROGRESS TBLOCK_INPROGRESS fs ss \<Longrightarrow> \<exists>ss'. end_chain ss = Some ss' \<and> level_chain TBLOCK_SUBEND TBLOCK_END fs ss'"
proof (induction fs arbitrary: ss)
  case (Cons f fs)
  show ?case
  proof (cases fs)
    case Nil
    then show ?thesis using Cons.prems by (auto simp: chain_single live_state intro: live_blockState)
  next
    case c: (Cons g gs)
    then obtain s t ss0 where ss: "ss = s # t # ss0" "live TBLOCK_SUBINPROGRESS (length gs + 2) f s"
      "level_chain TBLOCK_SUBINPROGRESS TBLOCK_INPROGRESS (g # gs) (t # ss0)"
      using Cons.prems unfolding c chain_Cons2 by blast
    obtain us where us: "end_chain (t # ss0) = Some us" "level_chain TBLOCK_SUBEND TBLOCK_END (g # gs) us"
      using Cons.IH [of "t # ss0"] ss(3) c by auto
    obtain u us0 where u: "us = u # us0" using us(2) by (cases us) auto
    show ?thesis using ss us u live_blockState [OF ss(2)] c by (auto simp: live_state)
  qed
qed simp

lemma abort_chain_ok:
  "level_chain TBLOCK_SUBINPROGRESS TBLOCK_INPROGRESS fs ss \<Longrightarrow>
   \<exists>ss'. abort_chain ss = Some ss' \<and> level_chain TBLOCK_SUBABORT_PENDING TBLOCK_ABORT_PENDING fs ss'"
proof (induction fs arbitrary: ss)
  case (Cons f fs)
  show ?case
  proof (cases fs)
    case Nil
    then show ?thesis using Cons.prems by (auto simp: chain_single live_state intro: live_blockState)
  next
    case c: (Cons g gs)
    then obtain s t ss0 where ss: "ss = s # t # ss0" "live TBLOCK_SUBINPROGRESS (length gs + 2) f s"
      "level_chain TBLOCK_SUBINPROGRESS TBLOCK_INPROGRESS (g # gs) (t # ss0)"
      using Cons.prems unfolding c chain_Cons2 by blast
    obtain us where us: "abort_chain (t # ss0) = Some us" "level_chain TBLOCK_SUBABORT_PENDING TBLOCK_ABORT_PENDING (g # gs) us"
      using Cons.IH [of "t # ss0"] ss(3) c by auto
    obtain u us0 where u: "us = u # us0" using us(2) by (cases us) auto
    show ?thesis using ss us u live_blockState [OF ss(2)] c by (auto simp: live_state abort_mark_def)
  qed
qed simp

text \<open>All subtransactions are committed into the top level.\<close>

lemma commit_all:
  "level_chain TBLOCK_SUBEND e (f # g' # fs) (stack xs) \<Longrightarrow> e \<noteq> TBLOCK_SUBEND \<Longrightarrow> bounds g K k (f # g' # fs, n, log) xs \<Longrightarrow>
   \<exists>xs'. commit_sub_loop xs = XDone () xs' \<and> level_chain TBLOCK_SUBEND e [(None, all_ids (f # g' # fs))] (stack xs') \<and>
     bounds g K k ([(None, all_ids (f # g' # fs))], n, log) xs' \<and> prepared_xacts xs' = prepared_xacts xs \<and> prepareGID xs' = prepareGID xs"
proof (induction fs arbitrary: f g' xs)
  case Nil
  obtain ys where y: "CommitSubTransaction xs = XDone () ys" "level_chain TBLOCK_SUBEND e (join [f, g']) (stack ys)" "bounds g K k (join [f, g'], n, log) ys"
    "prepared_xacts ys = prepared_xacts xs" "prepareGID ys = prepareGID xs"
    using join_ok [OF Nil(1,3)] by blast
  have "fst g' = None" using Nil(1) by (auto simp: chain_Cons2 chain_single)
  moreover have "blockState (curState ys) = e" using chain_state [OF y(2)] by simp
  ultimately show ?case using y Nil(2) by (subst commit_sub_loop.simps) auto
next
  case (Cons h fs)
  obtain ys where y: "CommitSubTransaction xs = XDone () ys" "level_chain TBLOCK_SUBEND e (join (f # g' # h # fs)) (stack ys)"
    "bounds g K k (join (f # g' # h # fs), n, log) ys" "prepared_xacts ys = prepared_xacts xs" "prepareGID ys = prepareGID xs"
    using join_ok [OF Cons.prems(1,3)] by blast
  have "blockState (curState ys) = TBLOCK_SUBEND" using chain_state [OF y(2)] by simp
  then have "commit_sub_loop xs = commit_sub_loop ys" using y(1) by (subst commit_sub_loop.simps) simp
  then show ?case using Cons.IH [of "(fst g', snd g' @ snd f)" h ys] y Cons.prems(2) by auto
qed

text \<open>An aborted or committed top level leaves the backend idle.\<close>

lemma bounds_ended:
  assumes "same_rest xs xs'" "bounds g K k (fs, n, log) xs" "clog xs' = mark (all_ids fs) st log"
  shows "bounds g K k ([], n, clog xs') xs'"
proof (rule quiet_bounds [OF assms(1,2) refl])
  have f: "fresh g K (fs, n, log)" using assms(2) by (simp add: bounds_def)
  show "fresh g K ([], n, clog xs')" unfolding fresh_def
  proof (simp, intro allI impI, elim conjE)
    fix i assume i: "n \<le> i" "i < K"
    have "g i \<notin> set (all_ids fs)" using f i by (fastforce simp: fresh_def all_ids_def)
    then have "clog xs' (g i) = log (g i)" using assms(3) by (simp add: mark_def)
    then show "clog xs' (g i) \<noteq> TRANSACTION_STATUS_COMMITTED" using f i by (simp add: fresh_def)
  qed
qed simp_all

lemma end_top:
  assumes "level_chain sub base [f] (stack xs)" "bounds g K k ([f], n, log) xs"
  shows "\<exists>xs'. finish (abort_and_cleanup xs) = XDone () xs' \<and> idle xs' \<and> bounds g K k ([], n, mark_aborted (snd f) log) xs' \<and>
      prepared_xacts xs' = prepared_xacts xs"
    and "if precommit_fails env then CommitTransaction env xs = XError xs
      else \<exists>xs'. finish (CommitTransaction env xs) = XDone () xs' \<and> idle xs' \<and> bounds g K k ([], n, mark_committed (snd f) log) xs' \<and>
        prepared_xacts xs' = prepared_xacts xs"
proof -
  obtain s where s: "stack xs = [s]" "live base 1 f s" "fst f = None" using assms(1) by (auto simp: chain_single)
  have l: "tstate s = TRANS_INPROGRESS" "sp_name s = None" "savepointLevel s = 0" "transactionId s = 0 \<longrightarrow> childXids s = []" "ids s = snd f"
    using s(2,3) by (simp_all add: live_def)
  have fr: "fresh g K ([f], n, log)" "clog xs = log" using assms(2) by (simp_all add: bounds_def)
  have un: "transactionId s = 0 \<or> clog xs (transactionId s) \<noteq> TRANSACTION_STATUS_COMMITTED"
    using fresh_uncommitted [OF fr(1) s(2)] fr(2) by simp
  obtain ys where y: "finish (abort_and_cleanup xs) = XDone () ys" "same_rest xs ys" "clog ys = mark_aborted (ids s) (clog xs)" "idle ys"
    using abort_and_cleanup_ok [OF s(1) disjI1 [OF l(1)] l(2-4) un] by blast
  have "bounds g K k ([], n, clog ys) ys"
    by (rule bounds_ended [OF y(2) assms(2), of TRANSACTION_STATUS_ABORTED]) (use y(3) l(5) fr(2) in simp)
  then show "\<exists>xs'. finish (abort_and_cleanup xs) = XDone () xs' \<and> idle xs' \<and> bounds g K k ([], n, mark_aborted (snd f) log) xs' \<and>
      prepared_xacts xs' = prepared_xacts xs"
    using y l(5) fr(2) by (auto simp: same_rest_def)
  show "if precommit_fails env then CommitTransaction env xs = XError xs
      else \<exists>xs'. finish (CommitTransaction env xs) = XDone () xs' \<and> idle xs' \<and> bounds g K k ([], n, mark_committed (snd f) log) xs' \<and>
        prepared_xacts xs' = prepared_xacts xs"
  proof (cases "precommit_fails env")
    case True
    then show ?thesis using commit_ok [OF s(1) l(1-4), of env] by simp
  next
    case False
    then obtain zs where z: "finish (CommitTransaction env xs) = XDone () zs" "same_rest xs zs" "clog zs = mark_committed (ids s) (clog xs)" "idle zs"
      using commit_ok [OF s(1) l(1-4), of env] by auto
    have "bounds g K k ([], n, clog zs) zs"
      by (rule bounds_ended [OF z(2) assms(2), of TRANSACTION_STATUS_COMMITTED]) (use z(3) l(5) fr(2) in simp)
    then show ?thesis using False z l(5) fr(2) by (auto simp: same_rest_def)
  qed
qed

text \<open>All frames are aborted, the innermost first.\<close>

lemma abort_all:
  "level_chain TBLOCK_SUBABORT_PENDING TBLOCK_ABORT_PENDING fs (stack xs) \<Longrightarrow> bounds g K k (fs, n, log) xs \<Longrightarrow>
   \<exists>xs'. CommitTransactionCommand env xs = XDone () xs' \<and> idle xs' \<and> bounds g K k ([], n, mark_aborted (all_ids fs) log) xs' \<and>
     prepared_xacts xs' = prepared_xacts xs"
proof (induction fs arbitrary: xs log)
  case (Cons f fs)
  note b = chain_state [OF Cons.prems(1)]
  show ?case
  proof (cases fs)
    case Nil
    then have "CommitTransactionCommand env xs = finish (abort_and_cleanup xs)"
      using b by (subst CommitTransactionCommand.simps) (simp add: Let_def)
    then show ?thesis using end_top(1) [of _ _ f xs g K k n log] Cons.prems Nil by auto
  next
    case c: (Cons h hs)
    obtain ys where y: "abort_and_cleanup_sub xs = XDone () ys" "stack ys = parents xs" "bounds g K k (h # hs, n, mark_aborted (snd f) log) ys"
      "prepared_xacts ys = prepared_xacts xs"
      using undo_ok Cons.prems unfolding c by blast
    have "CommitTransactionCommand env xs = CommitTransactionCommand env ys"
      using b c y(1) by (subst CommitTransactionCommand.simps) (simp add: Let_def)
    moreover have "level_chain TBLOCK_SUBABORT_PENDING TBLOCK_ABORT_PENDING fs (stack ys)"
      using chain_tl [OF Cons.prems(1) [unfolded c]] y(2) c by simp
    moreover have "mark_aborted (all_ids fs) (mark_aborted (snd f) log) = mark_aborted (all_ids (f # fs)) log"
      by (simp, rule mark_cong) auto
    ultimately show ?thesis using Cons.IH [of ys "mark_aborted (snd f) log"] y(3,4) c by simp
  qed
qed simp

section \<open>Failed blocks\<close>

definition dead :: "TBlockState \<Rightarrow> frame \<Rightarrow> TransactionState \<Rightarrow> bool" where
  "dead b f s \<longleftrightarrow> snd f = [] \<and> fst f = sp_name s \<and> savepointLevel s = 0 \<and> tstate s = TRANS_ABORT \<and> blockState s = b"

text \<open>The innermost level is aborted, the others are live.\<close>

fun failed :: "frame list \<Rightarrow> TransactionState list \<Rightarrow> bool" where
  "failed [f] [s] \<longleftrightarrow> dead TBLOCK_ABORT f s \<and> fst f = None"
| "failed (f # g # fs) (s # ss) \<longleftrightarrow> dead TBLOCK_SUBABORT f s \<and> level_chain TBLOCK_SUBINPROGRESS TBLOCK_INPROGRESS (g # fs) ss"
| "failed _ _ \<longleftrightarrow> False"

lemma failed_Cons: "failed (f # fs) ss \<longleftrightarrow> (\<exists>s ss'. ss = s # ss' \<and>
    (if fs = [] then ss' = [] \<and> dead TBLOCK_ABORT f s \<and> fst f = None
     else dead TBLOCK_SUBABORT f s \<and> level_chain TBLOCK_SUBINPROGRESS TBLOCK_INPROGRESS fs ss'))"
  by (cases fs; cases ss; cases "tl ss") auto

lemma failed_Nil [simp]: "\<not> failed [] ss"
  by simp

lemma bounds_tl: "bounds g K k (f # fs, n, log) xs \<Longrightarrow> snd f = [] \<Longrightarrow> bounds g K k (fs, n, log) xs"
  using upward_tl [of f fs] by (auto simp: bounds_def fresh_def)

lemma quiet_same: "same_rest xs xs' \<Longrightarrow> bounds g K k (fs, n, log) xs \<Longrightarrow> clog xs' = clog xs \<Longrightarrow> bounds g K k (fs, n, log) xs'"
  by (auto simp: bounds_def same_rest_def)

text \<open>The cleanup of the dead level.\<close>

lemma bury:
  assumes "stack xs = s # ss" "dead b f s" "level_chain sub base fs ss" "bounds g K k (fs, n, log) xs"
  shows "\<exists>xs'. CleanupSubTransaction xs = XDone () xs' \<and> stack xs' = ss \<and> bounds g K k (fs, n, log) xs' \<and> prepared_xacts xs' = prepared_xacts xs"
proof -
  obtain t ss0 where ss: "ss = t # ss0" using assms(3) by (cases ss) auto
  have "tstate s = TRANS_ABORT" using assms(2) by (simp add: dead_def)
  then obtain ys where y: "CleanupSubTransaction xs = XDone () ys" "same_rest xs ys" "clog ys = clog xs" "stack ys = ss"
    using cleanup_sub_ok [OF assms(1) [unfolded ss]] ss by blast
  then show ?thesis using quiet_same [OF y(2) assms(4) y(3)] by (auto simp: same_rest_def)
qed

lemma bury_top:
  assumes "stack xs = [s]" "dead b f s" "fst f = None" "bounds g K k ([], n, log) xs"
  shows "\<exists>xs'. finish (CleanupTransaction xs) = XDone () xs' \<and> idle xs' \<and> bounds g K k ([], n, log) xs' \<and> prepared_xacts xs' = prepared_xacts xs"
proof -
  have d: "tstate s = TRANS_ABORT" "sp_name s = None" "savepointLevel s = 0" using assms(2,3) by (simp_all add: dead_def)
  then obtain ys where y: "finish (CleanupTransaction xs) = XDone () ys" "same_rest xs ys" "clog ys = clog xs" "idle ys"
    using cleanup_top_ok [OF assms(1)] by blast
  then show ?thesis
    using quiet_same [OF y(2) assms(4) y(3)] by (auto simp: same_rest_def)
qed

text \<open>The end of a failed block.\<close>

lemma failed_chain_ok:
  assumes "failed fs ss"
  shows "\<exists>ss'. abort_chain ss = Some ss' \<and>
    (\<exists>f fs0 s ss0. fs = f # fs0 \<and> ss' = s # ss0 \<and>
       (if fs0 = [] then ss0 = [] \<and> dead TBLOCK_ABORT_END f s \<and> fst f = None
        else dead TBLOCK_SUBABORT_END f s \<and> level_chain TBLOCK_SUBABORT_PENDING TBLOCK_ABORT_PENDING fs0 ss0))"
proof -
  obtain f fs0 where f: "fs = f # fs0" using assms by (cases fs) auto
  show ?thesis
  proof (cases fs0)
    case Nil
    then show ?thesis using assms f by (auto simp: failed_Cons dead_def)
  next
    case (Cons h hs)
    then obtain s ss0 where s: "ss = s # ss0" "dead TBLOCK_SUBABORT f s" "level_chain TBLOCK_SUBINPROGRESS TBLOCK_INPROGRESS fs0 ss0"
      using assms f by (auto simp: failed_Cons)
    obtain us where us: "abort_chain ss0 = Some us" "level_chain TBLOCK_SUBABORT_PENDING TBLOCK_ABORT_PENDING fs0 us" using abort_chain_ok [OF s(3)] by blast
    obtain t ts where t: "ss0 = t # ts" using s(3) Cons by (cases ss0) auto
    show ?thesis using s us t f Cons by (auto simp: abort_mark_def dead_def)
  qed
qed

lemma end_failed:
  assumes "fs = f # fs0" "stack xs = s # ss0" "bounds g K k (fs0, n, log) xs"
    and "if fs0 = [] then ss0 = [] \<and> dead TBLOCK_ABORT_END f s \<and> fst f = None
         else dead TBLOCK_SUBABORT_END f s \<and> level_chain TBLOCK_SUBABORT_PENDING TBLOCK_ABORT_PENDING fs0 ss0"
  shows "\<exists>xs'. CommitTransactionCommand env xs = XDone () xs' \<and> idle xs' \<and> bounds g K k ([], n, mark_aborted (all_ids fs) log) xs' \<and>
     prepared_xacts xs' = prepared_xacts xs"
proof (cases fs0)
  case Nil
  then have d: "dead TBLOCK_ABORT_END f s" "fst f = None" "ss0 = []" using assms(4) by simp_all
  then have "CommitTransactionCommand env xs = finish (CleanupTransaction xs)"
    using assms(2) by (subst CommitTransactionCommand.simps) (simp add: stack_eq dead_def Let_def)
  moreover have "all_ids fs = []" using Nil d(1) assms(1) by (simp add: dead_def)
  ultimately show ?thesis using bury_top [of xs s _ f g K k n log] d assms(1-3) Nil by simp
next
  case (Cons h hs)
  then have d: "dead TBLOCK_SUBABORT_END f s" "level_chain TBLOCK_SUBABORT_PENDING TBLOCK_ABORT_PENDING fs0 ss0" using assms(4) by simp_all
  obtain ys where y: "CleanupSubTransaction xs = XDone () ys" "stack ys = ss0" "bounds g K k (fs0, n, log) ys" "prepared_xacts ys = prepared_xacts xs"
    using bury [OF assms(2) d(1,2) assms(3)] by blast
  have "CommitTransactionCommand env xs = CommitTransactionCommand env ys"
    using d(1) assms(2) y(1) by (subst CommitTransactionCommand.simps) (simp add: stack_eq dead_def Let_def)
  moreover have "all_ids fs = all_ids fs0" using d(1) assms(1) by (simp add: dead_def)
  ultimately show ?thesis using abort_all [of fs0 ys g K k n log env] d(2) y by simp
qed

section \<open>Savepoints\<close>

lemma live_fields: "live b d f s \<Longrightarrow> sp_name s = fst f \<and> savepointLevel s = 0"
  by (simp add: live_def)

lemma chain_names: "level_chain sub base fs ss \<Longrightarrow> map sp_name ss = map fst fs \<and> (\<forall>s \<in> set ss. savepointLevel s = 0)"
proof (induction fs arbitrary: ss)
  case (Cons f fs)
  then show ?case by (auto simp: chain_Cons dest: live_fields split: if_splits)
qed simp

lemma chain_last: "level_chain sub base fs ss \<Longrightarrow> fst (last fs) = None"
  by (induction fs arbitrary: ss) (auto simp: chain_Cons split: if_splits)

lemma find_names: "find (\<lambda>s. sp_name s = Some name) ss = None \<longleftrightarrow> Some name \<notin> sp_name ` set ss"
  by (auto simp: find_None_iff image_iff)

lemma find_savepoint_iff:
  assumes "map sp_name (stack xs) = map fst fs" "\<forall>s \<in> set (stack xs). savepointLevel s = 0"
  shows "find_savepoint name xs \<longleftrightarrow> Some name \<in> fst ` set fs"
proof -
  have n: "sp_name ` set (stack xs) = fst ` set fs" using assms(1) by (metis list.set_map)
  show ?thesis
  proof (cases "find (\<lambda>s. sp_name s = Some name) (stack xs)")
    case None
    then have "Some name \<notin> fst ` set fs" using find_names [of name "stack xs"] n by simp
    then show ?thesis using None by (simp add: find_savepoint_def)
  next
    case (Some t)
    then have "t \<in> set (stack xs)" "sp_name t = Some name" using find_SomeD by fastforce+
    then have "Some name \<in> fst ` set fs" "savepointLevel t = 0" using assms(2) n by (metis image_eqI)+
    moreover have "savepointLevel (curState xs) = 0" using assms(2) by (simp add: stack_def)
    ultimately show ?thesis using Some by (simp add: find_savepoint_def)
  qed
qed

lemma release_iff: "fst (last fs) = None \<Longrightarrow> release name fs \<noteq> None \<longleftrightarrow> Some name \<in> fst ` set fs"
  by (induction name fs rule: release.induct) (auto split: if_splits)

lemma rollback_to_iff: "fst (last fs) = None \<Longrightarrow> rollback_to name fs log \<noteq> None \<longleftrightarrow> Some name \<in> fst ` set fs"
  by (induction name fs log rule: rollback_to.induct) (auto split: if_splits)

text \<open>A released savepoint and those inside it are committed into the frame around it.\<close>

lemma release_work_off:
  "level_chain TBLOCK_SUBINPROGRESS TBLOCK_INPROGRESS fs ss \<Longrightarrow> stack xs = release_chain name ss \<Longrightarrow> release name fs = Some fs' \<Longrightarrow>
   bounds g K k (fs, n, log) xs \<Longrightarrow>
   \<exists>xs'. commit_sub_loop xs = XDone () xs' \<and> works g K TBLOCK_INPROGRESS k (fs', n, log) xs' \<and> prepared_xacts xs' = prepared_xacts xs"
proof (induction name fs arbitrary: ss xs rule: release.induct)
  case (1 name f h fs)
  obtain s t ss0 where ss: "ss = s # t # ss0" "live TBLOCK_SUBINPROGRESS (length fs + 2) f s"
    "level_chain TBLOCK_SUBINPROGRESS TBLOCK_INPROGRESS (h # fs) (t # ss0)"
    using "1.prems"(1) unfolding chain_Cons2 by blast
  obtain b d where t: "live b d h t" "b \<noteq> TBLOCK_SUBEND" using ss(3) unfolding chain_Cons by (auto split: if_splits)
  have up: "snd f \<noteq> [] \<longrightarrow> snd h \<noteq> []" using "1.prems"(4) by (simp add: bounds_def)
  note sl = live_blockState [OF ss(2), of TBLOCK_SUBEND]
  have ids: "ids (s\<lparr>blockState := TBLOCK_SUBEND\<rparr>) = ids s" by (simp add: ids_def)
  let ?t = "t\<lparr>childXids := childXids t @ ids s\<rparr>"
  have joined: "level_chain TBLOCK_SUBINPROGRESS TBLOCK_INPROGRESS (join (f # h # fs)) (?t # ss0)"
    by (rule chain_join [OF "1.prems"(1) [unfolded ss(1)] up])
  show ?case
  proof (cases "fst f = Some name")
    case True
    then have st: "stack xs = s\<lparr>blockState := TBLOCK_SUBEND\<rparr> # t # ss0"
      using "1.prems"(2) ss live_fields [OF ss(2)] by simp
    obtain ys where y: "CommitSubTransaction xs = XDone () ys" "stack ys = ?t # ss0" "bounds g K k (join (f # h # fs), n, log) ys"
      "prepared_xacts ys = prepared_xacts xs"
      using join_step [OF st sl t(1) "1.prems"(4)] unfolding ids by blast
    have "blockState (curState ys) \<noteq> TBLOCK_SUBEND" using y(2) t by (simp add: stack_eq live_def)
    then have "commit_sub_loop xs = XDone () ys" using y(1) by (subst commit_sub_loop.simps) simp
    then show ?thesis using y joined True "1.prems"(3) by (auto simp: works_def)
  next
    case False
    then have st: "stack xs = s\<lparr>blockState := TBLOCK_SUBEND\<rparr> # t\<lparr>blockState := TBLOCK_SUBEND\<rparr> # (if fst h = Some name then ss0 else release_chain name ss0)"
      using "1.prems"(2) ss live_fields [OF ss(2)] live_fields [OF t(1)] by simp
    obtain ys where y: "CommitSubTransaction xs = XDone () ys"
      "stack ys = t\<lparr>blockState := TBLOCK_SUBEND, childXids := childXids t @ ids s\<rparr> # (if fst h = Some name then ss0 else release_chain name ss0)"
      "bounds g K k (join (f # h # fs), n, log) ys" "prepared_xacts ys = prepared_xacts xs"
      using join_step [OF st sl live_blockState [OF t(1)] "1.prems"(4)] unfolding ids by auto
    have "blockState (curState ys) = TBLOCK_SUBEND" using y(2) by (simp add: stack_eq)
    then have c: "commit_sub_loop xs = commit_sub_loop ys" using y(1) by (subst commit_sub_loop.simps) simp
    have "stack ys = release_chain name (?t # ss0)" using y(2) live_fields [OF t(1)] by simp
    then show ?thesis using "1.IH" [OF False joined _ _ y(3)] "1.prems"(3) False c y(4) by auto
  qed
qed (auto simp: chain_single)

text \<open>A rollback to a savepoint aborts it and those inside it and starts it anew.\<close>

lemma bounds_name: "bounds g K k (f # fs, n, log) xs \<Longrightarrow> bounds g K k ((name, snd f) # fs, n, log) xs"
  by (cases fs) (auto simp: bounds_def fresh_def)

lemma bounds_cur: "bounds g K k w (xs\<lparr>curState := s\<rparr>) \<longleftrightarrow> bounds g K k w xs"
  by (cases w) (simp add: bounds_def commands_def)

definition restarts :: "XactEnv \<Rightarrow> (nat \<Rightarrow> TransactionId) \<Rightarrow> nat \<Rightarrow> nat \<Rightarrow> work \<Rightarrow> work \<Rightarrow> TransactionState list \<Rightarrow> bool" where
  "restarts env g K k w w' ss \<longleftrightarrow> (\<forall>xs. stack xs = ss \<and> bounds g K k w xs \<longrightarrow>
     (\<exists>xs'. CommitTransactionCommand env xs = XDone () xs' \<and> works g K TBLOCK_INPROGRESS (k + 1) w' xs' \<and> prepared_xacts xs' = prepared_xacts xs))"

lemma rollback_live:
  "level_chain TBLOCK_SUBINPROGRESS TBLOCK_INPROGRESS fs ss \<Longrightarrow> rollback_to name fs log = Some (fs', log') \<Longrightarrow> k + 1 \<le> K \<Longrightarrow>
   \<exists>ss'. rollback_chain name ss = Some ss' \<and> restarts env g K k (fs, n, log) (fs', n, log') ss'"
proof (induction name fs log arbitrary: ss rule: rollback_to.induct)
  case (1 name f h fs log)
  obtain s t ss0 where ss: "ss = s # t # ss0" "live TBLOCK_SUBINPROGRESS (length fs + 2) f s"
    "level_chain TBLOCK_SUBINPROGRESS TBLOCK_INPROGRESS (h # fs) (t # ss0)"
    using "1.prems"(1) unfolding chain_Cons2 by blast
  note s = live_fields [OF ss(2)] live_state [OF ss(2)]
  show ?case
  proof (cases "fst f = Some name")
    case True
    then have c: "rollback_chain name ss = Some (s\<lparr>blockState := TBLOCK_SUBRESTART\<rparr> # t # ss0)"
      using ss(1) s by (simp add: restart_mark_def)
    have w: "fs' = (fst f, []) # h # fs" "log' = mark_aborted (snd f) log" using "1.prems"(2) True by simp_all
    have "restarts env g K k (f # h # fs, n, log) (fs', n, log') (s\<lparr>blockState := TBLOCK_SUBRESTART\<rparr> # t # ss0)"
      unfolding restarts_def
    proof (intro allI impI, elim conjE)
      fix xs assume xs: "stack xs = s\<lparr>blockState := TBLOCK_SUBRESTART\<rparr> # t # ss0" and b: "bounds g K k (f # h # fs, n, log) xs"
      let ?s = "s\<lparr>blockState := TBLOCK_SUBRESTART, sp_name := None\<rparr>"
      let ?x = "xs\<lparr>curState := ?s\<rparr>"
      have st: "stack ?x = ?s # t # ss0" using xs by (simp add: stack_eq)
      have l: "live TBLOCK_SUBRESTART (length fs + 2) (None, snd f) ?s" using ss(2) by (simp add: live_def ids_def)
      have bx: "bounds g K k ((None, snd f) # h # fs, n, log) ?x" using bounds_name [OF b] by (simp only: bounds_cur)
      obtain ys where y: "abort_and_cleanup_sub ?x = XDone () ys" "stack ys = t # ss0" "bounds g K k (h # fs, n, mark_aborted (snd f) log) ys"
        "prepared_xacts ys = prepared_xacts ?x"
        using undo_step [OF st l bx] by auto
      have wy: "works g K TBLOCK_INPROGRESS k (h # fs, n, mark_aborted (snd f) log) ys" using y ss(3) by (simp add: works_def)
      have "CommitTransactionCommand env xs = restart (fst f) 0 ys"
        using xs y(1) s by (subst CommitTransactionCommand.simps) (simp add: stack_eq Let_def)
      then show "\<exists>xs'. CommitTransactionCommand env xs = XDone () xs' \<and> works g K TBLOCK_INPROGRESS (k + 1) (fs', n, log') xs' \<and>
          prepared_xacts xs' = prepared_xacts xs"
        using restart_ok [OF wy "1.prems"(3), of "fst f"] y(4) w by auto
    qed
    then show ?thesis using c by simp
  next
    case False
    then have "rollback_to name (h # fs) (mark_aborted (snd f) log) = Some (fs', log')" using "1.prems"(2) by simp
    then obtain us where us: "rollback_chain name (t # ss0) = Some us" "restarts env g K k (h # fs, n, mark_aborted (snd f) log) (fs', n, log') us"
      using "1.IH" [OF False ss(3) _ "1.prems"(3)] by blast
    have c: "rollback_chain name ss = Some (s\<lparr>blockState := TBLOCK_SUBABORT_PENDING\<rparr> # us)"
      using ss(1) s us(1) False by (simp add: abort_mark_def)
    obtain u us0 where u: "us = u # us0" using us(1) by (auto split: if_splits option.splits)
    have "restarts env g K k (f # h # fs, n, log) (fs', n, log') (s\<lparr>blockState := TBLOCK_SUBABORT_PENDING\<rparr> # us)"
      unfolding restarts_def
    proof (intro allI impI, elim conjE)
      fix xs assume xs: "stack xs = s\<lparr>blockState := TBLOCK_SUBABORT_PENDING\<rparr> # us" and b: "bounds g K k (f # h # fs, n, log) xs"
      obtain ys where y: "abort_and_cleanup_sub xs = XDone () ys" "stack ys = us" "bounds g K k (h # fs, n, mark_aborted (snd f) log) ys"
        "prepared_xacts ys = prepared_xacts xs"
        using undo_step [OF xs [unfolded u] live_blockState [OF ss(2)] b] u by auto
      have "CommitTransactionCommand env xs = CommitTransactionCommand env ys"
        using xs y(1) by (subst CommitTransactionCommand.simps) (simp add: stack_eq Let_def)
      then show "\<exists>xs'. CommitTransactionCommand env xs = XDone () xs' \<and> works g K TBLOCK_INPROGRESS (k + 1) (fs', n, log') xs' \<and>
          prepared_xacts xs' = prepared_xacts xs"
        using us(2) y unfolding restarts_def by metis
    qed
    then show ?thesis using c by simp
  qed
qed simp_all

lemma rollback_failed:
  assumes "failed fs ss" "rollback_to name fs log = Some (fs', log')" "k + 1 \<le> K"
  shows "\<exists>ss'. rollback_chain name ss = Some ss' \<and> restarts env g K k (tl fs, n, log) (fs', n, log') ss'"
proof -
  obtain f h hs where fs: "fs = f # h # hs" using assms(2) by (cases fs rule: join.cases) auto
  obtain s ss0 where ss: "ss = s # ss0" "dead TBLOCK_SUBABORT f s" "level_chain TBLOCK_SUBINPROGRESS TBLOCK_INPROGRESS (h # hs) ss0"
    using assms(1) unfolding fs failed_Cons by auto
  have s: "blockState s = TBLOCK_SUBABORT" "sp_name s = fst f" "savepointLevel s = 0" "snd f = []" using ss(2) by (simp_all add: dead_def)
  show ?thesis
  proof (cases "fst f = Some name")
    case True
    then have c: "rollback_chain name ss = Some (s\<lparr>blockState := TBLOCK_SUBABORT_RESTART\<rparr> # ss0)"
      using ss(1) s by (simp add: restart_mark_def)
    have w: "fs' = (fst f, []) # h # hs" "log' = log" using assms(2) True s(4) unfolding fs by simp_all
    have "restarts env g K k (tl fs, n, log) (fs', n, log') (s\<lparr>blockState := TBLOCK_SUBABORT_RESTART\<rparr> # ss0)"
      unfolding restarts_def
    proof (intro allI impI, elim conjE)
      fix xs assume xs: "stack xs = s\<lparr>blockState := TBLOCK_SUBABORT_RESTART\<rparr> # ss0" and b: "bounds g K k (tl fs, n, log) xs"
      let ?s = "s\<lparr>blockState := TBLOCK_SUBABORT_RESTART, sp_name := None\<rparr>"
      let ?x = "xs\<lparr>curState := ?s\<rparr>"
      have st: "stack ?x = ?s # ss0" using xs by (simp add: stack_eq)
      have l: "dead TBLOCK_SUBABORT_RESTART (None, []) ?s" using ss(2) by (simp add: dead_def)
      have bx: "bounds g K k (h # hs, n, log) ?x" using b fs by (simp add: bounds_cur)
      obtain ys where y: "CleanupSubTransaction ?x = XDone () ys" "stack ys = ss0" "bounds g K k (h # hs, n, log) ys"
        "prepared_xacts ys = prepared_xacts ?x"
        using bury [OF st l ss(3) bx] by blast
      have wy: "works g K TBLOCK_INPROGRESS k (h # hs, n, log) ys" using y ss(3) by (simp add: works_def)
      have "CommitTransactionCommand env xs = restart (fst f) 0 ys"
        using xs y(1) s by (subst CommitTransactionCommand.simps) (simp add: stack_eq Let_def)
      then show "\<exists>xs'. CommitTransactionCommand env xs = XDone () xs' \<and> works g K TBLOCK_INPROGRESS (k + 1) (fs', n, log') xs' \<and>
          prepared_xacts xs' = prepared_xacts xs"
        using restart_ok [OF wy assms(3), of "fst f"] y(4) w by auto
    qed
    then show ?thesis using c by simp
  next
    case False
    then have "rollback_to name (h # hs) log = Some (fs', log')" using assms(2) s(4) unfolding fs by simp
    then obtain us where us: "rollback_chain name ss0 = Some us" "restarts env g K k (h # hs, n, log) (fs', n, log') us"
      using rollback_live [OF ss(3) _ assms(3)] by blast
    have c: "rollback_chain name ss = Some (s\<lparr>blockState := TBLOCK_SUBABORT_END\<rparr> # us)"
      using ss(1) s us(1) False by (simp add: abort_mark_def)
    obtain t ts where t: "ss0 = t # ts" using ss(3) by (cases ss0) auto
    obtain u us0 where u: "us = u # us0" using us(1) t by (auto split: if_splits option.splits)
    have "restarts env g K k (tl fs, n, log) (fs', n, log') (s\<lparr>blockState := TBLOCK_SUBABORT_END\<rparr> # us)"
      unfolding restarts_def
    proof (intro allI impI, elim conjE)
      fix xs assume xs: "stack xs = s\<lparr>blockState := TBLOCK_SUBABORT_END\<rparr> # us" and b: "bounds g K k (tl fs, n, log) xs"
      obtain ys where y: "CleanupSubTransaction xs = XDone () ys" "same_rest xs ys" "clog ys = clog xs" "stack ys = us"
        using cleanup_sub_ok [OF xs [unfolded u]] ss(2) u by (auto simp: dead_def)
      have bs: "bounds g K k (h # hs, n, log) ys"
        by (rule quiet_same [OF y(2) _ y(3)]) (use b fs in simp)
      have "CommitTransactionCommand env xs = CommitTransactionCommand env ys"
        using xs y(1) by (subst CommitTransactionCommand.simps) (simp add: stack_eq Let_def)
      then show "\<exists>xs'. CommitTransactionCommand env xs = XDone () xs' \<and> works g K TBLOCK_INPROGRESS (k + 1) (fs', n, log') xs' \<and>
          prepared_xacts xs' = prepared_xacts xs"
        using us(2) y(2,4) bs unfolding restarts_def same_rest_def by metis
    qed
    then show ?thesis using c by simp
  qed
qed

section \<open>Errors\<close>

text \<open>The frames whose work is not yet aborted.\<close>

fun active :: "block \<Rightarrow> frame list" where
  "active (Failed fs) = tl fs"
| "active b = frames b"

text \<open>The relation between commands: the backend and the specification after work of cost \<open>k\<close>.\<close>

definition related :: "(nat \<Rightarrow> TransactionId) \<Rightarrow> nat \<Rightarrow> nat \<Rightarrow> spec \<Rightarrow> Xact \<Rightarrow> bool" where
  "related g K k sp xs \<longleftrightarrow> prepared_xacts xs = sprepared sp \<and> bounds g K k (active (sblock sp), staken sp, slog sp) xs \<and>
     (case sblock sp of
        Idle \<Rightarrow> idle xs
      | Single xids \<Rightarrow> level_chain TBLOCK_SUBINPROGRESS TBLOCK_STARTED [(None, xids)] (stack xs)
      | Block fs \<Rightarrow> level_chain TBLOCK_SUBINPROGRESS TBLOCK_INPROGRESS fs (stack xs)
      | Failed fs \<Rightarrow> failed fs (stack xs))"

definition recovers :: "(nat \<Rightarrow> TransactionId) \<Rightarrow> nat \<Rightarrow> nat \<Rightarrow> spec \<Rightarrow> Xact \<Rightarrow> bool" where
  "recovers g K k sp xs \<longleftrightarrow> (\<exists>xs'. AbortCurrentTransaction xs = XDone () xs' \<and> related g K k (spec_error sp) xs')"

definition outcome :: "(nat \<Rightarrow> TransactionId) \<Rightarrow> nat \<Rightarrow> nat \<Rightarrow> (bool \<times> spec) option \<Rightarrow> unit xresult \<Rightarrow> bool" where
  "outcome g K k r c \<longleftrightarrow>
     (case r of
        None \<Rightarrow> c = XFatal
      | Some (True, sp) \<Rightarrow> (\<exists>xs. c = XDone () xs \<and> related g K k sp xs)
      | Some (False, sp) \<Rightarrow> (\<exists>xs. c = XError xs \<and> recovers g K k sp xs))"

lemma related_mono: "related g K k sp xs \<Longrightarrow> k \<le> k' \<Longrightarrow> k' \<le> K \<Longrightarrow> related g K k' sp xs"
  by (auto simp: related_def intro: bounds_mono)

lemma recovers_mono: "recovers g K k sp xs \<Longrightarrow> k \<le> k' \<Longrightarrow> k' \<le> K \<Longrightarrow> recovers g K k' sp xs"
  unfolding recovers_def using related_mono by blast

lemma outcome_mono: "outcome g K k r c \<Longrightarrow> k \<le> k' \<Longrightarrow> k' \<le> K \<Longrightarrow> outcome g K k' r c"
  unfolding outcome_def by (auto split: option.splits bool.splits intro: related_mono recovers_mono)

lemma related_works:
  "sblock sp = Single xids \<Longrightarrow> related g K k sp xs \<longleftrightarrow>
     works g K TBLOCK_STARTED k ([(None, xids)], staken sp, slog sp) xs \<and> prepared_xacts xs = sprepared sp"
  "sblock sp = Block fs \<Longrightarrow> related g K k sp xs \<longleftrightarrow>
     works g K TBLOCK_INPROGRESS k (fs, staken sp, slog sp) xs \<and> prepared_xacts xs = sprepared sp"
  by (auto simp: related_def works_def)

lemma related_idle:
  "idle xs \<Longrightarrow> bounds g K k ([], n, log) xs \<Longrightarrow> prepared_xacts xs = ps \<Longrightarrow> sblock sp = Idle \<Longrightarrow> staken sp = n \<Longrightarrow> slog sp = log \<Longrightarrow>
   sprepared sp = ps \<Longrightarrow> related g K k sp xs"
  by (simp add: related_def)

lemma idle_recovers: "related g K k sp xs \<Longrightarrow> sblock sp = Idle \<Longrightarrow> recovers g K k sp xs"
  unfolding recovers_def by (subst AbortCurrentTransaction.simps) (auto simp: related_def idle_def stack_eq spec_error_def)

text \<open>A live top level is aborted when its command fails.\<close>

lemma top_recovers:
  assumes "level_chain sub base [f] (stack xs)" "bounds g K k ([f], n, log) xs" "base \<in> {TBLOCK_STARTED, TBLOCK_END, TBLOCK_PREPARE}"
  shows "\<exists>xs'. AbortCurrentTransaction xs = XDone () xs' \<and> idle xs' \<and> bounds g K k ([], n, mark_aborted (snd f) log) xs' \<and>
    prepared_xacts xs' = prepared_xacts xs"
proof -
  have "AbortCurrentTransaction xs = finish (abort_and_cleanup xs)"
    using chain_state [OF assms(1)] assms(3) by (subst AbortCurrentTransaction.simps) auto
  then show ?thesis using end_top(1) [OF assms(1,2)] by simp
qed

lemma block_recovers:
  assumes "level_chain TBLOCK_SUBINPROGRESS TBLOCK_INPROGRESS (f # fs) (stack xs)" "bounds g K k (f # fs, n, log) xs"
  shows "\<exists>xs'. AbortCurrentTransaction xs = XDone () xs' \<and> failed ((fst f, []) # fs) (stack xs') \<and>
    bounds g K k (fs, n, mark_aborted (snd f) log) xs' \<and> prepared_xacts xs' = prepared_xacts xs"
proof -
  note state = chain_state [OF assms(1)]
  obtain s ss b d where st: "stack xs = s # ss" "live b d f s" "if fs = [] then ss = [] \<and> fst f = None else level_chain TBLOCK_SUBINPROGRESS TBLOCK_INPROGRESS fs ss"
    using assms(1) unfolding chain_Cons by (metis (full_types))
  have fr: "fresh g K (f # fs, n, log)" and cl: "clog xs = log" and up: "upward (f # fs)" using assms(2) by (simp_all add: bounds_def)
  have s: "tstate s = TRANS_INPROGRESS" "curTransactionOwner s" "transactionId s = 0 \<longrightarrow> childXids s = []" "ids s = snd f"
    "sp_name s = fst f" "savepointLevel s = 0"
    using st(2) by (auto simp: live_def)
  have un: "transactionId s = 0 \<or> clog xs (transactionId s) \<noteq> TRANSACTION_STATUS_COMMITTED"
    using fresh_uncommitted [OF fr st(2)] cl by simp
  have bo: "bounds g K k (fs, n, mark_aborted (snd f) log) ys" if "same_rest xs ys" "clog ys = mark_aborted (snd f) log" for ys
    by (rule quiet_bounds [OF that(1) assms(2) that(2) upward_tl [OF up] fresh_rest [OF fr]]) simp_all
  show ?thesis
  proof (cases fs)
    case Nil
    then have "stack xs = [s]" "fst f = None" using st by simp_all
    then obtain ys where y: "AbortTransaction xs = XDone () ys" "same_rest xs ys" "clog ys = mark_aborted (snd f) log" "stack ys = [s\<lparr>tstate := TRANS_ABORT\<rparr>]"
      using abort_top_ok [OF _ disjI1 [OF s(1)] _ s(6,3) un] s cl by auto
    let ?z = "setBlockState TBLOCK_ABORT ys"
    have "AbortCurrentTransaction xs = XDone () ?z"
      using state y(1) Nil by (subst AbortCurrentTransaction.simps) simp
    moreover have "failed ((fst f, []) # fs) (stack ?z)"
      using y(4) Nil \<open>fst f = None\<close> s by (simp add: stack_eq setBlockState_def failed_Cons dead_def)
    moreover have "same_rest xs ?z" "clog ?z = mark_aborted (snd f) log" using y(2,3) by (simp_all add: same_rest_def setBlockState_def commands_def)
    ultimately show ?thesis using bo [of ?z] by (simp add: same_rest_def)
  next
    case (Cons h hs)
    then obtain t ts where t: "ss = t # ts" using st(3) by (cases ss) auto
    obtain ys where y: "AbortSubTransaction xs = XDone () ys" "same_rest xs ys" "clog ys = mark_aborted (snd f) log"
      "stack ys = s\<lparr>tstate := TRANS_ABORT, childXids := []\<rparr> # ss"
      using abort_sub_ok [OF st(1) [unfolded t] s(1-3) un] s(4) cl t by auto
    let ?z = "setBlockState TBLOCK_SUBABORT ys"
    have "AbortCurrentTransaction xs = XDone () ?z"
      using state y(1) Cons by (subst AbortCurrentTransaction.simps) simp
    moreover have "failed ((fst f, []) # fs) (stack ?z)"
      using y(4) Cons s st(3) by (simp add: stack_eq stack_def setBlockState_def failed_Cons dead_def)
    moreover have "same_rest xs ?z" "clog ?z = mark_aborted (snd f) log" using y(2,3) by (simp_all add: same_rest_def setBlockState_def commands_def)
    ultimately show ?thesis using bo [of ?z] by (simp add: same_rest_def)
  qed
qed

lemma related_recovers: "related g K k sp xs \<Longrightarrow> recovers g K k sp xs"
proof (cases "sblock sp")
  case Idle
  assume "related g K k sp xs"
  then show ?thesis using Idle by (rule idle_recovers)
next
  case (Single xids)
  assume r: "related g K k sp xs"
  then have "level_chain TBLOCK_SUBINPROGRESS TBLOCK_STARTED [(None, xids)] (stack xs)" "bounds g K k ([(None, xids)], staken sp, slog sp) xs"
    using Single by (simp_all add: related_def)
  then obtain ys where "AbortCurrentTransaction xs = XDone () ys" "idle ys" "bounds g K k ([], staken sp, mark_aborted xids (slog sp)) ys"
    "prepared_xacts ys = prepared_xacts xs"
    using top_recovers by fastforce
  then show ?thesis using r Single by (simp add: recovers_def related_def spec_error_def ended_def)
next
  case (Block fs)
  assume r: "related g K k sp xs"
  then obtain f fs0 where f: "fs = f # fs0" using Block by (cases fs) (auto simp: related_def)
  have "level_chain TBLOCK_SUBINPROGRESS TBLOCK_INPROGRESS (f # fs0) (stack xs)" "bounds g K k (f # fs0, staken sp, slog sp) xs"
    using r Block f by (simp_all add: related_def)
  then obtain ys where "AbortCurrentTransaction xs = XDone () ys" "failed ((fst f, []) # fs0) (stack ys)"
    "bounds g K k (fs0, staken sp, mark_aborted (snd f) (slog sp)) ys" "prepared_xacts ys = prepared_xacts xs"
    using block_recovers by blast
  then show ?thesis using r Block f by (simp add: recovers_def related_def spec_error_def)
next
  case (Failed fs)
  assume r: "related g K k sp xs"
  then have "failed fs (stack xs)" using Failed by (simp add: related_def)
  then have "blockState (curState xs) \<in> {TBLOCK_ABORT, TBLOCK_SUBABORT}"
    by (cases fs) (auto simp: failed_Cons stack_def dead_def split: if_splits)
  then have "AbortCurrentTransaction xs = XDone () xs" by (subst AbortCurrentTransaction.simps) auto
  then show ?thesis using r Failed by (simp add: recovers_def spec_error_def)
qed

section \<open>Commands\<close>

lemma open_ok:
  assumes "related g K k sp xs" "k + 1 \<le> K"
  shows "\<exists>xs'. (if sblock sp = Idle then StartTransactionCommand xs else XDone () xs) = XDone () xs' \<and> related g K (k + 1) (spec_open sp) xs'"
proof (cases "sblock sp = Idle")
  case False
  then have "spec_open sp = sp" by (cases "sblock sp") (simp_all add: spec_open_def)
  then show ?thesis using False related_mono [OF assms(1) _ assms(2)] by simp
next
  case True
  then have b: "bounds g K k ([], staken sp, slog sp) xs" and p: "prepared_xacts xs = sprepared sp" using assms(1) by (simp_all add: related_def)
  obtain s where s: "stack xs = [s]" "tstate s = TRANS_DEFAULT" "blockState s = TBLOCK_DEFAULT" "sp_name s = None" "savepointLevel s = 0"
    using assms(1) True by (auto simp: related_def idle_def)
  let ?x = "setBlockState TBLOCK_STARTED (StartTransaction xs)"
  have "StartTransactionCommand xs = XDone () ?x" using s by (simp add: StartTransactionCommand_def stack_eq)
  moreover have "level_chain TBLOCK_SUBINPROGRESS TBLOCK_STARTED [(None, [])] (stack ?x)"
    using s by (simp add: chain_single StartTransaction_def setBlockState_def warn_unless_def set_stack_def stack_def live_def ids_def Let_def)
  moreover have "bounds g K (k + 1) ([(None, [])], staken sp, slog sp) ?x"
    using b s assms(2)
    by (auto simp: bounds_def StartTransaction_def setBlockState_def warn_unless_def set_stack_def stack_def commands_def fresh_def
        TopSubTransactionId_def FirstCommandId_def Let_def)
  moreover have "prepared_xacts ?x = sprepared sp"
    using p by (simp add: StartTransaction_def setBlockState_def warn_unless_def set_stack_def Let_def)
  ultimately show ?thesis using True by (simp add: related_def spec_open_def)
qed

lemma counter_related:
  assumes "related g K k sp xs"
  shows "\<exists>xs'. CommandCounterIncrement xs = XDone () xs' \<and> related g K k sp xs'"
proof -
  have b: "bounds g K k (active (sblock sp), staken sp, slog sp) xs" using assms by (simp add: related_def)
  obtain ys where y: "CommandCounterIncrement xs = XDone () ys" "same_rest xs ys" "stack ys = stack xs" "clog ys = clog xs"
    using counter_ok [OF bounds_commands [OF b]] by blast
  have "idle ys \<longleftrightarrow> idle xs" using y(3) by (simp add: idle_def)
  then have "related g K k sp ys"
    using assms quiet_same [OF y(2) b y(4)] y(2,3) by (auto simp: related_def same_rest_def split: block.splits)
  then show ?thesis using y(1) by blast
qed

lemma committed_ok:
  assumes "level_chain sub base [(None, xids)] (stack xs)" "bounds g K k ([(None, xids)], staken sp, slog sp) xs" "prepared_xacts xs = sprepared sp"
    and "base \<in> {TBLOCK_STARTED, TBLOCK_END}" "all_ids (frames (sblock sp)) = xids"
  shows "outcome g K k (Some (committed env sp)) (finish (CommitTransaction env xs))"
proof (cases "precommit_fails env")
  case True
  then have c: "finish (CommitTransaction env xs) = XError xs" using end_top(2) [OF assms(1,2), of env] by (simp add: finish_def)
  obtain ys where "AbortCurrentTransaction xs = XDone () ys" "idle ys" "bounds g K k ([], staken sp, mark_aborted xids (slog sp)) ys"
    "prepared_xacts ys = prepared_xacts xs"
    using top_recovers [OF assms(1,2)] assms(4) by auto
  then have "recovers g K k (rolled_back sp) xs"
    using assms(3,5) by (simp add: recovers_def related_def spec_error_def ended_def)
  then show ?thesis using True c by (simp add: outcome_def committed_def)
next
  case False
  then obtain ys where "finish (CommitTransaction env xs) = XDone () ys" "idle ys" "bounds g K k ([], staken sp, mark_committed xids (slog sp)) ys"
    "prepared_xacts ys = prepared_xacts xs"
    using end_top(2) [OF assms(1,2), of env] by auto
  then show ?thesis using False assms(3,5) by (simp add: outcome_def committed_def related_def ended_def)
qed

lemma finish_ok:
  assumes "related g K k sp xs" "sblock sp \<noteq> Idle"
  shows "outcome g K k (Some (spec_finish env sp)) (CommitTransactionCommand env xs)"
proof (cases "sblock sp")
  case (Single xids)
  then have c: "level_chain TBLOCK_SUBINPROGRESS TBLOCK_STARTED [(None, xids)] (stack xs)" "bounds g K k ([(None, xids)], staken sp, slog sp) xs"
    "prepared_xacts xs = sprepared sp"
    using assms by (simp_all add: related_def)
  have "CommitTransactionCommand env xs = finish (CommitTransaction env xs)"
    using chain_state [OF c(1)] by (subst CommitTransactionCommand.simps) (simp add: Let_def)
  then show ?thesis using committed_ok [OF c] Single by (simp add: spec_finish_def)
next
  case (Block fs)
  then have c: "level_chain TBLOCK_SUBINPROGRESS TBLOCK_INPROGRESS fs (stack xs)" using assms by (simp add: related_def)
  have "CommitTransactionCommand env xs = CommandCounterIncrement xs"
    using chain_state [OF c] by (subst CommitTransactionCommand.simps) (simp add: Let_def)
  then show ?thesis using counter_related [OF assms(1)] Block by (auto simp: spec_finish_def outcome_def)
next
  case (Failed fs)
  then have "failed fs (stack xs)" using assms by (simp add: related_def)
  then have "blockState (curState xs) \<in> {TBLOCK_ABORT, TBLOCK_SUBABORT}"
    by (cases fs) (auto simp: failed_Cons stack_def dead_def split: if_splits)
  then have "CommitTransactionCommand env xs = XDone () xs" by (subst CommitTransactionCommand.simps) (auto simp: Let_def)
  then show ?thesis using assms(1) Failed by (auto simp: spec_finish_def outcome_def)
qed (use assms in simp)

text \<open>A transaction statement with the end of its command.\<close>

definition with_finish :: "XactEnv \<Rightarrow> unit xresult \<Rightarrow> unit xresult" where
  "with_finish env r = and_then r (\<lambda>_ xs. CommitTransactionCommand env xs)"

definition spec_with_finish :: "XactEnv \<Rightarrow> (bool \<times> spec) option \<Rightarrow> (bool \<times> spec) option" where
  "spec_with_finish env r =
     (case r of None \<Rightarrow> None | Some (ok, sp) \<Rightarrow> Some (if ok then spec_finish env sp else (False, sp)))"

lemma with_finish_simps [simp]:
  "with_finish env (XDone () xs) = CommitTransactionCommand env xs" "with_finish env (XError xs) = XError xs" "with_finish env XFatal = XFatal"
  by (simp_all add: with_finish_def)

lemma related_end:
  assumes "idle xs" "bounds g K k ([], staken sp, mark_aborted (all_ids (frames (sblock sp))) (slog sp)) xs" "prepared_xacts xs = sprepared sp"
  shows "related g K k (rolled_back sp) xs"
  using assms by (simp add: related_def ended_def)

lemma rolled_back_idle [simp]: "sblock (rolled_back sp) = Idle" "spec_finish env (rolled_back sp) = (True, rolled_back sp)"
  by (simp_all add: ended_def spec_finish_def)

text \<open>The marked end of a live or failed block.\<close>

lemma abort_chain_related:
  assumes "related g K k sp xs" "sblock sp = Block fs \<or> sblock sp = Failed fs"
  shows "\<exists>ss. abort_chain (stack xs) = Some ss \<and> ss \<noteq> [] \<and>
    (\<exists>xs'. CommitTransactionCommand env (set_stack ss xs) = XDone () xs' \<and> related g K k (rolled_back sp) xs')"
  using assms(2)
proof
  assume Block: "sblock sp = Block fs"
  then have c: "level_chain TBLOCK_SUBINPROGRESS TBLOCK_INPROGRESS fs (stack xs)" "bounds g K k (fs, staken sp, slog sp) xs" "prepared_xacts xs = sprepared sp"
    using assms(1) by (simp_all add: related_def)
  obtain ss where ss: "abort_chain (stack xs) = Some ss" "level_chain TBLOCK_SUBABORT_PENDING TBLOCK_ABORT_PENDING fs ss"
    using abort_chain_ok [OF c(1)] by blast
  have ne: "ss \<noteq> []" using ss(2) by auto
  have b: "bounds g K k (fs, staken sp, slog sp) (set_stack ss xs)" using c(2) by (simp add: bounds_def)
  have m: "level_chain TBLOCK_SUBABORT_PENDING TBLOCK_ABORT_PENDING fs (stack (set_stack ss xs))" using ss(2) ne by simp
  obtain ys where "CommitTransactionCommand env (set_stack ss xs) = XDone () ys" "idle ys"
    "bounds g K k ([], staken sp, mark_aborted (all_ids fs) (slog sp)) ys" "prepared_xacts ys = prepared_xacts (set_stack ss xs)"
    using abort_all [OF m b] by blast
  then show ?thesis using ss(1) ne c(3) Block by (auto intro!: related_end)
next
  assume Failed: "sblock sp = Failed fs"
  then have c: "failed fs (stack xs)" "bounds g K k (tl fs, staken sp, slog sp) xs" "prepared_xacts xs = sprepared sp"
    using assms(1) by (simp_all add: related_def)
  obtain ss f fs0 s ss0 where ss: "abort_chain (stack xs) = Some ss" "fs = f # fs0" "ss = s # ss0"
      "if fs0 = [] then ss0 = [] \<and> dead TBLOCK_ABORT_END f s \<and> fst f = None
       else dead TBLOCK_SUBABORT_END f s \<and> level_chain TBLOCK_SUBABORT_PENDING TBLOCK_ABORT_PENDING fs0 ss0"
    using failed_chain_ok [OF c(1)] by blast
  have "bounds g K k (fs0, staken sp, slog sp) (set_stack ss xs)" using c(2) ss(2) by (simp add: bounds_def)
  moreover have "stack (set_stack ss xs) = s # ss0" using ss(3) by simp
  ultimately obtain ys where "CommitTransactionCommand env (set_stack ss xs) = XDone () ys" "idle ys"
    "bounds g K k ([], staken sp, mark_aborted (all_ids fs) (slog sp)) ys" "prepared_xacts ys = prepared_xacts (set_stack ss xs)"
    using end_failed [OF ss(2) _ _ ss(4)] by blast
  then show ?thesis using ss c(3) Failed by (auto intro!: related_end)
qed

text \<open>Setting the state of a single level is what the chain functions do there.\<close>

lemma set_top_state: "set_stack [(curState xs)\<lparr>blockState := b\<rparr>] xs = setBlockState b xs" if "parents xs = []"
  using that by (simp add: set_stack_def setBlockState_def)

lemma related_block_state:
  assumes "related g K k sp xs"
  shows "sblock sp = Single xids \<Longrightarrow> blockState (curState xs) = TBLOCK_STARTED \<and> parents xs = [] \<and> nestingLevel (curState xs) = 1"
    and "sblock sp = Block fs \<Longrightarrow> (if length fs = 1 then blockState (curState xs) = TBLOCK_INPROGRESS \<and> parents xs = []
           else blockState (curState xs) = TBLOCK_SUBINPROGRESS)"
    and "sblock sp = Failed fs \<Longrightarrow> (if length fs = 1 then blockState (curState xs) = TBLOCK_ABORT \<and> parents xs = []
           else blockState (curState xs) = TBLOCK_SUBABORT)"
proof -
  show "sblock sp = Single xids \<Longrightarrow> blockState (curState xs) = TBLOCK_STARTED \<and> parents xs = [] \<and> nestingLevel (curState xs) = 1"
    using assms by (auto simp: related_def chain_single stack_eq live_def)
  show "sblock sp = Block fs \<Longrightarrow> (if length fs = 1 then blockState (curState xs) = TBLOCK_INPROGRESS \<and> parents xs = []
           else blockState (curState xs) = TBLOCK_SUBINPROGRESS)"
    using assms by (cases fs) (auto simp: related_def chain_Cons stack_def live_def split: if_splits)
  show "sblock sp = Failed fs \<Longrightarrow> (if length fs = 1 then blockState (curState xs) = TBLOCK_ABORT \<and> parents xs = []
           else blockState (curState xs) = TBLOCK_SUBABORT)"
    using assms by (cases fs) (auto simp: related_def failed_Cons stack_def dead_def split: if_splits)
qed

lemma rollback_stmt:
  assumes "related g K k sp xs" "sblock sp = Block fs \<or> sblock sp = Failed fs"
  shows "\<exists>xs'. with_finish env (UserAbortTransactionBlock xs) = XDone () xs' \<and> related g K k (rolled_back sp) xs'"
    and "sblock sp = Failed fs \<Longrightarrow> \<exists>ys xs'. EndTransactionBlock xs = XDone False ys \<and> CommitTransactionCommand env ys = XDone () xs' \<and>
      related g K k (rolled_back sp) xs'"
proof -
  obtain ss ys where ss: "abort_chain (stack xs) = Some ss" "CommitTransactionCommand env (set_stack ss xs) = XDone () ys" "related g K k (rolled_back sp) ys"
    using abort_chain_related [OF assms] by blast
  have u: "UserAbortTransactionBlock xs = XDone () (set_stack ss xs)"
    using assms(2) related_block_state(2,3) [OF assms(1), of fs] ss(1) set_top_state [of xs]
    by (auto simp: UserAbortTransactionBlock_def mark_stack_def stack_def split: if_splits)
  then show "\<exists>xs'. with_finish env (UserAbortTransactionBlock xs) = XDone () xs' \<and> related g K k (rolled_back sp) xs'" using ss by simp
  assume "sblock sp = Failed fs"
  then have "EndTransactionBlock xs = XDone False (set_stack ss xs)"
    using related_block_state(3) [OF assms(1), of fs] ss(1) set_top_state [of xs]
    by (auto simp: EndTransactionBlock_def mark_stack_def stack_def split: if_splits)
  then show "\<exists>ys xs'. EndTransactionBlock xs = XDone False ys \<and> CommitTransactionCommand env ys = XDone () xs' \<and> related g K k (rolled_back sp) xs'"
    using ss by blast
qed

section \<open>Commit and prepare\<close>

lemma bounds_set_stack [simp]: "bounds g K k w (set_stack ss xs) \<longleftrightarrow> bounds g K k w xs"
  by (cases w) (simp add: bounds_def)

lemma bounds_setBlockState [simp]: "bounds g K k w (setBlockState b xs) \<longleftrightarrow> bounds g K k w xs"
  by (simp add: setBlockState_def bounds_cur)

lemma setBlockState_fields [simp]:
  "prepared_xacts (setBlockState b xs) = prepared_xacts xs" "stack (setBlockState b xs) = (curState xs)\<lparr>blockState := b\<rparr> # parents xs"
  "prepareGID (setBlockState b xs) = prepareGID xs"
  by (simp_all add: setBlockState_def stack_def)

text \<open>Working off a marked chain: all levels are committed into the top, which is committed or prepared.\<close>

lemma work_off:
  assumes "level_chain TBLOCK_SUBEND e fs (stack xs)" "e \<in> {TBLOCK_END, TBLOCK_PREPARE}" "bounds g K k (fs, n, log) xs"
  shows "\<exists>xs'. CommitTransactionCommand env xs =
      finish (if e = TBLOCK_END then CommitTransaction env xs' else PrepareTransaction env xs') \<and>
    level_chain TBLOCK_SUBEND e [(None, all_ids fs)] (stack xs') \<and> bounds g K k ([(None, all_ids fs)], n, log) xs' \<and>
    prepared_xacts xs' = prepared_xacts xs \<and> prepareGID xs' = prepareGID xs"
proof (cases "\<exists>f. fs = [f]")
  case True
  then obtain f where f: "fs = [f]" by blast
  then have "fs = [(None, all_ids fs)]" using assms(1) by (cases f) (auto simp: chain_single)
  moreover have "CommitTransactionCommand env xs = finish (if e = TBLOCK_END then CommitTransaction env xs else PrepareTransaction env xs)"
    using chain_state [OF assms(1)] assms(2) f by (subst CommitTransactionCommand.simps) (auto simp: Let_def)
  ultimately show ?thesis using assms by (intro exI [of _ xs]) simp
next
  case False
  then obtain f h hs where f: "fs = f # h # hs" using assms(1) by (cases fs rule: join.cases) auto
  have "e \<noteq> TBLOCK_SUBEND" using assms(2) by auto
  then obtain ys where y: "commit_sub_loop xs = XDone () ys" "level_chain TBLOCK_SUBEND e [(None, all_ids fs)] (stack ys)"
    "bounds g K k ([(None, all_ids fs)], n, log) ys" "prepared_xacts ys = prepared_xacts xs" "prepareGID ys = prepareGID xs"
    using commit_all [OF assms(1) [unfolded f] _ assms(3) [unfolded f]] f by metis
  have "blockState (curState ys) = e" using chain_state [OF y(2)] by simp
  then have "CommitTransactionCommand env xs = finish (if e = TBLOCK_END then CommitTransaction env ys else PrepareTransaction env ys)"
    using chain_state [OF assms(1)] assms(2) f y(1) by (subst CommitTransactionCommand.simps) (auto simp: Let_def)
  then show ?thesis using y by blast
qed

text \<open>The mark of \<open>COMMIT\<close>.\<close>

lemma end_block:
  assumes "related g K k sp xs" "sblock sp = Block fs"
  shows "\<exists>ss. EndTransactionBlock xs = XDone True (set_stack ss xs) \<and> ss \<noteq> [] \<and> level_chain TBLOCK_SUBEND TBLOCK_END fs ss"
proof -
  have c: "level_chain TBLOCK_SUBINPROGRESS TBLOCK_INPROGRESS fs (stack xs)" using assms by (simp add: related_def)
  obtain ss where ss: "end_chain (stack xs) = Some ss" "level_chain TBLOCK_SUBEND TBLOCK_END fs ss" using end_chain_ok [OF c] by blast
  have "EndTransactionBlock xs = XDone True (set_stack ss xs)"
    using related_block_state(2) [OF assms] ss(1) set_top_state [of xs]
    by (auto simp: EndTransactionBlock_def mark_stack_def stack_def split: if_splits)
  then show ?thesis using ss(2) by auto
qed

lemma commit_block:
  assumes "related g K k sp xs" "sblock sp = Block fs"
  shows "outcome g K k (Some (committed env sp)) (with_finish env (ignore_result (EndTransactionBlock xs)))"
proof -
  obtain ss where ss: "EndTransactionBlock xs = XDone True (set_stack ss xs)" "ss \<noteq> []" "level_chain TBLOCK_SUBEND TBLOCK_END fs ss"
    using end_block [OF assms] by blast
  have b: "bounds g K k (fs, staken sp, slog sp) (set_stack ss xs)" and p: "prepared_xacts xs = sprepared sp"
    using assms by (simp_all add: related_def)
  have m: "level_chain TBLOCK_SUBEND TBLOCK_END fs (stack (set_stack ss xs))" using ss by simp
  obtain ys where "CommitTransactionCommand env (set_stack ss xs) = finish (CommitTransaction env ys)"
    "level_chain TBLOCK_SUBEND TBLOCK_END [(None, all_ids fs)] (stack ys)" "bounds g K k ([(None, all_ids fs)], staken sp, slog sp) ys"
    "prepared_xacts ys = prepared_xacts xs"
    using work_off [OF m _ b, of env] by auto
  then show ?thesis
    using committed_ok [of TBLOCK_SUBEND TBLOCK_END "all_ids fs" ys g K k sp env] p ss(1) assms(2) by (simp add: ignore_result_def)
qed

text \<open>The chain marked for \<open>PREPARE TRANSACTION\<close>.\<close>

lemma chain_base:
  "level_chain sub base fs ss \<Longrightarrow> level_chain sub base' fs (butlast ss @ [(last ss)\<lparr>blockState := base'\<rparr>])"
proof (induction fs arbitrary: ss)
  case (Cons f fs)
  show ?case
  proof (cases fs)
    case Nil
    then show ?thesis using Cons.prems by (auto simp: chain_single intro: live_blockState)
  next
    case c: (Cons h hs)
    then obtain s t ss0 where ss: "ss = s # t # ss0" "live sub (length hs + 2) f s" "level_chain sub base (h # hs) (t # ss0)"
      using Cons.prems unfolding c chain_Cons2 by blast
    have i: "level_chain sub base' (h # hs) (butlast (t # ss0) @ [(last (t # ss0))\<lparr>blockState := base'\<rparr>])" using Cons.IH [of "t # ss0"] ss(3) c by simp
    show ?thesis unfolding c chain_Cons [of _ _ f] using ss i by auto
  qed
qed simp

lemma chain_last_state: "level_chain sub base fs ss \<Longrightarrow> blockState (last ss) = base"
  by (induction fs arbitrary: ss) (auto simp: chain_Cons live_def split: if_splits)

lemma prepare_recovers:
  assumes s: "stack xs = [s]" "tstate s = TRANS_INPROGRESS \<or> tstate s = TRANS_PREPARE" "sp_name s = None" "savepointLevel s = 0"
      "transactionId s = 0 \<longrightarrow> childXids s = []" "blockState s = TBLOCK_PREPARE" "ids s = xids"
    and b: "bounds g K k ([(None, xids)], staken sp, slog sp) xs" and p: "prepared_xacts xs = sprepared sp" "sblock sp = Single xids"
  shows "recovers g K k (rolled_back sp) xs"
proof -
  have cl: "clog xs = slog sp" and fr: "\<forall>x \<in> set xids. slog sp x \<noteq> TRANSACTION_STATUS_COMMITTED" using b by (simp_all add: bounds_def fresh_def)
  have "transactionId s = 0 \<or> transactionId s \<in> set xids" using s(7) by (auto simp: ids_def split: if_splits)
  then have un: "transactionId s = 0 \<or> clog xs (transactionId s) \<noteq> TRANSACTION_STATUS_COMMITTED" using fr cl by auto
  obtain ys where y: "finish (abort_and_cleanup xs) = XDone () ys" "same_rest xs ys" "clog ys = mark_aborted xids (slog sp)" "idle ys"
    using abort_and_cleanup_ok [OF s(1-5) un] s(7) cl by auto
  have "bounds g K k ([], staken sp, clog ys) ys"
    by (rule bounds_ended [OF y(2) b, of TRANSACTION_STATUS_ABORTED]) (use y(3) in simp)
  moreover have "AbortCurrentTransaction xs = finish (abort_and_cleanup xs)"
    using s(1,6) by (subst AbortCurrentTransaction.simps) (simp add: stack_eq)
  ultimately show ?thesis using y p by (simp add: recovers_def related_def spec_error_def ended_def same_rest_def)
qed

lemma get_id_top:
  assumes "level_chain sub base [(None, xids)] (stack xs)" "bounds (newXid env) K k ([(None, xids)], n, log) xs"
  shows "\<exists>xs'. GetCurrentTransactionId env xs = xs' \<and> prepared_xacts xs' = prepared_xacts xs \<and> prepareGID xs' = prepareGID xs \<and>
    (let ids' = (if xids = [] then [newXid env n] else xids); n' = (if xids = [] then n + 1 else n)
     in level_chain sub base [(None, ids')] (stack xs') \<and> bounds (newXid env) K k ([(None, ids')], n', log) xs')"
proof -
  let ?ids = "if xids = [] then [newXid env n] else xids" and ?n = "if xids = [] then n + 1 else n"
  have g: "give_ids env [(None, xids)] n = ([(None, ?ids)], ?n)" by simp
  have b: "xids_taken xs = n" "good_ids (newXid env) K" "n + empties [(None, xids)] \<le> k" "k \<le> K" "fresh (newXid env) K ([(None, xids)], n, log)"
    "load [(None, xids)] \<le> k"
    using assms(2) by (simp_all add: bounds_def)
  have "\<forall>i < ?n. newXid env i \<noteq> 0" using b by (auto simp: good_ids_def)
  then obtain ss where ss: "AssignTransactionId env (stack xs) n = (ss, ?n)" "level_chain sub base [(None, ?ids)] ss"
    using assign_chain [OF assms(1) g] by blast
  have e: "GetCurrentTransactionId env xs = (set_stack ss xs)\<lparr>xids_taken := ?n\<rparr>"
    using ss(1) b(1) by (simp add: GetCurrentTransactionId_def)
  have f: "fresh (newXid env) K ([(None, ?ids)], ?n, log)" using give_ids_fresh [OF g b(5,2)] b(3,4) by simp
  have "ss \<noteq> []" using ss(2) by auto
  then have "stack ((set_stack ss xs)\<lparr>xids_taken := ?n\<rparr>) = ss" by (simp add: stack_def set_stack_def)
  moreover have "bounds (newXid env) K k ([(None, ?ids)], ?n, log) ((set_stack ss xs)\<lparr>xids_taken := ?n\<rparr>)"
    using assms(2) f b(3,6) by (auto simp: bounds_def commands_def set_stack_def)
  ultimately show ?thesis using e ss(2) by (simp add: Let_def set_stack_def)
qed

lemma prepare_top:
  assumes "level_chain sub TBLOCK_PREPARE [(None, all_ids fs)] (stack xs)" "bounds (newXid env) K k ([(None, all_ids fs)], staken sp, slog sp) xs"
    and "prepared_xacts xs = sprepared sp" "sblock sp = Block fs" "prepareGID xs = gid"
  shows "outcome (newXid env) K k (Some (prepare env gid sp)) (finish (PrepareTransaction env xs))"
proof -
  let ?ids = "if all_ids fs = [] then [newXid env (staken sp)] else all_ids fs"
  let ?n = "if all_ids fs = [] then staken sp + 1 else staken sp"
  let ?sp = "sp\<lparr>staken := ?n, sblock := Single ?ids\<rparr>"
  obtain ys where y: "GetCurrentTransactionId env xs = ys" "prepared_xacts ys = sprepared sp" "prepareGID ys = gid"
    "level_chain sub TBLOCK_PREPARE [(None, ?ids)] (stack ys)" "bounds (newXid env) K k ([(None, ?ids)], ?n, slog sp) ys"
    using get_id_top [OF assms(1,2)] assms(3,5) by (auto simp: Let_def)
  obtain s where s: "stack ys = [s]" "live TBLOCK_PREPARE 1 (None, ?ids) s" using y(4) unfolding chain_single by blast
  then have l: "tstate s = TRANS_INPROGRESS" "ids s = ?ids" "sp_name s = None" "savepointLevel s = 0" "transactionId s = 0 \<longrightarrow> childXids s = []"
    by (simp_all add: live_def)
  have x: "transactionId s # childXids s = ?ids" using l(2) by (auto simp: ids_def split: if_splits)
  have cur: "curState ys = s" using s(1) by (simp add: stack_eq)
  have p: "PrepareTransaction env xs = (if precommit_fails env then XError ys
      else let zs = setState TRANS_PREPARE ys
           in if \<not> MarkAsPreparing env gid (sprepared sp) then XError zs
              else XDone () (reset_state (zs\<lparr>prepared_xacts := (gid, transactionId s, childXids s) # sprepared sp\<rparr>)))"
    using y(1-3) l(1) cur by (simp add: PrepareTransaction_def warn_unless_def setState_def xactGetCommittedChildren_def Let_def)
  have e: "prepare env gid sp = (if precommit_fails env \<or> \<not> MarkAsPreparing env gid (sprepared sp) then (False, rolled_back ?sp)
      else (True, ?sp\<lparr>sblock := Idle, sprepared := (gid, transactionId s, childXids s) # sprepared sp\<rparr>))"
    using assms(4) x by (simp add: prepare_def Let_def flip: x)
  let ?z = "setState TRANS_PREPARE ys"
  have z: "stack ?z = [s\<lparr>tstate := TRANS_PREPARE\<rparr>]" "bounds (newXid env) K k ([(None, ?ids)], ?n, slog sp) ?z" "prepared_xacts ?z = sprepared sp"
    using s(1) y(2,5) by (simp_all add: stack_eq setState_def stack_def bounds_cur)
  have bs: "blockState s = TBLOCK_PREPARE" using s(2) by (simp add: live_def)
  have rec1: "recovers (newXid env) K k (rolled_back ?sp) ys"
    by (rule prepare_recovers [of _ s ?ids]) (use s(1) l bs y(2,5) in simp_all)
  have lz: "ids (s\<lparr>tstate := TRANS_PREPARE\<rparr>) = ?ids" unfolding l(2) [symmetric] by (simp add: ids_def)
  have rec2: "recovers (newXid env) K k (rolled_back ?sp) ?z"
    by (rule prepare_recovers [of _ "s\<lparr>tstate := TRANS_PREPARE\<rparr>" ?ids]) (use z l(3-5) lz bs in simp_all)
  let ?done = "setBlockState TBLOCK_DEFAULT (reset_state (?z\<lparr>prepared_xacts := (gid, transactionId s, childXids s) # sprepared sp\<rparr>))"
  have "fresh (newXid env) K ([], ?n, slog sp)" using y(5) by (simp add: bounds_def fresh_def)
  then have "bounds (newXid env) K k ([], ?n, slog sp) ?done"
    using y(5) by (simp add: bounds_def commands_def setBlockState_def reset_state_def setState_def)
  moreover have "idle ?done" "prepared_xacts ?done = (gid, transactionId s, childXids s) # sprepared sp"
    using s(1) l(3,4) by (simp_all add: idle_def stack_eq setBlockState_def reset_state_def setState_def stack_def)
  ultimately have ok: "related (newXid env) K k (?sp\<lparr>sblock := Idle, sprepared := (gid, transactionId s, childXids s) # sprepared sp\<rparr>) ?done"
    by (simp add: related_def)
  show ?thesis
  proof (cases "precommit_fails env \<or> \<not> MarkAsPreparing env gid (sprepared sp)")
    case True
    then show ?thesis unfolding p e using rec1 rec2 by (auto simp: outcome_def finish_def Let_def)
  next
    case False
    then show ?thesis unfolding p e using ok by (simp add: outcome_def finish_def Let_def)
  qed
qed

end
