(* ===== verification/XactSession.thy ===== *)
theory XactSession
  imports XactRefine
begin

text \<open>
  Statements, queries and sessions: each transaction statement with the end of its command does what the frames say, hence
  so does every query and every session.
\<close>

section \<open>Transaction statements\<close>

lemma outcome_simps [simp]:
  "outcome g K k None c \<longleftrightarrow> c = XFatal"
  "outcome g K k (Some (True, sp)) c \<longleftrightarrow> (\<exists>xs. c = XDone () xs \<and> related g K k sp xs)"
  "outcome g K k (Some (False, sp)) c \<longleftrightarrow> (\<exists>xs. c = XError xs \<and> recovers g K k sp xs)"
  by (simp_all add: outcome_def)

lemma related_K: "related g K k sp xs \<Longrightarrow> k \<le> K"
  by (auto simp: related_def bounds_def)

text \<open>\<open>BEGIN\<close>.\<close>

lemma begin_stmt:
  assumes "related g K k sp xs" "sblock sp \<noteq> Idle" "\<not> is_failed sp"
  shows "outcome g K k (spec_with_finish env (spec_stmt env lev BeginStmt sp)) (with_finish env (run_stmt env lev BeginStmt xs))"
proof (cases "sblock sp")
  case (Single xids)
  note st = related_block_state(1) [OF assms(1) Single]
  let ?x = "setBlockState TBLOCK_INPROGRESS (setBlockState TBLOCK_BEGIN xs)"
  have "with_finish env (run_stmt env lev BeginStmt xs) = CommitTransactionCommand env (setBlockState TBLOCK_BEGIN xs)"
    using st by (simp add: run_stmt_def BeginTransactionBlock_def)
  also have "\<dots> = XDone () ?x" by (subst CommitTransactionCommand.simps) (simp add: setBlockState_def)
  finally have c: "with_finish env (run_stmt env lev BeginStmt xs) = XDone () ?x" .
  have "related g K k (sp\<lparr>sblock := Block [(None, xids)]\<rparr>) ?x"
    using assms(1) Single by (auto simp: related_def chain_single stack_eq setBlockState_def bounds_cur intro: live_blockState)
  then show ?thesis using c Single by (simp add: spec_with_finish_def spec_stmt_def spec_finish_def)
next
  case (Block fs)
  then have "run_stmt env lev BeginStmt xs = XDone () xs"
    using related_block_state(2) [OF assms(1) Block] by (auto simp: run_stmt_def BeginTransactionBlock_def split: if_splits)
  then show ?thesis using finish_ok [OF assms(1,2), of env] Block by (simp add: spec_with_finish_def spec_stmt_def)
qed (use assms(2,3) in \<open>simp_all add: is_failed_def\<close>)

text \<open>\<open>COMMIT\<close>.\<close>

lemma commit_stmt:
  assumes "related g K k sp xs" "sblock sp \<noteq> Idle"
  shows "outcome g K k (spec_with_finish env (spec_stmt env lev CommitStmt sp)) (with_finish env (run_stmt env lev CommitStmt xs))"
proof (cases "sblock sp")
  case (Single xids)
  then have "run_stmt env lev CommitStmt xs = XDone () xs"
    using related_block_state(1) [OF assms(1) Single] by (simp add: run_stmt_def EndTransactionBlock_def ignore_result_def)
  then show ?thesis using finish_ok [OF assms, of env] Single by (simp add: spec_with_finish_def spec_stmt_def)
next
  case (Block fs)
  have "spec_with_finish env (spec_stmt env lev CommitStmt sp) = Some (committed env sp)"
    using Block by (simp add: spec_with_finish_def spec_stmt_def committed_def spec_finish_def ended_def)
  then show ?thesis using commit_block [OF assms(1) Block, of env] by (simp add: run_stmt_def)
next
  case (Failed fs)
  obtain ys zs where "EndTransactionBlock xs = XDone False ys" "CommitTransactionCommand env ys = XDone () zs" "related g K k (rolled_back sp) zs"
    using rollback_stmt(2) [OF assms(1) disjI2 [OF Failed] Failed] by blast
  then show ?thesis using Failed by (simp add: spec_with_finish_def spec_stmt_def run_stmt_def ignore_result_def)
qed (use assms(2) in simp)

text \<open>\<open>PREPARE TRANSACTION\<close>.\<close>

lemma prepare_block:
  assumes "related (newXid env) K k sp xs" "sblock sp = Block fs"
  shows "outcome (newXid env) K k (Some (prepare env gid sp)) (with_finish env (ignore_result (PrepareTransactionBlock gid xs)))"
proof -
  obtain ss where ss: "EndTransactionBlock xs = XDone True (set_stack ss xs)" "ss \<noteq> []" "level_chain TBLOCK_SUBEND TBLOCK_END fs ss"
    using end_block [OF assms] by blast
  let ?ss = "butlast ss @ [(last ss)\<lparr>blockState := TBLOCK_PREPARE\<rparr>]" and ?x = "set_stack (butlast ss @ [(last ss)\<lparr>blockState := TBLOCK_PREPARE\<rparr>]) xs\<lparr>prepareGID := gid\<rparr>"
  have xx: "set_stack ?ss (set_stack ss xs)\<lparr>prepareGID := gid\<rparr> = ?x" by (simp add: set_stack_def)
  have e: "PrepareTransactionBlock gid xs = XDone True ?x"
    unfolding xx [symmetric] using ss(1,2) chain_last_state [OF ss(3)] by (simp add: PrepareTransactionBlock_def Let_def)
  have st: "stack ?x = ?ss" by (simp add: set_stack_def stack_def)
  then have c: "level_chain TBLOCK_SUBEND TBLOCK_PREPARE fs (stack ?x)" using chain_base [OF ss(3)] by simp
  have b: "bounds (newXid env) K k (fs, staken sp, slog sp) ?x" and p: "prepared_xacts ?x = sprepared sp" "prepareGID ?x = gid"
    using assms by (simp_all add: related_def bounds_def commands_def set_stack_def)
  obtain ys where ys: "CommitTransactionCommand env ?x = finish (PrepareTransaction env ys)"
    "level_chain TBLOCK_SUBEND TBLOCK_PREPARE [(None, all_ids fs)] (stack ys)" "bounds (newXid env) K k ([(None, all_ids fs)], staken sp, slog sp) ys"
    "prepared_xacts ys = prepared_xacts ?x" "prepareGID ys = prepareGID ?x"
    using work_off [OF c _ b, of env] by auto
  have "outcome (newXid env) K k (Some (prepare env gid sp)) (finish (PrepareTransaction env ys))"
    by (rule prepare_top [OF ys(2,3) _ assms(2)]) (use ys(4,5) p in simp_all)
  then show ?thesis using e ys(1) by (simp add: ignore_result_def)
qed

lemma prepare_stmt:
  assumes "related (newXid env) K k sp xs" "sblock sp \<noteq> Idle"
  shows "outcome (newXid env) K k (spec_with_finish env (spec_stmt env lev (PrepareStmt gid) sp)) (with_finish env (run_stmt env lev (PrepareStmt gid) xs))"
proof (cases "RecoveryInProgress env")
  case True
  then show ?thesis using related_recovers [OF assms(1)] by (simp add: run_stmt_def spec_stmt_def spec_with_finish_def)
next
  case False
  show ?thesis
  proof (cases "sblock sp")
    case (Single xids)
    then have "PrepareTransactionBlock gid xs = XDone False xs"
      using related_block_state(1) [OF assms(1) Single] by (simp add: PrepareTransactionBlock_def EndTransactionBlock_def stack_def Let_def)
    then show ?thesis using finish_ok [OF assms, of env] Single False by (simp add: spec_with_finish_def spec_stmt_def run_stmt_def ignore_result_def)
  next
    case (Block fs)
    have "spec_with_finish env (spec_stmt env lev (PrepareStmt gid) sp) = Some (prepare env gid sp)"
      using Block False by (simp add: spec_with_finish_def spec_stmt_def prepare_def spec_finish_def ended_def Let_def)
    then show ?thesis using prepare_block [OF assms(1) Block, of gid] False by (simp add: run_stmt_def)
  next
    case (Failed fs)
    obtain ys zs where "EndTransactionBlock xs = XDone False ys" "CommitTransactionCommand env ys = XDone () zs" "related (newXid env) K k (rolled_back sp) zs"
      using rollback_stmt(2) [OF assms(1) disjI2 [OF Failed] Failed] by blast
    then show ?thesis using Failed False by (simp add: spec_with_finish_def spec_stmt_def run_stmt_def ignore_result_def PrepareTransactionBlock_def)
  qed (use assms(2) in simp)
qed

text \<open>\<open>ROLLBACK\<close>.\<close>

lemma user_abort_stmt:
  assumes "related g K k sp xs" "sblock sp \<noteq> Idle"
  shows "outcome g K k (spec_with_finish env (spec_stmt env lev RollbackStmt sp)) (with_finish env (run_stmt env lev RollbackStmt xs))"
proof (cases "sblock sp")
  case (Single xids)
  let ?x = "setBlockState TBLOCK_ABORT_PENDING xs"
  have "level_chain TBLOCK_SUBINPROGRESS TBLOCK_ABORT_PENDING [(None, xids)] (stack ?x)" "bounds g K k ([(None, xids)], staken sp, slog sp) ?x"
    using assms(1) Single by (auto simp: related_def chain_single stack_eq intro: live_blockState)
  then obtain ys where "finish (abort_and_cleanup ?x) = XDone () ys" "idle ys" "bounds g K k ([], staken sp, mark_aborted xids (slog sp)) ys"
    "prepared_xacts ys = prepared_xacts xs"
    using end_top(1) by fastforce
  moreover have "CommitTransactionCommand env ?x = finish (abort_and_cleanup ?x)"
    by (subst CommitTransactionCommand.simps) (simp add: setBlockState_def)
  moreover have "run_stmt env lev RollbackStmt xs = XDone () ?x"
    using related_block_state(1) [OF assms(1) Single] by (simp add: run_stmt_def UserAbortTransactionBlock_def)
  moreover have "prepared_xacts xs = sprepared sp" using assms(1) by (simp add: related_def)
  ultimately show ?thesis using Single by (auto simp: spec_with_finish_def spec_stmt_def intro!: related_end)
next
  case (Block fs)
  then show ?thesis
    using rollback_stmt(1) [OF assms(1) disjI1 [OF Block], of env] by (auto simp: spec_with_finish_def spec_stmt_def run_stmt_def)
next
  case (Failed fs)
  then show ?thesis
    using rollback_stmt(1) [OF assms(1) disjI2 [OF Failed], of env] by (auto simp: spec_with_finish_def spec_stmt_def run_stmt_def)
qed (use assms(2) in simp)

section \<open>Savepoint statements\<close>

text \<open>Without a block they fail, in a query string by ending the session.\<close>

lemma no_block:
  assumes "related g K k sp xs" "sblock sp = Single xids" "fatal xs = XFatal"
  shows "outcome g K k (needs_block lev sp) (and_then (RequireTransactionChain lev xs) (\<lambda>_ xs. fatal xs))"
  using assms(3) related_block_state(1) [OF assms(1,2)] related_recovers [OF assms(1)]
  by (simp add: needs_block_def RequireTransactionChain_def IsTransactionBlock_def IsSubTransaction_def)

lemma in_block: "related g K k sp xs \<Longrightarrow> sblock sp = Block fs \<or> sblock sp = Failed fs \<Longrightarrow> RequireTransactionChain lev xs = XDone () xs"
  using related_block_state(2,3) [of g K k sp xs fs] by (auto simp: RequireTransactionChain_def IsTransactionBlock_def split: if_splits)

lemma spec_with_finish_block:
  "sblock sp = Block fs \<Longrightarrow> spec_with_finish env (Some (True, sp)) = Some (True, sp)" "spec_with_finish env (Some (False, sp)) = Some (False, sp)"
  "spec_with_finish env (needs_block lev sp) = needs_block lev sp"
  by (simp_all add: spec_with_finish_def spec_finish_def needs_block_def)

lemma savepoint_stmt:
  assumes "related g K k sp xs" "sblock sp \<noteq> Idle" "\<not> is_failed sp" "k + 1 \<le> K"
  shows "outcome g K (k + 1) (spec_with_finish env (spec_stmt env lev (SavepointStmt name) sp)) (with_finish env (run_stmt env lev (SavepointStmt name) xs))"
proof (cases "sblock sp")
  case (Single xids)
  have "DefineSavepoint (Some name) xs = XFatal" using related_block_state(1) [OF assms(1) Single] by (simp add: DefineSavepoint_def)
  then have "outcome g K k (needs_block lev sp) (run_stmt env lev (SavepointStmt name) xs)"
    using no_block [OF assms(1) Single] by (simp add: run_stmt_def)
  then have "outcome g K k (needs_block lev sp) (with_finish env (run_stmt env lev (SavepointStmt name) xs))"
    by (auto simp: needs_block_def)
  then show ?thesis using Single assms(4) by (auto simp: spec_stmt_def spec_with_finish_block intro: outcome_mono)
next
  case (Block fs)
  have w: "works g K TBLOCK_INPROGRESS k (fs, staken sp, slog sp) xs" and p: "prepared_xacts xs = sprepared sp"
    using assms(1) related_works(2) [OF Block] by simp_all
  obtain ys zs where ys: "push_named (Some name) xs = XDone () ys" "CommitTransactionCommand env ys = XDone () zs"
    "works g K TBLOCK_INPROGRESS (k + 1) ((Some name, []) # fs, staken sp, slog sp) zs" "prepared_xacts zs = prepared_xacts xs"
    using push_ok [OF w assms(4)] by blast
  have "run_stmt env lev (SavepointStmt name) xs = XDone () ys"
    using in_block [OF assms(1) disjI1 [OF Block]] related_block_state(2) [OF assms(1) Block] ys(1)
    by (auto simp: run_stmt_def DefineSavepoint_def split: if_splits)
  then show ?thesis using ys(2-4) p Block by (simp add: spec_stmt_def spec_with_finish_block related_works(2))
qed (use assms(2,3) in \<open>simp_all add: is_failed_def\<close>)

lemma release_stmt:
  assumes "related g K k sp xs" "sblock sp \<noteq> Idle" "\<not> is_failed sp"
  shows "outcome g K k (spec_with_finish env (spec_stmt env lev (ReleaseStmt name) sp)) (with_finish env (run_stmt env lev (ReleaseStmt name) xs))"
proof (cases "sblock sp")
  case (Single xids)
  have "ReleaseSavepoint name xs = XFatal" using related_block_state(1) [OF assms(1) Single] by (simp add: ReleaseSavepoint_def)
  then have "outcome g K k (needs_block lev sp) (run_stmt env lev (ReleaseStmt name) xs)"
    using no_block [OF assms(1) Single] by (simp add: run_stmt_def)
  then show ?thesis using Single by (auto simp: needs_block_def spec_stmt_def spec_with_finish_def)
next
  case (Block fs)
  have c: "level_chain TBLOCK_SUBINPROGRESS TBLOCK_INPROGRESS fs (stack xs)" and b: "bounds g K k (fs, staken sp, slog sp) xs"
    and p: "prepared_xacts xs = sprepared sp"
    using assms(1) Block by (simp_all add: related_def)
  note state = related_block_state(2) [OF assms(1) Block]
  have f: "find_savepoint name xs \<longleftrightarrow> release name fs \<noteq> None"
    using find_savepoint_iff [of xs fs name] chain_names [OF c] release_iff [OF chain_last [OF c], of name] by simp
  show ?thesis
  proof (cases "release name fs")
    case None
    then have "ReleaseSavepoint name xs = XError xs" using f state by (auto simp: ReleaseSavepoint_def split: if_splits)
    then show ?thesis
      using in_block [OF assms(1) disjI1 [OF Block]] related_recovers [OF assms(1)] Block None
      by (simp add: run_stmt_def spec_stmt_def spec_with_finish_def)
  next
    case (Some fs')
    then obtain e h hs where fs: "fs = e # h # hs" by (cases fs rule: join.cases) auto
    let ?ss = "release_chain name (stack xs)"
    let ?x = "set_stack ?ss xs"
    have ne: "?ss \<noteq> []" by (simp add: stack_def)
    have r: "ReleaseSavepoint name xs = XDone () ?x" using f Some state fs by (simp add: ReleaseSavepoint_def)
    have st: "stack ?x = ?ss" using ne by simp
    have bx: "bounds g K k (fs, staken sp, slog sp) ?x" using b by simp
    obtain ys where ys: "commit_sub_loop ?x = XDone () ys" "works g K TBLOCK_INPROGRESS k (fs', staken sp, slog sp) ys"
      "prepared_xacts ys = prepared_xacts ?x"
      using release_work_off [OF c st Some bx] by blast
    have "blockState (curState ys) \<in> {TBLOCK_INPROGRESS, TBLOCK_SUBINPROGRESS}"
      using chain_state [of TBLOCK_SUBINPROGRESS TBLOCK_INPROGRESS fs' ys] ys(2) by (auto simp: works_def)
    moreover have "blockState (curState ?x) = TBLOCK_SUBEND" by (simp add: set_stack_def stack_def)
    ultimately have "CommitTransactionCommand env ?x = XDone () ys" using ys(1) by (subst CommitTransactionCommand.simps) auto
    then show ?thesis
      using in_block [OF assms(1) disjI1 [OF Block]] r ys(2,3) p Block Some
      by (simp add: run_stmt_def spec_stmt_def spec_with_finish_block related_works(2))
  qed
qed (use assms(2,3) in \<open>simp_all add: is_failed_def\<close>)

text \<open>\<open>ROLLBACK TO\<close> marks the chain of a live or failed block.\<close>

lemma rollback_marked:
  assumes r: "related g K k sp xs" "k + 1 \<le> K" and b: "sblock sp = Block fs \<or> sblock sp = Failed fs"
    and m: "rollback_to name fs (slog sp) = Some (fs', log')"
  shows "\<exists>ss xs'. rollback_chain name (stack xs) = Some ss \<and> CommitTransactionCommand env (set_stack ss xs) = XDone () xs' \<and>
    related g K (k + 1) (sp\<lparr>sblock := Block fs', slog := log'\<rparr>) xs'"
proof -
  let ?act = "active (sblock sp)"
  have bd: "bounds g K k (?act, staken sp, slog sp) xs" and p: "prepared_xacts xs = sprepared sp" using r(1) by (simp_all add: related_def)
  have "\<exists>ss. rollback_chain name (stack xs) = Some ss \<and> restarts env g K k (?act, staken sp, slog sp) (fs', staken sp, log') ss"
    using b
  proof
    assume Block: "sblock sp = Block fs"
    then have "level_chain TBLOCK_SUBINPROGRESS TBLOCK_INPROGRESS fs (stack xs)" using r(1) by (simp add: related_def)
    then show ?thesis using rollback_live [OF _ m r(2)] Block by simp
  next
    assume Failed: "sblock sp = Failed fs"
    then have "failed fs (stack xs)" using r(1) by (simp add: related_def)
    then show ?thesis using rollback_failed [OF _ m r(2)] Failed by simp
  qed
  then obtain ss where ss: "rollback_chain name (stack xs) = Some ss" "restarts env g K k (?act, staken sp, slog sp) (fs', staken sp, log') ss" by blast
  have "ss \<noteq> []" using ss(1) by (cases "stack xs") (auto split: if_splits option.splits)
  then have "stack (set_stack ss xs) = ss" "bounds g K k (?act, staken sp, slog sp) (set_stack ss xs)" using bd by simp_all
  then obtain ys where "CommitTransactionCommand env (set_stack ss xs) = XDone () ys"
    "works g K TBLOCK_INPROGRESS (k + 1) (fs', staken sp, log') ys" "prepared_xacts ys = prepared_xacts (set_stack ss xs)"
    using ss(2) unfolding restarts_def by blast
  then show ?thesis using ss(1) p by (simp add: related_works(2))
qed

lemma rollback_to_stmt:
  assumes "related g K k sp xs" "sblock sp \<noteq> Idle" "k + 1 \<le> K"
  shows "outcome g K (k + 1) (spec_with_finish env (spec_stmt env lev (RollbackToStmt name) sp)) (with_finish env (run_stmt env lev (RollbackToStmt name) xs))"
proof (cases "\<exists>xids. sblock sp = Single xids")
  case True
  then obtain xids where Single: "sblock sp = Single xids" by blast
  have "RollbackToSavepoint name xs = XFatal" using related_block_state(1) [OF assms(1) Single] by (simp add: RollbackToSavepoint_def)
  then have "outcome g K k (needs_block lev sp) (run_stmt env lev (RollbackToStmt name) xs)"
    using no_block [OF assms(1) Single] by (simp add: run_stmt_def)
  then have "outcome g K k (needs_block lev sp) (with_finish env (run_stmt env lev (RollbackToStmt name) xs))"
    by (auto simp: needs_block_def)
  then show ?thesis using Single assms(3) by (auto simp: spec_stmt_def spec_with_finish_block intro: outcome_mono)
next
  case False
  then obtain fs where fs: "sblock sp = Block fs \<or> sblock sp = Failed fs" using assms(2) by (cases "sblock sp") auto
  have names: "map sp_name (stack xs) = map fst fs \<and> (\<forall>s \<in> set (stack xs). savepointLevel s = 0) \<and> fst (last fs) = None"
    using fs
  proof
    assume "sblock sp = Block fs"
    then have c: "level_chain TBLOCK_SUBINPROGRESS TBLOCK_INPROGRESS fs (stack xs)" using assms(1) by (simp add: related_def)
    then show ?thesis using chain_names [OF c] chain_last [OF c] by simp
  next
    assume "sblock sp = Failed fs"
    then have "failed fs (stack xs)" using assms(1) by (simp add: related_def)
    then show ?thesis
      using chain_names [of TBLOCK_SUBINPROGRESS TBLOCK_INPROGRESS "tl fs" "parents xs"] chain_last [of TBLOCK_SUBINPROGRESS TBLOCK_INPROGRESS "tl fs" "parents xs"]
      by (cases fs) (auto simp: failed_Cons dead_def stack_def split: if_splits)
  qed
  have f: "find_savepoint name xs \<longleftrightarrow> rollback_to name fs (slog sp) \<noteq> None"
    using find_savepoint_iff [of xs fs name] names rollback_to_iff [of fs name "slog sp"] by simp
  have spec: "spec_stmt env lev (RollbackToStmt name) sp = Some (case rollback_to name fs (slog sp) of
      None \<Rightarrow> (False, sp) | Some (fs, log) \<Rightarrow> (True, sp\<lparr>sblock := Block fs, slog := log\<rparr>))"
    using fs by (auto simp: spec_stmt_def)
  note level_chain = in_block [OF assms(1) fs]
  have state: "blockState (curState xs) \<in> (if length fs = 1 then {TBLOCK_INPROGRESS, TBLOCK_ABORT} else {TBLOCK_SUBINPROGRESS, TBLOCK_SUBABORT})"
    using fs related_block_state(2,3) [OF assms(1), of fs] by (auto split: if_splits)
  show ?thesis
  proof (cases "rollback_to name fs (slog sp)")
    case None
    then have "RollbackToSavepoint name xs = XError xs" using f state by (auto simp: RollbackToSavepoint_def Let_def split: if_splits)
    then show ?thesis
      using level_chain recovers_mono [OF related_recovers [OF assms(1)], of "k + 1"] assms(3) None spec
      by (simp add: run_stmt_def spec_with_finish_def)
  next
    case (Some r)
    then obtain fs' log' where r: "rollback_to name fs (slog sp) = Some (fs', log')" by (cases r) auto
    obtain ss ys where ss: "rollback_chain name (stack xs) = Some ss" "CommitTransactionCommand env (set_stack ss xs) = XDone () ys"
      "related g K (k + 1) (sp\<lparr>sblock := Block fs', slog := log'\<rparr>) ys"
      using rollback_marked [OF assms(1,3) fs r] by blast
    have "length fs \<noteq> 1" using r by (cases fs rule: join.cases) auto
    then have "RollbackToSavepoint name xs = XDone () (set_stack ss xs)"
      using f r state ss(1) by (auto simp: RollbackToSavepoint_def mark_stack_def Let_def)
    then show ?thesis using level_chain ss(2,3) r spec by (simp add: run_stmt_def spec_with_finish_block)
  qed
qed

section \<open>Statements of a query\<close>

definition stmt_cost :: "Stmt \<Rightarrow> nat" where
  "stmt_cost stmt = (case stmt of OtherStmt es \<Rightarrow> sum_list (map effect_cost es) | _ \<Rightarrow> 1)"

lemma transaction_stmt:
  assumes "related (newXid env) K k sp xs" "sblock sp \<noteq> Idle" "is_failed sp \<longrightarrow> IsTransactionExitStmt stmt" "k + 1 \<le> K" "isTransactionStmt stmt"
  shows "outcome (newXid env) K (k + 1) (spec_with_finish env (spec_stmt env lev stmt sp)) (with_finish env (run_stmt env lev stmt xs))"
proof -
  note a = assms(1,2) and k = le_add1 [of k 1] assms(4)
  show ?thesis
  proof (cases stmt)
    case BeginStmt
    then have "\<not> is_failed sp" using assms(3) by (auto simp: IsTransactionExitStmt_def)
    then show ?thesis using outcome_mono [OF begin_stmt [OF a] k] BeginStmt by simp
  next
    case CommitStmt
    then show ?thesis using outcome_mono [OF commit_stmt [OF a] k] by simp
  next
    case (PrepareStmt gid)
    then show ?thesis using outcome_mono [OF prepare_stmt [OF a] k] by simp
  next
    case RollbackStmt
    then show ?thesis using outcome_mono [OF user_abort_stmt [OF a] k] by simp
  next
    case (SavepointStmt name)
    then have "\<not> is_failed sp" using assms(3) by (auto simp: IsTransactionExitStmt_def)
    then show ?thesis using savepoint_stmt [OF a _ assms(4)] SavepointStmt by simp
  next
    case (ReleaseStmt name)
    then have "\<not> is_failed sp" using assms(3) by (auto simp: IsTransactionExitStmt_def)
    then show ?thesis using outcome_mono [OF release_stmt [OF a] k] ReleaseStmt by simp
  next
    case (RollbackToStmt name)
    then show ?thesis using rollback_to_stmt [OF a assms(4)] by simp
  qed (use assms(5) in \<open>simp add: isTransactionStmt_def\<close>)
qed

lemma other_stmt:
  assumes r: "related (newXid env) K k sp xs" and b: "sblock sp \<noteq> Idle" "\<not> is_failed sp" and k: "k + sum_list (map effect_cost es) \<le> K"
  shows "\<exists>ok sp'. spec_stmt env lev (OtherStmt es) sp = Some (ok, sp') \<and> sblock sp' \<noteq> Idle \<and>
    outcome (newXid env) K (k + sum_list (map effect_cost es)) (Some (ok, sp')) (run_stmt env lev (OtherStmt es) xs)"
proof -
  let ?act = "in_sequence (map (do_effect env) es)" and ?k = "k + sum_list (map effect_cost es)"
  define base where "base = (if \<exists>x. sblock sp = Single x then TBLOCK_STARTED else TBLOCK_INPROGRESS)"
  have base: "works (newXid env) K base k (frames (sblock sp), staken sp, slog sp) xs" "base \<in> {TBLOCK_STARTED, TBLOCK_INPROGRESS}"
    using r b by (cases "sblock sp"; simp add: related_def works_def is_failed_def base_def)+
  have p: "prepared_xacts xs = sprepared sp" using r by (simp add: related_def)
  obtain ok fs n log where w: "?act (frames (sblock sp), staken sp, slog sp) = (ok, fs, n, log)" by (rule prod_cases4)
  have "agrees (newXid env) K base ?k (frames (sblock sp)) xs (ok, fs, n, log) (exec_effects env es xs)"
    using simulatesD [OF effects_ok [OF refl] base(2,1) k] w by simp
  then obtain ys where ys: "exec_effects env es xs = (if ok then XDone () ys else XError ys)" "works (newXid env) K base ?k (fs, n, log) ys"
    "map fst fs = map fst (frames (sblock sp))" "prepared_xacts ys = prepared_xacts xs"
    by (auto simp: agrees_def)
  define sp' where "sp' = sp\<lparr>sblock := (case sblock sp of Single _ \<Rightarrow> Single (all_ids fs) | _ \<Rightarrow> Block fs), staken := n, slog := log\<rparr>"
  have s: "spec_stmt env lev (OtherStmt es) sp = Some (ok, sp')" using w by (simp add: spec_stmt_def sp'_def)
  have rel: "related (newXid env) K ?k sp' ys"
  proof (cases "\<exists>x. sblock sp = Single x")
    case True
    then obtain x where x: "sblock sp = Single x" by blast
    then have "fs = [(None, all_ids fs)]" using ys(3) by (cases fs) auto
    then show ?thesis using ys(2,4) p x by (simp add: related_def works_def sp'_def base_def)
  next
    case False
    then have "sblock sp' = Block fs" "base = TBLOCK_INPROGRESS" using b(1) False by (auto simp: sp'_def base_def split: block.splits)
    then show ?thesis using ys(2,4) p by (simp add: related_def works_def sp'_def)
  qed
  have "sblock sp' \<noteq> Idle" by (simp add: sp'_def split: block.splits)
  moreover have "outcome (newXid env) K ?k (Some (ok, sp')) (run_stmt env lev (OtherStmt es) xs)"
    using ys(1) rel related_recovers [OF rel] by (cases ok) (simp_all add: run_stmt_def)
  ultimately show ?thesis using s by blast
qed

definition spec_then :: "(bool \<times> spec) option \<Rightarrow> (spec \<Rightarrow> (bool \<times> spec) option) \<Rightarrow> (bool \<times> spec) option" where
  "spec_then r f = (case r of None \<Rightarrow> None | Some (ok, sp) \<Rightarrow> if ok then f sp else Some (False, sp))"

lemma outcome_then:
  assumes "outcome g K k r c" "k \<le> k'" "k' \<le> K"
    and "\<And>sp xs. r = Some (True, sp) \<Longrightarrow> related g K k sp xs \<Longrightarrow> outcome g K k' (f sp) (h xs)"
  shows "outcome g K k' (spec_then r f) (and_then c (\<lambda>_ xs. h xs))"
proof (cases r)
  case None
  then show ?thesis using assms(1) by (simp add: spec_then_def)
next
  case (Some p)
  obtain ok sp where p: "p = (ok, sp)" by (cases p)
  show ?thesis
  proof (cases ok)
    case True
    then obtain xs where "c = XDone () xs" "related g K k sp xs" using assms(1) Some p by auto
    then show ?thesis using assms(4) [of sp xs] Some p True by (simp add: spec_then_def)
  next
    case False
    then obtain xs where "c = XError xs" "recovers g K k sp xs" using assms(1) Some p by auto
    then show ?thesis using recovers_mono [OF _ assms(2,3)] Some p False by (simp add: spec_then_def)
  qed
qed

definition single :: "spec \<Rightarrow> bool" where
  "single sp \<longleftrightarrow> (\<exists>xids. sblock sp = Single xids)"

lemma finish_settles: "spec_finish env sp = (True, sp') \<Longrightarrow> \<not> single sp'"
  by (cases "sblock sp") (auto simp: spec_finish_def single_def committed_def ended_def split: if_splits)

lemma finish_other: "\<not> single sp \<Longrightarrow> spec_finish env sp = (True, sp)"
  by (cases "sblock sp") (auto simp: spec_finish_def single_def)

lemma start_ok:
  assumes "related g K k sp xs" "k + 1 \<le> K" "if started then sblock sp \<noteq> Idle else \<not> single sp"
  shows "\<exists>xs'. start_xact_command started xs = XDone () xs' \<and> related g K (k + 1) (spec_open sp) xs'"
proof (cases "sblock sp = Idle")
  case True
  then show ?thesis using open_ok [OF assms(1,2)] assms(3) by (auto simp: start_xact_command_def)
next
  case False
  have "StartTransactionCommand xs = XDone () xs" if "\<not> started"
    using that False assms(3) related_block_state(2,3) [OF assms(1)]
    by (cases "sblock sp") (auto simp: StartTransactionCommand_def single_def split: if_splits)
  moreover have "spec_open sp = sp" using False by (cases "sblock sp") (simp_all add: spec_open_def)
  ultimately show ?thesis using related_mono [OF assms(1) _ assms(2)] by (auto simp: start_xact_command_def)
qed

lemma failed_iff:
  assumes "related g K k sp xs"
  shows "IsAbortedTransactionBlockState xs \<longleftrightarrow> is_failed sp"
proof (cases "sblock sp")
  case Idle
  then show ?thesis using assms by (auto simp: related_def idle_def stack_eq IsAbortedTransactionBlockState_def is_failed_def)
next
  case (Single xids)
  then show ?thesis using related_block_state(1) [OF assms] by (auto simp: IsAbortedTransactionBlockState_def is_failed_def)
next
  case (Block fs)
  then show ?thesis using related_block_state(2) [OF assms] by (auto simp: IsAbortedTransactionBlockState_def is_failed_def split: if_splits)
next
  case (Failed fs)
  then show ?thesis using related_block_state(3) [OF assms] by (auto simp: IsAbortedTransactionBlockState_def is_failed_def split: if_splits)
qed

lemma spec_open_simps [simp]: "sblock (spec_open sp) \<noteq> Idle" "is_failed (spec_open sp) = is_failed sp"
  by (cases "sblock sp"; simp add: spec_open_def is_failed_def)+

lemma and_then_assoc: "and_then (and_then r f) h = and_then r (\<lambda>a xs. and_then (f a xs) h)"
  by (cases r) simp_all

lemma spec_stmts_step:
  "spec_stmts env lev (stmt # stmts) sp =
     (if is_failed sp \<and> \<not> IsTransactionExitStmt stmt then Some (False, sp)
      else if isTransactionStmt stmt \<or> stmts = []
      then spec_then (spec_with_finish env (spec_stmt env lev stmt (spec_open sp))) (spec_stmts env lev stmts)
      else spec_then (spec_stmt env lev stmt (spec_open sp)) (spec_stmts env lev stmts))"
  by (auto simp: spec_then_def spec_with_finish_def split: option.splits prod.splits)

lemma exec_stmts_step:
  "exec_stmts env lev (stmt # stmts) started xs =
     (if IsAbortedTransactionBlockState xs \<and> \<not> IsTransactionExitStmt stmt then XError xs
      else and_then (start_xact_command started xs) (\<lambda>_ xs.
        if isTransactionStmt stmt \<or> stmts = []
        then and_then (with_finish env (run_stmt env lev stmt xs)) (\<lambda>_ xs. exec_stmts env lev stmts False xs)
        else and_then (run_stmt env lev stmt xs) (\<lambda>_ xs. and_then (CommandCounterIncrement xs) (\<lambda>_ xs. exec_stmts env lev stmts True xs))))"
  by (cases "isTransactionStmt stmt \<or> stmts = []") (simp_all add: with_finish_def finish_xact_command_def and_then_assoc)

definition stmts_cost :: "Stmt list \<Rightarrow> nat" where
  "stmts_cost stmts = sum_list (map (\<lambda>stmt. 1 + stmt_cost stmt) stmts)"

lemma stmts_cost_simps [simp]: "stmts_cost [] = 0" "stmts_cost (stmt # stmts) = 1 + stmt_cost stmt + stmts_cost stmts"
  by (simp_all add: stmts_cost_def)

lemma last_stmt:
  assumes r: "related (newXid env) K k sp xs" and b: "sblock sp \<noteq> Idle" "is_failed sp \<longrightarrow> IsTransactionExitStmt stmt" and k: "k + stmt_cost stmt \<le> K"
  shows "outcome (newXid env) K (k + stmt_cost stmt) (spec_with_finish env (spec_stmt env lev stmt sp)) (with_finish env (run_stmt env lev stmt xs))"
proof (cases "isTransactionStmt stmt")
  case True
  then have "stmt_cost stmt = 1" by (cases stmt) (simp_all add: stmt_cost_def isTransactionStmt_def)
  then show ?thesis using transaction_stmt [OF r b _ True] k by simp
next
  case False
  then obtain es where es: "stmt = OtherStmt es" by (cases stmt) (simp_all add: isTransactionStmt_def)
  then have c: "stmt_cost stmt = sum_list (map effect_cost es)" "\<not> is_failed sp" using b(2) by (auto simp: stmt_cost_def IsTransactionExitStmt_def)
  obtain ok sp' where s: "spec_stmt env lev stmt sp = Some (ok, sp')" "sblock sp' \<noteq> Idle"
    "outcome (newXid env) K (k + stmt_cost stmt) (Some (ok, sp')) (run_stmt env lev stmt xs)"
    using other_stmt [OF r b(1) c(2), where es = es and lev = lev] k es c(1) by auto
  show ?thesis
  proof (cases ok)
    case True
    then obtain ys where "run_stmt env lev stmt xs = XDone () ys" "related (newXid env) K (k + stmt_cost stmt) sp' ys" using s(3) by auto
    then show ?thesis using finish_ok [of _ K _ sp' ys env] s(1,2) True by (simp add: spec_with_finish_def)
  next
    case False
    then show ?thesis using s by (auto simp: spec_with_finish_def)
  qed
qed

lemma finished_settled: "spec_with_finish env r = Some (True, sp) \<Longrightarrow> \<not> single sp"
  by (auto simp: spec_with_finish_def dest: finish_settles split: option.splits prod.splits if_splits)

lemma stmts_ok:
  "related (newXid env) K k sp xs \<Longrightarrow> (if started then sblock sp \<noteq> Idle else \<not> single sp) \<Longrightarrow> k + stmts_cost stmts \<le> K \<Longrightarrow>
   outcome (newXid env) K (k + stmts_cost stmts) (spec_stmts env lev stmts sp) (exec_stmts env lev stmts started xs)"
proof (induction stmts arbitrary: k sp xs started)
  case Nil
  show ?case
  proof (cases started)
    case True
    then show ?thesis using finish_ok [OF Nil(1), of env] Nil(2) by (simp add: finish_xact_command_def)
  next
    case False
    then have "spec_finish env sp = (True, sp)" using finish_other Nil(2) by simp
    then show ?thesis using Nil(1) False by (simp add: finish_xact_command_def)
  qed
next
  case (Cons stmt stmts)
  let ?k = "k + 1 + stmt_cost stmt" and ?k' = "k + stmts_cost (stmt # stmts)"
  note failed = failed_iff [OF Cons.prems(1)]
  show ?case
  proof (cases "is_failed sp \<and> \<not> IsTransactionExitStmt stmt")
    case True
    then show ?thesis using failed recovers_mono [OF related_recovers [OF Cons.prems(1)] _ Cons.prems(3)] by simp
  next
    case False
    obtain ys where ys: "start_xact_command started xs = XDone () ys" "related (newXid env) K (k + 1) (spec_open sp) ys"
      using start_ok [OF Cons.prems(1) _ Cons.prems(2)] Cons.prems(3) by auto
    have exit: "is_failed (spec_open sp) \<longrightarrow> IsTransactionExitStmt stmt" using False by simp
    have kk: "?k \<le> ?k'" "?k' \<le> K" "?k + stmts_cost stmts = ?k'" "?k \<le> K" using Cons.prems(3) by simp_all
    show ?thesis
    proof (cases "isTransactionStmt stmt \<or> stmts = []")
      case True
      have "outcome (newXid env) K ?k' (spec_then (spec_with_finish env (spec_stmt env lev stmt (spec_open sp))) (spec_stmts env lev stmts))
          (and_then (with_finish env (run_stmt env lev stmt ys)) (\<lambda>_ xs. exec_stmts env lev stmts False xs))"
      proof (rule outcome_then [OF last_stmt [OF ys(2) _ exit kk(4)] kk(1,2)])
        fix sp' zs
        assume "spec_with_finish env (spec_stmt env lev stmt (spec_open sp)) = Some (True, sp')" and r: "related (newXid env) K ?k sp' zs"
        then have "if False then sblock sp' \<noteq> Idle else \<not> single sp'" using finished_settled by simp
        from Cons.IH [OF r this] show "outcome (newXid env) K ?k' (spec_stmts env lev stmts sp') (exec_stmts env lev stmts False zs)" using Cons.prems(3) by (simp only: kk(3))
      qed simp
      then show ?thesis by (simp only: spec_stmts_step exec_stmts_step failed if_not_P [OF False] if_P [OF True] ys(1) and_then.simps)
    next
      case no: False
      then obtain es where es: "stmt = OtherStmt es" by (cases stmt) (simp_all add: isTransactionStmt_def)
      then have c: "stmt_cost stmt = sum_list (map effect_cost es)" "\<not> is_failed (spec_open sp)"
        using exit by (auto simp: stmt_cost_def IsTransactionExitStmt_def)
      obtain ok sp' where s: "spec_stmt env lev stmt (spec_open sp) = Some (ok, sp')" "sblock sp' \<noteq> Idle"
        "outcome (newXid env) K ?k (Some (ok, sp')) (run_stmt env lev stmt ys)"
        using other_stmt [OF ys(2) _ c(2), where es = es and lev = lev] kk(4) es c(1) by auto
      have "outcome (newXid env) K ?k' (spec_then (Some (ok, sp')) (spec_stmts env lev stmts))
          (and_then (run_stmt env lev stmt ys) (\<lambda>_ xs. and_then (CommandCounterIncrement xs) (\<lambda>_ xs. exec_stmts env lev stmts True xs)))"
      proof (rule outcome_then [OF s(3) kk(1,2)])
        fix sp'' zs
        assume e: "Some (ok, sp') = Some (True, sp'')" and r: "related (newXid env) K ?k sp'' zs"
        obtain us where us: "CommandCounterIncrement zs = XDone () us" "related (newXid env) K ?k sp'' us" using counter_related [OF r] by blast
        have "if True then sblock sp'' \<noteq> Idle else \<not> single sp''" using e s(2) by simp
        from Cons.IH [OF us(2) this]
        show "outcome (newXid env) K ?k' (spec_stmts env lev stmts sp'') (and_then (CommandCounterIncrement zs) (\<lambda>_ xs. exec_stmts env lev stmts True xs))"
          using Cons.prems(3) by (simp only: kk(3) us(1) and_then.simps)
      qed
      then show ?thesis by (simp only: spec_stmts_step exec_stmts_step failed if_not_P [OF False] if_not_P [OF no] ys(1) s(1) and_then.simps)
    qed
  qed
qed

section \<open>Queries\<close>

lemma stmts_settled: "spec_stmts env lev stmts sp = Some (True, sp') \<Longrightarrow> \<not> single sp'"
proof (induction stmts arbitrary: sp)
  case Nil
  then show ?case using finish_settles by simp
next
  case (Cons stmt stmts)
  then show ?case unfolding spec_stmts_step by (auto simp: spec_then_def split: if_splits option.splits prod.splits)
qed

lemma error_settled: "\<not> single (spec_error sp)"
  by (auto simp: spec_error_def single_def ended_def split: block.splits list.splits)

lemma query_ok:
  assumes "related (newXid env) K k sp xs" "\<not> single sp" "k + 1 + stmts_cost stmts \<le> K"
  shows "rel_option (\<lambda>sp' xs'. related (newXid env) K (k + 1 + stmts_cost stmts) sp' xs' \<and> \<not> single sp') (spec_query env stmts sp) (process_query env stmts xs)"
proof -
  obtain ys where ys: "start_xact_command False xs = XDone () ys" "related (newXid env) K (k + 1) (spec_open sp) ys"
    using start_ok [of "newXid env" K k sp xs False] assms by auto
  let ?r = "spec_stmts env (length stmts = 1) stmts (spec_open sp)"
  have o: "outcome (newXid env) K (k + 1 + stmts_cost stmts) ?r (exec_stmts env (length stmts = 1) stmts True ys)"
    by (rule stmts_ok [OF ys(2)]) (use assms(3) in simp_all)
  have c: "exec_simple_query env stmts xs = exec_stmts env (length stmts = 1) stmts True ys" using ys(1) by (simp add: exec_simple_query_def)
  show ?thesis
  proof (cases ?r)
    case None
    then show ?thesis using o c by (simp add: spec_query_def process_query_def)
  next
    case (Some p)
    obtain ok sp' where p: "p = (ok, sp')" by (cases p)
    show ?thesis
    proof (cases ok)
      case True
      then show ?thesis using o c Some p stmts_settled [of env _ stmts "spec_open sp" sp'] by (auto simp: spec_query_def process_query_def)
    next
      case False
      then obtain zs where "exec_simple_query env stmts xs = XError zs" "recovers (newXid env) K (k + 1 + stmts_cost stmts) sp' zs"
        using o c Some p by auto
      then show ?thesis using Some p False error_settled by (auto simp: spec_query_def process_query_def recovers_def)
    qed
  qed
qed

definition session_cost :: "(XactEnv \<times> Stmt list) list \<Rightarrow> nat" where
  "session_cost queries = sum_list (map (\<lambda>(env, stmts). 1 + stmts_cost stmts) queries)"

lemma session_ok:
  "related g K k sp xs \<Longrightarrow> \<not> single sp \<Longrightarrow> \<forall>(env, stmts) \<in> set queries. newXid env = g \<Longrightarrow> k + session_cost queries \<le> K \<Longrightarrow>
   rel_option (\<lambda>sp' xs'. related g K (k + session_cost queries) sp' xs' \<and> \<not> single sp') (spec_session queries sp) (PostgresMain queries xs)"
proof (induction queries arbitrary: k sp xs)
  case Nil
  then show ?case by (simp add: session_cost_def)
next
  case (Cons q queries)
  obtain env stmts where q: "q = (env, stmts)" by (cases q)
  have g: "newXid env = g" using Cons.prems(3) q by simp
  have cost: "k + session_cost (q # queries) = k + 1 + stmts_cost stmts + session_cost queries" using q by (simp add: session_cost_def)
  have "rel_option (\<lambda>sp' xs'. related g K (k + 1 + stmts_cost stmts) sp' xs' \<and> \<not> single sp') (spec_query env stmts sp) (process_query env stmts xs)"
    using query_ok [of env K k sp xs stmts] Cons.prems(1,2,4) g cost by simp
  then show ?case unfolding q cost [unfolded q]
  proof (cases rule: option.rel_cases)
    case None
    then show "rel_option (\<lambda>sp' xs'. related g K (k + 1 + stmts_cost stmts + session_cost queries) sp' xs' \<and> \<not> single sp')
        (spec_session ((env, stmts) # queries) sp) (PostgresMain ((env, stmts) # queries) xs)" by simp
  next
    case (Some sp' xs')
    then show "rel_option (\<lambda>sp' xs'. related g K (k + 1 + stmts_cost stmts + session_cost queries) sp' xs' \<and> \<not> single sp')
        (spec_session ((env, stmts) # queries) sp) (PostgresMain ((env, stmts) # queries) xs)"
      using Cons.IH [of "k + 1 + stmts_cost stmts" sp' xs'] Cons.prems(3,4) cost by simp
  qed
qed

end
