(* ===== verification/XactFacts.thy ===== *)
theory XactFacts
  imports XactSession
begin

text \<open>
  What the refinement gives for whole sessions of a backend that starts without a transaction: the session is the one of the
  frames, statements sent one by one never end it, and a savepoint command in a query string outside a block does.  What holds of
  the transaction ids is in theory XactIds.
\<close>

section \<open>Sessions\<close>

definition startup :: "(TransactionId \<Rightarrow> XidStatus) \<Rightarrow> Xact" where
  "startup log = \<lparr>curState = TopTransactionStateData, parents = [], currentSubTransactionId = 0, currentCommandId = 0,
     currentCommandIdUsed = False, prepareGID = '''', clog = log, prepared_xacts = [], xids_taken = 0, state_warning = False\<rparr>"

definition spec_startup :: "(TransactionId \<Rightarrow> XidStatus) \<Rightarrow> spec" where
  "spec_startup log = \<lparr>sblock = Idle, slog = log, staken = 0, sprepared = []\<rparr>"

text \<open>
  What can be seen of a backend between two queries: the status code it sends, its savepoints, the commit log, the
  prepared transactions, the transaction ids it has got, whether a warning said that the low-level state was wrong.
\<close>

definition view :: "Xact \<Rightarrow> char \<times> string option list \<times> (TransactionId \<Rightarrow> XidStatus) \<times> (string \<times> TransactionId \<times> TransactionId list) list \<times> nat \<times> bool" where
  "view xs = (TransactionBlockStatusCode xs, map sp_name (stack xs), clog xs, prepared_xacts xs, xids_taken xs, state_warning xs)"

definition spec_view :: "spec \<Rightarrow> char \<times> string option list \<times> (TransactionId \<Rightarrow> XidStatus) \<times> (string \<times> TransactionId \<times> TransactionId list) list \<times> nat \<times> bool" where
  "spec_view sp =
     (case sblock sp of Block _ \<Rightarrow> CHR ''T'' | Failed _ \<Rightarrow> CHR ''E'' | _ \<Rightarrow> CHR ''I'',
      case sblock sp of Idle \<Rightarrow> [None] | b \<Rightarrow> map fst (frames b),
      slog sp, sprepared sp, staken sp, False)"

text \<open>
  The conditions: every query gets its ids from the same supply \<open>g\<close>, whose ids are valid, different and not committed before,
  and the session is not longer than the array of child ids can be.
\<close>

definition session_ids :: "(nat \<Rightarrow> TransactionId) \<Rightarrow> (XactEnv \<times> Stmt list) list \<Rightarrow> (TransactionId \<Rightarrow> XidStatus) \<Rightarrow> bool" where
  "session_ids g queries log \<longleftrightarrow>
     (\<forall>(env, stmts) \<in> set queries. newXid env = g) \<and> good_ids g (session_cost queries) \<and>
     session_cost queries \<le> MaxAllocSize div 4 \<and> (\<forall>i < session_cost queries. log (g i) \<noteq> TRANSACTION_STATUS_COMMITTED)"

lemma startup_related:
  assumes "session_ids g queries log"
  shows "related g (session_cost queries) 0 (spec_startup log) (startup log)"
proof -
  let ?K = "session_cost queries"
  have a: "good_ids g ?K" "?K \<le> MaxAllocSize div 4" "\<forall>i < ?K. log (g i) \<noteq> TRANSACTION_STATUS_COMMITTED"
    using assms unfolding session_ids_def by blast+
  have "fresh g ?K ([], 0, log)" using a(3) by (simp add: fresh_def)
  then have "bounds g ?K 0 ([], 0, log) (startup log)" using a(1,2) by (simp add: bounds_def startup_def commands_def)
  moreover have "idle (startup log)" by (simp add: idle_def stack_eq startup_def TopTransactionStateData_def)
  ultimately show ?thesis by (simp add: related_def spec_startup_def startup_def)
qed

lemma session_related:
  assumes "session_ids g queries log"
  shows "rel_option (\<lambda>sp xs. related g (session_cost queries) (session_cost queries) sp xs \<and> \<not> single sp)
    (spec_session queries (spec_startup log)) (PostgresMain queries (startup log))"
proof -
  have "\<forall>(env, stmts) \<in> set queries. newXid env = g" using assms unfolding session_ids_def by blast
  moreover have "\<not> single (spec_startup log)" by (simp add: single_def spec_startup_def)
  ultimately show ?thesis using session_ok [OF startup_related [OF assms], of queries] by simp
qed

lemma related_view:
  assumes "related g K k sp xs"
  shows "view xs = spec_view sp"
proof -
  have b: "clog xs = slog sp" "xids_taken xs = staken sp" "\<not> state_warning xs" "prepared_xacts xs = sprepared sp"
    using assms by (simp_all add: related_def bounds_def)
  show ?thesis
  proof (cases "sblock sp")
    case Idle
    then have "idle xs" using assms by (simp add: related_def)
    then show ?thesis using b Idle by (auto simp: view_def spec_view_def idle_def stack_eq TransactionBlockStatusCode_def stack_def)
  next
    case (Single xids)
    then have "level_chain TBLOCK_SUBINPROGRESS TBLOCK_STARTED [(None, xids)] (stack xs)" using assms by (simp add: related_def)
    from chain_names [OF this] show ?thesis using b Single related_block_state(1) [OF assms Single]
      by (simp add: view_def spec_view_def TransactionBlockStatusCode_def)
  next
    case (Block fs)
    then have "level_chain TBLOCK_SUBINPROGRESS TBLOCK_INPROGRESS fs (stack xs)" using assms by (simp add: related_def)
    from chain_names [OF this] show ?thesis using b Block related_block_state(2) [OF assms Block]
      by (simp add: view_def spec_view_def TransactionBlockStatusCode_def split: if_splits)
  next
    case (Failed fs)
    then have f: "failed fs (stack xs)" using assms by (simp add: related_def)
    have "map sp_name (stack xs) = map fst fs"
      using f chain_names [of TBLOCK_SUBINPROGRESS TBLOCK_INPROGRESS "tl fs" "parents xs"]
      by (cases fs) (auto simp: failed_Cons dead_def stack_def split: if_splits)
    then show ?thesis using b Failed related_block_state(3) [OF assms Failed]
      by (auto simp: view_def spec_view_def TransactionBlockStatusCode_def split: if_splits)
  qed
qed

lemma session_view:
  assumes "session_ids g queries log"
  shows "map_option view (PostgresMain queries (startup log)) = map_option spec_view (spec_session queries (spec_startup log))"
  using session_related [OF assms] by (cases rule: option.rel_cases) (auto dest: related_view)

text \<open>A supply of ids and a session for the witnesses.\<close>

definition count_up :: "nat \<Rightarrow> TransactionId" where
  "count_up i = word_of_nat (3 + i)"

definition plain_env :: XactEnv where
  "plain_env = \<lparr>newXid = count_up, precommit_fails = False, max_prepared_xacts = 0, RecoveryInProgress = False\<rparr>"

definition sample :: "(XactEnv \<times> Stmt list) list" where
  "sample = [(plain_env, [BeginStmt]), (plain_env, [OtherStmt [Write]]), (plain_env, [SavepointStmt ''a'']),
     (plain_env, [OtherStmt [Write]]), (plain_env, [RollbackToStmt ''a'']), (plain_env, [CommitStmt])]"

lemma count_up_unat: "i < 1000 \<Longrightarrow> unat (count_up i) = 3 + i"
  by (simp only: count_up_def unat_of_nat) simp

lemma count_up_good: "K \<le> 1000 \<Longrightarrow> good_ids count_up K"
proof -
  assume K: "K \<le> 1000"
  then have u: "unat (count_up i) = 3 + i" if "i < K" for i using that by (intro count_up_unat) simp
  have "inj_on count_up {..<K}"
  proof (rule inj_onI)
    fix i j assume ij: "i \<in> {..<K}" "j \<in> {..<K}" "count_up i = count_up j"
    have "3 + i = 3 + j" using u [of i] u [of j] ij by (metis lessThan_iff)
    then show "i = j" by simp
  qed
  moreover have "count_up i \<noteq> 0" if "i < K" for i
  proof
    assume "count_up i = 0"
    then show False using u [OF that] by (metis add_is_0 unat_0 zero_neq_numeral)
  qed
  ultimately show ?thesis by (simp add: good_ids_def)
qed

lemma sample_ids: "session_ids count_up sample (\<lambda>_. TRANSACTION_STATUS_IN_PROGRESS)"
proof -
  have c: "session_cost sample = 18" by (simp add: session_cost_def sample_def stmt_cost_def)
  show ?thesis unfolding session_ids_def c using count_up_good [of 18] by (simp add: sample_def plain_env_def MaxAllocSize_def)
qed

text \<open>C1: For every session of query strings of transaction commands, savepoint commands and statements with nested exception
  blocks, a backend that starts without a transaction shows what the stack of frames shows: the same status code, savepoints, commit
  log, prepared transactions and ids taken, no warning about a wrong low-level state, and the session ends early exactly where the frames say.\<close>

theorem session_refines_frames:
  assumes "session_ids g queries log"
  shows "map_option view (PostgresMain queries (startup log)) = map_option spec_view (spec_session queries (spec_startup log))"
  by (rule session_view [OF assms])

theorem session_refines_frames_witness:
  "map_option view (PostgresMain sample (startup (\<lambda>_. TRANSACTION_STATUS_IN_PROGRESS))) =
     map_option spec_view (spec_session sample (spec_startup (\<lambda>_. TRANSACTION_STATUS_IN_PROGRESS)))"
  by (rule session_refines_frames [OF sample_ids])

section \<open>The end of a session\<close>

lemma spec_stmt_top: "spec_stmt env True stmt sp \<noteq> None"
  by (cases stmt; cases "sblock sp") (auto simp: spec_stmt_def needs_block_def split: prod.splits)

lemma spec_query_top: "length stmts \<le> 1 \<Longrightarrow> spec_query env stmts sp \<noteq> None"
  using spec_stmt_top [of env "hd stmts" "spec_open (spec_open sp)"]
  by (cases stmts) (auto simp: spec_query_def split: option.splits prod.splits if_splits)

lemma spec_session_top: "\<forall>(env, stmts) \<in> set queries. length stmts \<le> 1 \<Longrightarrow> spec_session queries sp \<noteq> None"
proof (induction queries arbitrary: sp)
  case (Cons q queries)
  obtain env stmts where q: "q = (env, stmts)" by (cases q)
  then show ?case using Cons spec_query_top [of stmts env sp] by (auto split: option.splits)
qed simp

text \<open>C6: A client that sends its statements one by one cannot make the backend end the session with an unexpected transaction
  state, whatever the statements are and whatever errors occur.\<close>

theorem single_statements_keep_session:
  assumes "session_ids g queries log" "\<forall>(env, stmts) \<in> set queries. length stmts \<le> 1"
  shows "PostgresMain queries (startup log) \<noteq> None"
proof -
  have "spec_session queries (spec_startup log) \<noteq> None" by (rule spec_session_top [OF assms(2)])
  then show ?thesis using session_view [OF assms(1)] by auto
qed

theorem single_statements_keep_session_witness:
  "PostgresMain sample (startup (\<lambda>_. TRANSACTION_STATUS_IN_PROGRESS)) \<noteq> None"
  by (rule single_statements_keep_session [OF sample_ids]) (simp add: sample_def)

text \<open>C36: In a query string, a savepoint command outside a transaction block ends the session of an idle backend with an unexpected
  block state, for the check for a block does not apply there and the command does not expect the state; sent alone, the same command only fails and
  leaves the backend idle.\<close>

theorem savepoint_in_query_string_is_fatal:
  assumes "curState xs = TopTransactionStateData" "parents xs = []" "stmt \<in> {SavepointStmt name, ReleaseStmt name, RollbackToStmt name}"
  shows "process_query env [OtherStmt [], stmt] xs = None \<and>
    (\<exists>xs'. process_query env [stmt] xs = Some xs' \<and> TransactionBlockStatusCode xs' = CHR ''I'' \<and> clog xs' = clog xs)"
proof -
  define ys where "ys = setBlockState TBLOCK_STARTED (StartTransaction xs)"
  have start: "StartTransactionCommand xs = XDone () ys"
    using assms(1) by (simp add: StartTransactionCommand_def TopTransactionStateData_def ys_def)
  have y: "blockState (curState ys) = TBLOCK_STARTED" "nestingLevel (curState ys) = 1" "\<not> currentCommandIdUsed ys" "clog ys = clog xs"
    "stack ys = [curState ys]" "tstate (curState ys) = TRANS_INPROGRESS" "sp_name (curState ys) = None" "savepointLevel (curState ys) = 0"
    "transactionId (curState ys) = 0" "childXids (curState ys) = []"
    using assms(1,2) by (simp_all add: ys_def setBlockState_def StartTransaction_def warn_unless_def set_stack_def stack_def
      TopTransactionStateData_def Let_def)
  have fatal: "run_stmt env False stmt ys = XFatal" and error: "run_stmt env True stmt ys = XError ys"
    using assms(3) y(1,2) by (auto simp: run_stmt_def RequireTransactionChain_def IsTransactionBlock_def IsSubTransaction_def
      DefineSavepoint_def ReleaseSavepoint_def RollbackToSavepoint_def)
  have live: "\<not> IsAbortedTransactionBlockState ys" using y(1) by (simp add: IsAbortedTransactionBlockState_def)
  have other: "run_stmt env lev (OtherStmt []) ys = XDone () ys" "isTransactionStmt (OtherStmt []) = False" for lev
    by (simp_all add: run_stmt_def exec_effects_def isTransactionStmt_def)
  have "CommandCounterIncrement ys = XDone () ys" using y(3) by (simp add: CommandCounterIncrement_def)
  then have fatal_string: "process_query env [OtherStmt [], stmt] xs = None"
    using start live fatal other by (simp add: process_query_def exec_simple_query_def start_xact_command_def)
  obtain zs where z: "finish (abort_and_cleanup ys) = XDone () zs" "clog zs = clog ys" "idle zs"
    using abort_and_cleanup_ok [OF y(5) disjI1 [OF y(6)] y(7,8)] y(9,10) by (auto simp: ids_def)
  have "AbortCurrentTransaction ys = finish (abort_and_cleanup ys)" using y(1) by (subst AbortCurrentTransaction.simps) simp
  then have "process_query env [stmt] xs = Some zs"
    using start live error z(1) by (simp add: process_query_def exec_simple_query_def start_xact_command_def)
  moreover have "TransactionBlockStatusCode zs = CHR ''I''" using z(3) by (auto simp: idle_def stack_eq TransactionBlockStatusCode_def)
  ultimately show ?thesis using fatal_string z(2) y(4) by simp
qed

theorem savepoint_in_query_string_is_fatal_witness:
  "process_query plain_env [OtherStmt [], SavepointStmt ''a''] (startup (\<lambda>_. TRANSACTION_STATUS_IN_PROGRESS)) = None"
  by (rule savepoint_in_query_string_is_fatal [of "startup (\<lambda>_. TRANSACTION_STATUS_IN_PROGRESS)" _ "''a''", THEN conjunct1]) (simp_all add: startup_def)

end
