(* ===== verification/XactIds.thy ===== *)
theory XactIds
  imports XactFacts
begin

text \<open>
  The transaction ids of a session: every id the backend got is at work in an open frame, committed, aborted or prepared, and the ids of
  the open frames, outermost first, are in the order in which they were handed out, so that the backend finds its own ids by
  binary search.
\<close>

section \<open>Ids in order\<close>

definition ordered :: "(nat \<Rightarrow> TransactionId) \<Rightarrow> frame list \<Rightarrow> nat \<Rightarrow> bool" where
  "ordered g fs n \<longleftrightarrow> (\<exists>is. all_ids fs = map g is \<and> sorted_wrt (<) is \<and> (\<forall>i \<in> set is. i < n))"

text \<open>Every id is at work, marked in the log, or elsewhere (\<open>P\<close>: in a prepared transaction).\<close>

definition accounted :: "(nat \<Rightarrow> TransactionId) \<Rightarrow> (TransactionId \<Rightarrow> bool) \<Rightarrow> work \<Rightarrow> bool" where
  "accounted g P = (\<lambda>(fs, n, log). ordered g fs n \<and>
     (\<forall>i < n. g i \<in> set (all_ids fs) \<or> log (g i) \<noteq> TRANSACTION_STATUS_IN_PROGRESS \<or> P (g i)))"

lemma ordered_prefix:
  assumes "ordered g fs n" "all_ids fs = all_ids fs' @ rest"
  shows "ordered g fs' n"
proof -
  obtain "is" where i: "all_ids fs = map g is" "sorted_wrt (<) is" "\<forall>i \<in> set is. i < n" using assms(1) unfolding ordered_def by blast
  let ?is = "take (length (all_ids fs')) is"
  have "all_ids fs' = map g ?is" using i(1) assms(2) by (metis append_eq_conv_conj take_map)
  moreover have "sorted_wrt (<) ?is" using i(2) by (rule sorted_wrt_take)
  moreover have "\<forall>i \<in> set ?is. i < n" using i(3) by (meson in_set_takeD)
  ultimately show ?thesis unfolding ordered_def by blast
qed

lemma ordered_cong: "all_ids fs = all_ids fs' \<Longrightarrow> ordered g fs n \<longleftrightarrow> ordered g fs' n"
  by (simp add: ordered_def)

lemma ordered_Nil [simp]: "all_ids fs = [] \<Longrightarrow> ordered g fs n"
  by (simp add: ordered_def)

lemma give_ids_all:
  "give_ids env fs n = (fs', n') \<Longrightarrow> n \<le> n' \<and> all_ids fs' = all_ids fs @ map (newXid env) [n..<n']"
proof (induction fs arbitrary: n fs' n')
  case (Cons f fs)
  show ?case
  proof (cases "snd f = []")
    case True
    obtain gs m where g: "give_ids env fs n = (gs, m)" by fastforce
    then have "fs' = (fst f, [newXid env m]) # gs" "n' = m + 1" using Cons.prems True by auto
    then show ?thesis using Cons.IH [OF g] True by (auto simp: upt_Suc_append)
  qed (use Cons.prems in auto)
qed simp

lemma give_ids_accounted:
  assumes "accounted (newXid env) P (fs, n, log)" "give_ids env fs n = (fs', n')"
  shows "accounted (newXid env) P (fs', n', log)"
proof -
  note g = give_ids_all [OF assms(2)]
  obtain "is" where i: "all_ids fs = map (newXid env) is" "sorted_wrt (<) is" "\<forall>i \<in> set is. i < n"
    using assms(1) by (auto simp: accounted_def ordered_def)
  have "ordered (newXid env) fs' n'"
    unfolding ordered_def using g i by (intro exI [of _ "is @ [n..<n']"]) (auto simp: sorted_wrt_append)
  moreover have "newXid env i \<in> set (all_ids fs') \<or> log (newXid env i) \<noteq> TRANSACTION_STATUS_IN_PROGRESS \<or> P (newXid env i)" if "i < n'" for i
    using that g assms(1) by (cases "i < n") (auto simp: accounted_def)
  ultimately show ?thesis by (simp add: accounted_def)
qed

lemma mark_kept: "st \<noteq> TRANSACTION_STATUS_IN_PROGRESS \<Longrightarrow> log x \<noteq> TRANSACTION_STATUS_IN_PROGRESS \<Longrightarrow> mark xids st log x \<noteq> TRANSACTION_STATUS_IN_PROGRESS"
  by (simp add: mark_def)

lemma mark_in: "x \<in> set xids \<Longrightarrow> mark xids st log x = st"
  by (simp add: mark_def)

text \<open>The innermost work is taken away and marked.\<close>

lemma accounted_marked:
  assumes "accounted g P (fs, n, log)" "all_ids fs = all_ids fs' @ rest" "set rest \<subseteq> set xids" "st \<noteq> TRANSACTION_STATUS_IN_PROGRESS"
  shows "accounted g P (fs', n, mark xids st log)"
proof -
  have "g i \<in> set (all_ids fs') \<or> mark xids st log (g i) \<noteq> TRANSACTION_STATUS_IN_PROGRESS \<or> P (g i)" if "i < n" for i
  proof (cases "g i \<in> set xids")
    case True
    then show ?thesis using mark_in assms(4) by metis
  next
    case False
    then have "g i \<in> set (all_ids fs') \<or> log (g i) \<noteq> TRANSACTION_STATUS_IN_PROGRESS \<or> P (g i)"
      using assms(1-3) that by (auto simp: accounted_def)
    then show ?thesis using mark_kept [OF assms(4)] by blast
  qed
  then show ?thesis using assms(1) ordered_prefix [OF _ assms(2)] by (auto simp: accounted_def)
qed

lemma accounted_cong: "all_ids fs = all_ids fs' \<Longrightarrow> accounted g P (fs, n, log) \<longleftrightarrow> accounted g P (fs', n, log)"
  by (simp add: accounted_def ordered_def)

lemma accounted_push [simp]: "accounted g P ((name, []) # fs, n, log) \<longleftrightarrow> accounted g P (fs, n, log)"
  by (rule accounted_cong) simp

lemma accounted_single [simp]: "accounted g P ([(name, all_ids fs)], n, log) \<longleftrightarrow> accounted g P (fs, n, log)"
  by (rule accounted_cong) simp

lemma undo_accounted: "accounted g P w \<Longrightarrow> accounted g P (undo w)"
proof -
  assume a: "accounted g P w"
  obtain fs n log where w: "w = (fs, n, log)" by (cases w)
  have "all_ids fs = all_ids (tl fs) @ (if fs = [] then [] else snd (hd fs))" by (cases fs) simp_all
  then have "accounted g P (tl fs, n, mark_aborted (snd (hd fs)) log)"
    using accounted_marked [OF a [unfolded w]] by (auto split: if_splits)
  then show ?thesis by (simp add: w undo_def)
qed

lemma sequence_accounted:
  "\<forall>e \<in> set es. \<forall>w. accounted g P w \<longrightarrow> accounted g P (snd (e w)) \<Longrightarrow> accounted g P w \<Longrightarrow> accounted g P (snd (in_sequence es w))"
proof (induction es arbitrary: w)
  case (Cons e es)
  obtain ok w' where e: "e w = (ok, w')" by (cases "e w")
  have "accounted g P (snd (e w))" using Cons.prems by (meson list.set_intros(1))
  then have w': "accounted g P w'" using e by simp
  have "accounted g P (snd (in_sequence es w'))" by (rule Cons.IH [OF _ w']) (use Cons.prems(1) in \<open>meson list.set_intros(2)\<close>)
  then show ?case using w' e by (cases ok) simp_all
qed simp

lemma protected_accounted:
  assumes body: "\<And>w. accounted g P w \<Longrightarrow> accounted g P (snd (act w))"
    and handler: "\<And>h w. hact = Some h \<Longrightarrow> accounted g P w \<Longrightarrow> accounted g P (snd (h w))" and w: "accounted g P w"
  shows "accounted g P (snd (protected act hact w))"
proof -
  obtain fs n log where fs: "w = (fs, n, log)" by (cases w)
  have "accounted g P ((None, []) # fs, n, log)" using w fs by simp
  from body [OF this] obtain ok fs' n' log' where a: "act ((None, []) # fs, n, log) = (ok, fs', n', log')" "accounted g P (fs', n', log')"
    by (metis prod.exhaust snd_conv)
  have u: "accounted g P (undo (fs', n', log'))" by (rule undo_accounted [OF a(2)])
  have j: "accounted g P (join fs', n', log')" using a(2) accounted_cong [OF all_ids_join [of fs']] by simp
  show ?thesis
    using a(1) u j handler [OF _ u] by (cases ok; cases hact) (simp_all add: fs protected_def)
qed

lemma effect_accounted: "newXid env = g \<Longrightarrow> accounted g P w \<Longrightarrow> accounted g P (snd (do_effect env e w))"
proof (induction e arbitrary: w)
  case Write
  obtain fs n log where w: "w = (fs, n, log)" by (cases w)
  obtain fs' n' where "give_ids env fs n = (fs', n')" by fastforce
  then show ?case using give_ids_accounted [of env P fs n log fs' n'] Write w by simp
next
  case (ExceptionBlock body handler)
  have b: "accounted g P (snd (in_sequence (map (do_effect env) body) w))" if "accounted g P w" for w
    by (rule sequence_accounted [OF _ that]) (use ExceptionBlock in auto)
  have h: "accounted g P (snd (h w))" if hm: "map_option in_sequence (map_option (map (do_effect env)) handler) = Some h" and hw: "accounted g P w" for h w
  proof -
    obtain es where es: "handler = Some es" "h = in_sequence (map (do_effect env) es)" using hm by (cases handler) auto
    show ?thesis unfolding es(2) by (rule sequence_accounted [OF _ hw]) (use ExceptionBlock es(1) in auto)
  qed
  show ?case unfolding do_effect.simps by (rule protected_accounted) (use b h ExceptionBlock.prems(2) in blast)+
qed simp

section \<open>Statements\<close>

definition in_prepared :: "(string \<times> TransactionId \<times> TransactionId list) list \<Rightarrow> TransactionId \<Rightarrow> bool" where
  "in_prepared gxacts x \<longleftrightarrow> (\<exists>(gid, y, ys) \<in> set gxacts. x \<in> set (y # ys))"

lemma in_prepared_Cons: "xs \<noteq> [] \<Longrightarrow> in_prepared ((gid, hd xs, tl xs) # gxacts) x \<longleftrightarrow> x \<in> set xs \<or> in_prepared gxacts x"
  by (cases xs) (auto simp: in_prepared_def)

definition settled :: "(nat \<Rightarrow> TransactionId) \<Rightarrow> spec \<Rightarrow> bool" where
  "settled g sp \<longleftrightarrow> accounted g (in_prepared (sprepared sp)) (frames (sblock sp), staken sp, slog sp)"

lemma ended_settled: "settled g sp \<Longrightarrow> st \<noteq> TRANSACTION_STATUS_IN_PROGRESS \<Longrightarrow> settled g (ended st sp)"
  unfolding settled_def ended_def using accounted_marked [of g _ "frames (sblock sp)" _ _ "[]" "all_ids (frames (sblock sp))"] by simp

lemma rolled_back_settled: "settled g sp \<Longrightarrow> settled g (rolled_back sp)"
  by (rule ended_settled) simp_all

lemma committed_settled: "settled g sp \<Longrightarrow> settled g (snd (committed env sp))"
  using rolled_back_settled [of g sp] ended_settled [of g sp TRANSACTION_STATUS_COMMITTED] by (simp add: committed_def)

lemma accounted_mono: "accounted g P w \<Longrightarrow> (\<And>x. P x \<Longrightarrow> Q x) \<Longrightarrow> accounted g Q w"
  by (auto simp: accounted_def)

lemma prepare_settled:
  assumes "settled (newXid env) sp"
  shows "settled (newXid env) (snd (prepare env gid sp))"
proof -
  let ?fs = "frames (sblock sp)"
  let ?ids = "if all_ids ?fs = [] then [newXid env (staken sp)] else all_ids ?fs"
  let ?n = "if all_ids ?fs = [] then staken sp + 1 else staken sp"
  let ?sp = "sp\<lparr>staken := ?n, sblock := Single ?ids\<rparr>"
  have g: "give_ids env [(None, all_ids ?fs)] (staken sp) = ([(None, ?ids)], ?n)" by simp
  have "accounted (newXid env) (in_prepared (sprepared sp)) ([(None, all_ids ?fs)], staken sp, slog sp)"
    using assms by (simp add: settled_def)
  then have a: "accounted (newXid env) (in_prepared (sprepared sp)) ([(None, ?ids)], ?n, slog sp)" by (rule give_ids_accounted [OF _ g])
  then have s: "settled (newXid env) ?sp" by (simp add: settled_def)
  have ids: "?ids \<noteq> []" by simp
  have "accounted (newXid env) (in_prepared ((gid, hd ?ids, tl ?ids) # sprepared sp)) ([], ?n, slog sp)"
    using a in_prepared_Cons [OF ids] by (auto simp: accounted_def)
  then have "settled (newXid env) (?sp\<lparr>sblock := Idle, sprepared := (gid, hd ?ids, tl ?ids) # sprepared sp\<rparr>)" by (simp add: settled_def)
  then show ?thesis using rolled_back_settled [OF s] by (simp add: prepare_def Let_def)
qed

lemma release_all: "release name fs = Some fs' \<Longrightarrow> all_ids fs' = all_ids fs"
  by (induction name fs rule: release.induct) (auto split: if_splits)

lemma rollback_to_accounted:
  "rollback_to name fs log = Some (fs', log') \<Longrightarrow> accounted g P (fs, n, log) \<Longrightarrow> accounted g P (fs', n, log')"
proof (induction name fs log rule: rollback_to.induct)
  case (1 name f h fs log)
  have "accounted g P (h # fs, n, mark_aborted (snd f) log)" using undo_accounted [OF "1.prems"(2)] by (simp add: undo_def)
  then show ?case using "1.IH" "1.prems"(1) by (cases "fst f = Some name") auto
qed simp_all

lemma needs_block_same: "needs_block lev sp = Some (ok, sp') \<Longrightarrow> sp' = sp"
  by (simp add: needs_block_def split: if_splits)

lemma settled_block: "settled g (sp\<lparr>sblock := Block fs\<rparr>) \<longleftrightarrow> accounted g (in_prepared (sprepared sp)) (fs, staken sp, slog sp)"
  by (simp add: settled_def)

lemma stmt_settled:
  assumes s: "settled (newXid env) sp" and r: "spec_stmt env lev stmt sp = Some (ok, sp')"
  shows "settled (newXid env) sp'"
proof (cases stmt)
  case BeginStmt
  then have "sp' = (case sblock sp of Single xids \<Rightarrow> sp\<lparr>sblock := Block [(None, xids)]\<rparr> | _ \<Rightarrow> sp)" using r by (simp add: spec_stmt_def)
  then show ?thesis using s by (cases "sblock sp") (simp_all add: settled_def)
next
  case CommitStmt
  then have "snd (the (spec_stmt env lev stmt sp)) \<in> {snd (committed env sp), rolled_back sp, sp}"
    by (cases "sblock sp") (simp_all add: spec_stmt_def)
  then have "sp' \<in> {snd (committed env sp), rolled_back sp, sp}" using r by simp
  then show ?thesis using s committed_settled [OF s, of env] rolled_back_settled [OF s] by blast
next
  case (PrepareStmt gid)
  then have "snd (the (spec_stmt env lev stmt sp)) \<in> {snd (prepare env gid sp), rolled_back sp, sp}"
    by (cases "sblock sp"; cases "RecoveryInProgress env") (simp_all add: spec_stmt_def)
  then have "sp' \<in> {snd (prepare env gid sp), rolled_back sp, sp}" using r by simp
  then show ?thesis using s prepare_settled [OF s, of gid] rolled_back_settled [OF s] by blast
next
  case RollbackStmt
  then show ?thesis using r rolled_back_settled [OF s] by (simp add: spec_stmt_def)
next
  case (SavepointStmt name)
  then have "sp' = sp \<or> (\<exists>fs. sblock sp = Block fs \<and> sp' = sp\<lparr>sblock := Block ((Some name, []) # fs)\<rparr>)"
    using r by (cases "sblock sp") (auto simp: spec_stmt_def dest: needs_block_same)
  then show ?thesis using s by (auto simp: settled_def)
next
  case (ReleaseStmt name)
  then consider "sp' = sp" | fs fs' where "sblock sp = Block fs" "release name fs = Some fs'" "sp' = sp\<lparr>sblock := Block fs'\<rparr>"
    using r by (cases "sblock sp") (auto simp: spec_stmt_def dest: needs_block_same split: option.splits)
  then show ?thesis
  proof cases
    case 2
    have "accounted (newXid env) (in_prepared (sprepared sp)) (fs, staken sp, slog sp)" using s 2(1) by (simp add: settled_def)
    then show ?thesis unfolding 2(3) settled_block using accounted_cong [OF release_all [OF 2(2)]] by blast
  qed (use s in simp)
next
  case (RollbackToStmt name)
  then consider "sp' = sp" | fs log where "rollback_to name (frames (sblock sp)) (slog sp) = Some (fs, log)" "sp' = sp\<lparr>sblock := Block fs, slog := log\<rparr>"
    using r by (cases "sblock sp") (auto simp: spec_stmt_def dest: needs_block_same split: option.splits)
  then show ?thesis
  proof cases
    case 2
    show ?thesis using rollback_to_accounted [OF 2(1), of "newXid env" "in_prepared (sprepared sp)" "staken sp"] s 2(2) by (simp add: settled_def)
  qed (use s in simp)
next
  case (OtherStmt es)
  let ?w = "(frames (sblock sp), staken sp, slog sp)" and ?P = "in_prepared (sprepared sp)"
  obtain ok' fs n log where w: "in_sequence (map (do_effect env) es) ?w = (ok', fs, n, log)" by (rule prod_cases4)
  have "accounted (newXid env) ?P ?w" using s by (simp add: settled_def)
  then have "accounted (newXid env) ?P (snd (in_sequence (map (do_effect env) es) ?w))"
    by (intro sequence_accounted) (simp_all add: effect_accounted del: split_paired_All)
  then have a: "accounted (newXid env) ?P (fs, n, log)" using w by simp
  have "sp' = sp\<lparr>sblock := (case sblock sp of Single _ \<Rightarrow> Single (all_ids fs) | _ \<Rightarrow> Block fs), staken := n, slog := log\<rparr>"
    using r OtherStmt w by (simp add: spec_stmt_def)
  then show ?thesis using a by (cases "sblock sp") (simp_all add: settled_def)
qed

section \<open>Sessions\<close>

lemma finish_settled: "settled g sp \<Longrightarrow> settled g (snd (spec_finish env sp))"
  using committed_settled [of g sp env] by (cases "sblock sp") (simp_all add: spec_finish_def)

lemma open_settled: "settled g sp \<Longrightarrow> settled g (spec_open sp)"
  by (cases "sblock sp") (simp_all add: spec_open_def settled_def accounted_def)

lemma with_finish_settled:
  assumes "settled g sp0" "\<And>ok sp. r = Some (ok, sp) \<Longrightarrow> settled g sp" "spec_with_finish env r = Some (ok, sp)"
  shows "settled g sp"
proof -
  obtain ok' sp' where r: "r = Some (ok', sp')" using assms(3) by (cases r) (auto simp: spec_with_finish_def)
  have "(ok, sp) = (if ok' then spec_finish env sp' else (False, sp'))" using assms(3) r by (simp add: spec_with_finish_def)
  then have "sp \<in> {snd (spec_finish env sp'), sp'}" by (cases ok') (auto simp: prod_eq_iff)
  then show ?thesis using assms(2) [OF r] finish_settled by blast
qed

lemma then_settled:
  assumes "spec_then r f = Some (ok, sp)" "\<And>ok sp. r = Some (ok, sp) \<Longrightarrow> settled g sp"
    and "\<And>sp' ok sp. settled g sp' \<Longrightarrow> f sp' = Some (ok, sp) \<Longrightarrow> settled g sp"
  shows "settled g sp"
proof -
  obtain ok' sp' where r: "r = Some (ok', sp')" using assms(1) by (cases r) (auto simp: spec_then_def)
  show ?thesis
  proof (cases ok')
    case True
    then show ?thesis using assms(1) r assms(3) [OF assms(2) [OF r]] by (simp add: spec_then_def)
  next
    case False
    then show ?thesis using assms(1) r assms(2) [OF r] by (simp add: spec_then_def)
  qed
qed

lemma stmts_settled_ids:
  "settled (newXid env) sp \<Longrightarrow> spec_stmts env lev stmts sp = Some (ok, sp') \<Longrightarrow> settled (newXid env) sp'"
proof (induction stmts arbitrary: sp ok sp')
  case Nil
  then show ?case using finish_settled [OF Nil.prems(1), of env] by simp
next
  case (Cons stmt stmts)
  note o = open_settled [OF Cons.prems(1)]
  have st: "settled (newXid env) sp1" if "spec_stmt env lev stmt (spec_open sp) = Some (ok1, sp1)" for ok1 sp1
    by (rule stmt_settled [OF o that])
  have fin: "settled (newXid env) sp1" if "spec_with_finish env (spec_stmt env lev stmt (spec_open sp)) = Some (ok1, sp1)" for ok1 sp1
    by (rule with_finish_settled [OF o st that])
  show ?case
  proof (cases "is_failed sp \<and> \<not> IsTransactionExitStmt stmt")
    case True
    then show ?thesis using Cons.prems by simp
  next
    case False
    show ?thesis
    proof (cases "isTransactionStmt stmt \<or> stmts = []")
      case True
      then have "spec_then (spec_with_finish env (spec_stmt env lev stmt (spec_open sp))) (spec_stmts env lev stmts) = Some (ok, sp')"
        using Cons.prems(2) unfolding spec_stmts_step by (simp only: if_not_P [OF False] if_P [OF True] if_True)
      then show ?thesis by (rule then_settled) (use fin Cons.IH in blast)+
    next
      case no: False
      then have "spec_then (spec_stmt env lev stmt (spec_open sp)) (spec_stmts env lev stmts) = Some (ok, sp')"
        using Cons.prems(2) unfolding spec_stmts_step by (simp only: if_not_P [OF False] if_not_P [OF no] if_False)
      then show ?thesis by (rule then_settled) (use st Cons.IH in blast)+
    qed
  qed
qed

lemma error_settled_ids: "settled g sp \<Longrightarrow> settled g (spec_error sp)"
proof (cases "sblock sp")
  case (Block fs)
  assume s: "settled g sp"
  show ?thesis
  proof (cases fs)
    case Nil
    then show ?thesis using s Block by (simp add: spec_error_def)
  next
    case (Cons f fs0)
    have "accounted g (in_prepared (sprepared sp)) (fs0, staken sp, mark_aborted (snd f) (slog sp))"
      using undo_accounted [of g _ "(fs, staken sp, slog sp)"] s Block Cons by (simp add: settled_def undo_def)
    then show ?thesis using Block Cons by (simp add: spec_error_def settled_def)
  qed
qed (simp_all add: spec_error_def rolled_back_settled)

lemma query_settled: "settled (newXid env) sp \<Longrightarrow> spec_query env stmts sp = Some sp' \<Longrightarrow> settled (newXid env) sp'"
proof -
  assume s: "settled (newXid env) sp" and q: "spec_query env stmts sp = Some sp'"
  obtain ok sp1 where r: "spec_stmts env (length stmts = 1) stmts (spec_open sp) = Some (ok, sp1)" "sp' = (if ok then sp1 else spec_error sp1)"
    using q by (auto simp: spec_query_def)
  have "settled (newXid env) sp1" by (rule stmts_settled_ids [OF open_settled [OF s] r(1)])
  then show ?thesis using r(2) error_settled_ids by simp
qed

lemma session_settled:
  "settled g sp \<Longrightarrow> \<forall>(env, stmts) \<in> set queries. newXid env = g \<Longrightarrow> spec_session queries sp = Some sp' \<Longrightarrow> settled g sp'"
proof (induction queries arbitrary: sp)
  case (Cons q queries)
  obtain env stmts where q: "q = (env, stmts)" by (cases q)
  then obtain sp1 where s: "spec_query env stmts sp = Some sp1" "spec_session queries sp1 = Some sp'"
    using Cons.prems(3) by (auto split: option.splits)
  have "settled g sp1" using query_settled [OF _ s(1)] Cons.prems(1,2) q by simp
  then show ?case using Cons.IH s(2) Cons.prems(2) by simp
qed simp

text \<open>What a session leaves: the relation, and the ids settled.\<close>

lemma session_end:
  assumes "session_ids g queries log" "PostgresMain queries (startup log) = Some xs"
  obtains sp where "related g (session_cost queries) (session_cost queries) sp xs" "\<not> single sp" "settled g sp"
proof -
  obtain sp where sp: "spec_session queries (spec_startup log) = Some sp" "related g (session_cost queries) (session_cost queries) sp xs" "\<not> single sp"
    using session_related [OF assms(1)] assms(2) by (cases rule: option.rel_cases) auto
  have "settled g (spec_startup log)" by (simp add: settled_def spec_startup_def accounted_def)
  moreover have "\<forall>(env, stmts) \<in> set queries. newXid env = g" using assms(1) unfolding session_ids_def by blast
  ultimately have "settled g sp" using session_settled sp(1) by blast
  then show thesis using that sp by blast
qed

text \<open>C10: When a session is outside a transaction block, no transaction id it got is left in progress: each one is committed or aborted, or
  belongs to a prepared transaction.\<close>

theorem no_id_left_in_progress:
  assumes "session_ids g queries log" "PostgresMain queries (startup log) = Some xs" "TransactionBlockStatusCode xs = CHR ''I''" "i < xids_taken xs"
  shows "clog xs (g i) \<noteq> TRANSACTION_STATUS_IN_PROGRESS \<or> (\<exists>(gid, xid, children) \<in> set (prepared_xacts xs). g i \<in> set (xid # children))"
proof -
  obtain sp where sp: "related g (session_cost queries) (session_cost queries) sp xs" "\<not> single sp" "settled g sp"
    using session_end [OF assms(1,2)] by blast
  have v: "clog xs = slog sp" "xids_taken xs = staken sp" "prepared_xacts xs = sprepared sp"
    "(case sblock sp of Block _ \<Rightarrow> CHR ''T'' | Failed _ \<Rightarrow> CHR ''E'' | _ \<Rightarrow> CHR ''I'') = CHR ''I''"
    using related_view [OF sp(1)] assms(3) by (simp_all add: view_def spec_view_def)
  have "sblock sp = Idle" using v(4) sp(2) by (cases "sblock sp") (simp_all add: single_def)
  then show ?thesis using sp(3) assms(4) v(1-3) by (auto simp: settled_def accounted_def in_prepared_def)
qed

definition one_write :: "(XactEnv \<times> Stmt list) list" where
  "one_write = [(plain_env, [OtherStmt [Write]])]"

lemma one_write_ids: "session_ids count_up one_write (\<lambda>_. TRANSACTION_STATUS_IN_PROGRESS)"
proof -
  have c: "session_cost one_write = 3" by (simp add: session_cost_def one_write_def stmt_cost_def)
  show ?thesis unfolding session_ids_def c using count_up_good [of 3] by (simp add: one_write_def plain_env_def MaxAllocSize_def)
qed

lemma one_write_spec: "spec_session one_write (spec_startup log) =
    Some \<lparr>sblock = Idle, slog = mark_committed [count_up 0] log, staken = 1, sprepared = []\<rparr>"
  by (simp add: one_write_def plain_env_def spec_query_def spec_open_def spec_startup_def is_failed_def spec_stmt_def all_ids_def
      isTransactionStmt_def spec_finish_def committed_def ended_def)

theorem no_id_left_in_progress_witness:
  "\<exists>xs. PostgresMain one_write (startup (\<lambda>_. TRANSACTION_STATUS_IN_PROGRESS)) = Some xs \<and>
     (clog xs (count_up 0) \<noteq> TRANSACTION_STATUS_IN_PROGRESS \<or>
      (\<exists>(gid, xid, children) \<in> set (prepared_xacts xs). count_up 0 \<in> set (xid # children)))"
proof -
  obtain xs where xs: "PostgresMain one_write (startup (\<lambda>_. TRANSACTION_STATUS_IN_PROGRESS)) = Some xs"
    "TransactionBlockStatusCode xs = CHR ''I''" "xids_taken xs = 1"
    using session_view [OF one_write_ids] by (auto simp: one_write_spec view_def spec_view_def)
  then show ?thesis using no_id_left_in_progress [OF one_write_ids xs(1,2), of 0] by simp
qed

section \<open>The backend's own ids\<close>

text \<open>The binary search finds what is in an array that is in the order of ids.\<close>

definition in_order :: "TransactionId list \<Rightarrow> bool" where
  "in_order = sorted_wrt (\<lambda>a b. TransactionIdPrecedes a b \<and> \<not> TransactionIdPrecedes b a)"

lemma search_children_finds:
  "in_order xids \<Longrightarrow> 0 \<le> low \<Longrightarrow> high < int (length xids) \<Longrightarrow>
   search_children xids x low high \<longleftrightarrow> (\<exists>m. low \<le> int m \<and> int m \<le> high \<and> xids ! m = x)"
proof (induction xids x low high rule: search_children.induct)
  case (1 xids x low high)
  show ?case
  proof (cases "low \<le> high")
    case False
    then show ?thesis by (subst search_children.simps) simp
  next
    case True
    let ?m = "low + (high - low) div 2"
    have m: "low \<le> ?m" "?m \<le> high" "0 \<le> ?m" "nat ?m < length xids" "int (nat ?m) = ?m" using True "1.prems" by auto
    have before: "TransactionIdPrecedes (xids ! j) (xids ! k) \<and> \<not> TransactionIdPrecedes (xids ! k) (xids ! j)" if "j < k" "k < length xids" for j k
      using sorted_wrt_nth_less [OF _ that] "1.prems"(1) unfolding in_order_def by fastforce
    consider "xids ! nat ?m = x" | "xids ! nat ?m \<noteq> x" "TransactionIdPrecedes (xids ! nat ?m) x"
      | "xids ! nat ?m \<noteq> x" "\<not> TransactionIdPrecedes (xids ! nat ?m) x" by blast
    then show ?thesis
    proof cases
      case 1
      then show ?thesis using True m by (subst search_children.simps) (auto simp: Let_def intro!: exI [of _ "nat ?m"])
    next
      case 2
      have "search_children xids x low high = search_children xids x (?m + 1) high"
        using True 2 by (subst search_children.simps) (simp add: Let_def)
      also have "\<dots> \<longleftrightarrow> (\<exists>k. ?m + 1 \<le> int k \<and> int k \<le> high \<and> xids ! k = x)"
        by (rule "1.IH"(1) [OF True refl refl 2]) (use "1.prems" m in auto)
      also have "\<dots> \<longleftrightarrow> (\<exists>k. low \<le> int k \<and> int k \<le> high \<and> xids ! k = x)"
      proof (intro iffI; elim exE conjE)
        fix k assume k: "?m + 1 \<le> int k" "int k \<le> high" "xids ! k = x"
        then show "\<exists>k. low \<le> int k \<and> int k \<le> high \<and> xids ! k = x" using m(1) by (intro exI [of _ k]) simp
      next
        fix k assume k: "low \<le> int k" "int k \<le> high" "xids ! k = x"
        have "\<not> k \<le> nat ?m"
        proof
          assume "k \<le> nat ?m"
          then have "k < nat ?m" using 2(1) k(3) by (cases "k = nat ?m") auto
          then show False using before [OF _ m(4)] 2(2) k(3) by blast
        qed
        then show "\<exists>k. ?m + 1 \<le> int k \<and> int k \<le> high \<and> xids ! k = x" using k m(5) by (intro exI [of _ k]) linarith
      qed
      finally show ?thesis .
    next
      case 3
      have "search_children xids x low high = search_children xids x low (?m - 1)"
        using True 3 by (subst search_children.simps) (simp add: Let_def)
      also have "\<dots> \<longleftrightarrow> (\<exists>k. low \<le> int k \<and> int k \<le> ?m - 1 \<and> xids ! k = x)"
        by (rule "1.IH"(2) [OF True refl refl 3]) (use "1.prems" m in auto)
      also have "\<dots> \<longleftrightarrow> (\<exists>k. low \<le> int k \<and> int k \<le> high \<and> xids ! k = x)"
      proof (intro iffI; elim exE conjE)
        fix k assume k: "low \<le> int k" "int k \<le> ?m - 1" "xids ! k = x"
        then show "\<exists>k. low \<le> int k \<and> int k \<le> high \<and> xids ! k = x" using m(2) by (intro exI [of _ k]) linarith
      next
        fix k assume k: "low \<le> int k" "int k \<le> high" "xids ! k = x"
        have kl: "k < length xids" using k(2) "1.prems"(3) by linarith
        have "\<not> nat ?m \<le> k"
        proof
          assume "nat ?m \<le> k"
          then have "nat ?m < k" using 3(1) k(3) by (cases "k = nat ?m") auto
          then show False using before [OF _ kl] 3(2) k(3) by blast
        qed
        then show "\<exists>k. low \<le> int k \<and> int k \<le> ?m - 1 \<and> xids ! k = x" using k m(5) by (intro exI [of _ k]) linarith
      qed
      finally show ?thesis .
    qed
  qed
qed

lemma search_children_set:
  assumes "in_order xids"
  shows "search_children xids x 0 (int (length xids) - 1) \<longleftrightarrow> x \<in> set xids"
  by (subst search_children_finds [OF assms]) (auto simp: in_set_conv_nth)

lemma idle_no_id: "idle xs \<Longrightarrow> s \<in> set (stack xs) \<Longrightarrow> transactionId s = 0"
  by (auto simp: idle_def)

lemma chain_ids: "level_chain sub base fs ss \<Longrightarrow> s \<in> set ss \<Longrightarrow> ids s \<in> snd ` set fs"
proof (induction fs arbitrary: ss)
  case (Cons f fs)
  then obtain t ts where t: "ss = t # ts" "ids t = snd f" "if fs = [] then ts = [] else level_chain sub base fs ts"
    by (auto simp: chain_Cons live_def split: if_splits)
  then show ?case using Cons.IH [of ts] Cons.prems(2) by (auto split: if_splits)
qed simp

lemma stack_ids:
  assumes "related g K k sp xs" "\<not> single sp" "s \<in> set (stack xs)" "tstate s \<noteq> TRANS_ABORT" "transactionId s \<noteq> 0"
  shows "ids s \<in> snd ` set (frames (sblock sp))"
proof (cases "sblock sp")
  case Idle
  then have "idle xs" using assms(1) by (simp add: related_def)
  then show ?thesis using idle_no_id assms(3,5) by blast
next
  case (Block fs)
  then have "level_chain TBLOCK_SUBINPROGRESS TBLOCK_INPROGRESS fs (stack xs)" using assms(1) by (simp add: related_def)
  then show ?thesis using chain_ids assms(3) Block by simp
next
  case (Failed fs)
  then have f: "failed fs (stack xs)" using assms(1) by (simp add: related_def)
  then obtain f0 fs0 t ts where t: "fs = f0 # fs0" "stack xs = t # ts" "tstate t = TRANS_ABORT"
    "if fs0 = [] then ts = [] else level_chain TBLOCK_SUBINPROGRESS TBLOCK_INPROGRESS fs0 ts"
    by (cases fs) (auto simp: failed_Cons dead_def split: if_splits)
  then have "s \<in> set ts" using assms(3,4) by auto
  then show ?thesis using t(1,4) chain_ids [of _ _ fs0 ts s] Failed by (auto split: if_splits)
qed (use assms(2) in \<open>simp add: single_def\<close>)

lemma frame_ids: "f \<in> set fs \<Longrightarrow> \<exists>a b. all_ids fs = a @ snd f @ b"
proof (induction fs)
  case (Cons h fs)
  show ?case
  proof (cases "f = h")
    case True
    then have "all_ids (h # fs) = all_ids fs @ snd f @ []" by simp
    then show ?thesis by blast
  next
    case False
    then obtain a b where "all_ids fs = a @ snd f @ b" using Cons by auto
    then have "all_ids (h # fs) = a @ snd f @ (b @ snd h)" by simp
    then show ?thesis by blast
  qed
qed simp

definition supply_in_order :: "(nat \<Rightarrow> TransactionId) \<Rightarrow> nat \<Rightarrow> bool" where
  "supply_in_order g K \<longleftrightarrow> (\<forall>j < K. TransactionIdIsNormal (g j)) \<and>
     (\<forall>j < K. \<forall>i < j. TransactionIdPrecedes (g i) (g j) \<and> \<not> TransactionIdPrecedes (g j) (g i))"

lemma frame_in_order:
  assumes "ordered g fs n" "n \<le> K" "supply_in_order g K" "f \<in> set fs"
  shows "in_order (snd f) \<and> (\<forall>x \<in> set (snd f). TransactionIdIsNormal x)"
proof -
  obtain "is" where i: "all_ids fs = map g is" "sorted_wrt (<) is" "\<forall>i \<in> set is. i < n" using assms(1) unfolding ordered_def by blast
  obtain a b where "all_ids fs = a @ snd f @ b" using frame_ids [OF assms(4)] by blast
  then obtain as js bs where js: "is = as @ js @ bs" "snd f = map g js" using i(1) by (metis map_eq_append_conv)
  have s: "sorted_wrt (<) js" using i(2) js(1) by (simp add: sorted_wrt_append)
  have b: "\<forall>j \<in> set js. j < K"
  proof
    fix j assume "j \<in> set js"
    then have "j < n" using i(3) js(1) by simp
    then show "j < K" using assms(2) by simp
  qed
  have "sorted_wrt (\<lambda>i j. TransactionIdPrecedes (g i) (g j) \<and> \<not> TransactionIdPrecedes (g j) (g i)) js"
    by (rule sorted_wrt_mono_rel [OF _ s]) (use b assms(3) in \<open>simp add: supply_in_order_def\<close>)
  then show ?thesis using b assms(3) js(2) by (auto simp: in_order_def sorted_wrt_map supply_in_order_def)
qed

lemma own_id:
  assumes "in_order (ids s)" "transactionId s \<noteq> 0"
  shows "x = transactionId s \<or> search_children (childXids s) x 0 (int (length (childXids s)) - 1) \<longleftrightarrow> x \<in> set (transactionId s # childXids s)"
proof -
  have "in_order (childXids s)" using assms by (simp add: ids_def in_order_def)
  then show ?thesis using search_children_set by simp
qed

text \<open>C11: Between the queries of a session whose ids come in the order of the comparison of ids, the backend takes an id for its own exactly if
  a level of the transaction that is not aborted has it as its own id or that of a committed child: the arrays of children are
  ordered, and the binary search finds every id in them.\<close>

theorem own_ids_found:
  assumes "session_ids g queries log" "supply_in_order g (session_cost queries)" "PostgresMain queries (startup log) = Some xs"
  shows "TransactionIdIsCurrentTransactionId x xs \<longleftrightarrow>
    (\<exists>s \<in> set (stack xs). tstate s \<noteq> TRANS_ABORT \<and> transactionId s \<noteq> 0 \<and> x \<in> set (transactionId s # childXids s))"
proof -
  let ?K = "session_cost queries"
  obtain sp where sp: "related g ?K ?K sp xs" "\<not> single sp" "settled g sp" using session_end [OF assms(1,3)] by blast
  have o: "ordered g (frames (sblock sp)) (staken sp)" using sp(3) by (simp add: settled_def accounted_def)
  have n: "staken sp \<le> ?K" using sp(1) by (simp add: related_def bounds_def)
  have level: "in_order (ids s) \<and> (\<forall>x \<in> set (ids s). TransactionIdIsNormal x)"
    if "s \<in> set (stack xs)" "tstate s \<noteq> TRANS_ABORT" "transactionId s \<noteq> 0" for s
    using stack_ids [OF sp(1,2) that] frame_in_order [OF o n assms(2)] by fastforce
  have "TransactionIdIsCurrentTransactionId x xs \<longleftrightarrow> TransactionIdIsNormal x \<and>
      (\<exists>s \<in> set (stack xs). tstate s \<noteq> TRANS_ABORT \<and> transactionId s \<noteq> 0 \<and> x \<in> set (transactionId s # childXids s))"
    unfolding TransactionIdIsCurrentTransactionId_def list_ex_iff TransactionIdIsValid_def
    using own_id level by (metis (no_types, lifting))
  moreover have "TransactionIdIsNormal x" if "s \<in> set (stack xs)" "tstate s \<noteq> TRANS_ABORT" "transactionId s \<noteq> 0" "x \<in> set (transactionId s # childXids s)" for s
    using level [OF that(1-3)] that(3,4) by (auto simp: ids_def)
  ultimately show ?thesis by blast
qed

lemma count_up_in_order: "supply_in_order count_up 3"
  by (simp add: supply_in_order_def count_up_def numeral_3_eq_3 All_less_Suc TransactionIdIsNormal_def TransactionIdPrecedes_def)

theorem own_ids_found_witness:
  "\<exists>xs. PostgresMain one_write (startup (\<lambda>_. TRANSACTION_STATUS_IN_PROGRESS)) = Some xs \<and>
     (TransactionIdIsCurrentTransactionId (count_up 0) xs \<longleftrightarrow>
      (\<exists>s \<in> set (stack xs). tstate s \<noteq> TRANS_ABORT \<and> transactionId s \<noteq> 0 \<and> count_up 0 \<in> set (transactionId s # childXids s)))"
proof -
  have c: "session_cost one_write = 3" by (simp add: session_cost_def one_write_def stmt_cost_def)
  obtain xs where xs: "PostgresMain one_write (startup (\<lambda>_. TRANSACTION_STATUS_IN_PROGRESS)) = Some xs"
    using session_view [OF one_write_ids] by (auto simp: one_write_spec)
  then show ?thesis using own_ids_found [OF one_write_ids _ xs] count_up_in_order c by auto
qed

end
