(* ===== verification/Spec2Isabelle.thy ===== *)
theory Spec2Isabelle
  imports GinScan TrgmHw4 TrgmGistSplit SimJoin BitmapsetProps BufStrategyProps FreeSpaceProps XactIds
begin

text \<open>
  A verification library for parts of PostgreSQL 9.1.2 as it stands in src/hw5/postgresql-9.1.2 of the course repository, the
  tree of the fifth homework: the finished trigram module of the fourth homework (contrib/pg_trgm), the similarity join the
  fifth homework starts, and the backend code both rest on or run in.  The source names below are relative to that tree; one
  theory models the trigram module of src/hw4, the code the course handed out.  The
  definitions keep the names of the C functions; where one C function needs several definitions (its loops, the branches of a
  large switch) the theory says which part each one is.

  \<^bold>\<open>Conventions.\<close>  Machine integers are words of their width where wrap-around can occur and naturals or integers
  where the code's own bounds keep them small (the bound is then a lemma).  A C array is a list, its updates in place are list
  updates, and the buffers the modelled functions allocate are shown to be large enough.  A function that may raise an error
  returns \<open>Inl\<close> of a \<open>pg_error\<close> (theory Prelude) or, where the state at the error matters, an \<open>xresult\<close> (theory Xact).
  Loops whose end is not structural are \<open>function\<close>s with a measure: the distance to the end of an array or of a text, the
  number of a node in a page of the free space map, the usage counts left to the clock sweep, the levels of a transaction
  stack, the restarts left of the 10000 that the search of the free space map allows itself.  Loops that end only under
  conditions (the nested loop and the reading of a node to its end, the search of a page that repairs it, the building of the
  inverted index, the iteration of a bitmapset) are \<open>partial_function (option)\<close>s, and the theorems say that they return.  No
  loop is cut off by a fuel of the model.  The order and locale of strings are those of \<open>initdb --locale=C\<close>, as the
  instructions of the course ask for.  Each \<open>locale\<close> is an interface between components and is interpreted on the model.

  \<^bold>\<open>Text and hashing.\<close>  Theory Wchar has the lengths, the coder, the decoder and the verifier of utils/mb/wchar.c;
  TsLocale the character classes and the folding of tsearch/ts_locale.c; PgCrc the table and the macros of utils/pg_crc.h;
  HashFunc both paths of \<open>hash_any\<close> and the hash functions of the integer and string types (access/hash/hashfunc.c): the paths
  agree in both byte orders, equal integers of different types have equal hashes, \<open>mix\<close> can be undone.  BitTables checks the
  bit-counting tables against the functions they tabulate.

  \<^bold>\<open>Sorting and sets.\<close>  PgQsort is port/qsort.c with its insertion sort, median of nine and partition; it sorts for every
  comparator that is a total preorder (locale \<open>sorter\<close>), which the trigram arrays and the inverted index use.  Bitmapset and
  BitmapsetProps are nodes/bitmapset.c and its refinement of finite sets (locale \<open>set_algebra\<close>).

  \<^bold>\<open>Trigrams.\<close>  TrgmOp and TrgmWild are the extraction of trigrams from texts and from LIKE patterns, TrgmSim the
  similarity of contrib/pg_trgm/trgm_op.c over the model of C floating-point numbers in FloatModel, LikeMatch the matcher of
  utils/adt/like_match.c against a declarative meaning of patterns.  TrgmLike shows that a matching text contains the trigrams
  of its pattern unless an escape protects a word character or a backslash.  TrgmGin is the GIN operator class (trgm_gin.c) and
  GinScan the scan that calls it (access/gin/ginscan.c, ginget.c): the search mode with its hidden entry, the merge of the
  posting lists, the consistency test and the recheck; a scan returns the rows of a sequential scan, for the similarity operator
  unless the threshold is zero or less.  TrgmGist, TrgmGistSearch and TrgmGistSplit (trgm_gist.c, locale \<open>gist_opclass\<close>)
  show that a GiST search loses no row, for an index tree of any shape whose keys cover what is below them, that a split of a
  page with at least three entries covers its entries (with two the code reads a cache entry before it fills it), and that the
  query caches change no answer.  The pages of both access methods are not in these files: the contents of a GIN index are the
  keys of the rows, and a GiST tree is built with the \<open>union\<close> and \<open>compress\<close> of the module.
  TrgmHw4 models the module of src/hw4/postgresql-9.1.2/contrib/pg_trgm over blocks of bytes with checked accesses (its
  definitions that share a name with those of hw5 end in 4): it stays in its blocks, whatever they contained, and computes what
  the hw5 module computes, but for the threshold, which it keeps exactly, and \<open>print_qgram\<close>, which overruns its block.

  \<^bold>\<open>Executor.\<close>  NodeLimit has VALUES scans and LIMIT (nodeValuesscan.c, nodeLimit.c) as cursors over windows of rows
  (locale \<open>cursor\<close>), in both directions; NestLoop and NestLoopProps the nested-loop join with all join types
  (nodeNestloop.c, locales \<open>exec_node\<close>, \<open>param_node\<close>, \<open>nest_loop\<close>), which ends and delivers the join.  SimIndex
  (simjoinUtil.c, locale \<open>posting_index\<close>) and SimJoin (nodeSimjoin.c and the block of nodeNestloop.c that calls it) are the
  homework's own code: the inverted index is right, the unfinished join built on it is shown to end with errors.

  \<^bold>\<open>Storage.\<close>  BufStrategy and BufStrategyProps are the choice of a buffer to replace (freelist.c) with the pins of
  bufmgr.c, also under interleaved backends that search the free list, sweep, take buffers from their rings, pin, unpin, rename
  and invalidate buffers: a victim belongs to the backend that found it; FsmPage is a page of the free space map (fsmpage.c), FreeSpace and FreeSpaceProps
  the map of a relation (freespace.c): searches are safe on torn maps, and after a vacuum of a map without
  torn pages they are complete (a vacuum does not repair a torn bottom page).

  \<^bold>\<open>Transactions.\<close>  Xact and XactBlock are access/transam/xact.c: the stack of transaction states with the low-level and
  the block states, transaction ids, the commit log, the statements that mark the stack and the end of a command that works the
  marks off, the subtransactions of PL/pgSQL exception blocks (pl_exec.c), the loop over the statements of a query string and
  the error recovery (postgres.c, utility.c).  XactSpec says what they mean: frames with the ids of their work, without pending
  states.  XactProps and XactRefine relate the two step by step, XactSession statement by statement and query by query, and
  XactFacts draws the conclusions for whole sessions; XactIds accounts for every transaction id at the end of a session and shows
  that the backend finds its own ids by binary search.  The only bound is that of the array of child ids (2^28 - 1 ids), which
  the cost of a session keeps; ids come from a supply that is an argument.

  \<^bold>\<open>Not modelled.\<close>  hw1 to hw3 (small Ruby, SQL and JavaScript exercises, not C); the tree src/hw4 outside its trigram
  module, a second copy of the same server; the rest of the server: parser, planner and
  the other executor nodes (they are parameters of the nodes modelled, as expressions and subplans), the pages of the GIN and
  GiST access methods, B-trees and heaps, the write-ahead log and recovery, locks and shared memory except for the steps of the buffer search,
  catalogs, the text representation of most types, replication; the client programs and libraries under src/bin and
  src/interfaces, the other contrib modules, the procedural languages but for the exception blocks.  In the modelled parts: the
  locale-dependent character classes, the encodings other than SQL_ASCII, the single-byte ones and UTF-8, memory management,
  TOAST, floating-point hashing, what transactions tell other modules at their start and end, COMMIT PREPARED.
\<close>

end
